(* ===== verification/Prelude.thy ===== *)
theory Prelude
  imports Main "HOL-Library.Signed_Division" "HOL-Library.Word"
begin

text \<open>
  Vocabulary shared by every component theory.

  \<^item> Failures of the C++ program are values: a failed \<open>JASSERT\<close>, \<open>UNIMPLEMENTED\<close>, a
    dereferenced null pointer, an access outside an array, a division by zero, and a loop
    that never ends; \<open>CantSchedule\<close> is the exception of the compiler's scheduler.  An operation that
    may fail returns \<open>error + 'a\<close>.
  \<^item> \<open>cdiv\<close> and \<open>cmod\<close> are the truncating division and remainder of C on signed numbers.
  \<^item> \<open>rd\<close> and \<open>wr\<close> are array accesses that fail outside the array.
  \<^item> \<open>odo\<close> is the coordinate odometer underlying every coordinate loop of the runtime,
    \<open>doWhile\<close> the \<open>do { } while (inc(coord) >= 0)\<close> loop, and \<open>walk\<close> the list of coordinates
    that such a loop visits.
\<close>

named_theorems arr_simps \<open>array accesses inside the bounds\<close>
named_theorems res_simps \<open>sequencing of fallible operations\<close>

section \<open>Failures\<close>

datatype error =
    AssertFail
  | NotImplemented
  | NullDeref
  | OutOfBounds
  | DivByZero
  | Diverges
  | CantSchedule

type_synonym 'a res = "error + 'a"

definition rbind :: "'a res \<Rightarrow> ('a \<Rightarrow> 'b res) \<Rightarrow> 'b res" where
  "rbind r f = (case r of Inl e \<Rightarrow> Inl e | Inr x \<Rightarrow> f x)"

lemma rbind_simps [simp, res_simps]:
  "rbind (Inl e) f = Inl e"
  "rbind (Inr x) f = f x"
  by (simp_all add: rbind_def)

lemma rbind_Inr_iff: "rbind r f = Inr y \<longleftrightarrow> (\<exists>x. r = Inr x \<and> f x = Inr y)"
  by (cases r) auto

definition rmap :: "('a \<Rightarrow> 'b) \<Rightarrow> 'a res \<Rightarrow> 'b res" where
  "rmap f r = rbind r (\<lambda>x. Inr (f x))"

lemma rmap_simps [simp, res_simps]:
  "rmap f (Inl e) = Inl e"
  "rmap f (Inr x) = Inr (f x)"
  by (simp_all add: rmap_def)

lemma rmap_Inr_iff: "rmap f r = Inr y \<longleftrightarrow> (\<exists>x. r = Inr x \<and> y = f x)"
  by (cases r) auto

definition rassert :: "bool \<Rightarrow> 'a res \<Rightarrow> 'a res" where
  "rassert b r = (if b then r else Inl AssertFail)"

lemma rassert_simps [simp, res_simps]:
  "rassert True r = r"
  "rassert False r = Inl AssertFail"
  by (simp_all add: rassert_def)

fun foldR :: "('a \<Rightarrow> 's \<Rightarrow> 's res) \<Rightarrow> 'a list \<Rightarrow> 's \<Rightarrow> 's res" where
  "foldR f [] s = Inr s"
| "foldR f (x # xs) s = rbind (f x s) (foldR f xs)"

lemma foldR_append: "foldR f (xs @ ys) s = rbind (foldR f xs s) (foldR f ys)"
  by (induction xs arbitrary: s) (auto simp: rbind_def split: sum.splits)

lemma foldR_invariant:
  assumes "P s" and "\<And>x s. x \<in> set xs \<Longrightarrow> P s \<Longrightarrow> \<exists>s'. f x s = Inr s' \<and> P s'"
  shows "\<exists>s'. foldR f xs s = Inr s' \<and> P s'"
  using assms
proof (induction xs arbitrary: s)
  case (Cons x xs)
  from Cons.prems(2)[of x s] Cons.prems(1) obtain s1 where "f x s = Inr s1" "P s1" by auto
  then show ?case using Cons.IH[of s1] Cons.prems(2) by simp
qed simp

text \<open>A loop whose iterations each set the cells \<open>C q\<close> of a target to their final value \<open>V\<close>.\<close>

lemma foldR_cover:
  assumes "I w"
    and "\<And>q w. q \<in> set qs \<Longrightarrow> I w \<Longrightarrow> \<exists>w'. f q w = Inr w' \<and> I w' \<and>
      (\<forall>x \<in> X. tgt w' x = (if x \<in> C q then V x else tgt w x))"
  shows "\<exists>w'. foldR f qs w = Inr w' \<and> I w' \<and>
      (\<forall>x \<in> X. tgt w' x = (if x \<in> \<Union> (C ` set qs) then V x else tgt w x))"
  using assms
proof (induction qs arbitrary: w)
  case (Cons q qs)
  obtain w1 where w1: "f q w = Inr w1" "I w1" "\<forall>x \<in> X. tgt w1 x = (if x \<in> C q then V x else tgt w x)"
    using Cons.prems(2)[of q w] Cons.prems(1) by auto
  obtain w' where "foldR f qs w1 = Inr w'" "I w'"
    "\<forall>x \<in> X. tgt w' x = (if x \<in> \<Union> (C ` set qs) then V x else tgt w1 x)"
    using Cons.IH[OF w1(2)] Cons.prems(2) by auto
  then show ?case using w1 by (intro exI[of _ w']) auto
qed simp

lemma foldR_cong:
  assumes "\<And>x s. x \<in> set xs \<Longrightarrow> f x s = g x s"
  shows "foldR f xs s = foldR g xs s"
  using assms
proof (induction xs arbitrary: s)
  case (Cons x xs)
  then have "f x s = g x s" and "\<And>t. foldR f xs t = foldR g xs t" by auto
  then show ?case by (simp add: rbind_def split: sum.split)
qed simp

text \<open>A loop whose result is \<open>None\<close> never ends.\<close>

definition ended :: "'a res option \<Rightarrow> 'a res" where
  "ended r = (case r of None \<Rightarrow> Inl Diverges | Some x \<Rightarrow> x)"

lemma ended_simps [simp, res_simps]:
  "ended None = Inl Diverges"
  "ended (Some x) = x"
  by (simp_all add: ended_def)

section \<open>C arithmetic\<close>

definition cdiv :: "int \<Rightarrow> int \<Rightarrow> int" where
  "cdiv a b = a sdiv b"

definition cmod :: "int \<Rightarrow> int \<Rightarrow> int" where
  "cmod a b = a smod b"

lemma cdiv_nonneg: "0 \<le> a \<Longrightarrow> 0 < b \<Longrightarrow> cdiv a b = a div b"
  by (simp add: cdiv_def signed_divide_int_def sgn_if)

lemma cmod_nonneg: "0 \<le> a \<Longrightarrow> 0 < b \<Longrightarrow> cmod a b = a mod b"
  by (simp add: cmod_def signed_modulo_int_def signed_divide_int_def sgn_if
      minus_div_mult_eq_mod)

section \<open>Arrays\<close>

definition rd :: "'e list \<Rightarrow> int \<Rightarrow> 'e res" where
  "rd xs i = (if 0 \<le> i \<and> i < int (length xs) then Inr (xs ! nat i) else Inl OutOfBounds)"

definition wr :: "'e list \<Rightarrow> int \<Rightarrow> 'e \<Rightarrow> 'e list res" where
  "wr xs i v = (if 0 \<le> i \<and> i < int (length xs) then Inr (xs[nat i := v]) else Inl OutOfBounds)"

lemma rd_in [simp, arr_simps]: "0 \<le> i \<Longrightarrow> i < int (length xs) \<Longrightarrow> rd xs i = Inr (xs ! nat i)"
  by (simp add: rd_def)

lemma wr_in [simp, arr_simps]: "0 \<le> i \<Longrightarrow> i < int (length xs) \<Longrightarrow> wr xs i v = Inr (xs[nat i := v])"
  by (simp add: wr_def)

lemma rd_wr:
  assumes "wr xs i v = Inr ys"
  shows "rd ys j = (if j = i then Inr v else rd xs j)"
  using assms by (auto simp: wr_def rd_def nth_list_update split: if_splits)

lemma wr_length: "wr xs i v = Inr ys \<Longrightarrow> length ys = length xs"
  by (auto simp: wr_def split: if_splits)

text \<open>Writing a family of cells with pairwise different indices.\<close>

lemma foldR_wr:
  assumes "\<forall>c \<in> set cs. 0 \<le> f c \<and> f c < int (length xs)" and "inj_on f (set cs)" and "distinct cs"
  shows "\<exists>ys. foldR (\<lambda>c ys. wr ys (f c) (g c)) cs xs = Inr ys \<and> length ys = length xs \<and>
      (\<forall>c \<in> set cs. rd ys (f c) = Inr (g c)) \<and>
      (\<forall>i. i \<notin> f ` set cs \<longrightarrow> rd ys i = rd xs i)"
  using assms
proof (induction cs arbitrary: xs)
  case (Cons c cs)
  obtain ys where w: "wr xs (f c) (g c) = Inr ys" using Cons.prems(1) by simp
  note len = wr_length[OF w] and rw = rd_wr[OF w]
  from Cons.IH[of ys] Cons.prems len obtain zs where
    z: "foldR (\<lambda>c ys. wr ys (f c) (g c)) cs ys = Inr zs" "length zs = length ys"
      "\<forall>c \<in> set cs. rd zs (f c) = Inr (g c)" "\<forall>i. i \<notin> f ` set cs \<longrightarrow> rd zs i = rd ys i"
    by auto
  have "f c \<notin> f ` set cs" using Cons.prems(2,3) by (auto simp: inj_on_def)
  then show ?case using w z len rw by auto
qed simp

section \<open>Coordinate loops\<close>

type_synonym coord = "int list"

text \<open>One dimension of a coordinate loop: first value, increment, and exclusive end.\<close>

type_synonym dim = "int \<times> int \<times> int"

fun odo :: "int \<Rightarrow> dim list \<Rightarrow> coord \<Rightarrow> int \<times> coord" where
  "odo i [(lo, st, hi)] (c # cs) = (if c + st \<ge> hi then (-1, (c + st) # cs) else (i, (c + st) # cs))"
| "odo i ((lo, st, hi) # d # ds) (c # cs) =
     (if c + st \<ge> hi then (let (r, cs') = odo (i + 1) (d # ds) cs in (r, lo # cs'))
      else (i, (c + st) # cs))"
| "odo i _ cs = (-1, cs)"

partial_function (option) doWhile ::
    "('c \<Rightarrow> int \<times> 'c) \<Rightarrow> ('c \<Rightarrow> 's \<Rightarrow> 's res) \<Rightarrow> 'c \<Rightarrow> 's \<Rightarrow> 's res option" where
  "doWhile inc body c s =
     (case body c s of
        Inl e \<Rightarrow> Some (Inl e)
      | Inr s' \<Rightarrow> (if fst (inc c) \<ge> 0 then doWhile inc body (snd (inc c)) s' else Some (Inr s')))"

declare doWhile.simps [code]

text \<open>The values one dimension takes: the first one always, then the others below the end.\<close>

function doRange :: "int \<Rightarrow> int \<Rightarrow> int \<Rightarrow> int list" where
  "doRange lo st hi = lo # (if 0 < st \<and> lo + st < hi then doRange (lo + st) st hi else [])"
  by pat_completeness auto
termination by (relation "measure (\<lambda>(lo, st, hi). nat (hi - lo))") auto

declare doRange.simps [simp del]

fun dimRange :: "dim \<Rightarrow> int list" where
  "dimRange (lo, st, hi) = doRange lo st hi"

fun walk :: "dim list \<Rightarrow> coord list" where
  "walk [] = [[]]"
| "walk (d # ds) = concat (map (\<lambda>cs. map (\<lambda>c. c # cs) (dimRange d)) (walk ds))"

text \<open>\<open>follows inc xs\<close>: \<open>inc\<close> leads through \<open>xs\<close> from front to end and then stops.\<close>

fun follows :: "('c \<Rightarrow> int \<times> 'c) \<Rightarrow> 'c list \<Rightarrow> bool" where
  "follows inc [] = False"
| "follows inc [x] = (fst (inc x) < 0)"
| "follows inc (x # y # zs) = (fst (inc x) \<ge> 0 \<and> snd (inc x) = y \<and> follows inc (y # zs))"

lemma doWhile_follows:
  "follows inc xs \<Longrightarrow> doWhile inc body (hd xs) s = Some (foldR body xs s)"
proof (induction inc xs arbitrary: s rule: follows.induct)
  case (2 inc x)
  then show ?case by (subst doWhile.simps) (simp add: rbind_def split: sum.split)
next
  case (3 inc x y zs)
  then show ?case by (subst doWhile.simps) (simp add: rbind_def split: sum.split)
qed simp

lemma follows_append:
  assumes "xs \<noteq> []" "ys \<noteq> []"
    and "\<And>i. Suc i < length xs \<Longrightarrow> fst (inc (xs ! i)) \<ge> 0 \<and> snd (inc (xs ! i)) = xs ! Suc i"
    and "fst (inc (last xs)) \<ge> 0" "snd (inc (last xs)) = hd ys"
    and "follows inc ys"
  shows "follows inc (xs @ ys)"
  using assms(1,3,4,5)
proof (induction xs)
  case (Cons x xs)
  show ?case
  proof (cases xs)
    case Nil
    then show ?thesis using Cons.prems assms(2,6) by (cases ys) auto
  next
    case (Cons y zs)
    have "follows inc (xs @ ys)"
    proof (rule Cons.IH)
      fix i assume "Suc i < length xs"
      then show "fst (inc (xs ! i)) \<ge> 0 \<and> snd (inc (xs ! i)) = xs ! Suc i"
        using Cons.prems(2)[of "Suc i"] by simp
    qed (use Cons.prems \<open>xs = y # zs\<close> in auto)
    moreover have "fst (inc x) \<ge> 0 \<and> snd (inc x) = y"
      using Cons.prems(2)[of 0] \<open>xs = y # zs\<close> by simp
    ultimately show ?thesis using \<open>xs = y # zs\<close> by simp
  qed
qed simp


lemma doRange_ne [simp]: "doRange lo st hi \<noteq> []"
  by (subst doRange.simps) simp

lemma hd_doRange [simp]: "hd (doRange lo st hi) = lo"
  by (subst doRange.simps) simp

lemma doRange_0 [simp]: "doRange lo st hi ! 0 = lo"
  by (subst doRange.simps) simp

lemma doRange_step:
  assumes "Suc k < length (doRange lo st hi)"
  shows "doRange lo st hi ! k + st < hi \<and> doRange lo st hi ! Suc k = doRange lo st hi ! k + st"
  using assms
proof (induction lo st hi arbitrary: k rule: doRange.induct)
  case (1 lo st hi)
  show ?case
  proof (cases "0 < st \<and> lo + st < hi")
    case True
    have e: "doRange lo st hi = lo # doRange (lo + st) st hi" using True by (subst doRange.simps) simp
    show ?thesis
    proof (cases k)
      case 0
      then show ?thesis using True by (simp add: e)
    next
      case (Suc k')
      then show ?thesis using 1 True by (simp add: e)
    qed
  next
    case False
    then show ?thesis using 1(2) by (subst (asm) doRange.simps) auto
  qed
qed

lemma doRange_last:
  assumes "0 < st"
  shows "last (doRange lo st hi) + st \<ge> hi"
  using assms
proof (induction lo st hi rule: doRange.induct)
  case (1 lo st hi)
  then show ?case by (cases "lo + st < hi") (subst doRange.simps, auto)+
qed

lemma in_doRange:
  assumes "0 < st"
  shows "x \<in> set (doRange lo st hi) \<longleftrightarrow> (\<exists>k::nat. x = lo + st * int k \<and> (k = 0 \<or> x < hi))"
  using assms
proof (induction lo st hi rule: doRange.induct)
  case (1 lo st hi)
  show ?case
  proof (cases "lo + st < hi")
    case True
    have e: "doRange lo st hi = lo # doRange (lo + st) st hi" using True 1 by (subst doRange.simps) simp
    have "(\<exists>k::nat. x = lo + st * int k \<and> (k = 0 \<or> x < hi)) \<longleftrightarrow>
        x = lo \<or> (\<exists>k::nat. x = lo + st + st * int k \<and> (k = 0 \<or> x < hi))" (is "?L \<longleftrightarrow> ?R")
    proof
      assume ?L
      then obtain k where k: "x = lo + st * int k" "k = 0 \<or> x < hi" by auto
      then show ?R by (cases k) (auto simp: algebra_simps)
    next
      assume ?R
      then consider "x = lo" | k where "x = lo + st + st * int k" "k = 0 \<or> x < hi" by auto
      then show ?L
      proof cases
        case 1
        then show ?thesis by (intro exI[of _ 0]) simp
      next
        case 2
        then show ?thesis using True by (intro exI[of _ "Suc k"]) (auto simp: algebra_simps)
      qed
    qed
    then show ?thesis using 1 True by (simp add: e)
  next
    case False
    have e: "doRange lo st hi = [lo]" using False by (subst doRange.simps) simp
    have "\<not> lo + st * int k < hi" if "k \<noteq> 0" for k :: nat
    proof -
      have "st * 1 \<le> st * int k" using that 1(2) by (intro mult_left_mono) auto
      then show ?thesis using False by simp
    qed
    then show ?thesis by (auto simp: e intro: exI[of _ 0])
  qed
qed

lemma doRange_ge: "x \<in> set (doRange lo st hi) \<Longrightarrow> lo \<le> x"
proof (induction lo st hi rule: doRange.induct)
  case (1 lo st hi)
  then show ?case by (subst (asm) doRange.simps) (auto split: if_splits)
qed

lemma distinct_doRange [simp]: "distinct (doRange lo st hi)"
proof (induction lo st hi rule: doRange.induct)
  case (1 lo st hi)
  then show ?case by (subst doRange.simps) (auto dest: doRange_ge)
qed

lemma set_doRange_unit: "set (doRange lo 1 hi) = {x. lo \<le> x \<and> (x = lo \<or> x < hi)}"
proof -
  have "(\<exists>k::nat. x = lo + 1 * int k \<and> (k = 0 \<or> x < hi)) \<longleftrightarrow> lo \<le> x \<and> (x = lo \<or> x < hi)" for x
  proof
    assume "lo \<le> x \<and> (x = lo \<or> x < hi)"
    then show "\<exists>k::nat. x = lo + 1 * int k \<and> (k = 0 \<or> x < hi)"
      by (intro exI[of _ "nat (x - lo)"]) auto
  qed auto
  then show ?thesis by (simp add: set_eq_iff in_doRange)
qed

lemma walk_ne [simp]: "walk ds \<noteq> []"
proof (induction ds)
  case (Cons d ds)
  obtain lo st hi where "d = (lo, st, hi)" by (cases d) auto
  then show ?case using Cons by (cases "walk ds") auto
qed simp

lemma in_walk: "c \<in> set (walk ds) \<longleftrightarrow> list_all2 (\<lambda>x d. x \<in> set (dimRange d)) c ds"
proof (induction ds arbitrary: c)
  case (Cons d ds)
  show ?case by (cases c) (auto simp: Cons.IH)
qed auto

lemma walk_length: "c \<in> set (walk ds) \<Longrightarrow> length c = length ds"
  by (auto simp: in_walk dest: list_all2_lengthD)

lemma distinct_walk [simp]: "distinct (walk ds)"
proof (induction ds)
  case (Cons d ds)
  obtain lo st hi where d: "d = (lo, st, hi)" by (cases d) auto
  have "distinct (concat (map (\<lambda>cs. map (\<lambda>c. c # cs) (dimRange d)) xs))" if "distinct xs" for xs
    using that by (induction xs) (auto simp: d distinct_map inj_on_def)
  then show ?case using Cons by simp
qed simp

lemma hd_walk: "hd (walk ds) = map fst ds"
proof (induction ds)
  case (Cons d ds)
  obtain lo st hi where "d = (lo, st, hi)" by (cases d) auto
  then show ?case using Cons
    by (cases "walk ds") (auto simp: hd_append hd_map)
qed simp


lemma follows_nthI:
  assumes "xs \<noteq> []"
    and "\<And>i. Suc i < length xs \<Longrightarrow> fst (inc (xs ! i)) \<ge> 0 \<and> snd (inc (xs ! i)) = xs ! Suc i"
    and "fst (inc (last xs)) < 0"
  shows "follows inc xs"
  using assms
proof (induction xs rule: induct_list012)
  case (3 x y zs)
  have "follows inc (y # zs)"
  proof (rule 3(2))
    fix i assume "Suc i < length (y # zs)"
    then show "fst (inc ((y # zs) ! i)) \<ge> 0 \<and> snd (inc ((y # zs) ! i)) = (y # zs) ! Suc i"
      using 3(4)[of "Suc i"] by simp
  qed (use 3(5) in auto)
  then show ?case using 3(4)[of 0] by simp
qed auto

text \<open>The odometer, started at the first coordinate, visits exactly \<open>walk\<close>.\<close>

lemma follows_odo_row:
  assumes "0 < st" "0 \<le> i" "follows (odo (i + 1) (d # ds)) xs"
  shows "follows (odo i ((lo, st, hi) # d # ds))
           (concat (map (\<lambda>cs. map (\<lambda>c. c # cs) (doRange lo st hi)) xs))"
  using assms(3)
proof (induction "odo (i + 1) (d # ds)" xs rule: follows.induct)
  case (2 x)
  show ?case
  proof (rule follows_nthI)
    fix j assume "Suc j < length (concat (map (\<lambda>cs. map (\<lambda>c. c # cs) (doRange lo st hi)) [x]))"
    then show "fst (odo i ((lo, st, hi) # d # ds)
          (concat (map (\<lambda>cs. map (\<lambda>c. c # cs) (doRange lo st hi)) [x]) ! j)) \<ge> 0 \<and>
        snd (odo i ((lo, st, hi) # d # ds)
          (concat (map (\<lambda>cs. map (\<lambda>c. c # cs) (doRange lo st hi)) [x]) ! j)) =
        concat (map (\<lambda>cs. map (\<lambda>c. c # cs) (doRange lo st hi)) [x]) ! Suc j"
      using doRange_step[of j lo st hi] assms(2) by simp
  qed (use 2 doRange_last[OF assms(1), of hi lo] in
      \<open>auto simp: last_map split: prod.splits\<close>)
next
  case (3 x y zs)
  let ?row = "\<lambda>cs. map (\<lambda>c. c # cs) (doRange lo st hi)"
  have "follows (odo i ((lo, st, hi) # d # ds)) (?row x @ concat (map ?row (y # zs)))"
  proof (rule follows_append)
    fix j assume "Suc j < length (?row x)"
    then show "fst (odo i ((lo, st, hi) # d # ds) (?row x ! j)) \<ge> 0 \<and>
        snd (odo i ((lo, st, hi) # d # ds) (?row x ! j)) = ?row x ! Suc j"
      using doRange_step[of j lo st hi] assms(2) by simp
  next
    have l: "last (?row x) = last (doRange lo st hi) # x" by (simp add: last_map)
    show "fst (odo i ((lo, st, hi) # d # ds) (last (?row x))) \<ge> 0"
      using 3 doRange_last[OF assms(1), of hi lo] by (auto simp: l split: prod.splits)
    show "snd (odo i ((lo, st, hi) # d # ds) (last (?row x))) = hd (concat (map ?row (y # zs)))"
      using 3 doRange_last[OF assms(1), of hi lo]
      by (auto simp: l hd_append hd_map split: prod.splits)
    show "follows (odo i ((lo, st, hi) # d # ds)) (concat (map ?row (y # zs)))"
      using 3 by simp
  qed auto
  then show ?case by simp
qed simp

definition dims_ok :: "dim list \<Rightarrow> bool" where
  "dims_ok ds = (\<forall>d \<in> set ds. 0 < fst (snd d))"

lemma follows_odo:
  assumes "ds \<noteq> []" "dims_ok ds" "0 \<le> i"
  shows "follows (odo i ds) (walk ds)"
  using assms
proof (induction ds arbitrary: i rule: induct_list012)
  case (2 d)
  obtain lo st hi where d: "d = (lo, st, hi)" by (cases d) auto
  have w: "walk [d] = map (\<lambda>c. [c]) (doRange lo st hi)" by (simp add: d)
  show ?case unfolding w
  proof (rule follows_nthI)
    fix j assume "Suc j < length (map (\<lambda>c. [c]) (doRange lo st hi))"
    then show "fst (odo i [d] (map (\<lambda>c. [c]) (doRange lo st hi) ! j)) \<ge> 0 \<and>
        snd (odo i [d] (map (\<lambda>c. [c]) (doRange lo st hi) ! j)) =
          map (\<lambda>c. [c]) (doRange lo st hi) ! Suc j"
      using doRange_step[of j lo st hi] 2 by (simp add: d)
  qed (use 2 doRange_last[of st hi lo] in \<open>auto simp: d dims_ok_def last_map\<close>)
next
  case (3 d d' ds)
  obtain lo st hi where d: "d = (lo, st, hi)" by (cases d) auto
  have "follows (odo (i + 1) (d' # ds)) (walk (d' # ds))"
    using 3 by (auto simp: dims_ok_def)
  from follows_odo_row[OF _ _ this, of st lo hi] 3 show ?case
    by (simp add: d dims_ok_def del: walk.simps(2)) (subst walk.simps(2), simp)
qed simp

end
