(* ===== verification/RegionCoords.thy ===== *)
theory RegionCoords
  imports Prelude
begin

text \<open>
  Coordinate arithmetic of the region data classes: the static helpers of
  \<open>runtime/regiondatai.cpp\<close> and the view description \<open>RegionMatrixMetadata\<close> of
  \<open>runtime/regiondataremotemessages.h\<close>.

  A coordinate is the list of its \<open>IndexT\<close> components, dimension 0 first, so the dimension
  count of the code is the length of the list.  The locale \<open>coord_walk\<close> states what every
  coordinate loop of the runtime expects from its increment function: it leads through the
  listed coordinates, each exactly once, and then answers a negative number.
\<close>

section \<open>The contract of a coordinate loop\<close>

locale coord_walk =
  fixes inc :: "'p \<Rightarrow> coord \<Rightarrow> int \<times> coord"
    and dims :: "'p \<Rightarrow> dim list"
    and ok :: "'p \<Rightarrow> bool"
  assumes leads: "ok p \<Longrightarrow> follows (inc p) (walk (dims p))"
begin

lemma loop_eq:
  "ok p \<Longrightarrow> doWhile (inc p) body (map fst (dims p)) s = Some (foldR body (walk (dims p)) s)"
  using doWhile_follows[OF leads, of p body s] by (simp add: hd_walk)

lemma loop_ends: "ok p \<Longrightarrow> doWhile (inc p) body (map fst (dims p)) s \<noteq> None"
  by (simp add: loop_eq)

lemma loop_invariant:
  assumes "ok p" "P s"
    and "\<And>c s. c \<in> set (walk (dims p)) \<Longrightarrow> P s \<Longrightarrow> \<exists>s'. body c s = Inr s' \<and> P s'"
  shows "\<exists>s'. doWhile (inc p) body (map fst (dims p)) s = Some (Inr s') \<and> P s'"
  using foldR_invariant[of P s "walk (dims p)" body] assms by (auto simp: loop_eq)

end

lemma follows_cong:
  "(\<And>c. c \<in> set xs \<Longrightarrow> f c = g c) \<Longrightarrow> follows f xs = follows g xs"
  by (induction f xs rule: follows.induct) auto

section \<open>Coordinates inside a box\<close>

definition inBox :: "int list \<Rightarrow> coord \<Rightarrow> bool" where
  "inBox sz coord = list_all2 (\<lambda>s x. 0 \<le> x \<and> x < s) sz coord"

lemma inBox_simps [simp]:
  "inBox [] c = (c = [])"
  "inBox s [] = (s = [])"
  "inBox (n # ns) (x # xs) = (0 \<le> x \<and> x < n \<and> inBox ns xs)"
  by (simp_all add: inBox_def)

lemma inBox_length: "inBox sz c \<Longrightarrow> length c = length sz"
  by (auto simp: inBox_def dest: list_all2_lengthD)

lemma inBox_Cons: "inBox (n # ns) c \<longleftrightarrow> (\<exists>x xs. c = x # xs \<and> 0 \<le> x \<and> x < n \<and> inBox ns xs)"
  by (cases c) auto

definition sizes_pos :: "int list \<Rightarrow> bool" where
  "sizes_pos sz = (\<forall>s \<in> set sz. 0 < s)"

lemma sizes_pos_simps [simp]:
  "sizes_pos []"
  "sizes_pos (s # ss) = (0 < s \<and> sizes_pos ss)"
  by (auto simp: sizes_pos_def)

lemma inBox_sizes_pos: "inBox sz c \<Longrightarrow> sizes_pos sz"
  by (induction sz arbitrary: c) (auto simp: inBox_Cons)

definition boxDims :: "int list \<Rightarrow> dim list" where
  "boxDims sz = map (\<lambda>s. (0, 1, s)) sz"

definition box :: "int list \<Rightarrow> coord list" where
  "box sz = walk (boxDims sz)"

lemma boxDims_simps [simp]: "boxDims [] = []" "boxDims (s # ss) = (0, 1, s) # boxDims ss"
  by (simp_all add: boxDims_def)

lemma map_fst_boxDims: "map fst (boxDims sz) = replicate (length sz) 0"
  by (induction sz) auto

lemma set_box: "sizes_pos sz \<Longrightarrow> c \<in> set (box sz) \<longleftrightarrow> inBox sz c"
  unfolding box_def
proof (induction sz arbitrary: c)
  case (Cons s ss)
  have h: "sizes_pos ss" "0 < s" using Cons.prems by auto
  show ?case using Cons.IH[OF h(1)] h(2)
    by (cases c) (auto simp: set_doRange_unit)
qed simp

lemma distinct_box [simp]: "distinct (box sz)"
  by (simp add: box_def)

section \<open>Incrementing a coordinate\<close>

text \<open>\<open>for (i = 0; i < dimensions - 1; ++i)\<close> of \<open>RegionDataI::incCoord\<close>; \<open>i\<close> is the loop
  counter, the lists are the sizes and coordinates from dimension \<open>i\<close> on.\<close>

fun incCoordLoop :: "int \<Rightarrow> int list \<Rightarrow> coord \<Rightarrow> int \<times> coord" where
  "incCoordLoop i (s # s' # ss) (c # c' # cs) =
     (if c \<ge> s
      then (let (r, cs') = incCoordLoop (i + 1) (s' # ss) ((c' + 1) # cs) in (r, 0 # cs'))
      else (i, c # c' # cs))"
| "incCoordLoop i [s] [c] = (if c \<ge> s then (-1, [c]) else (i, [c]))"
| "incCoordLoop i _ cs = (-1, cs)"

fun incCoord :: "int list \<Rightarrow> coord \<Rightarrow> int \<times> coord" where
  "incCoord [] coord = (-1, coord)"
| "incCoord (s # ss) [] = (-1, [])"
| "incCoord (s # ss) (c # cs) = incCoordLoop 0 (s # ss) ((c + 1) # cs)"

lemma incCoordLoop_odo:
  "length cs = length ss \<Longrightarrow>
   incCoordLoop i (s # ss) ((c + 1) # cs) = odo i (boxDims (s # ss)) (c # cs)"
proof (induction ss arbitrary: i s c cs)
  case (Cons s' ss)
  then show ?case by (cases cs) (auto split: prod.splits)
qed auto

lemma incCoord_odo: "length c = length sz \<Longrightarrow> incCoord sz c = odo 0 (boxDims sz) c"
proof (cases sz)
  case (Cons s ss)
  assume "length c = length sz"
  then obtain x xs where "c = x # xs" "length xs = length ss" using Cons by (cases c) auto
  then show ?thesis using Cons incCoordLoop_odo by simp
qed simp

lemma dims_ok_box [simp]: "dims_ok (boxDims sz)"
  by (auto simp: dims_ok_def boxDims_def)

lemma follows_incCoord: "follows (incCoord sz) (box sz)"
proof (cases "sz = []")
  case False
  then have "follows (odo 0 (boxDims sz)) (box sz)"
    unfolding box_def by (intro follows_odo dims_ok_box) (auto simp: boxDims_def)
  moreover have "follows (incCoord sz) (box sz) = follows (odo 0 (boxDims sz)) (box sz)"
    by (rule follows_cong) (auto simp: box_def incCoord_odo boxDims_def dest!: walk_length)
  ultimately show ?thesis by simp
qed (simp add: box_def)

interpretation rdi: coord_walk incCoord boxDims "\<lambda>_. True"
  by unfold_locales (simp add: follows_incCoord[unfolded box_def])

lemmas rdi_loop = rdi.loop_eq[OF TrueI, unfolded map_fst_boxDims, folded box_def]

section \<open>Offsets\<close>

text \<open>\<open>sizeToMultipliers\<close>: \<open>m\<close> is \<open>multipliers[i]\<close>, the rest of the sizes is still to come.\<close>

fun sizeToMultipliersLoop :: "int \<Rightarrow> int list \<Rightarrow> int list" where
  "sizeToMultipliersLoop m [] = []"
| "sizeToMultipliersLoop m [s] = [m]"
| "sizeToMultipliersLoop m (s # s' # ss) = m # sizeToMultipliersLoop (m * s) (s' # ss)"

definition sizeToMultipliers :: "int list \<Rightarrow> int list" where
  "sizeToMultipliers sz = sizeToMultipliersLoop 1 sz"

fun coordToOffsetLoop :: "int \<Rightarrow> coord \<Rightarrow> int list \<Rightarrow> int" where
  "coordToOffsetLoop offset (c # cs) (m # ms) = coordToOffsetLoop (offset + m * c) cs ms"
| "coordToOffsetLoop offset _ _ = offset"

definition coordToOffset :: "coord \<Rightarrow> int list \<Rightarrow> int" where
  "coordToOffset coord multipliers = coordToOffsetLoop 0 coord multipliers"

text \<open>The reference: the coordinate read as a mixed radix numeral, dimension 0 the least digit.\<close>

fun radix :: "int list \<Rightarrow> coord \<Rightarrow> int" where
  "radix (s # ss) (c # cs) = c + s * radix ss cs"
| "radix _ _ = 0"

lemma coordToOffset_mults:
  "length c = length sz \<Longrightarrow>
   coordToOffsetLoop off c (sizeToMultipliersLoop m sz) = off + m * radix sz c"
proof (induction m sz arbitrary: c off rule: sizeToMultipliersLoop.induct)
  case (2 m s)
  then show ?case by (cases c) auto
next
  case (3 m s s' ss)
  then obtain x xs where "c = x # xs" "length xs = Suc (length ss)" by (cases c) auto
  then show ?case using 3(1)[of xs "off + m * x"] by (simp add: algebra_simps)
qed simp

lemma coordToOffset_radix:
  "length c = length sz \<Longrightarrow> coordToOffset c (sizeToMultipliers sz) = radix sz c"
  by (simp add: coordToOffset_def sizeToMultipliers_def coordToOffset_mults)

lemma radix_bounds: "inBox sz c \<Longrightarrow> 0 \<le> radix sz c \<and> radix sz c < prod_list sz"
proof (induction sz arbitrary: c)
  case (Cons s ss)
  then obtain x xs where c: "c = x # xs" "0 \<le> x" "x < s" "inBox ss xs" by (auto simp: inBox_Cons)
  with Cons.IH have r: "0 \<le> radix ss xs" "radix ss xs + 1 \<le> prod_list ss" by fastforce+
  have "s * (radix ss xs + 1) \<le> s * prod_list ss" using r c by (intro mult_left_mono) auto
  then show ?case using c r by (auto simp: algebra_simps)
qed simp

lemma radix_inj:
  assumes "inBox sz c" "inBox sz c'" "radix sz c = radix sz c'"
  shows "c = c'"
  using assms
proof (induction sz arbitrary: c c')
  case (Cons s ss)
  obtain x xs where c: "c = x # xs" "0 \<le> x" "x < s" "inBox ss xs"
    using Cons.prems(1) by (auto simp: inBox_Cons)
  obtain y ys where c': "c' = y # ys" "0 \<le> y" "y < s" "inBox ss ys"
    using Cons.prems(2) by (auto simp: inBox_Cons)
  have eq: "x + s * radix ss xs = y + s * radix ss ys" using Cons.prems(3) c c' by simp
  then have "(x + s * radix ss xs) mod s = (y + s * radix ss ys) mod s" by simp
  then have "x = y" using c c' by simp
  with eq have "radix ss xs = radix ss ys" using c by auto
  then show ?case using Cons.IH[OF c(4) c'(4)] c c' \<open>x = y\<close> by simp
qed simp

lemma prod_list_pos: "sizes_pos sz \<Longrightarrow> 0 < prod_list sz"
  by (induction sz) auto

lemma length_doRange_unit: "0 < s \<Longrightarrow> length (doRange 0 1 s) = nat s"
proof -
  assume "0 < s"
  then have "set (doRange 0 1 s) = {0..<s}" by (auto simp: set_doRange_unit)
  then show ?thesis using distinct_card[OF distinct_doRange, of 0 1 s] by simp
qed

lemma length_box: "sizes_pos sz \<Longrightarrow> length (box sz) = nat (prod_list sz)"
  unfolding box_def
proof (induction sz)
  case (Cons s ss)
  have "length (concat (map (\<lambda>cs. map (\<lambda>c. c # cs) (doRange 0 1 s)) xs)) = nat s * length xs"
    for xs :: "int list list" using Cons.prems length_doRange_unit by (induction xs) auto
  then show ?case using Cons by (simp add: nat_mult_distrib)
qed simp

lemma doRange_unit_map: "0 \<le> a \<Longrightarrow> a < s \<Longrightarrow> doRange a 1 s = map int [nat a..<nat s]"
proof (induction a "1::int" s rule: doRange.induct)
  case (1 a s)
  show ?case
  proof (cases "a + 1 < s")
    case True
    have "doRange a 1 s = a # doRange (a + 1) 1 s" using True by (subst doRange.simps) simp
    then show ?thesis using 1 True by (simp add: upt_conv_Cons nat_add_distrib)
  next
    case False
    then have "s = a + 1" using 1 by simp
    have a: "0 \<le> a" by fact
    have "nat (a + 1) = Suc (nat a)" using a by arith
    then have "map int [nat a..<nat (a + 1)] = [a]" using a by (simp only: upt_rec[of "nat a"] lessI if_True) simp
    moreover have "doRange a 1 (a + 1) = [a]" by (subst doRange.simps) simp
    ultimately show ?thesis unfolding \<open>s = a + 1\<close> by (simp only:)
  qed
qed

lemma concat_rows: "concat (map (\<lambda>m. map (\<lambda>c. int c + int s * int m) [0..<s]) [0..<n]) = map int [0..<s * n]"
proof (induction n)
  case (Suc n)
  have "map (\<lambda>c. int c + int s * int n) [0..<s] = map int [s * n..<s * n + s]"
    by (rule nth_equalityI) (simp_all add: algebra_simps)
  moreover have "[0..<s * Suc n] = [0..<s * n] @ [s * n..<s * n + s]"
    using upt_add_eq_append[of 0 "s * n" s] by (simp add: add.commute)
  ultimately show ?case using Suc by simp
qed simp

lemma radix_box: "sizes_pos sz \<Longrightarrow> map (radix sz) (box sz) = map int [0..<nat (prod_list sz)]"
proof (induction sz)
  case (Cons s ss)
  have s: "0 < s" "sizes_pos ss" using Cons.prems by auto
  have "map (radix (s # ss)) (box (s # ss)) =
      concat (map (\<lambda>r. map (\<lambda>c. c + s * r) (doRange 0 1 s)) (map (radix ss) (box ss)))"
    by (simp add: box_def map_concat o_def)
  also have "\<dots> = concat (map (\<lambda>m. map (\<lambda>c. int c + int (nat s) * int m) [0..<nat s]) [0..<nat (prod_list ss)])"
    using s Cons.IH[OF s(2)] by (simp add: doRange_unit_map o_def del: upt.simps)
  also have "\<dots> = map int [0..<nat s * nat (prod_list ss)]" by (rule concat_rows)
  finally show ?case using s prod_list_pos[OF s(2)] by (simp add: nat_mult_distrib)
qed (simp add: box_def)

text \<open>C9: the two coordinate conventions of the runtime agree: a \<open>do .. while (incCoord(..) >= 0)\<close> loop
  started at the origin visits every coordinate of the box exactly once, and in memory order: the
  offsets that \<open>coordToOffset\<close> computes along the loop, with the multipliers of
  \<open>sizeToMultipliers\<close>, are 0, 1, 2, ... up to the number of elements.\<close>

theorem incCoord_memory_order:
  assumes "sizes_pos sz"
  shows "doWhile (incCoord sz) (\<lambda>c os. Inr (os @ [coordToOffset c (sizeToMultipliers sz)]))
      (replicate (length sz) 0) [] = Some (Inr (map int [0..<nat (prod_list sz)]))"
proof -
  have "foldR (\<lambda>c os. Inr (os @ [coordToOffset c (sizeToMultipliers sz)])) cs acc =
      Inr (acc @ map (\<lambda>c. coordToOffset c (sizeToMultipliers sz)) cs)" for cs and acc :: "int list"
    by (induction cs arbitrary: acc) simp_all
  moreover have "map (\<lambda>c. coordToOffset c (sizeToMultipliers sz)) (box sz) = map (radix sz) (box sz)"
    using set_box[OF assms] by (auto intro!: coordToOffset_radix dest: inBox_length)
  ultimately show ?thesis using radix_box[OF assms] by (simp add: rdi_loop)
qed

section \<open>Views: split offsets and slices\<close>

text \<open>\<open>RegionMatrixMetadata\<close>.  The packed buffer of the code stores \<open>dimensions\<close> and
  \<open>numSliceDimensions\<close> in front of the four arrays; here they are the lengths of the lists,
  and the parallel arrays \<open>sliceDimensions\<close> and \<open>slicePositions\<close> are one list of pairs.\<close>

record regionMatrixMetadata =
  splitOffset :: "int list"
  mdSize :: "int list"
  slices :: "(int \<times> int) list"

text \<open>The body of the loop over \<open>d\<close> in \<open>toRegionDataCoord\<close>: \<open>n\<close> iterations are left; \<open>cs\<close> and
  \<open>off\<close> start at \<open>splitIndex\<close>, \<open>sl\<close> at \<open>sliceIndex\<close>.\<close>

fun toRegionDataCoordLoop :: "nat \<Rightarrow> int \<Rightarrow> coord \<Rightarrow> int list \<Rightarrow> (int \<times> int) list \<Rightarrow> coord res" where
  "toRegionDataCoordLoop 0 d cs off sl = Inr []"
| "toRegionDataCoordLoop (Suc n) d cs off sl =
     (if sl \<noteq> [] \<and> d = fst (hd sl)
      then rmap ((#) (snd (hd sl))) (toRegionDataCoordLoop n (d + 1) cs off (tl sl))
      else if cs = [] \<or> off = [] then Inl OutOfBounds
      else rmap ((#) (hd cs + hd off)) (toRegionDataCoordLoop n (d + 1) (tl cs) (tl off) sl))"

definition toRegionDataCoord :: "nat \<Rightarrow> coord \<Rightarrow> int list \<Rightarrow> (int \<times> int) list \<Rightarrow> coord res" where
  "toRegionDataCoord dimensions coord off sl =
     toRegionDataCoordLoop (dimensions + length sl) 0 coord off sl"

definition toRegionDataIndex :: "nat \<Rightarrow> coord \<Rightarrow> int list \<Rightarrow> (int \<times> int) list \<Rightarrow> int list \<Rightarrow> int res" where
  "toRegionDataIndex dimensions coord off sl multipliers =
     (if length multipliers < dimensions + length sl then Inl OutOfBounds
      else rmap (\<lambda>c. coordToOffset c multipliers) (toRegionDataCoord dimensions coord off sl))"

text \<open>The slice dimensions of a view are ascending and inside the data.\<close>

definition slices_ok :: "nat \<Rightarrow> int \<Rightarrow> (int \<times> int) list \<Rightarrow> bool" where
  "slices_ok n d sl = (sorted_wrt (<) (map fst sl) \<and> (\<forall>k \<in> set (map fst sl). d \<le> k \<and> k < d + int n))"

lemma slices_ok_Nil [simp]: "slices_ok n d []"
  by (simp add: slices_ok_def)

lemma slices_ok_slice: "slices_ok (Suc n) d ((d, p) # sl) \<Longrightarrow> slices_ok n (d + 1) sl"
  by (fastforce simp: slices_ok_def)

lemma slices_ok_plain:
  "slices_ok (Suc n) d sl \<Longrightarrow> sl = [] \<or> fst (hd sl) \<noteq> d \<Longrightarrow> slices_ok n (d + 1) sl"
proof (cases sl)
  case (Cons a sl')
  assume ok: "slices_ok (Suc n) d sl" and "sl = [] \<or> fst (hd sl) \<noteq> d"
  then have "d < fst a" using Cons by (force simp: slices_ok_def)
  moreover have "fst a \<le> k" if "k \<in> fst ` set sl" for k using ok that Cons by (force simp: slices_ok_def)
  ultimately have "d < k" if "k \<in> fst ` set sl" for k using that by force
  then show ?thesis using ok by (fastforce simp: slices_ok_def)
qed simp

lemma slices_ok_length:
  assumes "slices_ok n d sl" shows "length sl \<le> n"
proof -
  have "distinct (map fst sl)" using assms by (auto simp: slices_ok_def strict_sorted_iff)
  then have "card (set (map fst sl)) = length sl" by (metis distinct_card length_map)
  moreover have "card (set (map fst sl)) \<le> card {d..<d + int n}"
    by (rule card_mono) (use assms in \<open>fastforce simp: slices_ok_def\<close>)+
  ultimately show ?thesis by simp
qed

lemma toRegionDataCoordLoop_SucE:
  assumes "toRegionDataCoordLoop (Suc n) d cs off sl = Inr r"
  obtains
    (slice) p sl' r' where "sl = (d, p) # sl'" "r = p # r'"
      "toRegionDataCoordLoop n (d + 1) cs off sl' = Inr r'"
  | (plain) c cs' f off' r' where "sl = [] \<or> fst (hd sl) \<noteq> d" "cs = c # cs'" "off = f # off'"
      "r = (c + f) # r'" "toRegionDataCoordLoop n (d + 1) cs' off' sl = Inr r'"
proof (cases "sl \<noteq> [] \<and> d = fst (hd sl)")
  case True
  then obtain p sl' where "sl = (d, p) # sl'" by (cases sl) auto
  then show ?thesis using assms slice by (auto simp: rmap_Inr_iff)
next
  case False
  then obtain c cs' f off' where "cs = c # cs'" "off = f # off'"
    using assms by (cases cs; cases off) (auto split: if_splits)
  then show ?thesis using assms plain False by (auto simp: rmap_Inr_iff split: if_splits)
qed

lemma toRegionDataCoordLoop_total:
  "slices_ok n d sl \<Longrightarrow> n = length cs + length sl \<Longrightarrow> length off = length cs \<Longrightarrow>
   \<exists>r. toRegionDataCoordLoop n d cs off sl = Inr r \<and> length r = n"
proof (induction n arbitrary: d cs off sl)
  case (Suc n)
  show ?case
  proof (cases "sl = [] \<or> fst (hd sl) \<noteq> d")
    case True
    then have ok: "slices_ok n (d + 1) sl" using slices_ok_plain Suc by blast
    obtain c cs' f off' where cs: "cs = c # cs'" "off = f # off'"
      using slices_ok_length[OF ok] Suc.prems by (cases cs; cases off) auto
    then show ?thesis using Suc.IH[OF ok, of cs' off'] Suc.prems True by auto
  next
    case False
    then obtain p sl' where sl: "sl = (d, p) # sl'" by (cases sl) auto
    then show ?thesis using Suc.IH[of "d + 1" sl' cs off] slices_ok_slice Suc.prems by auto
  qed
qed simp

text \<open>What the loop computes: slice positions in the slice dimensions, and the shifted
  coordinates, in order, in all others.\<close>

lemma toRegionDataCoordLoop_slices:
  "slices_ok n d sl \<Longrightarrow> toRegionDataCoordLoop n d cs off sl = Inr r \<Longrightarrow>
   (k, p) \<in> set sl \<Longrightarrow> r ! nat (k - d) = p"
proof (induction n arbitrary: d cs off sl r)
  case 0
  then show ?case using slices_ok_length[OF 0(1)] by simp
next
  case (Suc n)
  have shift: "r' ! nat (k - (d + 1)) = (x # r') ! nat (k - d)" if "d + 1 \<le> k" for x and r' :: "int list"
  proof -
    have "nat (k - d) = Suc (nat (k - (d + 1)))" using that by simp
    then show ?thesis by simp
  qed
  from Suc.prems(2) show ?case
  proof (cases rule: toRegionDataCoordLoop_SucE)
    case (slice q sl' r')
    note ok = slices_ok_slice[OF Suc.prems(1)[unfolded slice(1)]]
    show ?thesis
    proof (cases "(k, p) \<in> set sl'")
      case True
      then have "d + 1 \<le> k" using ok by (force simp: slices_ok_def)
      then show ?thesis using Suc.IH[OF ok slice(3) True] shift slice(2) by metis
    next
      case False
      then show ?thesis using Suc.prems(3) slice by simp
    qed
  next
    case (plain c cs' f off' r')
    note ok = slices_ok_plain[OF Suc.prems(1) plain(1)]
    then have "d + 1 \<le> k" using Suc.prems(3) by (force simp: slices_ok_def)
    then show ?thesis using Suc.IH[OF ok plain(5) Suc.prems(3)] shift plain(4) by metis
  qed
qed

fun unsliced :: "int \<Rightarrow> int set \<Rightarrow> int list \<Rightarrow> int list" where
  "unsliced d S [] = []"
| "unsliced d S (x # xs) = (if d \<in> S then unsliced (d + 1) S xs else x # unsliced (d + 1) S xs)"

lemma unsliced_cong: "(\<And>k. d \<le> k \<Longrightarrow> (k \<in> S) = (k \<in> T)) \<Longrightarrow> unsliced d S xs = unsliced d T xs"
  by (induction xs arbitrary: d) auto

lemma toRegionDataCoordLoop_plain:
  "slices_ok n d sl \<Longrightarrow> toRegionDataCoordLoop n d cs off sl = Inr r \<Longrightarrow>
   n = length cs + length sl \<Longrightarrow> length off = length cs \<Longrightarrow>
   unsliced d (fst ` set sl) r = map2 (+) cs off"
proof (induction n arbitrary: d cs off sl r)
  case (Suc n)
  from Suc.prems(2) show ?case
  proof (cases rule: toRegionDataCoordLoop_SucE)
    case (slice q sl' r')
    note ok = slices_ok_slice[OF Suc.prems(1)[unfolded slice(1)]]
    have "unsliced (d + 1) (fst ` set sl) r' = unsliced (d + 1) (fst ` set sl') r'"
      using slice by (intro unsliced_cong) auto
    then show ?thesis using Suc.IH[OF ok slice(3)] slice Suc.prems by simp
  next
    case (plain c cs' f off' r')
    note ok = slices_ok_plain[OF Suc.prems(1) plain(1)]
    then have "d \<notin> fst ` set sl" by (force simp: slices_ok_def)
    then show ?thesis using Suc.IH[OF ok plain(5)] plain Suc.prems by simp
  qed
qed simp

lemma toRegionDataCoordLoop_inj:
  "toRegionDataCoordLoop n d cs off sl = Inr r \<Longrightarrow> toRegionDataCoordLoop n d cs' off sl = Inr r \<Longrightarrow>
   slices_ok n d sl \<Longrightarrow> n = length cs + length sl \<Longrightarrow> length cs' = length cs \<Longrightarrow> cs = cs'"
proof (induction n arbitrary: d cs cs' off sl r)
  case (Suc n)
  from Suc.prems(1) show ?case
  proof (cases rule: toRegionDataCoordLoop_SucE)
    case (slice p sl' r')
    with Suc.prems(2) have "toRegionDataCoordLoop n (d + 1) cs' off sl' = Inr r'"
      by (auto simp: rmap_Inr_iff)
    then show ?thesis using Suc.IH[OF slice(3)] Suc.prems slices_ok_slice slice(1) by auto
  next
    case (plain c cs1 f off1 r')
    obtain c' cs1' where cs': "cs' = c' # cs1'" using Suc.prems(5) plain by (cases cs') auto
    with Suc.prems(2) plain have "toRegionDataCoordLoop n (d + 1) cs1' off1 sl = Inr r'" "c' = c"
      by (auto simp: rmap_Inr_iff split: if_splits)
    then show ?thesis using Suc.IH[OF plain(5)] Suc.prems slices_ok_plain[OF Suc.prems(3) plain(1)] cs' plain
      by auto
  qed
qed simp

lemma toRegionDataCoordLoop_between:
  "toRegionDataCoordLoop n d lo off sl = Inr rlo \<Longrightarrow> toRegionDataCoordLoop n d hi off sl = Inr rhi \<Longrightarrow>
   toRegionDataCoordLoop n d cs off sl = Inr r \<Longrightarrow>
   list_all2 (\<le>) lo cs \<Longrightarrow> list_all2 (\<le>) cs hi \<Longrightarrow> inBox sz rlo \<Longrightarrow> inBox sz rhi \<Longrightarrow> inBox sz r"
proof (induction n arbitrary: d lo hi cs off sl rlo rhi r sz)
  case (Suc n)
  from Suc.prems(3) show ?case
  proof (cases rule: toRegionDataCoordLoop_SucE)
    case (slice p sl' r')
    with Suc.prems obtain rlo' rhi' where "toRegionDataCoordLoop n (d + 1) lo off sl' = Inr rlo'"
      "toRegionDataCoordLoop n (d + 1) hi off sl' = Inr rhi'" "rlo = p # rlo'" "rhi = p # rhi'"
      by (auto simp: rmap_Inr_iff)
    then show ?thesis using Suc.IH[OF _ _ slice(3)] Suc.prems slice(2) by (cases sz) auto
  next
    case (plain c cs1 f off1 r')
    obtain l lo1 h hi1 where lh: "lo = l # lo1" "hi = h # hi1" "l \<le> c" "c \<le> h"
      "list_all2 (\<le>) lo1 cs1" "list_all2 (\<le>) cs1 hi1"
      using Suc.prems(4,5) plain(2) by (auto simp: list_all2_Cons1 list_all2_Cons2)
    with Suc.prems plain obtain rlo' rhi' where
      "toRegionDataCoordLoop n (d + 1) lo1 off1 sl = Inr rlo'"
      "toRegionDataCoordLoop n (d + 1) hi1 off1 sl = Inr rhi'" "rlo = (l + f) # rlo'" "rhi = (h + f) # rhi'"
      by (auto simp: rmap_Inr_iff split: if_splits)
    then show ?thesis using Suc.IH[OF _ _ plain(5)] Suc.prems plain lh by (cases sz) auto
  qed
qed simp

section \<open>Views that fit their data\<close>

definition viewCoord :: "regionMatrixMetadata \<Rightarrow> coord \<Rightarrow> coord res" where
  "viewCoord md c = toRegionDataCoord (length (mdSize md)) c (splitOffset md) (slices md)"

definition viewIndex :: "regionMatrixMetadata \<Rightarrow> int list \<Rightarrow> coord \<Rightarrow> int res" where
  "viewIndex md dsz c =
     toRegionDataIndex (length (mdSize md)) c (splitOffset md) (slices md) (sizeToMultipliers dsz)"

definition md_wf :: "nat \<Rightarrow> regionMatrixMetadata \<Rightarrow> bool" where
  "md_wf D md = (length (splitOffset md) = length (mdSize md) \<and>
     D = length (mdSize md) + length (slices md) \<and> slices_ok D 0 (slices md))"

text \<open>Both corners of the view lie inside the data, so all of it does.\<close>

definition md_fits :: "int list \<Rightarrow> regionMatrixMetadata \<Rightarrow> bool" where
  "md_fits dsz md = (md_wf (length dsz) md \<and> sizes_pos (mdSize md) \<and>
     (case viewCoord md (map (\<lambda>_. 0) (mdSize md)) of Inl e \<Rightarrow> False | Inr b \<Rightarrow> inBox dsz b) \<and>
     (case viewCoord md (map (\<lambda>s. s - 1) (mdSize md)) of Inl e \<Rightarrow> False | Inr b \<Rightarrow> inBox dsz b))"

lemma viewCoord_fits:
  assumes fits: "md_fits dsz md" and c: "inBox (mdSize md) c"
  obtains r where "viewCoord md c = Inr r" "inBox dsz r"
proof -
  have wf: "length (splitOffset md) = length (mdSize md)"
    "length dsz = length (mdSize md) + length (slices md)" "slices_ok (length dsz) 0 (slices md)"
    using fits by (auto simp: md_fits_def md_wf_def)
  obtain lo hi where
    lo: "viewCoord md (map (\<lambda>_. 0) (mdSize md)) = Inr lo" "inBox dsz lo" and
    hi: "viewCoord md (map (\<lambda>s. s - 1) (mdSize md)) = Inr hi" "inBox dsz hi"
    using fits by (auto simp: md_fits_def split: sum.splits)
  have len: "length c = length (mdSize md)" by (rule inBox_length[OF c])
  obtain r where r: "viewCoord md c = Inr r"
    using toRegionDataCoordLoop_total[of "length dsz" 0 "slices md" c "splitOffset md"] wf len
    by (auto simp: viewCoord_def toRegionDataCoord_def)
  have "list_all2 (\<le>) (map (\<lambda>_. 0) (mdSize md)) c" "list_all2 (\<le>) c (map (\<lambda>s. s - 1) (mdSize md))"
    using c by (auto simp: inBox_def list_all2_conv_all_nth)
  then have "inBox dsz r"
    using toRegionDataCoordLoop_between lo hi r
    unfolding viewCoord_def toRegionDataCoord_def by blast
  with r show ?thesis by (rule that)
qed

lemma viewCoord_inj:
  assumes "md_wf D md" "length c = length (mdSize md)" "length c' = length (mdSize md)"
    "viewCoord md c = Inr r" "viewCoord md c' = Inr r"
  shows "c = c'"
  using assms toRegionDataCoordLoop_inj[of D 0 c "splitOffset md" "slices md" r c']
  by (auto simp: md_wf_def viewCoord_def toRegionDataCoord_def)

lemma length_sizeToMultipliers [simp]: "length (sizeToMultipliers sz) = length sz"
proof -
  have "length (sizeToMultipliersLoop m sz) = length sz" for m
    by (induction m sz rule: sizeToMultipliersLoop.induct) auto
  then show ?thesis by (simp add: sizeToMultipliers_def)
qed

lemma viewIndex_fits:
  assumes "md_fits dsz md" "inBox (mdSize md) c"
  obtains r where "viewCoord md c = Inr r" "inBox dsz r" "viewIndex md dsz c = Inr (radix dsz r)"
proof -
  from viewCoord_fits[OF assms] obtain r where r: "viewCoord md c = Inr r" "inBox dsz r" .
  moreover have "viewIndex md dsz c = Inr (radix dsz r)"
    using r assms(1) coordToOffset_radix[OF inBox_length[OF r(2)]]
    by (simp add: viewIndex_def toRegionDataIndex_def viewCoord_def md_fits_def md_wf_def)
  ultimately show ?thesis by (rule that)
qed

definition theIndex :: "regionMatrixMetadata \<Rightarrow> int list \<Rightarrow> coord \<Rightarrow> int" where
  "theIndex md dsz c = (case viewIndex md dsz c of Inl e \<Rightarrow> 0 | Inr i \<Rightarrow> i)"

lemma theIndex:
  assumes "md_fits dsz md" "inBox (mdSize md) c"
  shows "viewIndex md dsz c = Inr (theIndex md dsz c)" "0 \<le> theIndex md dsz c"
    "theIndex md dsz c < prod_list dsz"
proof -
  from viewIndex_fits[OF assms] obtain r where
    r: "inBox dsz r" "viewIndex md dsz c = Inr (radix dsz r)" by blast
  show "viewIndex md dsz c = Inr (theIndex md dsz c)" "0 \<le> theIndex md dsz c"
    "theIndex md dsz c < prod_list dsz"
    using r radix_bounds[OF r(1)] by (simp_all add: theIndex_def)
qed

lemma theIndex_inj: "md_fits dsz md \<Longrightarrow> inj_on (theIndex md dsz) {c. inBox (mdSize md) c}"
proof (rule inj_onI)
  fix c c' assume fits: "md_fits dsz md" and c: "c \<in> {c. inBox (mdSize md) c}" "c' \<in> {c. inBox (mdSize md) c}"
    and eq: "theIndex md dsz c = theIndex md dsz c'"
  obtain r where r: "viewCoord md c = Inr r" "inBox dsz r" "viewIndex md dsz c = Inr (radix dsz r)"
    using viewIndex_fits[OF fits] c by blast
  obtain r' where r': "viewCoord md c' = Inr r'" "inBox dsz r'" "viewIndex md dsz c' = Inr (radix dsz r')"
    using viewIndex_fits[OF fits] c by blast
  have "r = r'" using r r' eq radix_inj by (simp add: theIndex_def)
  then show "c = c'" using viewCoord_inj[of "length dsz" md c c' r] r r' c fits
    by (auto simp: md_fits_def dest: inBox_length)
qed

end
