(* ===== verification/Storage.thy ===== *)
theory Storage
  imports RegionCoords
begin

text \<open>
  The shared element buffers: \<open>MatrixStorage\<close> of \<open>runtime/matrixstorage.h\<close>.

  Several regions may refer to one storage, and the copy routines compare storage pointers, so
  storages live in an explicit heap: an identifier stands for a \<open>MatrixStoragePtr\<close>, \<open>mem\<close> maps it
  to its elements, and \<open>nextId\<close> is the next one \<open>new MatrixStorage\<close> answers.  The elements of a
  new storage are not initialised by the code: the parameter \<open>junk\<close> is what they hold.
\<close>

section \<open>The heap of storages\<close>

record 'e heap =
  nextId :: nat
  mem :: "nat \<Rightarrow> 'e list option"

type_synonym storagePtr = "nat option"

definition heap_ok :: "'e heap \<Rightarrow> bool" where
  "heap_ok h = (\<forall>i. nextId h \<le> i \<longrightarrow> mem h i = None)"

definition newStorage :: "(nat \<Rightarrow> 'e) \<Rightarrow> nat \<Rightarrow> 'e heap \<Rightarrow> nat \<times> 'e heap" where
  "newStorage junk n h =
     (nextId h, h\<lparr>nextId := nextId h + 1, mem := (mem h)(nextId h := Some (map junk [0..<n]))\<rparr>)"

definition storageData :: "storagePtr \<Rightarrow> 'e heap \<Rightarrow> 'e list res" where
  "storageData s h =
     (case s of None \<Rightarrow> Inl NullDeref
      | Some i \<Rightarrow> (case mem h i of None \<Rightarrow> Inl NullDeref | Some xs \<Rightarrow> Inr xs))"

definition storageCount :: "storagePtr \<Rightarrow> 'e heap \<Rightarrow> int res" where
  "storageCount s h = rmap (\<lambda>xs. int (length xs)) (storageData s h)"

definition hread :: "storagePtr \<Rightarrow> int \<Rightarrow> 'e heap \<Rightarrow> 'e res" where
  "hread s i h = rbind (storageData s h) (\<lambda>xs. rd xs i)"

definition setMem :: "nat \<Rightarrow> 'e list \<Rightarrow> 'e heap \<Rightarrow> 'e heap" where
  "setMem i xs h = h\<lparr>mem := (mem h)(i := Some xs)\<rparr>"

definition hwrite :: "storagePtr \<Rightarrow> int \<Rightarrow> 'e \<Rightarrow> 'e heap \<Rightarrow> 'e heap res" where
  "hwrite s i v h =
     (case s of None \<Rightarrow> Inl NullDeref
      | Some j \<Rightarrow> rbind (storageData s h) (\<lambda>xs. rmap (\<lambda>ys. setMem j ys h) (wr xs i v)))"

text \<open>\<open>MatrixStorage::randomize\<close>: the generator is a parameter, called once per element.\<close>

definition hrandomize :: "(nat \<Rightarrow> 'e) \<Rightarrow> storagePtr \<Rightarrow> 'e heap \<Rightarrow> 'e heap res" where
  "hrandomize rnd s h =
     (case s of None \<Rightarrow> Inl NullDeref
      | Some j \<Rightarrow> rmap (\<lambda>xs. setMem j (map rnd [0..<length xs]) h) (storageData s h))"

section \<open>Laws of the heap\<close>

lemma setMem_simps [simp]:
  "mem (setMem i xs h) j = (if j = i then Some xs else mem h j)"
  "nextId (setMem i xs h) = nextId h"
  "setMem i ys (setMem i xs h) = setMem i ys h"
  by (simp_all add: setMem_def)

lemma setMem_same: "mem h i = Some xs \<Longrightarrow> setMem i xs h = h"
  by (simp add: setMem_def fun_upd_idem)

lemma storageData_mem: "storageData (Some i) h = Inr xs \<longleftrightarrow> mem h i = Some xs"
  by (auto simp: storageData_def split: option.splits)

lemma hread_mem: "mem h i = Some xs \<Longrightarrow> hread (Some i) k h = rd xs k"
  by (simp add: hread_def storageData_def)

lemma hwrite_mem:
  "mem h i = Some xs \<Longrightarrow> hwrite (Some i) k v h = rmap (\<lambda>ys. setMem i ys h) (wr xs k v)"
  by (simp add: hwrite_def storageData_def)

lemma hwrite_frame: "hwrite s k v h = Inr h' \<Longrightarrow> Some j \<noteq> s \<Longrightarrow> mem h' j = mem h j"
  by (auto simp: hwrite_def rmap_Inr_iff rbind_Inr_iff split: option.splits)

lemma hwrite_nextId: "hwrite s k v h = Inr h' \<Longrightarrow> nextId h' = nextId h"
  by (auto simp: hwrite_def rmap_Inr_iff rbind_Inr_iff split: option.splits)

lemma hread_hwrite:
  assumes "hwrite s i v h = Inr h'"
  shows "hread t j h' = (if t = s \<and> j = i then Inr v else hread t j h)"
  using assms
  by (auto simp: hwrite_def hread_def storageData_def rmap_Inr_iff rbind_Inr_iff rd_wr rbind_def rmap_def
      split: option.splits sum.splits if_splits)

lemma newStorage_mem:
  assumes "heap_ok h" "newStorage junk n h = (s, h')"
  shows "heap_ok h'" "mem h' s = Some (map junk [0..<n])" "mem h s = None"
    "\<And>j. mem h j \<noteq> None \<Longrightarrow> mem h' j = mem h j"
  using assms by (auto simp: newStorage_def heap_ok_def)

section \<open>Copying cells\<close>

text \<open>One iteration of a copy loop between two storages, and what the whole loop does.\<close>

definition copyCell ::
    "storagePtr \<Rightarrow> (coord \<Rightarrow> int res) \<Rightarrow> storagePtr \<Rightarrow> (coord \<Rightarrow> int res) \<Rightarrow> coord \<Rightarrow> 'e heap \<Rightarrow> 'e heap res" where
  "copyCell src from dst to c h =
     rbind (from c) (\<lambda>i. rbind (to c) (\<lambda>j. rbind (hread src i h) (\<lambda>v. hwrite dst j v h)))"

lemma foldR_copyCell:
  assumes "mem h a = Some xs" "mem h b = Some ys" "a \<noteq> b" "distinct cs"
    and "\<forall>c \<in> set cs. from c = Inr (f c) \<and> 0 \<le> f c \<and> f c < int (length xs)"
    and "\<forall>c \<in> set cs. to c = Inr (g c) \<and> 0 \<le> g c \<and> g c < int (length ys)"
    and "inj_on g (set cs)"
  shows "\<exists>ys'. foldR (copyCell (Some a) from (Some b) to) cs h = Inr (setMem b ys' h) \<and>
      length ys' = length ys \<and> (\<forall>c \<in> set cs. rd ys' (g c) = rd xs (f c)) \<and>
      (\<forall>i. i \<notin> g ` set cs \<longrightarrow> rd ys' i = rd ys i)"
  using assms
proof (induction cs arbitrary: h ys)
  case Nil
  then show ?case by (intro exI[of _ ys]) (auto simp: setMem_same)
next
  case (Cons c cs)
  obtain v zs where v: "rd xs (f c) = Inr v" and w: "wr ys (g c) v = Inr zs"
    using Cons.prems(5,6) by simp
  let ?h1 = "setMem b zs h"
  have step: "copyCell (Some a) from (Some b) to c h = Inr ?h1"
    using Cons.prems v w by (simp add: copyCell_def hread_mem hwrite_mem)
  have g: "g c \<notin> g ` set cs" using Cons.prems(4,7) by (auto simp: inj_on_def)
  have "mem ?h1 a = Some xs" "mem ?h1 b = Some zs" using Cons.prems(1,3) by auto
  from Cons.IH[OF this Cons.prems(3)] Cons.prems wr_length[OF w] obtain ys' where
    "foldR (copyCell (Some a) from (Some b) to) cs ?h1 = Inr (setMem b ys' h)"
    "length ys' = length zs" "\<forall>c \<in> set cs. rd ys' (g c) = rd xs (f c)"
    "\<forall>i. i \<notin> g ` set cs \<longrightarrow> rd ys' i = rd zs i"
    by auto
  then show ?case using step rd_wr[OF w] g v wr_length[OF w] by (intro exI[of _ ys']) auto
qed

end
