(* ===== verification/RegionMessages.thy ===== *)
theory RegionMessages
  imports RegionCoords
begin

text \<open>
  The messages of \<open>runtime/regiondataremotemessages.h\<close>: request and reply contents as datatypes,
  the numeric message types, the packed \<open>RegionMatrixMetadata\<close> buffer with its offset based
  accessors, and the stack of headers that forwarding hosts put in front of a request.
  \<open>HostPid\<close> is the process identity of \<open>runtime/remotehost.h\<close>.

  All fields of the packed metadata are 4 byte integers (\<open>int\<close> and \<open>IndexT\<close>), so the buffer is a
  list of such words and offsets count words.  Sizes in bytes are those of the 64 bit build.
\<close>

section \<open>Process identities\<close>

record hostPid =
  hostid :: int
  pid :: int

definition hostPid_eq :: "hostPid \<Rightarrow> hostPid \<Rightarrow> bool" where
  "hostPid_eq a b = (hostid a = hostid b \<and> pid a = pid b)"

definition hostPid_less :: "hostPid \<Rightarrow> hostPid \<Rightarrow> bool" where
  "hostPid_less a b = (if hostid a = hostid b then pid a < pid b else hostid a < hostid b)"

lemma hostPid_eq_iff: "hostPid_eq a b \<longleftrightarrow> a = b"
  by (cases a; cases b) (simp add: hostPid_eq_def)

lemma hostPid_less_irrefl: "\<not> hostPid_less a a"
  by (simp add: hostPid_less_def)

lemma hostPid_less_trans: "hostPid_less a b \<Longrightarrow> hostPid_less b c \<Longrightarrow> hostPid_less a c"
  by (auto simp: hostPid_less_def split: if_splits)

lemma hostPid_less_total: "hostPid_less a b \<or> a = b \<or> hostPid_less b a"
  unfolding hostPid_eq_iff[symmetric] by (auto simp: hostPid_less_def hostPid_eq_def)

record dataHostPidListItem =
  itemHost :: hostPid
  itemWeight :: int

type_synonym dataHostPidList = "dataHostPidListItem list"

type_synonym encodedPtr = nat

record remoteRegionHandler =
  rrhHost :: hostPid
  rrhHandler :: encodedPtr

section \<open>Contents\<close>

datatype 'e request =
    ReadCellMessage coord
  | WriteCellMessage 'e coord
  | ReadCellCacheMessage int coord
  | WriteCellCacheMessage int 'e coord
  | GetHostListMessage coord coord
  | UpdateHandlerChainMessage hostPid int
  | AllocDataMessage
  | RandomizeDataMessage
  | CopyToMatrixStorageMessage regionMatrixMetadata
  | CopyFromMatrixStorageMessage regionMatrixMetadata "'e list"
  | CopyRegionDataSplitMessage

datatype 'e reply =
    ReadCellReplyMessage 'e
  | WriteCellReplyMessage 'e
  | CacheReplyMessage int int "'e list"
  | GetHostListReplyMessage int dataHostPidList
  | UpdateHandlerChainReplyMessage hostPid int encodedPtr bool
  | AllocDataReplyMessage int
  | RandomizeDataReplyMessage
  | CopyToMatrixStorageReplyMessage int "'e list"
  | CopyFromMatrixStorageReplyMessage
  | CopyRegionDataSplitReplyMessage int int "int list" "remoteRegionHandler list"

datatype messageType =
    READCELL | WRITECELL | READCELLCACHE | WRITECELLCACHE | GETHOSTLIST | UPDATEHANDLERCHAIN
  | ALLOCDATA | RANDOMIZEDATA | CREATEREMOTEREGIONDATA | CREATEREMOTEREGIONDATAREPLY
  | INITWITHREGIONHANDLER | TOSCRATCHSTORAGE | FROMSCRATCHSTORAGE | COPYREGIONDATASPLIT

fun messageCode :: "messageType \<Rightarrow> int" where
  "messageCode READCELL = 11"
| "messageCode WRITECELL = 12"
| "messageCode READCELLCACHE = 13"
| "messageCode WRITECELLCACHE = 14"
| "messageCode GETHOSTLIST = 15"
| "messageCode UPDATEHANDLERCHAIN = 16"
| "messageCode ALLOCDATA = 17"
| "messageCode RANDOMIZEDATA = 18"
| "messageCode CREATEREMOTEREGIONDATA = 19"
| "messageCode CREATEREMOTEREGIONDATAREPLY = 20"
| "messageCode INITWITHREGIONHANDLER = 21"
| "messageCode TOSCRATCHSTORAGE = 22"
| "messageCode FROMSCRATCHSTORAGE = 23"
| "messageCode COPYREGIONDATASPLIT = 24"

lemma messageCode_inj: "messageCode a = messageCode b \<Longrightarrow> a = b"
  by (cases a; cases b) simp_all

section \<open>The packed metadata\<close>

definition wordsAt :: "int list \<Rightarrow> nat \<Rightarrow> nat \<Rightarrow> int list" where
  "wordsAt buf off n = take n (drop off buf)"

definition buf_dimensions :: "int list \<Rightarrow> nat" where
  "buf_dimensions buf = nat (buf ! 0)"

definition buf_numSliceDimensions :: "int list \<Rightarrow> nat" where
  "buf_numSliceDimensions buf = nat (buf ! 1)"

definition sizeOff :: "int list \<Rightarrow> nat" where
  "sizeOff buf = 2 + buf_dimensions buf"

definition sliceDimensionsOff :: "int list \<Rightarrow> nat" where
  "sliceDimensionsOff buf = sizeOff buf + buf_dimensions buf"

definition slicePositionsOff :: "int list \<Rightarrow> nat" where
  "slicePositionsOff buf = sliceDimensionsOff buf + buf_numSliceDimensions buf"

definition metadataLen :: "nat \<Rightarrow> nat \<Rightarrow> nat" where
  "metadataLen d numSlices = 4 * 2 + 4 * 2 * d + (4 + 4) * numSlices"

definition bufMetadata :: "int list \<Rightarrow> regionMatrixMetadata" where
  "bufMetadata buf =
     (let d = buf_dimensions buf; n = buf_numSliceDimensions buf
      in \<lparr>splitOffset = wordsAt buf 2 d, mdSize = wordsAt buf (sizeOff buf) d,
          slices = zip (wordsAt buf (sliceDimensionsOff buf) n) (wordsAt buf (slicePositionsOff buf) n)\<rparr>)"

text \<open>Filling the buffer through its accessors, as \<open>computeRegionMatrixMetadata\<close> does.\<close>

definition packMetadata :: "regionMatrixMetadata \<Rightarrow> int list" where
  "packMetadata md =
     [int (length (mdSize md)), int (length (slices md))] @ splitOffset md @ mdSize md @
     map fst (slices md) @ map snd (slices md)"

lemma bufMetadata_pack:
  "length (splitOffset md) = length (mdSize md) \<Longrightarrow> bufMetadata (packMetadata md) = md"
  by (cases md) (simp add: bufMetadata_def packMetadata_def Let_def wordsAt_def sizeOff_def
      sliceDimensionsOff_def slicePositionsOff_def buf_dimensions_def buf_numSliceDimensions_def
      zip_map_fst_snd)

lemma packMetadata_len:
  "length (splitOffset md) = length (mdSize md) \<Longrightarrow>
   4 * length (packMetadata md) = metadataLen (length (mdSize md)) (length (slices md))"
  by (simp add: packMetadata_def metadataLen_def)

section \<open>Headers\<close>

text \<open>\<open>GeneralMessageHeader\<close> is written by the requester and carries the addresses where the
  answer is wanted; \<open>ForwardMessageHeader\<close> is put in front by every host that passes the request
  on and carries its reply proxy.\<close>

datatype header =
    GeneralMessageHeader (hType: messageType) (contentOffset: nat) (responsePtr: encodedPtr)
      (responseCounter: encodedPtr)
  | ForwardMessageHeader (hType: messageType) (contentOffset: nat) (callback: encodedPtr)

definition sizeofGeneralHeader :: nat where
  "sizeofGeneralHeader = 1 + 4 + 8 + 8 + 8 + 8 + 8"

definition sizeofForwardHeader :: nat where
  "sizeofForwardHeader = 1 + 4 + 8 + 8"

fun headerSize :: "header \<Rightarrow> nat" where
  "headerSize (GeneralMessageHeader t o' r c) = sizeofGeneralHeader"
| "headerSize (ForwardMessageHeader t o' p) = sizeofForwardHeader"

text \<open>A message on the wire: its headers, outermost first, and the content.\<close>

type_synonym 'c wire = "header list \<times> 'c"

definition fetchHeader :: "messageType \<Rightarrow> encodedPtr \<Rightarrow> encodedPtr \<Rightarrow> header" where
  "fetchHeader t response counter = GeneralMessageHeader t sizeofGeneralHeader response counter"

text \<open>\<open>RegionDataRemote::forwardMessage\<close>.\<close>

definition forwardMessage :: "encodedPtr \<Rightarrow> 'c wire \<Rightarrow> 'c wire" where
  "forwardMessage caller m =
     (let base = hd (fst m)
      in (ForwardMessageHeader (hType base) (sizeofForwardHeader + contentOffset base) caller # fst m, snd m))"

text \<open>\<open>RegionMatrixProxy::sendReply\<close> repeats the request's headers in front of the answer, and
  \<open>forwardReplyMsg\<close> drops the outermost one.\<close>

definition sendReply :: "'r \<Rightarrow> 'c wire \<Rightarrow> 'r wire" where
  "sendReply r m = (fst m, r)"

definition forwardReplyMsg :: "'r wire \<Rightarrow> 'r wire" where
  "forwardReplyMsg m = (tl (fst m), snd m)"

definition wireContentOffset :: "'c wire \<Rightarrow> nat" where
  "wireContentOffset m = sum_list (map headerSize (fst m))"

definition wire_ok :: "'c wire \<Rightarrow> bool" where
  "wire_ok m = (fst m \<noteq> [] \<and> contentOffset (hd (fst m)) = wireContentOffset m)"

lemma forwardMessage_ok: "wire_ok m \<Longrightarrow> wire_ok (forwardMessage p m)"
  by (simp add: wire_ok_def forwardMessage_def wireContentOffset_def Let_def)

lemma forwardReply_forwardMessage:
  "forwardReplyMsg (sendReply r (forwardMessage p m)) = sendReply r m"
  by (simp add: forwardReplyMsg_def sendReply_def forwardMessage_def Let_def)

lemma forward_chain:
  "(forwardReplyMsg ^^ length ps) (sendReply r (foldr forwardMessage ps m)) = sendReply r m"
  by (induction ps) (simp_all add: funpow_Suc_right forwardReply_forwardMessage del: funpow.simps)

lemma foldr_forward_ok: "wire_ok m \<Longrightarrow> wire_ok (foldr forwardMessage ps m)"
  by (induction ps) (auto intro: forwardMessage_ok)

lemma fetch_wire_ok: "wire_ok ([fetchHeader t r c], x)"
  by (simp add: wire_ok_def fetchHeader_def wireContentOffset_def)

end
