(* ===== verification/RegionRaw.thy ===== *)
theory RegionRaw
  imports Storage RegionMessages
begin

text \<open>
  The locally stored regions: \<open>RegionDataRaw\<close> (\<open>runtime/regiondataraw.cpp\<close>), a dense array over a
  \<open>MatrixStorage\<close>, and the zero dimensional \<open>RegionData0D\<close> and \<open>ConstRegionData0D\<close>
  (\<open>runtime/regiondata0D.h\<close>).  The locale \<open>region_store\<close> is the contract of the interface
  \<open>RegionDataI\<close> for cell accesses; every kind of region data interprets it.
\<close>

section \<open>The cell contract of RegionDataI\<close>

locale region_store =
  fixes readC :: "'s \<Rightarrow> coord \<Rightarrow> 'e res"
    and writeC :: "'s \<Rightarrow> coord \<Rightarrow> 'e \<Rightarrow> 's res"
    and cells :: "'s \<Rightarrow> coord set"
    and inv :: "'s \<Rightarrow> bool"
  assumes read_ok: "inv s \<Longrightarrow> c \<in> cells s \<Longrightarrow> \<exists>v. readC s c = Inr v"
    and write_ok: "inv s \<Longrightarrow> c \<in> cells s \<Longrightarrow> \<exists>s'. writeC s c v = Inr s'"
    and write_inv: "inv s \<Longrightarrow> c \<in> cells s \<Longrightarrow> writeC s c v = Inr s' \<Longrightarrow> inv s' \<and> cells s' = cells s"
    and read_write: "inv s \<Longrightarrow> c \<in> cells s \<Longrightarrow> c' \<in> cells s \<Longrightarrow> writeC s c v = Inr s' \<Longrightarrow>
      readC s' c' = (if c' = c then Inr v else readC s c')"
begin

lemma write_all:
  assumes "inv s" "set cs \<subseteq> cells s" "distinct cs"
  shows "\<exists>s'. foldR (\<lambda>c s. writeC s c (f c)) cs s = Inr s' \<and> inv s' \<and> cells s' = cells s \<and>
    (\<forall>c \<in> cells s. readC s' c = (if c \<in> set cs then Inr (f c) else readC s c))"
  using assms
proof (induction cs arbitrary: s)
  case (Cons c cs)
  have c: "c \<in> cells s" using Cons.prems by simp
  obtain s1 where w: "writeC s c (f c) = Inr s1" using write_ok Cons.prems c by blast
  note i = write_inv[OF Cons.prems(1) c w]
  obtain s' where "foldR (\<lambda>c s. writeC s c (f c)) cs s1 = Inr s'" "inv s'" "cells s' = cells s1"
    "\<forall>c \<in> cells s1. readC s' c = (if c \<in> set cs then Inr (f c) else readC s1 c)"
    using Cons.IH[of s1] i Cons.prems by auto
  then show ?case using w i read_write[OF Cons.prems(1) c _ w] by auto
qed simp

lemma write_same:
  assumes "inv s" "c \<in> cells s" "c' \<in> cells s" "readC s c = Inr v" "writeC s c v = Inr s'"
  shows "readC s' c' = readC s c'"
  using read_write[OF assms(1-3,5)] assms(4) by simp

lemma write_write:
  assumes "inv s" "c \<in> cells s" "c' \<in> cells s" "writeC s c u = Inr s1" "writeC s1 c v = Inr s2"
    "writeC s c v = Inr s3"
  shows "readC s2 c' = readC s3 c'"
  using read_write[OF assms(1-3,4)] read_write[OF _ _ _ assms(5), of c'] write_inv[OF assms(1,2,4)]
    read_write[OF assms(1-3,6)] assms(2,3) by simp

end

section \<open>RegionDataRaw\<close>

record regionDataRaw =
  rawSize :: "int list"
  rawMultipliers :: "int list"
  rawStorage :: storagePtr

text \<open>\<open>init\<close> computes \<open>_multipliers\<close>; \<open>m\<close> is \<open>_multipliers[i - 1] * _size[i - 1]\<close>.\<close>

fun rawMultsLoop :: "int \<Rightarrow> int list \<Rightarrow> int list" where
  "rawMultsLoop m [] = []"
| "rawMultsLoop m (s # ss) = m # rawMultsLoop (m * s) ss"

fun numDataLoop :: "int \<Rightarrow> int list \<Rightarrow> int" where
  "numDataLoop n [] = n"
| "numDataLoop n (s # ss) = numDataLoop (n * s) ss"

text \<open>\<open>allocData\<close>: the answer is the number of elements, or 0 when there is a storage already.\<close>

definition raw_allocData ::
    "(nat \<Rightarrow> 'e) \<Rightarrow> regionDataRaw \<Rightarrow> 'e heap \<Rightarrow> int \<times> regionDataRaw \<times> 'e heap" where
  "raw_allocData junk r h =
     (case rawStorage r of
        Some s \<Rightarrow> (0, r, h)
      | None \<Rightarrow>
          (let numData = numDataLoop 1 (rawSize r); (s, h') = newStorage junk (nat numData) h
           in (numData, r\<lparr>rawStorage := Some s\<rparr>, h')))"

fun copyDataLoop :: "storagePtr \<Rightarrow> int \<Rightarrow> 'e list \<Rightarrow> 'e heap \<Rightarrow> 'e heap res" where
  "copyDataLoop s i [] h = Inr h"
| "copyDataLoop s i (v # vs) h = rbind (hwrite s i v h) (copyDataLoop s (i + 1) vs)"

definition raw_init ::
    "(nat \<Rightarrow> 'e) \<Rightarrow> int list \<Rightarrow> 'e list option \<Rightarrow> 'e heap \<Rightarrow> (regionDataRaw \<times> 'e heap) res" where
  "raw_init junk sz data h =
     (let r = \<lparr>rawSize = sz, rawMultipliers = rawMultsLoop 1 sz, rawStorage = None\<rparr>
      in case data of
           None \<Rightarrow> Inr (r, h)
         | Some vs \<Rightarrow>
             (let (numData, r', h') = raw_allocData junk r h
              in if int (length vs) < numData then Inl OutOfBounds
                 else rmap (\<lambda>h''. (r', h'')) (copyDataLoop (rawStorage r') 0 (take (nat numData) vs) h')))"

fun rawOffsetLoop :: "int \<Rightarrow> int list \<Rightarrow> coord \<Rightarrow> int" where
  "rawOffsetLoop offset (m # ms) (c # cs) = rawOffsetLoop (offset + m * c) ms cs"
| "rawOffsetLoop offset _ _ = offset"

definition raw_coordOffset :: "regionDataRaw \<Rightarrow> coord \<Rightarrow> int" where
  "raw_coordOffset r coord = rawOffsetLoop 0 (rawMultipliers r) coord"

definition raw_readCell :: "regionDataRaw \<Rightarrow> coord \<Rightarrow> 'e heap \<Rightarrow> 'e res" where
  "raw_readCell r coord h = hread (rawStorage r) (raw_coordOffset r coord) h"

definition raw_writeCell :: "regionDataRaw \<Rightarrow> coord \<Rightarrow> 'e \<Rightarrow> 'e heap \<Rightarrow> 'e heap res" where
  "raw_writeCell r coord value h = hwrite (rawStorage r) (raw_coordOffset r coord) value h"

definition raw_randomize :: "(nat \<Rightarrow> 'e) \<Rightarrow> regionDataRaw \<Rightarrow> 'e heap \<Rightarrow> 'e heap res" where
  "raw_randomize rnd r h = hrandomize rnd (rawStorage r) h"

text \<open>The two copies between a region and a scratch storage.\<close>

definition raw_copyToScratchMatrixStorage ::
    "regionDataRaw \<Rightarrow> regionMatrixMetadata \<Rightarrow> storagePtr \<Rightarrow> regionMatrixMetadata \<Rightarrow> int list \<Rightarrow>
     'e heap \<Rightarrow> 'e heap res" where
  "raw_copyToScratchMatrixStorage r origMd scratch scratchMd scratchSize h =
     (let d = length (mdSize origMd);
          scratchMults = sizeToMultipliers (take (length (mdSize scratchMd)) scratchSize)
      in ended (doWhile (incCoord (mdSize origMd))
           (copyCell (rawStorage r)
              (\<lambda>c. toRegionDataIndex d c (splitOffset origMd) (slices origMd) (rawMultipliers r))
              scratch
              (\<lambda>c. toRegionDataIndex d c (splitOffset scratchMd) (slices scratchMd) scratchMults))
           (replicate d 0) h))"

definition raw_copyFromScratchMatrixStorage ::
    "regionDataRaw \<Rightarrow> regionMatrixMetadata \<Rightarrow> storagePtr \<Rightarrow> regionMatrixMetadata \<Rightarrow> int list \<Rightarrow>
     'e heap \<Rightarrow> 'e heap res" where
  "raw_copyFromScratchMatrixStorage r origMd scratch scratchMd scratchSize h =
     (let d = length (mdSize origMd);
          scratchMults = sizeToMultipliers (take d scratchSize)
      in ended (doWhile (incCoord (mdSize origMd))
           (copyCell scratch
              (\<lambda>c. toRegionDataIndex d c (splitOffset scratchMd) (slices scratchMd) scratchMults)
              (rawStorage r)
              (\<lambda>c. toRegionDataIndex d c (splitOffset origMd) (slices origMd) (rawMultipliers r)))
           (replicate d 0) h))"

section \<open>RegionDataRaw answering messages\<close>

definition raw_hosts :: "hostPid \<Rightarrow> coord \<Rightarrow> coord \<Rightarrow> dataHostPidList" where
  "raw_hosts self begin' end' =
     [\<lparr>itemHost = self, itemWeight = fold (\<lambda>(b, e) n. n * (e - b)) (zip begin' end') 1\<rparr>]"

definition raw_processReadCellCacheMsg :: "regionDataRaw \<Rightarrow> int \<Rightarrow> coord \<Rightarrow> 'e heap \<Rightarrow> 'e reply res" where
  "raw_processReadCellCacheMsg r cacheLineSize coord h =
     (if cacheLineSize = 0 then Inl DivByZero
      else
        (let off = raw_coordOffset r coord; startOffset = off - cmod off cacheLineSize
         in rbind (storageData (rawStorage r) h) (\<lambda>xs.
              (let numValues = min (int (length xs) - startOffset) cacheLineSize
               in if startOffset < 0 \<or> numValues < 0 then Inl OutOfBounds
                  else Inr (CacheReplyMessage 0 (numValues - 1)
                         (take (nat numValues) (drop (nat startOffset) xs)))))))"

text \<open>The handler of a cached write reads the line and never stores the value it was sent.\<close>

definition raw_processWriteCellCacheMsg ::
    "regionDataRaw \<Rightarrow> int \<Rightarrow> 'e \<Rightarrow> coord \<Rightarrow> 'e heap \<Rightarrow> ('e reply \<times> 'e heap) res" where
  "raw_processWriteCellCacheMsg r cacheLineSize value coord h =
     (if cacheLineSize = 0 then Inl DivByZero
      else
        (let off = raw_coordOffset r coord; startOffset = off - cmod off cacheLineSize
         in rbind (storageData (rawStorage r) h) (\<lambda>xs.
              (if startOffset < 0 \<or> startOffset + cacheLineSize > int (length xs) then Inl OutOfBounds
               else Inr (CacheReplyMessage 0 (cacheLineSize - 1)
                      (take (nat cacheLineSize) (drop (nat startOffset) xs)), h)))))"

definition countOf :: "int list \<Rightarrow> int" where
  "countOf sz = numDataLoop 1 sz"

text \<open>The loop bodies of the two copy messages; \<open>n\<close> is the position in the message buffer.\<close>

definition copyOutCell ::
    "storagePtr \<Rightarrow> (coord \<Rightarrow> int res) \<Rightarrow> 'e heap \<Rightarrow> coord \<Rightarrow> int \<times> 'e list \<Rightarrow> (int \<times> 'e list) res" where
  "copyOutCell src index h c st =
     (case st of (n, buf) \<Rightarrow>
        rbind (index c) (\<lambda>i. rbind (hread src i h) (\<lambda>v. rmap (\<lambda>buf'. (n + 1, buf')) (wr buf n v))))"

definition copyInCell ::
    "storagePtr \<Rightarrow> (coord \<Rightarrow> int res) \<Rightarrow> 'e list \<Rightarrow> coord \<Rightarrow> int \<times> 'e heap \<Rightarrow> (int \<times> 'e heap) res" where
  "copyInCell dst index buf c st =
     (case st of (n, h) \<Rightarrow>
        rbind (index c) (\<lambda>i. rbind (rd buf n) (\<lambda>v. rmap (\<lambda>h'. (n + 1, h')) (hwrite dst i v h))))"

definition rawIndex :: "regionDataRaw \<Rightarrow> regionMatrixMetadata \<Rightarrow> coord \<Rightarrow> int res" where
  "rawIndex r md c =
     toRegionDataIndex (length (mdSize md)) c (splitOffset md) (slices md) (rawMultipliers r)"

definition raw_processCopyToMatrixStorageMsg ::
    "(nat \<Rightarrow> 'e) \<Rightarrow> regionDataRaw \<Rightarrow> regionMatrixMetadata \<Rightarrow> 'e heap \<Rightarrow> 'e reply res" where
  "raw_processCopyToMatrixStorageMsg junk r md h =
     (let d = length (mdSize md); storage_count = countOf (mdSize md);
          buf = map junk [0..<nat storage_count]
      in rmap (\<lambda>(n, buf'). CopyToMatrixStorageReplyMessage storage_count buf')
           (ended (doWhile (incCoord (mdSize md)) (copyOutCell (rawStorage r) (rawIndex r md) h)
              (replicate d 0) (0, buf))))"

definition raw_processCopyFromMatrixStorageMsg ::
    "regionDataRaw \<Rightarrow> regionMatrixMetadata \<Rightarrow> 'e list \<Rightarrow> 'e heap \<Rightarrow> ('e reply \<times> 'e heap) res" where
  "raw_processCopyFromMatrixStorageMsg r md storage h =
     rmap (\<lambda>(n, h'). (CopyFromMatrixStorageReplyMessage, h'))
       (ended (doWhile (incCoord (mdSize md)) (copyInCell (rawStorage r) (rawIndex r md) storage)
          (replicate (length (mdSize md)) 0) (0, h)))"

section \<open>RegionData0D and ConstRegionData0D\<close>

text \<open>\<open>RegionData0D\<close> refers to one cell of a storage, \<open>ConstRegionData0D\<close> holds a value.\<close>

record regionData0D =
  cell0D :: "storagePtr \<times> int"

definition r0D_readCell :: "regionData0D \<Rightarrow> coord \<Rightarrow> 'e heap \<Rightarrow> 'e res" where
  "r0D_readCell r coord h = hread (fst (cell0D r)) (snd (cell0D r)) h"

definition r0D_writeCell :: "regionData0D \<Rightarrow> coord \<Rightarrow> 'e \<Rightarrow> 'e heap \<Rightarrow> 'e heap res" where
  "r0D_writeCell r coord value h = hwrite (fst (cell0D r)) (snd (cell0D r)) value h"

definition r0D_randomize :: "(nat \<Rightarrow> 'e) \<Rightarrow> regionData0D \<Rightarrow> 'e heap \<Rightarrow> 'e heap res" where
  "r0D_randomize rnd r h = hwrite (fst (cell0D r)) (snd (cell0D r)) (rnd 0) h"

definition r0D_hosts :: "hostPid \<Rightarrow> dataHostPidList" where
  "r0D_hosts self = [\<lparr>itemHost = self, itemWeight = 1\<rparr>]"

definition r0D_processReadCellCacheMsg :: "regionData0D \<Rightarrow> 'e heap \<Rightarrow> 'e reply res" where
  "r0D_processReadCellCacheMsg r h = rmap (\<lambda>v. CacheReplyMessage 0 0 [v]) (r0D_readCell r [] h)"

definition r0D_copyScratch :: "regionData0D \<Rightarrow> 'e heap \<Rightarrow> 'e heap res" where
  "r0D_copyScratch r h = rassert False (Inr h)"

record 'e constRegionData0D =
  constValue :: 'e

definition c0D_readCell :: "'e constRegionData0D \<Rightarrow> coord \<Rightarrow> 'e res" where
  "c0D_readCell r coord = Inr (constValue r)"

definition c0D_writeCell :: "'e constRegionData0D \<Rightarrow> coord \<Rightarrow> 'e \<Rightarrow> 'e constRegionData0D res" where
  "c0D_writeCell r coord value = rassert False (Inr r)"

definition c0D_randomize :: "(nat \<Rightarrow> 'e) \<Rightarrow> 'e constRegionData0D \<Rightarrow> 'e constRegionData0D" where
  "c0D_randomize rnd r = r\<lparr>constValue := rnd 0\<rparr>"

definition c0D_processReadCellCacheMsg :: "'e constRegionData0D \<Rightarrow> 'e reply res" where
  "c0D_processReadCellCacheMsg r = rmap (\<lambda>v. CacheReplyMessage 0 0 [v]) (c0D_readCell r [])"

section \<open>The cell contract holds\<close>

lemma numDataLoop_prod: "numDataLoop n sz = n * prod_list sz"
  by (induction sz arbitrary: n) auto

lemma countOf_prod: "countOf sz = prod_list sz"
  by (simp add: countOf_def numDataLoop_prod)

lemma rawMultsLoop_eq: "rawMultsLoop m sz = sizeToMultipliersLoop m sz"
  by (induction m sz rule: sizeToMultipliersLoop.induct) auto

lemma rawOffsetLoop_eq: "rawOffsetLoop off ms c = coordToOffsetLoop off c ms"
  by (induction off ms c rule: rawOffsetLoop.induct) auto

text \<open>A region whose storage is allocated, alive and of the right length.\<close>

definition raw_holds :: "regionDataRaw \<Rightarrow> 'e heap \<Rightarrow> nat \<Rightarrow> 'e list \<Rightarrow> bool" where
  "raw_holds r h s xs = (rawStorage r = Some s \<and> mem h s = Some xs \<and>
     int (length xs) = prod_list (rawSize r) \<and> rawMultipliers r = sizeToMultipliers (rawSize r))"

definition raw_ok :: "regionDataRaw \<times> 'e heap \<Rightarrow> bool" where
  "raw_ok st = (\<exists>s xs. raw_holds (fst st) (snd st) s xs)"

definition raw_cells :: "regionDataRaw \<times> 'e heap \<Rightarrow> coord set" where
  "raw_cells st = {c. inBox (rawSize (fst st)) c}"

lemma raw_coordOffset_radix:
  assumes "raw_holds r h s xs" "inBox (rawSize r) c"
  shows "raw_coordOffset r c = radix (rawSize r) c"
  using assms coordToOffset_radix[OF inBox_length[OF assms(2)]]
  by (simp add: raw_coordOffset_def raw_holds_def rawOffsetLoop_eq coordToOffset_def)

lemma raw_readCell_radix:
  assumes "raw_holds r h s xs" "inBox (rawSize r) c"
  shows "raw_readCell r c h = Inr (xs ! nat (radix (rawSize r) c))"
  using raw_coordOffset_radix[OF assms] radix_bounds[OF assms(2)] assms(1)
  by (simp add: raw_readCell_def raw_holds_def hread_mem)

lemma raw_writeCell_radix:
  assumes "raw_holds r h s xs" "inBox (rawSize r) c"
  shows "raw_writeCell r c v h = Inr (setMem s (xs[nat (radix (rawSize r) c) := v]) h)"
  using raw_coordOffset_radix[OF assms] radix_bounds[OF assms(2)] assms(1)
  by (simp add: raw_writeCell_def raw_holds_def hwrite_mem)

lemma raw_holds_write:
  "raw_holds r h s xs \<Longrightarrow> length ys = length xs \<Longrightarrow> raw_holds r (setMem s ys h) s ys"
  by (simp add: raw_holds_def)

interpretation rawStore: region_store
    "\<lambda>st c. raw_readCell (fst st) c (snd st)"
    "\<lambda>st c v. rmap (Pair (fst st)) (raw_writeCell (fst st) c v (snd st))"
    raw_cells raw_ok
proof unfold_locales
  fix st :: "regionDataRaw \<times> 'e heap" and c v st'
  assume "raw_ok st" and c: "c \<in> raw_cells st"
  then obtain s xs where h: "raw_holds (fst st) (snd st) s xs" by (auto simp: raw_ok_def)
  have c': "inBox (rawSize (fst st)) c" using c by (simp add: raw_cells_def)
  note w = raw_writeCell_radix[OF h c', of v]
  show "\<exists>v. raw_readCell (fst st) c (snd st) = Inr v" using raw_readCell_radix[OF h c'] by blast
  show "\<exists>st'. rmap (Pair (fst st)) (raw_writeCell (fst st) c v (snd st)) = Inr st'" using w by simp
  assume st': "rmap (Pair (fst st)) (raw_writeCell (fst st) c v (snd st)) = Inr st'"
  have h': "raw_holds (fst st') (snd st') s (xs[nat (radix (rawSize (fst st)) c) := v])"
    using raw_holds_write[OF h] w st' by auto
  then show "raw_ok st' \<and> raw_cells st' = raw_cells st"
    using w st' by (auto simp: raw_ok_def raw_cells_def)
  fix d assume "d \<in> raw_cells st"
  then have d: "inBox (rawSize (fst st)) d" by (simp add: raw_cells_def)
  have f: "fst st' = fst st" using w st' by auto
  have d': "inBox (rawSize (fst st')) d" using d f by simp
  show "raw_readCell (fst st') d (snd st') =
      (if d = c then Inr v else raw_readCell (fst st) d (snd st))"
    using raw_readCell_radix[OF h' d'] raw_readCell_radix[OF h d] f radix_inj[OF c' d]
      radix_bounds[OF c'] radix_bounds[OF d] h
    by (auto simp: raw_holds_def nth_list_update nat_eq_iff)
qed

definition r0D_ok :: "regionData0D \<times> 'e heap \<Rightarrow> bool" where
  "r0D_ok st = (\<exists>s xs. fst (cell0D (fst st)) = Some s \<and> mem (snd st) s = Some xs \<and>
     0 \<le> snd (cell0D (fst st)) \<and> snd (cell0D (fst st)) < int (length xs))"

interpretation store0D: region_store
    "\<lambda>st c. r0D_readCell (fst st) c (snd st)"
    "\<lambda>st c v. rmap (Pair (fst st)) (r0D_writeCell (fst st) c v (snd st))"
    "\<lambda>st. {[]}" r0D_ok
proof unfold_locales
  fix st :: "regionData0D \<times> 'e heap" and c c' v st'
  assume "r0D_ok st" and c: "c \<in> {[]::int list}"
  then obtain s xs where h: "fst (cell0D (fst st)) = Some s" "mem (snd st) s = Some xs"
    "0 \<le> snd (cell0D (fst st))" "snd (cell0D (fst st)) < int (length xs)" by (auto simp: r0D_ok_def)
  show "\<exists>v. r0D_readCell (fst st) c (snd st) = Inr v"
    using h by (simp add: r0D_readCell_def hread_mem)
  show "\<exists>st'. rmap (Pair (fst st)) (r0D_writeCell (fst st) c v (snd st)) = Inr st'"
    using h by (simp add: r0D_writeCell_def hwrite_mem)
  assume st': "rmap (Pair (fst st)) (r0D_writeCell (fst st) c v (snd st)) = Inr st'"
  then show "r0D_ok st' \<and> {[]} = {[]::int list}"
    using h by (auto simp: r0D_writeCell_def hwrite_mem r0D_ok_def)
  assume "c' \<in> {[]::int list}"
  then show "r0D_readCell (fst st') c' (snd st') =
      (if c' = c then Inr v else r0D_readCell (fst st) c' (snd st))"
    using h c st' by (auto simp: r0D_writeCell_def r0D_readCell_def hwrite_mem hread_mem)
qed

section \<open>Copies between a region and a scratch storage\<close>

text \<open>The value a view shows at a coordinate, when the elements are \<open>xs\<close>.\<close>

definition viewRead :: "'e list \<Rightarrow> int list \<Rightarrow> regionMatrixMetadata \<Rightarrow> coord \<Rightarrow> 'e res" where
  "viewRead xs dsz md c = rbind (viewIndex md dsz c) (rd xs)"

lemma viewRead_theIndex:
  "md_fits dsz md \<Longrightarrow> inBox (mdSize md) c \<Longrightarrow> viewRead xs dsz md c = rd xs (theIndex md dsz c)"
  by (simp add: viewRead_def theIndex(1))

definition viewCells :: "int list \<Rightarrow> regionMatrixMetadata \<Rightarrow> int set" where
  "viewCells dsz md = theIndex md dsz ` {c. inBox (mdSize md) c}"

lemma rawIndex_view:
  "raw_holds r h s xs \<Longrightarrow> rawIndex r md = viewIndex md (rawSize r)"
  by (rule ext) (simp add: rawIndex_def viewIndex_def raw_holds_def)

lemma set_box_md: "md_fits dsz md \<Longrightarrow> c \<in> set (box (mdSize md)) \<longleftrightarrow> inBox (mdSize md) c"
  by (intro set_box) (simp add: md_fits_def)

lemma set_box_eq: "md_fits dsz md \<Longrightarrow> set (box (mdSize md)) = {c. inBox (mdSize md) c}"
  using set_box_md by blast

lemma copy_views:
  assumes ma: "mem h a = Some xs" and mb: "mem h b = Some ys" and ab: "a \<noteq> b"
    and fa: "md_fits asz amd" "int (length xs) = prod_list asz"
    and fb: "md_fits bsz bmd" "int (length ys) = prod_list bsz"
    and sz: "mdSize amd = mdSize bmd"
  shows "\<exists>ys'. ended (doWhile (incCoord (mdSize amd))
        (copyCell (Some a) (viewIndex amd asz) (Some b) (viewIndex bmd bsz))
        (replicate (length (mdSize amd)) 0) h) = Inr (setMem b ys' h) \<and>
      length ys' = length ys \<and>
      (\<forall>c. inBox (mdSize bmd) c \<longrightarrow> viewRead ys' bsz bmd c = viewRead xs asz amd c) \<and>
      (\<forall>i. i \<notin> viewCells bsz bmd \<longrightarrow> rd ys' i = rd ys i)"
proof -
  have box: "set (box (mdSize bmd)) = {c. inBox (mdSize bmd) c}" by (rule set_box_eq[OF fb(1)])
  have "\<exists>ys'. foldR (copyCell (Some a) (viewIndex amd asz) (Some b) (viewIndex bmd bsz))
        (box (mdSize amd)) h = Inr (setMem b ys' h) \<and> length ys' = length ys \<and>
      (\<forall>c \<in> set (box (mdSize amd)). rd ys' (theIndex bmd bsz c) = rd xs (theIndex amd asz c)) \<and>
      (\<forall>i. i \<notin> theIndex bmd bsz ` set (box (mdSize amd)) \<longrightarrow> rd ys' i = rd ys i)"
    using theIndex[OF fa(1)] theIndex[OF fb(1)] theIndex_inj[OF fb(1)] sz fa(2) fb(2)
    by (intro foldR_copyCell[OF ma mb ab distinct_box]) (simp_all add: sz box)
  then show ?thesis
    using box sz by (simp add: rdi_loop viewCells_def viewRead_theIndex[OF fa(1)] viewRead_theIndex[OF fb(1)])
qed

lemma take_scratch_size:
  "md_fits ssz smd \<Longrightarrow> slices smd = [] \<Longrightarrow> take (length (mdSize smd)) ssz = ssz"
  by (simp add: md_fits_def md_wf_def)

lemma raw_index_fun:
  "raw_holds r h s xs \<Longrightarrow>
   (\<lambda>c. toRegionDataIndex (length (mdSize md)) c (splitOffset md) (slices md) (rawMultipliers r)) =
   viewIndex md (rawSize r)"
  by (simp add: viewIndex_def raw_holds_def fun_eq_iff)

lemma scratch_index_fun:
  assumes "md_fits ssz smd" "slices smd = []" "n = length (mdSize smd)"
  shows "(\<lambda>c. toRegionDataIndex n c (splitOffset smd) (slices smd)
      (sizeToMultipliers (take n ssz))) = viewIndex smd ssz"
  using take_scratch_size[OF assms(1,2)] assms(3) by (simp add: viewIndex_def fun_eq_iff)

lemma raw_copyToScratch_view:
  assumes "raw_holds r h s xs" "mem h t = Some ys" "s \<noteq> t" "md_fits (rawSize r) md" "md_fits ssz smd"
    "int (length ys) = prod_list ssz" "slices smd = []" "mdSize smd = mdSize md"
  shows "\<exists>ys'. raw_copyToScratchMatrixStorage r md (Some t) smd ssz h = Inr (setMem t ys' h) \<and>
      length ys' = length ys \<and>
      (\<forall>c. inBox (mdSize md) c \<longrightarrow> viewRead ys' ssz smd c = viewRead xs (rawSize r) md c) \<and>
      (\<forall>i. i \<notin> viewCells ssz smd \<longrightarrow> rd ys' i = rd ys i)"
proof -
  have sm: "mem h s = Some xs" "int (length xs) = prod_list (rawSize r)" "rawStorage r = Some s"
    using assms(1) by (auto simp: raw_holds_def)
  have n: "length (mdSize md) = length (mdSize smd)" using assms(8) by simp
  show ?thesis
    using copy_views[OF sm(1) assms(2,3,4) sm(2) assms(5,6)] assms(8) sm(3)
    unfolding raw_copyToScratchMatrixStorage_def Let_def raw_index_fun[OF assms(1)] assms(8)
      scratch_index_fun[OF assms(5,7) n]
    by simp
qed

text \<open>C4: \<open>RegionDataRaw::copyToScratchMatrixStorage\<close>, for any view (split and sliced) that lies
  inside the region and any scratch view that lies inside the scratch storage, ends without an
  access outside the arrays; afterwards the scratch view shows at every coordinate what the
  region's view shows, every scratch cell outside the view is unchanged, and so is every other
  storage.\<close>

theorem raw_copyToScratch_correct:
  assumes "raw_holds r h s xs" "mem h t = Some ys" "s \<noteq> t" "md_fits (rawSize r) md" "md_fits ssz smd"
    "int (length ys) = prod_list ssz" "slices smd = []" "mdSize smd = mdSize md"
  shows "\<exists>ys'. raw_copyToScratchMatrixStorage r md (Some t) smd ssz h = Inr (setMem t ys' h) \<and>
      length ys' = length ys \<and>
      (\<forall>c. inBox (mdSize md) c \<longrightarrow> viewRead ys' ssz smd c = viewRead xs (rawSize r) md c) \<and>
      (\<forall>i. i \<notin> viewCells ssz smd \<longrightarrow> rd ys' i = rd ys i)"
  by (rule raw_copyToScratch_view[OF assms])

text \<open>C5: \<open>RegionDataRaw::copyFromScratchMatrixStorage\<close> is the reverse copy: the region's view
  shows afterwards what the scratch view shows, every cell of the region outside the view and every
  other storage is unchanged.\<close>

theorem raw_copyFromScratch_correct:
  assumes "raw_holds r h s xs" "mem h t = Some ys" "s \<noteq> t" "md_fits (rawSize r) md" "md_fits ssz smd"
    "int (length ys) = prod_list ssz" "slices smd = []" "mdSize smd = mdSize md"
  shows "\<exists>xs'. raw_copyFromScratchMatrixStorage r md (Some t) smd ssz h = Inr (setMem s xs' h) \<and>
      raw_holds r (setMem s xs' h) s xs' \<and>
      (\<forall>c. inBox (mdSize md) c \<longrightarrow> viewRead xs' (rawSize r) md c = viewRead ys ssz smd c) \<and>
      (\<forall>i. i \<notin> viewCells (rawSize r) md \<longrightarrow> rd xs' i = rd xs i)"
proof -
  have sm: "mem h s = Some xs" "int (length xs) = prod_list (rawSize r)" "rawStorage r = Some s"
    using assms(1) by (auto simp: raw_holds_def)
  have n: "length (mdSize md) = length (mdSize smd)" using assms(8) by simp
  show ?thesis
    using copy_views[OF assms(2) sm(1) assms(3)[symmetric] assms(5,6,4) sm(2)] assms(8) sm(3)
      raw_holds_write[OF assms(1)]
    unfolding raw_copyFromScratchMatrixStorage_def Let_def raw_index_fun[OF assms(1)] assms(8)
      scratch_index_fun[OF assms(5,7) n]
    by auto
qed

section \<open>Copies through messages\<close>

lemma foldR_copyOutCell:
  assumes "mem h a = Some xs"
    and "\<forall>c \<in> set cs. from c = Inr (f c) \<and> 0 \<le> f c \<and> f c < int (length xs)"
    and "length buf = n + length cs"
  shows "foldR (copyOutCell (Some a) from h) cs (int n, buf) =
    Inr (int n + int (length cs), take n buf @ map (\<lambda>c. xs ! nat (f c)) cs)"
  using assms
proof (induction cs arbitrary: n buf)
  case (Cons c cs)
  let ?v = "xs ! nat (f c)"
  have w: "wr buf (int n) ?v = Inr (buf[n := ?v])" using Cons.prems(3) by simp
  have "take (Suc n) (buf[n := ?v]) = take n buf @ [?v]"
    using Cons.prems(3) by (simp add: take_Suc_conv_app_nth)
  then show ?case
    using Cons.IH[of "buf[n := ?v]" "Suc n"] Cons.prems w
    by (simp add: copyOutCell_def hread_mem add.commute add.left_commute)
qed simp

lemma foldR_copyInCell:
  assumes "mem h b = Some ys" "distinct cs"
    and "\<forall>c \<in> set cs. to c = Inr (g c) \<and> 0 \<le> g c \<and> g c < int (length ys)"
    and "inj_on g (set cs)" "length buf = n + length cs"
  shows "\<exists>ys'. foldR (copyInCell (Some b) to buf) cs (int n, h) =
      Inr (int n + int (length cs), setMem b ys' h) \<and> length ys' = length ys \<and>
      (\<forall>k < length cs. rd ys' (g (cs ! k)) = Inr (buf ! (n + k))) \<and>
      (\<forall>i. i \<notin> g ` set cs \<longrightarrow> rd ys' i = rd ys i)"
  using assms
proof (induction cs arbitrary: h ys n)
  case Nil
  then show ?case by (intro exI[of _ ys]) (auto simp: setMem_same)
next
  case (Cons c cs)
  obtain zs where w: "wr ys (g c) (buf ! n) = Inr zs" using Cons.prems(3) by simp
  have step: "copyInCell (Some b) to buf c (int n, h) = Inr (int (Suc n), setMem b zs h)"
    using Cons.prems w by (simp add: copyInCell_def hwrite_mem)
  have gc: "g c \<notin> g ` set cs" using Cons.prems(2,4) by (auto simp: inj_on_def)
  have "mem (setMem b zs h) b = Some zs" by simp
  from Cons.IH[OF this, of "Suc n"] Cons.prems wr_length[OF w] obtain ys' where
    ys': "foldR (copyInCell (Some b) to buf) cs (int (Suc n), setMem b zs h) =
        Inr (int (Suc n) + int (length cs), setMem b ys' h)" "length ys' = length zs"
      "\<forall>k < length cs. rd ys' (g (cs ! k)) = Inr (buf ! (Suc n + k))"
      "\<forall>i. i \<notin> g ` set cs \<longrightarrow> rd ys' i = rd zs i"
    by auto
  have "rd ys' (g ((c # cs) ! k)) = Inr (buf ! (n + k))" if "k < length (c # cs)" for k
    using that ys'(3,4) rd_wr[OF w] gc by (cases k) auto
  moreover have "rd ys' i = rd ys i" if "i \<notin> g ` set (c # cs)" for i
    using that ys'(4) rd_wr[OF w] by auto
  ultimately show ?case using step ys'(1,2) wr_length[OF w]
    by (intro exI[of _ ys']) (simp add: algebra_simps)
qed

lemma length_box_md: "md_fits dsz md \<Longrightarrow> length (box (mdSize md)) = nat (countOf (mdSize md))"
  by (simp add: length_box md_fits_def countOf_prod)

text \<open>The reply to a copy-to-scratch message holds exactly \<open>count\<close> elements, the values of
  the requested view in the order in which \<open>incCoord\<close> visits its coordinates.\<close>

lemma raw_copyTo_reply:
  assumes "raw_holds r h s xs" "md_fits (rawSize r) md"
  shows "raw_processCopyToMatrixStorageMsg junk r md h =
    Inr (CopyToMatrixStorageReplyMessage (prod_list (mdSize md))
      (map (\<lambda>c. xs ! nat (theIndex md (rawSize r) c)) (box (mdSize md))))"
proof -
  have sm: "mem h s = Some xs" "int (length xs) = prod_list (rawSize r)" "rawStorage r = Some s"
    using assms(1) by (auto simp: raw_holds_def)
  show ?thesis
    using foldR_copyOutCell[OF sm(1), of "box (mdSize md)" "rawIndex r md" "theIndex md (rawSize r)"
        "map junk [0..<nat (countOf (mdSize md))]" 0]
      theIndex[OF assms(2)] set_box_eq[OF assms(2)] sm rawIndex_view[OF assms(1)]
      length_box_md[OF assms(2)]
    by (simp add: raw_processCopyToMatrixStorageMsg_def Let_def rdi_loop countOf_prod)
qed

lemma raw_copyFrom_message:
  assumes "raw_holds r h s xs" "md_fits (rawSize r) md" "length buf = length (box (mdSize md))"
  shows "\<exists>xs'. raw_processCopyFromMatrixStorageMsg r md buf h =
      Inr (CopyFromMatrixStorageReplyMessage, setMem s xs' h) \<and> raw_holds r (setMem s xs' h) s xs' \<and>
      (\<forall>k < length buf. rd xs' (theIndex md (rawSize r) (box (mdSize md) ! k)) = Inr (buf ! k)) \<and>
      (\<forall>i. i \<notin> viewCells (rawSize r) md \<longrightarrow> rd xs' i = rd xs i)"
proof -
  have sm: "mem h s = Some xs" "int (length xs) = prod_list (rawSize r)" "rawStorage r = Some s"
    using assms(1) by (auto simp: raw_holds_def)
  have "\<exists>xs'. foldR (copyInCell (Some s) (rawIndex r md) buf) (box (mdSize md)) (int 0, h) =
      Inr (int 0 + int (length (box (mdSize md))), setMem s xs' h) \<and> length xs' = length xs \<and>
      (\<forall>k < length (box (mdSize md)). rd xs' (theIndex md (rawSize r) (box (mdSize md) ! k)) = Inr (buf ! (0 + k))) \<and>
      (\<forall>i. i \<notin> theIndex md (rawSize r) ` set (box (mdSize md)) \<longrightarrow> rd xs' i = rd xs i)"
    using theIndex[OF assms(2)] set_box_eq[OF assms(2)] sm(2) assms(3) theIndex_inj[OF assms(2)]
      rawIndex_view[OF assms(1)]
    by (intro foldR_copyInCell[OF sm(1) distinct_box]) simp_all
  then show ?thesis
    using raw_holds_write[OF assms(1)] assms(3) set_box_eq[OF assms(2)] sm(3)
    by (auto simp: raw_processCopyFromMatrixStorageMsg_def rdi_loop viewCells_def)
qed

text \<open>C11: sending the reply of a copy-to-scratch request back in a copy-from-scratch request,
  even to another region with another view of the same extent, reproduces the values: the second
  view shows at every coordinate what the first one showed.\<close>

theorem raw_messages_roundtrip:
  assumes "raw_holds r h s xs" "md_fits (rawSize r) md" "raw_holds q g t ys" "md_fits (rawSize q) nd"
    "mdSize nd = mdSize md"
  shows "\<exists>n vs ys'. raw_processCopyToMatrixStorageMsg junk r md h = Inr (CopyToMatrixStorageReplyMessage n vs) \<and>
      raw_processCopyFromMatrixStorageMsg q nd vs g = Inr (CopyFromMatrixStorageReplyMessage, setMem t ys' g) \<and>
      (\<forall>c. inBox (mdSize md) c \<longrightarrow> viewRead ys' (rawSize q) nd c = viewRead xs (rawSize r) md c) \<and>
      (\<forall>i. i \<notin> viewCells (rawSize q) nd \<longrightarrow> rd ys' i = rd ys i)"
proof -
  let ?vs = "map (\<lambda>c. xs ! nat (theIndex md (rawSize r) c)) (box (mdSize md))"
  have len: "length ?vs = length (box (mdSize nd))" using assms(5) by simp
  from raw_copyFrom_message[OF assms(3,4) len] obtain ys' where
    ys': "raw_processCopyFromMatrixStorageMsg q nd ?vs g = Inr (CopyFromMatrixStorageReplyMessage, setMem t ys' g)"
      "\<forall>k < length ?vs. rd ys' (theIndex nd (rawSize q) (box (mdSize nd) ! k)) = Inr (?vs ! k)"
      "\<forall>i. i \<notin> viewCells (rawSize q) nd \<longrightarrow> rd ys' i = rd ys i" by blast
  have "viewRead ys' (rawSize q) nd c = viewRead xs (rawSize r) md c" if c: "inBox (mdSize md) c" for c
  proof -
    have "c \<in> set (box (mdSize md))" using c set_box_md[OF assms(2)] by simp
    then obtain k where "k < length (box (mdSize md))" "c = box (mdSize md) ! k"
      by (auto simp: in_set_conv_nth)
    then show ?thesis using ys'(2) assms c theIndex[OF assms(2) c]
      by (simp add: viewRead_theIndex[OF assms(2)] viewRead_theIndex[OF assms(4)] raw_holds_def)
  qed
  then show ?thesis using raw_copyTo_reply[OF assms(1,2)] ys'(1,3) by blast
qed

end
