(* ===== verification/RegionSplit.thy ===== *)
theory RegionSplit
  imports RegionRaw
begin

text \<open>
  Regions divided into parts: \<open>RegionDataSplit\<close> (\<open>runtime/regiondatasplit.cpp\<close>).

  The parts are \<open>RegionHandlerPtr\<close>s, here optional handler addresses (\<open>None\<close> is \<open>NULL\<close>).  What a
  part does (read, write, copy, tell its host) is the virtual call on its handler, a function
  argument of the operations below; theory \<open>RegionWorld\<close> supplies the code's own region data.
\<close>

section \<open>State and constructor\<close>

record regionDataSplit =
  splSize :: "int list"
  splitSize :: "int list"
  partsSize :: "int list"
  numParts :: int
  partsMultipliers :: "int list"
  parts :: "encodedPtr option list"

fun partsSizeLoop :: "int list \<Rightarrow> int list \<Rightarrow> (int list \<times> int) \<Rightarrow> (int list \<times> int) res" where
  "partsSizeLoop (s # ss) (p # ps) (acc, n) =
     (if p = 0 then Inl DivByZero
      else (let k = cdiv s p + (if cmod s p \<noteq> 0 then 1 else 0)
            in partsSizeLoop ss ps (acc @ [k], n * k)))"
| "partsSizeLoop _ _ st = Inr st"

definition split_init :: "int list \<Rightarrow> int list \<Rightarrow> regionDataSplit res" where
  "split_init sizes spl =
     rmap (\<lambda>(ps, n). \<lparr>splSize = sizes, splitSize = spl, partsSize = ps, numParts = n,
         partsMultipliers = rawMultsLoop 1 ps, parts = replicate (nat n) None\<rparr>)
       (partsSizeLoop sizes spl ([], 1))"

section \<open>Geometry\<close>

text \<open>\<open>createPart\<close> and \<open>setPart\<close> turn the part number into part coordinates, then into the
  offset and the extent of the part.\<close>

fun partsCoordLoop :: "int \<Rightarrow> int list \<Rightarrow> coord" where
  "partsCoordLoop tmp [] = []"
| "partsCoordLoop tmp (p # ps) = cmod tmp p # partsCoordLoop (cdiv tmp p) ps"

fun partOffsetSize :: "int list \<Rightarrow> int list \<Rightarrow> coord \<Rightarrow> (int \<times> int) list" where
  "partOffsetSize (s # ss) (p # ps) (c # cs) =
     (let off = p * c in (off, if off + p > s then s - off else p) # partOffsetSize ss ps cs)"
| "partOffsetSize _ _ _ = []"

definition partExtent :: "regionDataSplit \<Rightarrow> int \<Rightarrow> int list" where
  "partExtent r partIndex =
     map snd (partOffsetSize (splSize r) (splitSize r) (partsCoordLoop partIndex (partsSize r)))"

definition partOffset :: "regionDataSplit \<Rightarrow> int \<Rightarrow> int list" where
  "partOffset r partIndex =
     map fst (partOffsetSize (splSize r) (splitSize r) (partsCoordLoop partIndex (partsSize r)))"

fun coordToPartLoop :: "int \<Rightarrow> int list \<Rightarrow> int list \<Rightarrow> coord \<Rightarrow> int \<times> coord" where
  "coordToPartLoop index (p # ps) (m # ms) (c # cs) =
     (let (i, cp) = coordToPartLoop (index + cdiv c p * m) ps ms cs in (i, cmod c p # cp))"
| "coordToPartLoop index _ _ _ = (index, [])"

definition coordToPartIndex :: "regionDataSplit \<Rightarrow> coord \<Rightarrow> int \<times> coord" where
  "coordToPartIndex r coord = coordToPartLoop 0 (splitSize r) (partsMultipliers r) coord"

definition coordToPart :: "regionDataSplit \<Rightarrow> coord \<Rightarrow> (encodedPtr \<times> coord) res" where
  "coordToPart r coord =
     (let (i, cp) = coordToPartIndex r coord
      in rbind (rd (parts r) i) (\<lambda>p. case p of None \<Rightarrow> Inl NullDeref | Some a \<Rightarrow> Inr (a, cp)))"

fun incPartCoordLoop :: "int \<Rightarrow> int list \<Rightarrow> int list \<Rightarrow> int list \<Rightarrow> coord \<Rightarrow> int \<times> coord" where
  "incPartCoordLoop i (p # p' # ps) (b # b' # bs) (e # e' # es) (c # c' # cs) =
     (if c \<ge> e
      then (let (r, cs') = incPartCoordLoop (i + 1) (p' # ps) (b' # bs) (e' # es) ((c' + p') # cs)
            in (r, b # cs'))
      else (i, c # c' # cs))"
| "incPartCoordLoop i [p] [b] [e] [c] = (if c < e then (i, [c]) else (-1, [c]))"
| "incPartCoordLoop i _ _ _ cs = (-1, cs)"

fun incPartCoord :: "int list \<Rightarrow> int list \<Rightarrow> int list \<Rightarrow> coord \<Rightarrow> int \<times> coord" where
  "incPartCoord (p # ps) bs es (c # cs) = incPartCoordLoop 0 (p # ps) bs es ((c + p) # cs)"
| "incPartCoord _ bs es cs = (-1, cs)"

fun isRegionInOnePart :: "int list \<Rightarrow> int list \<Rightarrow> int list \<Rightarrow> bool" where
  "isRegionInOnePart (p # ps) (b # bs) (e # es) = (if b + p < e then False else isRegionInOnePart ps bs es)"
| "isRegionInOnePart _ _ _ = True"

section \<open>Parts and cells\<close>

text \<open>\<open>createPart\<close>: \<open>mk\<close> allocates the handler of a local (\<open>None\<close>) or remote part of a size.\<close>

definition createPart ::
    "(int list \<Rightarrow> 'h option \<Rightarrow> 'w \<Rightarrow> (encodedPtr \<times> 'w) res) \<Rightarrow> int \<Rightarrow> 'h option \<Rightarrow> regionDataSplit \<Rightarrow> 'w \<Rightarrow>
     (regionDataSplit \<times> 'w) res" where
  "createPart mk partIndex host r w =
     rbind (rd (parts r) partIndex) (\<lambda>p. rassert (p = None)
       (rmap (\<lambda>(a, w'). (r\<lparr>parts := (parts r)[nat partIndex := Some a]\<rparr>, w'))
          (mk (partExtent r partIndex) host w)))"

text \<open>\<open>setPart\<close>: \<open>getLocal\<close> is \<open>RegionHandlerDB::getLocalRegionHandler\<close>.\<close>

definition setPart ::
    "(remoteRegionHandler \<Rightarrow> int list \<Rightarrow> 'w \<Rightarrow> (encodedPtr \<times> 'w) res) \<Rightarrow> int \<Rightarrow> remoteRegionHandler \<Rightarrow>
     regionDataSplit \<Rightarrow> 'w \<Rightarrow> (regionDataSplit \<times> 'w) res" where
  "setPart getLocal partIndex remote r w =
     rbind (rd (parts r) partIndex) (\<lambda>p. rassert (p = None)
       (rmap (\<lambda>(a, w'). (r\<lparr>parts := (parts r)[nat partIndex := Some a]\<rparr>, w'))
          (getLocal remote (partExtent r partIndex) w)))"

text \<open>\<open>allocData\<close> creates the missing parts (all but the last) and allocates every part; the
  blocking and the non-blocking call are the same \<open>alloc\<close>, the final wait its completion.\<close>

fun allocPartsLoop ::
    "(int list \<Rightarrow> 'h option \<Rightarrow> 'w \<Rightarrow> (encodedPtr \<times> 'w) res) \<Rightarrow> (encodedPtr \<Rightarrow> 'w \<Rightarrow> 'w res) \<Rightarrow>
     nat \<Rightarrow> int \<Rightarrow> regionDataSplit \<Rightarrow> 'w \<Rightarrow> (regionDataSplit \<times> 'w) res" where
  "allocPartsLoop mk alloc 0 i r w = Inr (r, w)"
| "allocPartsLoop mk alloc (Suc n) i r w =
     rbind (rd (parts r) i) (\<lambda>p.
       rbind (case p of None \<Rightarrow> createPart mk i None r w | Some _ \<Rightarrow> Inr (r, w)) (\<lambda>(r', w').
         rbind (rd (parts r') i) (\<lambda>p'. case p' of None \<Rightarrow> Inl NullDeref
           | Some a \<Rightarrow> rbind (alloc a w') (allocPartsLoop mk alloc n (i + 1) r'))))"

definition split_allocData ::
    "(int list \<Rightarrow> 'h option \<Rightarrow> 'w \<Rightarrow> (encodedPtr \<times> 'w) res) \<Rightarrow> (encodedPtr \<Rightarrow> 'w \<Rightarrow> 'w res) \<Rightarrow>
     regionDataSplit \<Rightarrow> 'w \<Rightarrow> (int \<times> regionDataSplit \<times> 'w) res" where
  "split_allocData mk alloc r w =
     rbind (allocPartsLoop mk alloc (nat (numParts r - 1)) 0 r w) (\<lambda>(r', w').
       rbind (rd (parts r') (numParts r' - 1)) (\<lambda>p. case p of None \<Rightarrow> Inl NullDeref
         | Some a \<Rightarrow> rmap (\<lambda>w''. (0, r', w'')) (alloc a w')))"

definition split_randomize :: "(encodedPtr \<Rightarrow> 'w \<Rightarrow> 'w res) \<Rightarrow> regionDataSplit \<Rightarrow> 'w \<Rightarrow> 'w res" where
  "split_randomize rnd r w =
     foldR (\<lambda>i w. rbind (rd (parts r) i) (\<lambda>p. case p of None \<Rightarrow> Inl NullDeref | Some a \<Rightarrow> rnd a w))
       (map int [0..<nat (numParts r)]) w"

definition split_readCell :: "(encodedPtr \<Rightarrow> coord \<Rightarrow> 'w \<Rightarrow> 'e res) \<Rightarrow> regionDataSplit \<Rightarrow> coord \<Rightarrow> 'w \<Rightarrow> 'e res" where
  "split_readCell readPart r coord w = rbind (coordToPart r coord) (\<lambda>(p, cp). readPart p cp w)"

definition split_writeCell ::
    "(encodedPtr \<Rightarrow> coord \<Rightarrow> 'e \<Rightarrow> 'w \<Rightarrow> 'w res) \<Rightarrow> regionDataSplit \<Rightarrow> coord \<Rightarrow> 'e \<Rightarrow> 'w \<Rightarrow> 'w res" where
  "split_writeCell writePart r coord value w = rbind (coordToPart r coord) (\<lambda>(p, cp). writePart p cp value w)"

section \<open>Hosts\<close>

fun alignDown :: "int list \<Rightarrow> int list \<Rightarrow> coord" where
  "alignDown (b # bs) (p # ps) = (b - cmod b p) # alignDown bs ps"
| "alignDown _ _ = []"

text \<open>The number of cells of the part at \<open>coord\<close> that lie in the asked interval.\<close>

fun overlapCount :: "int \<Rightarrow> coord \<Rightarrow> int list \<Rightarrow> int list \<Rightarrow> int list \<Rightarrow> int" where
  "overlapCount n (c # cs) (p # ps) (b # bs) (e # es) =
     (let dataBegin = (if c < b then b else c);
          dataEnd = (if c + p > e then e else c + p)
      in overlapCount (n * (dataEnd - dataBegin)) cs ps bs es)"
| "overlapCount n _ _ _ _ = n"

definition split_hosts ::
    "(encodedPtr \<Rightarrow> hostPid option) \<Rightarrow> hostPid \<Rightarrow> regionDataSplit \<Rightarrow> coord \<Rightarrow> coord \<Rightarrow> dataHostPidList res" where
  "split_hosts dataHost self r begin' end' =
     (let newBegin = alignDown begin' (splitSize r)
      in ended (doWhile (incPartCoord (splitSize r) newBegin end')
           (\<lambda>coord list. rmap (\<lambda>(p, _). list @
                [\<lparr>itemHost = (case dataHost p of None \<Rightarrow> self | Some host \<Rightarrow> host),
                  itemWeight = overlapCount 1 coord (splitSize r) begin' end'\<rparr>])
              (coordToPart r coord))
           newBegin []))"

text \<open>\<open>copyRegionDataSplit\<close>: the description another process rebuilds the region from; \<open>where\<close>
  tells a raw part's own address and a remote part's handler, and fails for other kinds.\<close>

definition copyRegionDataSplit ::
    "(encodedPtr \<Rightarrow> remoteRegionHandler res) \<Rightarrow> regionDataSplit \<Rightarrow> 'e reply res" where
  "copyRegionDataSplit whereIs r =
     rmap (CopyRegionDataSplitReplyMessage (int (length (splSize r))) (numParts r) (splitSize r))
       (foldR (\<lambda>i hs. rbind (rd (parts r) i) (\<lambda>p. case p of None \<Rightarrow> Inl NullDeref
            | Some a \<Rightarrow> rmap (\<lambda>h. hs @ [h]) (whereIs a)))
          (map int [0..<nat (numParts r)]) [])"

section \<open>Copies\<close>

text \<open>Begin and end of a view in the coordinates of the region.\<close>

fun beginEndLoop :: "nat \<Rightarrow> int \<Rightarrow> int list \<Rightarrow> int list \<Rightarrow> (int \<times> int) list \<Rightarrow> (int \<times> int) list res" where
  "beginEndLoop 0 d off sz sl = Inr []"
| "beginEndLoop (Suc n) d off sz sl =
     (if sl \<noteq> [] \<and> d = fst (hd sl)
      then rmap ((#) (snd (hd sl), snd (hd sl))) (beginEndLoop n (d + 1) off sz (tl sl))
      else if off = [] \<or> sz = [] then Inl OutOfBounds
      else rmap ((#) (hd off, hd off + hd sz)) (beginEndLoop n (d + 1) (tl off) (tl sz) sl))"

fun partBeginOf :: "coord \<Rightarrow> int list \<Rightarrow> coord" where
  "partBeginOf (c # cs) (b # bs) = (if c < b then b else c) # partBeginOf cs bs"
| "partBeginOf _ _ = []"

text \<open>The loop that fills the metadata of one part: its arguments run over the dimensions
  (\<open>coord\<close>, \<open>partBegin\<close>, \<open>begin\<close>, \<open>end\<close>, \<open>newBegin\<close>, split size, offset in the part) and, for the
  scratch view, over the original scratch offset.  The result lists are the new offset and size
  of the part's view, its slices, and the new scratch offset.\<close>

fun partMetadataLoop ::
    "int \<Rightarrow> (int \<times> int \<times> int \<times> int \<times> int \<times> int \<times> int) list \<Rightarrow> (int \<times> int) list \<Rightarrow> int list \<Rightarrow>
     (int list \<times> int list \<times> (int \<times> int) list \<times> int list) res" where
  "partMetadataLoop i [] sl soff = Inr ([], [], sl, [])"
| "partMetadataLoop i ((c, pb, b, e, nb, p, po) # ds) sl soff =
     (if sl \<noteq> [] \<and> i = fst (hd sl)
      then rmap (\<lambda>(off, sz, sl', so). (off, sz, (fst (hd sl), snd (hd sl) - nb) # sl', so))
             (partMetadataLoop (i + 1) ds (tl sl) soff)
      else if soff = [] then Inl OutOfBounds
      else rmap (\<lambda>(off, sz, sl', so).
               (po # off, (if c + p \<le> e then c + p - pb else e - pb) # sz, sl', (pb - b + hd soff) # so))
             (partMetadataLoop (i + 1) ds sl (tl soff)))"

definition partMetadata ::
    "regionDataSplit \<Rightarrow> regionMatrixMetadata \<Rightarrow> regionMatrixMetadata \<Rightarrow> (int \<times> int) list \<Rightarrow> coord \<Rightarrow> coord \<Rightarrow>
     coord \<Rightarrow> (regionMatrixMetadata \<times> regionMatrixMetadata) res" where
  "partMetadata r origMd scratchMd beginEnd newBegin coord newOrigSplitOffset =
     (let partBegin = partBeginOf coord (map fst beginEnd)
      in rmap (\<lambda>(off, sz, sl, so).
             (\<lparr>splitOffset = off, mdSize = sz, slices = sl\<rparr>, \<lparr>splitOffset = so, mdSize = sz, slices = []\<rparr>))
           (partMetadataLoop 0
              (zip coord (zip partBegin (zip (map fst beginEnd) (zip (map snd beginEnd)
                 (zip newBegin (zip (splitSize r) newOrigSplitOffset))))))
              (slices origMd) (splitOffset scratchMd)))"

text \<open>Metadata for a view that lies in a single local part: it becomes a view of that part.\<close>

fun onePartLoop :: "int \<Rightarrow> (int \<times> int) list \<Rightarrow> (int \<times> int) list \<Rightarrow> int list \<times> (int \<times> int) list" where
  "onePartLoop i [] sl = ([], [])"
| "onePartLoop i ((nb, po) # ds) sl =
     (if sl \<noteq> [] \<and> i = fst (hd sl)
      then (let (off, sl') = onePartLoop (i + 1) ds (tl sl) in (off, (fst (hd sl), snd (hd sl) - nb) # sl'))
      else (let (off, sl') = onePartLoop (i + 1) ds sl in (po # off, sl')))"

datatype copyResult =
    Copied
  | UsePart encodedPtr regionMatrixMetadata
  | SameStorage

text \<open>\<open>copyHelper\<close>.  \<open>rawStorageOf\<close> answers the storage of a part whose type is raw and \<open>None\<close>
  for other parts; \<open>copyPart\<close> is the part's copy in the chosen direction.\<close>

definition split_copyHelper ::
    "(encodedPtr \<Rightarrow> storagePtr option) \<Rightarrow>
     (encodedPtr \<Rightarrow> regionMatrixMetadata \<Rightarrow> regionMatrixMetadata \<Rightarrow> int list \<Rightarrow> 'w \<Rightarrow> 'w res) \<Rightarrow>
     bool \<Rightarrow> regionDataSplit \<Rightarrow> regionMatrixMetadata \<Rightarrow> regionMatrixMetadata \<Rightarrow> storagePtr \<Rightarrow> int list \<Rightarrow> bool \<Rightarrow>
     'w \<Rightarrow> (copyResult \<times> 'w) res" where
  "split_copyHelper rawStorageOf copyPart isCopyTo r origMd scratchMd scratch scratchSize wantPart w =
     rbind (beginEndLoop (length (splSize r)) 0 (splitOffset origMd) (mdSize origMd) (slices origMd)) (\<lambda>beginEnd.
       let begin' = map fst beginEnd; end' = map snd beginEnd; newBegin = alignDown begin' (splitSize r);
           loop = rmap (Pair Copied) (ended (doWhile (incPartCoord (splitSize r) newBegin end')
             (\<lambda>coord w. rbind (coordToPart r (partBeginOf coord begin')) (\<lambda>(part, newOff).
                rbind (partMetadata r origMd scratchMd beginEnd newBegin coord newOff) (\<lambda>(md, smd).
                  copyPart part md smd (if isCopyTo then mdSize origMd else scratchSize) w)))
             newBegin w))
       in if isRegionInOnePart (splitSize r) newBegin end'
          then rbind (coordToPart r begin') (\<lambda>(part, newOff).
            case rawStorageOf part of
              None \<Rightarrow> loop
            | Some st \<Rightarrow>
                (if isCopyTo
                 then rassert wantPart
                   (let (off, sl) = onePartLoop 0 (zip newBegin newOff) (slices origMd)
                    in Inr (UsePart part (scratchMd\<lparr>splitOffset := off, slices := sl\<rparr>), w))
                 else if st = scratch then Inr (SameStorage, w) else loop))
          else loop)"

end
