(* ===== verification/SplitGeometry.thy ===== *)
theory SplitGeometry
  imports RegionSplit
begin

text \<open>
  The geometry of a split region: the parts of a \<open>RegionDataSplit\<close> are disjoint and cover it, and
  a split region behaves as one array when its parts do (the locale \<open>part_store\<close>).
\<close>

section \<open>Well-formed split regions\<close>

definition split_ok :: "regionDataSplit \<Rightarrow> bool" where
  "split_ok r = (splSize r \<noteq> [] \<and> length (splitSize r) = length (splSize r) \<and>
     sizes_pos (splSize r) \<and> sizes_pos (splitSize r) \<and>
     partsSize r = map2 (\<lambda>s p. (s + p - 1) div p) (splSize r) (splitSize r) \<and>
     numParts r = prod_list (partsSize r) \<and> partsMultipliers r = sizeToMultipliers (partsSize r) \<and>
     int (length (parts r)) = numParts r)"

lemma ceil_div: "0 < p \<Longrightarrow> 0 \<le> s \<Longrightarrow> cdiv s p + (if cmod s p \<noteq> 0 then 1 else 0) = (s + p - 1) div p"
proof -
  assume h: "0 < (p::int)" "0 \<le> s"
  have dv: "s = p * (s div p) + s mod p" by simp
  show ?thesis
  proof (cases "s mod p = 0")
    case True
    have "(s + p - 1) div p = (p * (s div p) + (p - 1)) div p" using dv True by (simp add: algebra_simps)
    also have "\<dots> = s div p" using h by (simp add: div_pos_pos_trivial)
    finally show ?thesis using True h by (simp add: cdiv_nonneg cmod_nonneg)
  next
    case False
    then have m: "0 < s mod p" "s mod p < p" using h by (simp_all add: order.not_eq_order_implies_strict)
    have "(s + p - 1) div p = (p * (s div p + 1) + (s mod p - 1)) div p"
      using dv by (simp add: algebra_simps)
    also have "\<dots> = s div p + 1" using h m by (simp add: div_pos_pos_trivial)
    finally show ?thesis using False h by (simp add: cdiv_nonneg cmod_nonneg)
  qed
qed

lemma partsSizeLoop_eq:
  "sizes_pos ss \<Longrightarrow> sizes_pos ps \<Longrightarrow> length ps = length ss \<Longrightarrow>
   partsSizeLoop ss ps (acc, n) =
     Inr (acc @ map2 (\<lambda>s p. (s + p - 1) div p) ss ps, n * prod_list (map2 (\<lambda>s p. (s + p - 1) div p) ss ps))"
proof (induction ss arbitrary: ps acc n)
  case (Cons s ss)
  then obtain p ps' where ps: "ps = p # ps'" by (cases ps) auto
  with Cons.prems have "0 < p" "0 \<le> s" by auto
  then show ?case using Cons ps ceil_div[of p s] by (simp add: Let_def mult.assoc)
qed simp

lemma parts_pos: "sizes_pos ss \<Longrightarrow> sizes_pos ps \<Longrightarrow> length ps = length ss \<Longrightarrow>
    sizes_pos (map2 (\<lambda>s p. (s + p - 1) div p) ss ps)"
proof (induction ss arbitrary: ps)
  case (Cons s ss)
  then obtain p ps' where ps: "ps = p # ps'" by (cases ps) auto
  then have "0 < (s + p - 1) div p" using Cons.prems by (simp add: pos_imp_zdiv_pos_iff)
  then show ?case using Cons ps by simp
qed simp

lemma split_init_ok:
  assumes "sizes_pos sz" "sizes_pos sp" "length sp = length sz" "sz \<noteq> []"
  shows "\<exists>r. split_init sz sp = Inr r \<and> split_ok r \<and> splSize r = sz \<and> splitSize r = sp \<and>
    (\<forall>p \<in> set (parts r). p = None)"
  using partsSizeLoop_eq[OF assms(1-3), of "[]" 1] assms prod_list_pos[OF parts_pos[OF assms(1-3)]]
  by (simp add: split_init_def split_ok_def rawMultsLoop_eq sizeToMultipliers_def)

section \<open>From coordinates to parts and back\<close>

lemma coordToPartLoop_eq:
  "length ps = length c \<Longrightarrow> length ms = length c \<Longrightarrow> \<forall>x \<in> set c. 0 \<le> x \<Longrightarrow> sizes_pos ps \<Longrightarrow>
   coordToPartLoop i ps ms c = (coordToOffsetLoop i (map2 (div) c ps) ms, map2 (mod) c ps)"
proof (induction c arbitrary: ps ms i)
  case (Cons x c)
  then obtain p ps' m ms' where "ps = p # ps'" "ms = m # ms'" by (cases ps; cases ms) auto
  then show ?case using Cons by (simp add: cdiv_nonneg cmod_nonneg mult.commute)
qed (auto split: list.splits)

lemma inBox_nonneg: "inBox sz c \<Longrightarrow> x \<in> set c \<Longrightarrow> 0 \<le> x"
  by (induction sz arbitrary: c) (auto simp: inBox_Cons)

lemma coordToPartIndex_eq:
  assumes "split_ok r" "inBox (splSize r) c"
  shows "coordToPartIndex r c =
    (radix (partsSize r) (map2 (div) c (splitSize r)), map2 (mod) c (splitSize r))"
proof -
  have len: "length c = length (splitSize r)" "length (partsSize r) = length (splitSize r)"
    using assms inBox_length[OF assms(2)] by (auto simp: split_ok_def)
  then show ?thesis
    using assms coordToPartLoop_eq[of "splitSize r" c "partsMultipliers r" 0] inBox_nonneg[OF assms(2)]
      coordToOffset_radix[of "map2 (div) c (splitSize r)" "partsSize r"]
    by (simp add: coordToPartIndex_def split_ok_def coordToOffset_def)
qed

lemma div_inBox:
  "inBox ss c \<Longrightarrow> sizes_pos ps \<Longrightarrow> length ps = length ss \<Longrightarrow>
   inBox (map2 (\<lambda>s p. (s + p - 1) div p) ss ps) (map2 (div) c ps)"
proof (induction ss arbitrary: c ps)
  case (Cons s ss)
  then obtain x c' p ps' where c: "c = x # c'" "0 \<le> x" "x < s" "inBox ss c'" and ps: "ps = p # ps'" "0 < p"
    by (cases ps) (auto simp: inBox_Cons)
  have "x div p < (s + p - 1) div p"
  proof -
    have "x div p + 1 = (x + p) div p" using ps by (simp add: div_add_self2)
    also have "\<dots> \<le> (s + p - 1) div p" using c ps by (intro zdiv_mono1) auto
    finally show ?thesis by simp
  qed
  then show ?case using Cons c ps by (simp add: pos_imp_zdiv_nonneg_iff)
qed simp

lemma partsCoordLoop_radix: "inBox ps c \<Longrightarrow> partsCoordLoop (radix ps c) ps = c"
proof (induction ps arbitrary: c)
  case (Cons p ps)
  then obtain x c' where c: "c = x # c'" "0 \<le> x" "x < p" "inBox ps c'" by (auto simp: inBox_Cons)
  have r: "0 \<le> radix ps c'" using radix_bounds[OF c(4)] by simp
  then have "0 \<le> x + p * radix ps c'" using c by (simp add: mult_nonneg_nonneg)
  moreover have "(x + p * radix ps c') div p = radix ps c'" "(x + p * radix ps c') mod p = x"
    using c by (simp_all add: div_pos_pos_trivial)
  ultimately show ?case using Cons c by (simp add: cdiv_nonneg cmod_nonneg)
qed simp

lemma radix_partsCoordLoop:
  "sizes_pos ps \<Longrightarrow> 0 \<le> i \<Longrightarrow> i < prod_list ps \<Longrightarrow>
   inBox ps (partsCoordLoop i ps) \<and> radix ps (partsCoordLoop i ps) = i"
proof (induction ps arbitrary: i)
  case (Cons p ps)
  have p: "0 < p" using Cons.prems by simp
  have "i div p < prod_list ps"
  proof (rule ccontr)
    assume "\<not> i div p < prod_list ps"
    then have "p * prod_list ps \<le> p * (i div p)" using p by (intro mult_left_mono) auto
    moreover have "p * (i div p) \<le> i" using p mult_div_mod_eq[of p i] pos_mod_sign[of p i] by linarith
    ultimately show False using Cons.prems by simp
  qed
  then have "inBox ps (partsCoordLoop (i div p) ps) \<and> radix ps (partsCoordLoop (i div p) ps) = i div p"
    using Cons p by (simp add: pos_imp_zdiv_nonneg_iff)
  then show ?case using Cons.prems p by (simp add: cdiv_nonneg cmod_nonneg)
qed simp

lemma partOffsetSize_in:
  "inBox ss c \<Longrightarrow> sizes_pos ps \<Longrightarrow> length ps = length ss \<Longrightarrow>
   inBox (map snd (partOffsetSize ss ps (map2 (div) c ps))) (map2 (mod) c ps) \<and>
   map2 (+) (map fst (partOffsetSize ss ps (map2 (div) c ps))) (map2 (mod) c ps) = c"
proof (induction ss arbitrary: c ps)
  case (Cons s ss)
  then obtain x c' p ps' where c: "c = x # c'" "0 \<le> x" "x < s" "inBox ss c'" and ps: "ps = p # ps'" "0 < p"
    by (cases ps) (auto simp: inBox_Cons)
  have "p * (x div p) + x mod p = x" by simp
  then have "x mod p < s - p * (x div p)" using c by linarith
  then show ?case using Cons c ps by (simp add: Let_def)
qed simp

lemma partOffsetSize_out:
  "sizes_pos ss \<Longrightarrow> sizes_pos ps \<Longrightarrow> length ps = length ss \<Longrightarrow>
   inBox (map2 (\<lambda>s p. (s + p - 1) div p) ss ps) pc \<Longrightarrow>
   inBox (map snd (partOffsetSize ss ps pc)) cp \<Longrightarrow>
   inBox ss (map2 (+) (map fst (partOffsetSize ss ps pc)) cp) \<and>
   map2 (div) (map2 (+) (map fst (partOffsetSize ss ps pc)) cp) ps = pc \<and>
   map2 (mod) (map2 (+) (map fst (partOffsetSize ss ps pc)) cp) ps = cp"
proof (induction ss arbitrary: pc ps cp)
  case (Cons s ss)
  then obtain p ps' where ps: "ps = p # ps'" "0 < p" by (cases ps) auto
  then obtain y pc' where pc: "pc = y # pc'" "0 \<le> y" "y < (s + p - 1) div p"
    "inBox (map2 (\<lambda>s p. (s + p - 1) div p) ss ps') pc'" using Cons.prems by (auto simp: inBox_Cons)
  then obtain z cp' where cp: "cp = z # cp'" "0 \<le> z" "z < (if p * y + p > s then s - p * y else p)"
    "inBox (map snd (partOffsetSize ss ps' pc')) cp'"
    using Cons.prems ps by (auto simp: inBox_Cons Let_def)
  have "z < p" "p * y + z < s" using cp by (auto split: if_splits)
  moreover have "0 \<le> p * y" using ps pc by simp
  ultimately have "(p * y + z) div p = y" "(p * y + z) mod p = z" "0 \<le> p * y + z"
    using ps cp by (simp_all add: div_pos_pos_trivial)
  then show ?case using Cons.IH[of ps' pc' cp'] Cons.prems ps pc cp \<open>p * y + z < s\<close> by (simp add: Let_def)
qed simp

lemma coordToPart_in:
  assumes "split_ok r" "inBox (splSize r) c" "coordToPartIndex r c = (i, cp)"
  shows "0 \<le> i" "i < numParts r" "inBox (partExtent r i) cp" "map2 (+) (partOffset r i) cp = c"
proof -
  have e: "i = radix (partsSize r) (map2 (div) c (splitSize r))" "cp = map2 (mod) c (splitSize r)"
    using coordToPartIndex_eq[OF assms(1,2)] assms(3) by auto
  have ok: "sizes_pos (splitSize r)" "length (splitSize r) = length (splSize r)"
    "partsSize r = map2 (\<lambda>s p. (s + p - 1) div p) (splSize r) (splitSize r)"
    "numParts r = prod_list (partsSize r)" using assms(1) by (auto simp: split_ok_def)
  have b: "inBox (partsSize r) (map2 (div) c (splitSize r))"
    using div_inBox[OF assms(2) ok(1,2)] ok(3) by simp
  show "0 \<le> i" "i < numParts r" using radix_bounds[OF b] e ok by auto
  show "inBox (partExtent r i) cp" "map2 (+) (partOffset r i) cp = c"
    using partOffsetSize_in[OF assms(2) ok(1,2)] partsCoordLoop_radix[OF b] e
    by (simp_all add: partExtent_def partOffset_def)
qed

lemma coordToPart_out:
  assumes "split_ok r" "0 \<le> i" "i < numParts r" "inBox (partExtent r i) cp"
  shows "inBox (splSize r) (map2 (+) (partOffset r i) cp)"
    "coordToPartIndex r (map2 (+) (partOffset r i) cp) = (i, cp)"
proof -
  have ok: "sizes_pos (splSize r)" "sizes_pos (splitSize r)" "length (splitSize r) = length (splSize r)"
    "partsSize r = map2 (\<lambda>s p. (s + p - 1) div p) (splSize r) (splitSize r)"
    "numParts r = prod_list (partsSize r)" using assms(1) by (auto simp: split_ok_def)
  have ps: "sizes_pos (partsSize r)" using parts_pos[OF ok(1-3)] ok(4) by simp
  have pc: "inBox (partsSize r) (partsCoordLoop i (partsSize r))"
    "radix (partsSize r) (partsCoordLoop i (partsSize r)) = i"
    using radix_partsCoordLoop[OF ps assms(2)] assms(3) ok(5) by auto
  note out = partOffsetSize_out[OF ok(1-3) pc(1)[unfolded ok(4)] assms(4)[unfolded partExtent_def ok(4)],
      folded ok(4)]
  then show in': "inBox (splSize r) (map2 (+) (partOffset r i) cp)" by (simp add: partOffset_def)
  show "coordToPartIndex r (map2 (+) (partOffset r i) cp) = (i, cp)"
    using coordToPartIndex_eq[OF assms(1) in'] out pc(2) by (simp add: partOffset_def)
qed

text \<open>C3: the parts of a split region partition it.  Every coordinate of the region lies in exactly
  one part, at a place inside the extent that \<open>createPart\<close> gives that part, and adding the part's
  offset leads back; every place of every part is reached by exactly one coordinate.\<close>

theorem split_partition:
  assumes "split_ok r"
  shows "bij_betw (coordToPartIndex r) {c. inBox (splSize r) c}
    {(i, cp). 0 \<le> i \<and> i < numParts r \<and> inBox (partExtent r i) cp}"
proof (rule bij_betw_byWitness[where f' = "\<lambda>(i, cp). map2 (+) (partOffset r i) cp"])
  show "\<forall>c \<in> {c. inBox (splSize r) c}.
      (case coordToPartIndex r c of (i, cp) \<Rightarrow> map2 (+) (partOffset r i) cp) = c"
    using coordToPart_in(4)[OF assms] by (auto split: prod.split)
  show "\<forall>x \<in> {(i, cp). 0 \<le> i \<and> i < numParts r \<and> inBox (partExtent r i) cp}.
      coordToPartIndex r (case x of (i, cp) \<Rightarrow> map2 (+) (partOffset r i) cp) = x"
    using coordToPart_out(2)[OF assms] by auto
  show "coordToPartIndex r ` {c. inBox (splSize r) c} \<subseteq>
      {(i, cp). 0 \<le> i \<and> i < numParts r \<and> inBox (partExtent r i) cp}"
    using coordToPart_in(1-3)[OF assms] by (auto simp: image_iff) (metis coordToPart_in(1-3)[OF assms])+
  show "(\<lambda>(i, cp). map2 (+) (partOffset r i) cp) `
      {(i, cp). 0 \<le> i \<and> i < numParts r \<and> inBox (partExtent r i) cp} \<subseteq> {c. inBox (splSize r) c}"
    using coordToPart_out(1)[OF assms] by auto
qed

end
