(* ===== verification/SplitStore.thy ===== *)
theory SplitStore
  imports SplitGeometry
begin

text \<open>
  A split region behaves as one array: the locale \<open>part_store\<close> is what the parts must offer, and
  from it follows the cell contract of the whole (\<open>region_store\<close>).  The walk over the parts that
  meet an interval (\<open>incPartCoord\<close>) and the weights that \<open>hosts\<close> reports are here too.
\<close>

section \<open>The contract of the parts\<close>

locale part_store =
  fixes readP :: "encodedPtr \<Rightarrow> coord \<Rightarrow> 'w \<Rightarrow> 'e res"
    and writeP :: "encodedPtr \<Rightarrow> coord \<Rightarrow> 'e \<Rightarrow> 'w \<Rightarrow> 'w res"
    and cellsP :: "'w \<Rightarrow> encodedPtr \<Rightarrow> coord set"
    and invP :: "'w \<Rightarrow> bool"
  assumes readP_ok: "invP w \<Longrightarrow> c \<in> cellsP w a \<Longrightarrow> \<exists>v. readP a c w = Inr v"
    and writeP_ok: "invP w \<Longrightarrow> c \<in> cellsP w a \<Longrightarrow> \<exists>w'. writeP a c v w = Inr w'"
    and writeP_inv: "invP w \<Longrightarrow> c \<in> cellsP w a \<Longrightarrow> writeP a c v w = Inr w' \<Longrightarrow>
      invP w' \<and> cellsP w' = cellsP w"
    and readP_writeP: "invP w \<Longrightarrow> c \<in> cellsP w a \<Longrightarrow> c' \<in> cellsP w a' \<Longrightarrow> writeP a c v w = Inr w' \<Longrightarrow>
      readP a' c' w' = (if a' = a \<and> c' = c then Inr v else readP a' c' w)"

definition parts_in :: "('w \<Rightarrow> encodedPtr \<Rightarrow> coord set) \<Rightarrow> regionDataSplit \<Rightarrow> 'w \<Rightarrow> bool" where
  "parts_in cellsP r w = (split_ok r \<and> distinct (parts r) \<and>
     (\<forall>i < length (parts r). \<exists>a. parts r ! i = Some a \<and> cellsP w a = {c. inBox (partExtent r (int i)) c}))"

lemma coordToPart_part:
  assumes "parts_in cellsP r w" "inBox (splSize r) c"
  obtains i a cp where "coordToPartIndex r c = (int i, cp)" "i < length (parts r)"
    "parts r ! i = Some a" "coordToPart r c = Inr (a, cp)" "cp \<in> cellsP w a"
proof -
  obtain j cp where j: "coordToPartIndex r c = (j, cp)" by (cases "coordToPartIndex r c") auto
  have ok: "split_ok r" using assms(1) by (simp add: parts_in_def)
  note ci = coordToPart_in[OF ok assms(2) j]
  then have n: "j = int (nat j)" "nat j < length (parts r)" using ok by (auto simp: split_ok_def)
  then obtain a where a: "parts r ! nat j = Some a" "cellsP w a = {c. inBox (partExtent r j) c}"
    using assms(1) by (metis parts_in_def)
  show ?thesis
    by (rule that[of "nat j" cp a]) (use n a j ci in \<open>auto simp: coordToPart_def\<close>)
qed

lemma coordToPart_same:
  assumes "parts_in cellsP r w" "inBox (splSize r) c" "inBox (splSize r) c'"
    "coordToPart r c = Inr (a, cp)" "coordToPart r c' = Inr (a, cp)"
  shows "c = c'"
proof -
  obtain i b dp where i: "coordToPartIndex r c = (int i, dp)" "i < length (parts r)"
    "parts r ! i = Some b" "coordToPart r c = Inr (b, dp)"
    by (rule coordToPart_part[OF assms(1,2)])
  obtain i' b' dp' where i': "coordToPartIndex r c' = (int i', dp')" "i' < length (parts r)"
    "parts r ! i' = Some b'" "coordToPart r c' = Inr (b', dp')"
    by (rule coordToPart_part[OF assms(1,3)])
  have "distinct (parts r)" using assms(1) by (simp add: parts_in_def)
  then have "i = i'" using i i' assms(4,5) nth_eq_iff_index_eq by (metis Pair_inject sum.inject(2))
  moreover have "dp = dp'" using i i' assms(4,5) by simp
  ultimately have eq: "coordToPartIndex r c = coordToPartIndex r c'" using i i' by simp
  have "inj_on (coordToPartIndex r) {c. inBox (splSize r) c}"
    by (rule inj_on_inverseI[where g = "\<lambda>(i, cp). map2 (+) (partOffset r i) cp"])
      (use assms(1) in \<open>auto simp: parts_in_def coordToPart_in(4) split: prod.split\<close>)
  then show ?thesis using eq assms(2,3) by (simp add: inj_on_def)
qed

context part_store
begin

lemma split_readCell_ok:
  assumes "invP w" "parts_in cellsP r w" "inBox (splSize r) c"
  shows "\<exists>v. split_readCell readP r c w = Inr v"
proof -
  obtain a cp where "coordToPart r c = Inr (a, cp)" "cp \<in> cellsP w a"
    by (rule coordToPart_part[OF assms(2,3)])
  then show ?thesis using readP_ok[OF assms(1)] by (simp add: split_readCell_def)
qed

lemma split_writeCell_ok:
  assumes "invP w" "parts_in cellsP r w" "inBox (splSize r) c"
  shows "\<exists>w'. split_writeCell writeP r c v w = Inr w'"
proof -
  obtain a cp where "coordToPart r c = Inr (a, cp)" "cp \<in> cellsP w a"
    by (rule coordToPart_part[OF assms(2,3)])
  then show ?thesis using writeP_ok[OF assms(1)] by (simp add: split_writeCell_def)
qed

lemma split_writeCell_inv:
  assumes "invP w" "parts_in cellsP r w" "inBox (splSize r) c" "split_writeCell writeP r c v w = Inr w'"
  shows "invP w' \<and> cellsP w' = cellsP w \<and> parts_in cellsP r w'"
proof -
  obtain a cp where cp: "coordToPart r c = Inr (a, cp)" "cp \<in> cellsP w a"
    by (rule coordToPart_part[OF assms(2,3)])
  then have "invP w' \<and> cellsP w' = cellsP w"
    using writeP_inv[OF assms(1) cp(2), of v w'] assms(4) by (simp add: split_writeCell_def)
  then show ?thesis using assms(2) by (simp add: parts_in_def)
qed

lemma split_read_write:
  assumes "invP w" "parts_in cellsP r w" "inBox (splSize r) c" "inBox (splSize r) c'"
    "split_writeCell writeP r c v w = Inr w'"
  shows "split_readCell readP r c' w' = (if c' = c then Inr v else split_readCell readP r c' w)"
proof -
  obtain a cp where cp: "coordToPart r c = Inr (a, cp)" "cp \<in> cellsP w a"
    by (rule coordToPart_part[OF assms(2,3)])
  obtain a' cp' where cp': "coordToPart r c' = Inr (a', cp')" "cp' \<in> cellsP w a'"
    by (rule coordToPart_part[OF assms(2,4)])
  have "writeP a cp v w = Inr w'" using assms(5) cp by (simp add: split_writeCell_def)
  note rw = readP_writeP[OF assms(1) cp(2) cp'(2) this]
  show ?thesis
    using rw cp cp' coordToPart_same[OF assms(2-4)] by (auto simp: split_readCell_def)
qed

end

sublocale part_store \<subseteq> splitS: region_store
    "\<lambda>st c. split_readCell readP (fst st) c (snd st)"
    "\<lambda>st c v. rmap (Pair (fst st)) (split_writeCell writeP (fst st) c v (snd st))"
    "\<lambda>st. {c. inBox (splSize (fst st)) c}"
    "\<lambda>st. invP (snd st) \<and> parts_in cellsP (fst st) (snd st)"
proof unfold_locales
  fix st :: "regionDataSplit \<times> 'w" and c v st'
  assume inv: "invP (snd st) \<and> parts_in cellsP (fst st) (snd st)" and c: "c \<in> {c. inBox (splSize (fst st)) c}"
  then have h: "invP (snd st)" "parts_in cellsP (fst st) (snd st)" "inBox (splSize (fst st)) c" by auto
  show "\<exists>v. split_readCell readP (fst st) c (snd st) = Inr v" by (rule split_readCell_ok[OF h])
  obtain w' where w': "split_writeCell writeP (fst st) c v (snd st) = Inr w'"
    using split_writeCell_ok[OF h] by blast
  then show "\<exists>st'. rmap (Pair (fst st)) (split_writeCell writeP (fst st) c v (snd st)) = Inr st'" by simp
  assume "rmap (Pair (fst st)) (split_writeCell writeP (fst st) c v (snd st)) = Inr st'"
  then have st': "st' = (fst st, w')" using w' by simp
  show "(invP (snd st') \<and> parts_in cellsP (fst st') (snd st')) \<and>
      {c. inBox (splSize (fst st')) c} = {c. inBox (splSize (fst st)) c}"
    using split_writeCell_inv[OF h w'] st' by simp
  fix c' assume "c' \<in> {c. inBox (splSize (fst st)) c}"
  then show "split_readCell readP (fst st') c' (snd st') =
      (if c' = c then Inr v else split_readCell readP (fst st) c' (snd st))"
    using split_read_write[OF h _ w', of c'] st' by simp
qed

end
