(* ===== verification/SplitCopy.thy ===== *)
theory SplitCopy
  imports SplitStore
begin

text \<open>
  The loops over the parts of a split region: the walk of \<open>incPartCoord\<close>, the weights that
  \<open>hosts\<close> reports, and the copies between a split region and a scratch storage.
\<close>

section \<open>The walk over the parts\<close>

definition partDims :: "int list \<Rightarrow> int list \<Rightarrow> int list \<Rightarrow> dim list" where
  "partDims ps bs es = map2 (\<lambda>p (b, e). (b, p, e)) ps (zip bs es)"

lemma partDims_simps [simp]:
  "partDims [] bs es = []"
  "partDims (p # ps) (b # bs) (e # es) = (b, p, e) # partDims ps bs es"
  by (simp_all add: partDims_def)

lemma incPartCoordLoop_odo:
  "length bs = length ps \<Longrightarrow> length es = length ps \<Longrightarrow> length cs = length ps \<Longrightarrow>
   incPartCoordLoop i (p # ps) (b # bs) (e # es) ((c + p) # cs) =
     odo i (partDims (p # ps) (b # bs) (e # es)) (c # cs)"
proof (induction ps arbitrary: i p b e c bs es cs)
  case (Cons p' ps)
  then show ?case by (cases bs; cases es; cases cs) (auto split: prod.splits)
qed auto

definition partWalk_ok :: "int list \<times> int list \<times> int list \<Rightarrow> bool" where
  "partWalk_ok x = (case x of (ps, bs, es) \<Rightarrow>
     ps \<noteq> [] \<and> sizes_pos ps \<and> length bs = length ps \<and> length es = length ps)"

lemma dims_ok_partDims: "sizes_pos ps \<Longrightarrow> dims_ok (partDims ps bs es)"
  by (auto simp: dims_ok_def partDims_def sizes_pos_def dest!: set_zip_leftD split: prod.splits)

lemma map_fst_partDims:
  "length bs = length ps \<Longrightarrow> length es = length ps \<Longrightarrow> map fst (partDims ps bs es) = bs"
proof (induction ps arbitrary: bs es)
  case (Cons p ps)
  then show ?case by (cases bs; cases es) auto
qed simp

lemma length_partDims:
  "length bs = length ps \<Longrightarrow> length es = length ps \<Longrightarrow> length (partDims ps bs es) = length ps"
  by (simp add: partDims_def)

interpretation partWalk: coord_walk
    "\<lambda>(ps, bs, es). incPartCoord ps bs es" "\<lambda>(ps, bs, es). partDims ps bs es" partWalk_ok
proof unfold_locales
  fix x :: "int list \<times> int list \<times> int list"
  assume ok: "partWalk_ok x"
  obtain ps bs es where x: "x = (ps, bs, es)" by (cases x) auto
  have h: "ps \<noteq> []" "sizes_pos ps" "length bs = length ps" "length es = length ps"
    using ok x by (auto simp: partWalk_ok_def)
  then obtain p ps' b bs' e es' where l: "ps = p # ps'" "bs = b # bs'" "es = e # es'"
    by (cases ps; cases bs; cases es) auto
  have "partDims ps bs es \<noteq> []" using l by simp
  then have "follows (odo 0 (partDims ps bs es)) (walk (partDims ps bs es))"
    using h dims_ok_partDims by (intro follows_odo) auto
  moreover have "follows (incPartCoord ps bs es) (walk (partDims ps bs es)) =
      follows (odo 0 (partDims ps bs es)) (walk (partDims ps bs es))"
  proof (rule follows_cong)
    fix c assume "c \<in> set (walk (partDims ps bs es))"
    then have "length c = length ps" using h by (auto simp: length_partDims dest: walk_length)
    then obtain y ys where "c = y # ys" "length ys = length ps'" using l by (cases c) auto
    then show "incPartCoord ps bs es c = odo 0 (partDims ps bs es) c"
      using l h incPartCoordLoop_odo[of bs' ps' es' ys 0 p b e y] by simp
  qed
  ultimately show "follows (case x of (ps, bs, es) \<Rightarrow> incPartCoord ps bs es)
      (walk (case x of (ps, bs, es) \<Rightarrow> partDims ps bs es))" by (simp add: x)
qed

lemma partWalk_loop:
  assumes "ps \<noteq> []" "sizes_pos ps" "length bs = length ps" "length es = length ps"
  shows "doWhile (incPartCoord ps bs es) body bs s = Some (foldR body (walk (partDims ps bs es)) s)"
  using partWalk.loop_eq[of "(ps, bs, es)" body s] assms
  by (simp add: partWalk_ok_def map_fst_partDims)

section \<open>Intervals\<close>

text \<open>The interval of extent \<open>n\<close> at \<open>b\<close> lies inside \<open>dsz\<close> and is not empty.\<close>

fun vfits :: "int list \<Rightarrow> int list \<Rightarrow> int list \<Rightarrow> bool" where
  "vfits (d # ds) (b # bs) (n # ns) = (0 \<le> b \<and> 0 < n \<and> b + n \<le> d \<and> vfits ds bs ns)"
| "vfits [] [] [] = True"
| "vfits _ _ _ = False"

lemma vfits_length: "vfits ds bs ns \<Longrightarrow> length bs = length ds \<and> length ns = length ds"
  by (induction ds bs ns rule: vfits.induct) auto

lemma length_alignDown: "length bs = length ps \<Longrightarrow> length (alignDown bs ps) = length ps"
  by (induction bs ps rule: alignDown.induct) auto

lemma vfits_inBox: "vfits ss bs ns \<Longrightarrow> inBox ns x \<Longrightarrow> inBox ss (map2 (+) bs x)"
  by (induction ss bs ns arbitrary: x rule: vfits.induct) (auto simp: inBox_Cons)

lemma vfits_sizes_pos: "vfits ds bs ns \<Longrightarrow> sizes_pos ns"
  by (induction ds bs ns rule: vfits.induct) auto

section \<open>The weights reported by hosts\<close>







section \<open>The view of one part\<close>

fun partViewSize :: "coord \<Rightarrow> int list \<Rightarrow> int list \<Rightarrow> int list \<Rightarrow> int list" where
  "partViewSize (c # cs) (p # ps) (b # bs) (e # es) =
     (let pb = (if c < b then b else c)
      in (if c + p \<le> e then c + p - pb else e - pb) # partViewSize cs ps bs es)"
| "partViewSize _ _ _ _ = []"

lemma dim_view:
  assumes "0 \<le> b" "0 < n" "b + n \<le> s" "0 < p" "q \<in> set (doRange (b - cmod b p) p (b + n))"
    "pb = (if q < b then b else q)" "z = (if q + p \<le> b + n then q + p - pb else b + n - pb)"
  shows "b \<le> pb" "pb < s" "0 < z" "pb div p * p = q" "pb mod p = pb - q" "pb + z \<le> q + p" "pb + z \<le> b + n"
    "q < b + n"
proof -
  have m: "cmod b p = b mod p" "0 \<le> b mod p" "b mod p < p" using assms by (simp_all add: cmod_nonneg)
  obtain k :: nat where k: "q = b - b mod p + p * int k" "k = 0 \<or> q < b + n"
    using assms(4,5) m by (auto simp: in_doRange)
  have q: "q = p * (b div p + int k)" using k(1) by (simp add: algebra_simps minus_mod_eq_div_mult)
  show qe: "q < b + n"
  proof (cases "k = 0")
    case True
    then have "q = b - b mod p" using k(1) by simp
    then show ?thesis using m(2) assms(2) by linarith
  qed (use k in auto)
  have "b < q + p"
  proof (cases k)
    case (Suc j)
    have "0 \<le> p * int j" using assms(4) by simp
    moreover have "q = b - b mod p + p + p * int j" using k(1) Suc by (simp add: algebra_simps)
    ultimately show ?thesis using m assms(4) by linarith
  qed (use k m in auto)
  then have r: "0 \<le> pb - q" "pb - q < p" using assms(4,6) by auto
  have "pb = p * (b div p + int k) + (pb - q)" using q by simp
  then have "pb div p = b div p + int k" "pb mod p = pb - q"
    using r assms(4) by (metis add.commute div_mult_self4 div_pos_pos_trivial add.right_neutral less_le_not_le not_less
        mod_mult_self4 mod_pos_pos_trivial)+
  then show "pb div p * p = q" "pb mod p = pb - q" using q by (simp_all add: mult.commute)
  show "b \<le> pb" "pb < s" "0 < z" "pb + z \<le> q + p" "pb + z \<le> b + n"
    using assms qe \<open>b < q + p\<close> by (auto split: if_splits)
qed

lemma div_mod_shift:
  assumes "(pb::int) div p * p = q" "pb mod p = pb - q" "0 \<le> c" "pb + c < q + p" "0 < p"
  shows "(pb + c) div p = pb div p" "(pb + c) mod p = pb mod p + c"
proof -
  have "pb + c = p * (pb div p) + (pb mod p + c)" by simp
  moreover have "0 \<le> pb mod p + c" using assms(3) pos_mod_sign[OF assms(5), of pb] by linarith
  moreover have "pb mod p + c < p" using assms by linarith
  ultimately show "(pb + c) div p = pb div p" "(pb + c) mod p = pb mod p + c"
    using assms(5) by (metis add.commute div_mult_self4 div_pos_pos_trivial add.right_neutral less_le_not_le not_less
        mod_mult_self4 mod_pos_pos_trivial)+
qed

lemma part_view:
  assumes "vfits ss bs ns" "sizes_pos ps" "length ps = length ss"
    "q \<in> set (walk (partDims ps (alignDown bs ps) (map2 (+) bs ns)))"
  defines "pb \<equiv> partBeginOf q bs" and "sz \<equiv> partViewSize q ps bs (map2 (+) bs ns)"
  shows "inBox ss pb \<and> vfits (map snd (partOffsetSize ss ps (map2 (div) pb ps))) (map2 (mod) pb ps) sz \<and>
    vfits ns (map2 (-) pb bs) sz \<and>
    (\<forall>c. inBox sz c \<longrightarrow> inBox ss (map2 (+) pb c) \<and> map2 (div) (map2 (+) pb c) ps = map2 (div) pb ps \<and>
       map2 (mod) (map2 (+) pb c) ps = map2 (+) (map2 (mod) pb ps) c)"
  using assms(1-4) unfolding pb_def sz_def
proof (induction ss bs ns arbitrary: ps q rule: vfits.induct)
  case (1 s ss b bs n ns)
  then obtain p ps' where ps: "ps = p # ps'" "0 < p" "sizes_pos ps'" "length ps' = length ss"
    by (cases ps) auto
  then obtain x q' where q: "q = x # q'" "x \<in> set (doRange (b - cmod b p) p (b + n))"
    "q' \<in> set (walk (partDims ps' (alignDown bs ps') (map2 (+) bs ns)))"
    using 1(5) by auto
  define xb where "xb = (if x < b then b else x)"
  define z where "z = (if x + p \<le> b + n then x + p - xb else b + n - xb)"
  note IH = 1(1)[OF _ ps(3,4) q(3)]
  note d = dim_view[OF _ _ _ ps(2) q(2) xb_def z_def]
  have bn: "0 \<le> b" "0 < n" "b + n \<le> s" "vfits ss bs ns" using 1(2) by auto
  note d = d[OF bn(1-3)]
  have off: "p * (xb div p) = x" using d(4) by (simp add: mult.commute)
  have IH': "inBox ss (partBeginOf q' bs)"
    "vfits (map snd (partOffsetSize ss ps' (map2 (div) (partBeginOf q' bs) ps')))
       (map2 (mod) (partBeginOf q' bs) ps') (partViewSize q' ps' bs (map2 (+) bs ns))"
    "vfits ns (map2 (-) (partBeginOf q' bs) bs) (partViewSize q' ps' bs (map2 (+) bs ns))"
    "\<And>c. inBox (partViewSize q' ps' bs (map2 (+) bs ns)) c \<Longrightarrow>
       inBox ss (map2 (+) (partBeginOf q' bs) c) \<and>
       map2 (div) (map2 (+) (partBeginOf q' bs) c) ps' = map2 (div) (partBeginOf q' bs) ps' \<and>
       map2 (mod) (map2 (+) (partBeginOf q' bs) c) ps' = map2 (+) (map2 (mod) (partBeginOf q' bs) ps') c"
    using IH bn(4) by auto
  have pbq: "partBeginOf q (b # bs) = xb # partBeginOf q' bs" by (simp add: q xb_def)
  have szq: "partViewSize q ps (b # bs) (map2 (+) (b # bs) (n # ns)) =
      z # partViewSize q' ps' bs (map2 (+) bs ns)" by (simp add: q ps xb_def z_def Let_def)
  have xb: "0 \<le> xb" "xb < s" "0 \<le> xb mod p" using d(1,2) bn(1) ps(2) by simp_all
  have "xb mod p + z \<le> p" "xb mod p + z \<le> s - x" using d(5,6,7) bn(3) by linarith+
  then have fit: "xb mod p + z \<le> (if p * (xb div p) + p > s then s - p * (xb div p) else p)"
    unfolding off by simp
  have c1: "inBox (s # ss) (xb # partBeginOf q' bs)" using xb IH'(1) by simp
  have c2: "vfits (map snd (partOffsetSize (s # ss) ps (map2 (div) (xb # partBeginOf q' bs) ps)))
      (map2 (mod) (xb # partBeginOf q' bs) ps) (z # partViewSize q' ps' bs (map2 (+) bs ns))"
    using d(3) IH'(2) ps(1) xb(3) fit by (simp add: Let_def)
  have c3: "vfits (n # ns) (map2 (-) (xb # partBeginOf q' bs) (b # bs))
      (z # partViewSize q' ps' bs (map2 (+) bs ns))" using d(1,3,7) IH'(3) by simp
  have c4: "inBox (s # ss) (map2 (+) (xb # partBeginOf q' bs) c) \<and>
      map2 (div) (map2 (+) (xb # partBeginOf q' bs) c) ps = map2 (div) (xb # partBeginOf q' bs) ps \<and>
      map2 (mod) (map2 (+) (xb # partBeginOf q' bs) c) ps = map2 (+) (map2 (mod) (xb # partBeginOf q' bs) ps) c"
    if "inBox (z # partViewSize q' ps' bs (map2 (+) bs ns)) c" for c
  proof -
    obtain y c' where c: "c = y # c'" "0 \<le> y" "y < z" "inBox (partViewSize q' ps' bs (map2 (+) bs ns)) c'"
      using \<open>inBox (z # partViewSize q' ps' bs (map2 (+) bs ns)) c\<close> by (auto simp: inBox_Cons)
    have "xb + y < x + p" "xb + y < s" "0 \<le> xb + y"
      using c(2,3) d(6,7) bn(3) xb(1) by linarith+
    then show ?thesis using div_mod_shift[OF d(4,5) c(2) _ ps(2)] IH'(4)[OF c(4)] c(1) ps(1) by simp
  qed
  show ?case unfolding pbq szq using c1 c2 c3 c4 by blast
qed auto

lemma part_views_cover:
  assumes "vfits ss bs ns" "sizes_pos ps" "length ps = length ss" "inBox ns x"
  shows "\<exists>q \<in> set (walk (partDims ps (alignDown bs ps) (map2 (+) bs ns))).
    \<exists>c. inBox (partViewSize q ps bs (map2 (+) bs ns)) c \<and> x = map2 (+) (map2 (-) (partBeginOf q bs) bs) c"
  using assms
proof (induction ss bs ns arbitrary: ps x rule: vfits.induct)
  case (1 s ss b bs n ns)
  then obtain p ps' where ps: "ps = p # ps'" "0 < p" "sizes_pos ps'" "length ps' = length ss"
    by (cases ps) auto
  obtain y x' where x: "x = y # x'" "0 \<le> y" "y < n" "inBox ns x'" using 1(5) by (auto simp: inBox_Cons)
  have b: "0 \<le> b" "0 < n" "b + n \<le> s" "vfits ss bs ns" using 1(2) by auto
  obtain q' c' where q': "q' \<in> set (walk (partDims ps' (alignDown bs ps') (map2 (+) bs ns)))"
    "inBox (partViewSize q' ps' bs (map2 (+) bs ns)) c'"
    "x' = map2 (+) (map2 (-) (partBeginOf q' bs) bs) c'"
    using 1(1)[OF b(4) ps(3,4) x(4)] by blast
  define q where "q = p * ((b + y) div p)"
  define k where "k = nat ((b + y) div p - b div p)"
  have "b div p \<le> (b + y) div p" using x ps by (intro zdiv_mono1) auto
  then have k: "q = b - b mod p + p * int k"
    by (simp add: q_def k_def algebra_simps minus_mod_eq_mult_div)
  have m: "q \<le> b + y" "b + y < q + p"
    unfolding q_def using ps(2) pos_mod_sign[of p "b + y"] pos_mod_bound[of p "b + y"] mult_div_mod_eq[of p "b + y"]
    by linarith+
  have "q \<in> set (doRange (b - cmod b p) p (b + n))"
    using k m x b ps by (auto simp: in_doRange cmod_nonneg intro!: exI[of _ k])
  then have "q # q' \<in> set (walk (partDims ps (alignDown (b # bs) ps) (map2 (+) (b # bs) (n # ns))))"
    using ps q'(1) by auto
  moreover have "inBox (partViewSize (q # q') ps (b # bs) (map2 (+) (b # bs) (n # ns)))
      ((b + y - (if q < b then b else q)) # c')"
    using q'(2) m x ps by (auto simp: Let_def)
  moreover have "x = map2 (+) (map2 (-) (partBeginOf (q # q') (b # bs)) (b # bs))
      ((b + y - (if q < b then b else q)) # c')" using q'(3) x by simp
  ultimately show ?case by blast
qed auto

section \<open>Hosts\<close>

lemma prod_list_pos': "vfits ss bs ns \<Longrightarrow> 0 < prod_list ns"
  by (rule prod_list_pos) (rule vfits_sizes_pos)




section \<open>Copies between a split region and a scratch storage\<close>

text \<open>A view without slices.\<close>

definition plainMd :: "int list \<Rightarrow> int list \<Rightarrow> regionMatrixMetadata" where
  "plainMd off n = \<lparr>splitOffset = off, mdSize = n, slices = []\<rparr>"

lemma plainMd_simps [simp]:
  "splitOffset (plainMd off n) = off" "mdSize (plainMd off n) = n" "slices (plainMd off n) = []"
  by (simp_all add: plainMd_def)

text \<open>What a copy to a scratch storage promises of one part: \<open>scr\<close> reads the scratch storage of
  extent \<open>ssz\<close>.\<close>

locale part_copy = part_store +
  fixes copyP :: "encodedPtr \<Rightarrow> regionMatrixMetadata \<Rightarrow> regionMatrixMetadata \<Rightarrow> int list \<Rightarrow> 'b \<Rightarrow> 'b res"
    and scr :: "int list \<Rightarrow> coord \<Rightarrow> 'b \<Rightarrow> 'a res"
    and scrOk :: "int list \<Rightarrow> 'b \<Rightarrow> bool"
  assumes copyP: "invP w \<Longrightarrow> scrOk ssz w \<Longrightarrow> cellsP w a = {c. inBox ext c} \<Longrightarrow> vfits ext off n \<Longrightarrow>
      vfits ssz soff n \<Longrightarrow>
      \<exists>w'. copyP a (plainMd off n) (plainMd soff n) ssz w = Inr w' \<and> invP w' \<and> scrOk ssz w' \<and>
        cellsP w' = cellsP w \<and> (\<forall>a c. c \<in> cellsP w a \<longrightarrow> readP a c w' = readP a c w) \<and>
        (\<forall>x. inBox ssz x \<longrightarrow> scr ssz x w' =
           (if \<exists>c. inBox n c \<and> x = map2 (+) soff c
            then readP a (map2 (+) off (map2 (-) x soff)) w else scr ssz x w))"

lemma beginEndLoop_plain:
  "length off = n \<Longrightarrow> length sz = n \<Longrightarrow> beginEndLoop n d off sz [] = Inr (zip off (map2 (+) off sz))"
proof (induction n arbitrary: d off sz)
  case (Suc n)
  then show ?case by (cases off; cases sz) auto
qed simp

lemma partMetadataLoop_plain:
  "length q = k \<Longrightarrow> length b = k \<Longrightarrow> length e = k \<Longrightarrow> length nb = k \<Longrightarrow> length ps = k \<Longrightarrow>
   length po = k \<Longrightarrow> length soff = k \<Longrightarrow>
   partMetadataLoop i (zip q (zip (partBeginOf q b) (zip b (zip e (zip nb (zip ps po)))))) [] soff =
     Inr (po, partViewSize q ps b e, [], map2 (+) (map2 (-) (partBeginOf q b) b) soff)"
proof (induction k arbitrary: i q b e nb ps po soff)
  case (Suc k)
  then obtain q1 q' b1 b' e1 e' nb1 nb' p1 ps' po1 po' s1 soff' where
    "q = q1 # q'" "b = b1 # b'" "e = e1 # e'" "nb = nb1 # nb'" "ps = p1 # ps'" "po = po1 # po'"
    "soff = s1 # soff'"
    by (metis length_Suc_conv)
  then show ?case using Suc by (simp add: Let_def)
qed simp

lemma length_partBeginOf: "length b = length q \<Longrightarrow> length (partBeginOf q b) = length q"
  by (induction q b rule: partBeginOf.induct) auto

lemma partMetadata_plain:
  assumes "length q = D" "length bs = D" "length ns = D" "length soff = D" "length po = D"
    "length (splitSize r) = D"
  shows "partMetadata r (plainMd bs ns) (plainMd soff ns') (zip bs (map2 (+) bs ns))
      (alignDown bs (splitSize r)) q po =
    Inr (plainMd po (partViewSize q (splitSize r) bs (map2 (+) bs ns)),
      plainMd (map2 (+) (map2 (-) (partBeginOf q bs) bs) soff)
        (partViewSize q (splitSize r) bs (map2 (+) bs ns)))"
  using partMetadataLoop_plain[of q D bs "map2 (+) bs ns" "alignDown bs (splitSize r)" "splitSize r" po soff 0]
    assms
  by (simp add: partMetadata_def plainMd_def length_alignDown Let_def)

text \<open>Where the cells of one part's view are: the same part, at shifted places.\<close>

lemma coordToPart_view:
  assumes "parts_in cellsP r w" "vfits (splSize r) bs ns"
    "q \<in> set (walk (partDims (splitSize r) (alignDown bs (splitSize r)) (map2 (+) bs ns)))"
  defines "pb \<equiv> partBeginOf q bs" and "sz \<equiv> partViewSize q (splitSize r) bs (map2 (+) bs ns)"
  obtains a ext where "coordToPart r pb = Inr (a, map2 (mod) pb (splitSize r))"
    "cellsP w a = {c. inBox ext c}" "vfits ext (map2 (mod) pb (splitSize r)) sz"
    "\<forall>c. inBox sz c \<longrightarrow> inBox (splSize r) (map2 (+) pb c) \<and>
       coordToPart r (map2 (+) pb c) = Inr (a, map2 (+) (map2 (mod) pb (splitSize r)) c)"
proof -
  have ok: "split_ok r" using assms(1) by (simp add: parts_in_def)
  then have g: "sizes_pos (splitSize r)" "length (splitSize r) = length (splSize r)"
    by (auto simp: split_ok_def)
  note pv = part_view[OF assms(2) g assms(3), folded pb_def sz_def]
  then have inb: "inBox (splSize r) pb" by blast
  obtain i a cp where i: "coordToPartIndex r pb = (int i, cp)" "i < length (parts r)" "parts r ! i = Some a"
    "coordToPart r pb = Inr (a, cp)" by (rule coordToPart_part[OF assms(1) inb])
  have cp: "cp = map2 (mod) pb (splitSize r)" "int i = radix (partsSize r) (map2 (div) pb (splitSize r))"
    using coordToPartIndex_eq[OF ok inb] i(1) by auto
  have ext: "partExtent r (int i) =
      map snd (partOffsetSize (splSize r) (splitSize r) (map2 (div) pb (splitSize r)))"
    using partsCoordLoop_radix[OF div_inBox[OF inb g]] ok cp(2) by (simp add: partExtent_def split_ok_def)
  show ?thesis
  proof (rule that[of a "partExtent r (int i)"])
    show "cellsP w a = {c. inBox (partExtent r (int i)) c}"
      using assms(1) i(2,3) by (fastforce simp: parts_in_def)
    show "\<forall>c. inBox sz c \<longrightarrow> inBox (splSize r) (map2 (+) pb c) \<and>
        coordToPart r (map2 (+) pb c) = Inr (a, map2 (+) (map2 (mod) pb (splitSize r)) c)"
    proof (intro allI impI conjI)
      fix c assume c: "inBox sz c"
      then show inb': "inBox (splSize r) (map2 (+) pb c)" using pv by blast
      have "coordToPartIndex r (map2 (+) pb c) = (int i, map2 (+) (map2 (mod) pb (splitSize r)) c)"
        using coordToPartIndex_eq[OF ok inb'] pv c cp by simp
      then show "coordToPart r (map2 (+) pb c) = Inr (a, map2 (+) (map2 (mod) pb (splitSize r)) c)"
        using i(2,3) by (simp add: coordToPart_def)
    qed
  qed (use i cp ext pv in auto)
qed


text \<open>Which scratch cells one part's view fills, and that together they are the whole view.\<close>

definition viewCellsOf :: "int list \<Rightarrow> int list \<Rightarrow> int list \<Rightarrow> coord \<Rightarrow> coord set" where
  "viewCellsOf ps bs ns q =
     {x. \<exists>c. inBox (partViewSize q ps bs (map2 (+) bs ns)) c \<and> x = map2 (+) (map2 (-) (partBeginOf q bs) bs) c}"

lemma viewCellsOf_Union:
  assumes "vfits ss bs ns" "sizes_pos ps" "length ps = length ss"
  shows "{x. inBox ns x} \<subseteq> \<Union> (viewCellsOf ps bs ns ` set (walk (partDims ps (alignDown bs ps) (map2 (+) bs ns))))"
  using part_views_cover[OF assms] by (force simp: viewCellsOf_def)

lemma map2_sub_add: "length a = length b \<Longrightarrow> length c = length b \<Longrightarrow>
    map2 (+) b (map2 (+) (map2 (-) a b) c) = map2 (+) a (c :: int list)"
proof (induction b arbitrary: a c)
  case (Cons y b)
  then show ?case by (cases a; cases c) auto
qed simp

lemma map2_add_sub: "length b = length a \<Longrightarrow> map2 (-) (map2 (+) a b) a = (b :: int list)"
proof (induction a arbitrary: b)
  case (Cons y a)
  then show ?case by (cases b) auto
qed simp

lemma map2_add_zero: "map2 (+) a (map (\<lambda>_. 0) a) = (a :: int list)"
  by (induction a) auto

context part_copy
begin

lemma copy_one_part:
  assumes "invP w" "scrOk ns w" "parts_in cellsP r w" "vfits (splSize r) bs ns"
    "q \<in> set (walk (partDims (splitSize r) (alignDown bs (splitSize r)) (map2 (+) bs ns)))"
  shows "\<exists>a po md smd w'. coordToPart r (partBeginOf q bs) = Inr (a, po) \<and>
      partMetadata r (plainMd bs ns) (plainMd (map (\<lambda>_. 0) bs) ns) (zip bs (map2 (+) bs ns))
        (alignDown bs (splitSize r)) q po = Inr (md, smd) \<and>
      copyP a md smd ns w = Inr w' \<and> invP w' \<and> scrOk ns w' \<and> cellsP w' = cellsP w \<and>
      (\<forall>a c. c \<in> cellsP w a \<longrightarrow> readP a c w' = readP a c w) \<and>
      (\<forall>x \<in> {x. inBox ns x}. scr ns x w' =
         (if x \<in> viewCellsOf (splitSize r) bs ns q
          then split_readCell readP r (map2 (+) bs x) w else scr ns x w))"
proof -
  let ?pb = "partBeginOf q bs" and ?sz = "partViewSize q (splitSize r) bs (map2 (+) bs ns)"
  let ?po = "map2 (mod) ?pb (splitSize r)" and ?so = "map2 (-) ?pb bs"
  have ok: "split_ok r" using assms(3) by (simp add: parts_in_def)
  then have g: "sizes_pos (splitSize r)" "length (splitSize r) = length (splSize r)"
    by (auto simp: split_ok_def)
  note len = vfits_length[OF assms(4)]
  have lq: "length q = length (splSize r)"
    using walk_length[OF assms(5)] len g by (simp add: length_partDims length_alignDown)
  have lpb: "length ?pb = length (splSize r)" using lq len by (simp add: length_partBeginOf)
  obtain a ext where a: "coordToPart r ?pb = Inr (a, ?po)" "cellsP w a = {c. inBox ext c}"
    "vfits ext ?po ?sz" "\<forall>c. inBox ?sz c \<longrightarrow> inBox (splSize r) (map2 (+) ?pb c) \<and>
       coordToPart r (map2 (+) ?pb c) = Inr (a, map2 (+) ?po c)"
    by (rule coordToPart_view[OF assms(3-5)])
  have so: "vfits ns ?so ?sz" using part_view[OF assms(4) g assms(5)] by blast
  have "map2 (+) ?so (map (\<lambda>_. 0) bs) = ?so"
    using map2_add_zero[of ?so] len lpb by (simp add: map_replicate_const)
  then have md: "partMetadata r (plainMd bs ns) (plainMd (map (\<lambda>_. 0) bs) ns) (zip bs (map2 (+) bs ns))
      (alignDown bs (splitSize r)) q ?po = Inr (plainMd ?po ?sz, plainMd ?so ?sz)"
    using partMetadata_plain[of q "length (splSize r)" bs ns "map (\<lambda>_. 0) bs" ?po r] len lq lpb g by simp
  obtain w' where w': "copyP a (plainMd ?po ?sz) (plainMd ?so ?sz) ns w = Inr w'" "invP w'" "scrOk ns w'"
    "cellsP w' = cellsP w" "\<forall>a c. c \<in> cellsP w a \<longrightarrow> readP a c w' = readP a c w"
    "\<forall>x. inBox ns x \<longrightarrow> scr ns x w' = (if \<exists>c. inBox ?sz c \<and> x = map2 (+) ?so c
        then readP a (map2 (+) ?po (map2 (-) x ?so)) w else scr ns x w)"
    using copyP[OF assms(1,2) a(2,3) so] by blast
  have "scr ns x w' = (if x \<in> viewCellsOf (splitSize r) bs ns q
          then split_readCell readP r (map2 (+) bs x) w else scr ns x w)" if x: "inBox ns x" for x
  proof (cases "x \<in> viewCellsOf (splitSize r) bs ns q")
    case True
    then obtain c where c: "inBox ?sz c" "x = map2 (+) ?so c" by (auto simp: viewCellsOf_def)
    have lc: "length c = length (splSize r)" using inBox_length[OF c(1)] vfits_length[OF so] len by simp
    have "map2 (-) x ?so = c" using c(2) lc len lpb by (simp add: map2_add_sub)
    moreover have "map2 (+) bs x = map2 (+) ?pb c" using c(2) lc len lpb by (simp add: map2_sub_add)
    ultimately show ?thesis using True w'(6) x c a(4) by (auto simp: split_readCell_def)
  next
    case False
    then show ?thesis using w'(6) x by (auto simp: viewCellsOf_def)
  qed
  then show ?thesis using a(1) md w' by auto
qed

lemma split_copyTo_loop:
  assumes "invP w" "scrOk ns w" "parts_in cellsP r w" "vfits (splSize r) bs ns"
    "\<not> isRegionInOnePart (splitSize r) (alignDown bs (splitSize r)) (map2 (+) bs ns) \<or>
     (\<forall>a. rawStorageOf a = None)"
  shows "\<exists>w'. split_copyHelper rawStorageOf copyP True r (plainMd bs ns) (plainMd (map (\<lambda>_. 0) bs) ns)
        scratch ssz want w = Inr (Copied, w') \<and> invP w' \<and> scrOk ns w' \<and> cellsP w' = cellsP w \<and>
      (\<forall>a c. c \<in> cellsP w a \<longrightarrow> readP a c w' = readP a c w) \<and>
      (\<forall>x. inBox ns x \<longrightarrow> scr ns x w' = split_readCell readP r (map2 (+) bs x) w)"
proof -
  let ?ps = "splitSize r" and ?es = "map2 (+) bs ns"
  let ?W = "walk (partDims ?ps (alignDown bs ?ps) ?es)"
  let ?body = "\<lambda>coord w. rbind (coordToPart r (partBeginOf coord bs)) (\<lambda>(part, newOff).
      rbind (partMetadata r (plainMd bs ns) (plainMd (map (\<lambda>_. 0) bs) ns) (zip bs ?es) (alignDown bs ?ps) coord newOff)
        (\<lambda>(md, smd). copyP part md smd ns w))"
  let ?I = "\<lambda>v. invP v \<and> scrOk ns v \<and> cellsP v = cellsP w \<and>
      (\<forall>a c. c \<in> cellsP w a \<longrightarrow> readP a c v = readP a c w)"
  have ok: "split_ok r" using assms(3) by (simp add: parts_in_def)
  then have g: "?ps \<noteq> []" "sizes_pos ?ps" "length ?ps = length (splSize r)"
    by (auto simp: split_ok_def)
  note len = vfits_length[OF assms(4)]
  have part: "\<exists>a po. coordToPart r (map2 (+) bs x) = Inr (a, po) \<and> po \<in> cellsP w a" if "inBox ns x" for x
  proof -
    have "inBox (splSize r) (map2 (+) bs x)" by (rule vfits_inBox[OF assms(4) that])
    then show ?thesis by (meson coordToPart_part[OF assms(3)])
  qed
  have "\<exists>w'. foldR ?body ?W w = Inr w' \<and> ?I w' \<and> (\<forall>x \<in> {x. inBox ns x}. scr ns x w' =
      (if x \<in> \<Union> (viewCellsOf ?ps bs ns ` set ?W) then split_readCell readP r (map2 (+) bs x) w else scr ns x w))"
  proof (rule foldR_cover[where I = ?I])
    fix q v assume q: "q \<in> set ?W" and I: "?I v"
    then have "parts_in cellsP r v" using assms(3) by (simp add: parts_in_def)
    from copy_one_part[OF _ _ this assms(4) q] I obtain a po md smd w' where
      s: "coordToPart r (partBeginOf q bs) = Inr (a, po)"
        "partMetadata r (plainMd bs ns) (plainMd (map (\<lambda>_. 0) bs) ns) (zip bs ?es) (alignDown bs ?ps) q po = Inr (md, smd)"
        "copyP a md smd ns v = Inr w'" "invP w'" "scrOk ns w'" "cellsP w' = cellsP v"
        "\<forall>a c. c \<in> cellsP v a \<longrightarrow> readP a c w' = readP a c v"
        "\<forall>x \<in> {x. inBox ns x}. scr ns x w' = (if x \<in> viewCellsOf ?ps bs ns q
          then split_readCell readP r (map2 (+) bs x) v else scr ns x v)"
      by blast
    have "split_readCell readP r (map2 (+) bs x) v = split_readCell readP r (map2 (+) bs x) w"
      if "inBox ns x" for x
      using part[OF that] I by (auto simp: split_readCell_def)
    then show "\<exists>w'. ?body q v = Inr w' \<and> ?I w' \<and> (\<forall>x \<in> {x. inBox ns x}. scr ns x w' =
        (if x \<in> viewCellsOf ?ps bs ns q then split_readCell readP r (map2 (+) bs x) w else scr ns x v))"
      using s I by (intro exI[of _ w']) simp
  qed (use assms in simp)
  then obtain w' where w': "foldR ?body ?W w = Inr w'" "?I w'"
    and v: "\<forall>x \<in> {x. inBox ns x}. scr ns x w' = (if x \<in> \<Union> (viewCellsOf ?ps bs ns ` set ?W)
      then split_readCell readP r (map2 (+) bs x) w else scr ns x w)" by blast
  have v': "scr ns x w' = split_readCell readP r (map2 (+) bs x) w" if "inBox ns x" for x
  proof -
    have "x \<in> \<Union> (viewCellsOf ?ps bs ns ` set ?W)"
      using viewCellsOf_Union[OF assms(4) g(2,3)] that by blast
    then show ?thesis using v that by (simp del: UN_iff)
  qed
  have be: "beginEndLoop (length (splSize r)) 0 bs ns [] = Inr (zip bs ?es)"
    using beginEndLoop_plain len by simp
  have m: "map fst (zip bs ?es) = bs" "map snd (zip bs ?es) = ?es" using len by simp_all
  have loop: "doWhile (incPartCoord ?ps (alignDown bs ?ps) ?es) ?body (alignDown bs ?ps) w = Some (Inr w')"
    using w'(1) g len by (simp add: partWalk_loop length_alignDown)
  have "inBox ns (map (\<lambda>_. 0) ns)"
    using vfits_sizes_pos[OF assms(4)] by (induction ns) auto
  moreover have "map2 (+) bs (map (\<lambda>_. 0) ns) = bs"
    using map2_add_zero[of bs] len by (simp add: map_replicate_const)
  ultimately obtain a po where "coordToPart r bs = Inr (a, po)" using part by metis
  then have "split_copyHelper rawStorageOf copyP True r (plainMd bs ns) (plainMd (map (\<lambda>_. 0) bs) ns)
        scratch ssz want w = Inr (Copied, w')"
    using assms(5) loop
    by (auto simp: split_copyHelper_def be m Let_def split: option.split)
  then show ?thesis using w' v' by blast
qed

end

end
