(* ===== verification/RegionWorld.thy ===== *)
theory RegionWorld
  imports SplitCopy
begin

text \<open>
  Region data of every kind, the handlers that point to them, and the processing of messages.

  A \<open>RegionHandler\<close> lives in a process and has an address there; remote processes know it by
  \<open>RemoteRegionHandler\<close>, its host and address.  The world maps hosts and addresses to handlers and
  keeps the element storages of all processes in one heap.  Sources: \<open>regiondatai.cpp\<close> (default
  message handlers), \<open>regiondataremote.cpp\<close>, \<open>regionmatrixproxy.cpp\<close>, \<open>regionhandler.cpp\<close>.

  A request may be passed on from process to process, and nothing in the code bounds the chain, so
  \<open>process\<close> counts the hops down; running out is \<open>Diverges\<close>, and the theorems state how much is
  enough.  A blocking request and its reply are one call: the headers that route the reply are the
  subject of theory \<open>RegionMessages\<close>.
\<close>

section \<open>The world\<close>

datatype 'e regionData =
    Raw regionDataRaw
  | Zero regionData0D
  | ConstZero "'e constRegionData0D"
  | Remote "int list" remoteRegionHandler bool
  | Split regionDataSplit

record 'e world =
  wHeap :: "'e heap"
  wNext :: encodedPtr
  wData :: "hostPid \<Rightarrow> encodedPtr \<Rightarrow> 'e regionData option"

definition dataAt :: "'e world \<Rightarrow> hostPid \<Rightarrow> encodedPtr \<Rightarrow> 'e regionData res" where
  "dataAt w host p = (case wData w host p of None \<Rightarrow> Inl NullDeref | Some d \<Rightarrow> Inr d)"

text \<open>\<open>updateRegionData\<close>.\<close>

definition setData :: "hostPid \<Rightarrow> encodedPtr \<Rightarrow> 'e regionData \<Rightarrow> 'e world \<Rightarrow> 'e world" where
  "setData host p d w = w\<lparr>wData := (wData w)(host := (wData w host)(p := Some d))\<rparr>"

definition newHandler :: "hostPid \<Rightarrow> 'e regionData \<Rightarrow> 'e world \<Rightarrow> encodedPtr \<times> 'e world" where
  "newHandler host d w = (wNext w, setData host (wNext w) d (w\<lparr>wNext := wNext w + 1\<rparr>))"

definition newRaw :: "int list \<Rightarrow> regionDataRaw" where
  "newRaw sz = \<lparr>rawSize = sz, rawMultipliers = rawMultsLoop 1 sz, rawStorage = None\<rparr>"

text \<open>\<open>RegionMatrixProxy::onRecvInitial\<close> for \<open>CREATEREMOTEREGIONDATA\<close>: a new handler with an
  allocated raw region; its address is the reply.\<close>

definition createRemoteRegionData ::
    "(nat \<Rightarrow> 'e) \<Rightarrow> hostPid \<Rightarrow> int list \<Rightarrow> 'e world \<Rightarrow> remoteRegionHandler \<times> 'e world" where
  "createRemoteRegionData junk host sz w =
     (let (n, r, h) = raw_allocData junk (newRaw sz) (wHeap w);
          (p, w') = newHandler host (Raw r) (w\<lparr>wHeap := h\<rparr>)
      in (\<lparr>rrhHost = host, rrhHandler = p\<rparr>, w'))"

text \<open>The handler of a new part: \<open>new RegionHandler(new RegionDataRaw(size))\<close> or, on another host,
  \<open>new RegionHandler(new RegionDataRemote(size, host))\<close>.\<close>

definition mkPart ::
    "(nat \<Rightarrow> 'e) \<Rightarrow> hostPid \<Rightarrow> int list \<Rightarrow> hostPid option \<Rightarrow> 'e world \<Rightarrow> (encodedPtr \<times> 'e world) res" where
  "mkPart junk self sz host w =
     (case host of
        None \<Rightarrow> Inr (newHandler self (Raw (newRaw sz)) w)
      | Some h \<Rightarrow> (let (rrh, w') = createRemoteRegionData junk h sz w
                  in Inr (newHandler self (Remote sz rrh False) w')))"

section \<open>Message handlers\<close>

definition liftHeap :: "'e world \<Rightarrow> ('x \<times> 'e heap) res \<Rightarrow> ('x \<times> 'e world) res" where
  "liftHeap w r = rmap (\<lambda>(x, h). (x, w\<lparr>wHeap := h\<rparr>)) r"

text \<open>\<open>RegionDataI\<close>'s default handlers on \<open>RegionDataRaw\<close> and its own overrides.\<close>

definition processRaw ::
    "(nat \<Rightarrow> 'e) \<Rightarrow> (nat \<Rightarrow> 'e) \<Rightarrow> hostPid \<Rightarrow> encodedPtr \<Rightarrow> regionDataRaw \<Rightarrow> 'e request \<Rightarrow> 'e world \<Rightarrow>
     ('e reply \<times> 'e world) res" where
  "processRaw junk rnd self p r req w =
     (case req of
        ReadCellMessage c \<Rightarrow> rmap (\<lambda>v. (ReadCellReplyMessage v, w)) (raw_readCell r c (wHeap w))
      | WriteCellMessage v c \<Rightarrow>
          liftHeap w (rmap (Pair (WriteCellReplyMessage v)) (raw_writeCell r c v (wHeap w)))
      | ReadCellCacheMessage n c \<Rightarrow> rmap (\<lambda>rep. (rep, w)) (raw_processReadCellCacheMsg r n c (wHeap w))
      | WriteCellCacheMessage n v c \<Rightarrow> liftHeap w (raw_processWriteCellCacheMsg r n v c (wHeap w))
      | GetHostListMessage b e \<Rightarrow> Inr (GetHostListReplyMessage 1 (raw_hosts self b e), w)
      | UpdateHandlerChainMessage q n \<Rightarrow> Inr (UpdateHandlerChainReplyMessage self n p False, w)
      | AllocDataMessage \<Rightarrow>
          (let (n, r', h) = raw_allocData junk r (wHeap w)
           in Inr (AllocDataReplyMessage n, setData self p (Raw r') (w\<lparr>wHeap := h\<rparr>)))
      | RandomizeDataMessage \<Rightarrow> liftHeap w (rmap (Pair RandomizeDataReplyMessage) (raw_randomize rnd r (wHeap w)))
      | CopyToMatrixStorageMessage md \<Rightarrow>
          rmap (\<lambda>rep. (rep, w)) (raw_processCopyToMatrixStorageMsg junk r md (wHeap w))
      | CopyFromMatrixStorageMessage md vs \<Rightarrow>
          liftHeap w (raw_processCopyFromMatrixStorageMsg r md vs (wHeap w))
      | CopyRegionDataSplitMessage \<Rightarrow> Inl NotImplemented)"

definition processZero ::
    "(nat \<Rightarrow> 'e) \<Rightarrow> hostPid \<Rightarrow> encodedPtr \<Rightarrow> regionData0D \<Rightarrow> 'e request \<Rightarrow> 'e world \<Rightarrow>
     ('e reply \<times> 'e world) res" where
  "processZero rnd self p r req w =
     (case req of
        ReadCellMessage c \<Rightarrow> rmap (\<lambda>v. (ReadCellReplyMessage v, w)) (r0D_readCell r c (wHeap w))
      | WriteCellMessage v c \<Rightarrow>
          liftHeap w (rmap (Pair (WriteCellReplyMessage v)) (r0D_writeCell r c v (wHeap w)))
      | ReadCellCacheMessage n c \<Rightarrow> rmap (\<lambda>rep. (rep, w)) (r0D_processReadCellCacheMsg r (wHeap w))
      | WriteCellCacheMessage n v c \<Rightarrow> Inl AssertFail
      | GetHostListMessage b e \<Rightarrow> Inr (GetHostListReplyMessage 1 (r0D_hosts self), w)
      | UpdateHandlerChainMessage q n \<Rightarrow> Inr (UpdateHandlerChainReplyMessage self n p False, w)
      | AllocDataMessage \<Rightarrow> Inr (AllocDataReplyMessage 0, w)
      | RandomizeDataMessage \<Rightarrow> liftHeap w (rmap (Pair RandomizeDataReplyMessage) (r0D_randomize rnd r (wHeap w)))
      | _ \<Rightarrow> Inl NotImplemented)"

definition processConst ::
    "(nat \<Rightarrow> 'e) \<Rightarrow> hostPid \<Rightarrow> encodedPtr \<Rightarrow> 'e constRegionData0D \<Rightarrow> 'e request \<Rightarrow> 'e world \<Rightarrow>
     ('e reply \<times> 'e world) res" where
  "processConst rnd self p r req w =
     (case req of
        ReadCellMessage c \<Rightarrow> rmap (\<lambda>v. (ReadCellReplyMessage v, w)) (c0D_readCell r c)
      | WriteCellMessage v c \<Rightarrow> rmap (\<lambda>r'. (WriteCellReplyMessage v, setData self p (ConstZero r') w)) (c0D_writeCell r c v)
      | ReadCellCacheMessage n c \<Rightarrow> rmap (\<lambda>rep. (rep, w)) (c0D_processReadCellCacheMsg r)
      | WriteCellCacheMessage n v c \<Rightarrow> Inl AssertFail
      | GetHostListMessage b e \<Rightarrow> Inr (GetHostListReplyMessage 1 (r0D_hosts self), w)
      | UpdateHandlerChainMessage q n \<Rightarrow> Inr (UpdateHandlerChainReplyMessage self n p False, w)
      | AllocDataMessage \<Rightarrow> Inr (AllocDataReplyMessage 0, w)
      | RandomizeDataMessage \<Rightarrow> Inr (RandomizeDataReplyMessage, setData self p (ConstZero (c0D_randomize rnd r)) w)
      | _ \<Rightarrow> Inl NotImplemented)"

text \<open>What \<open>copyRegionDataSplit\<close> records of a part.\<close>

definition whereIs :: "'e world \<Rightarrow> hostPid \<Rightarrow> encodedPtr \<Rightarrow> remoteRegionHandler res" where
  "whereIs w self a =
     rbind (dataAt w self a) (\<lambda>d. case d of
         Raw r \<Rightarrow> Inr \<lparr>rrhHost = self, rrhHandler = a\<rparr>
       | Remote sz rrh sp \<Rightarrow> Inr rrh
       | _ \<Rightarrow> Inl AssertFail)"

text \<open>\<open>RegionDataSplit\<close>: \<open>rec\<close> processes a request at a part of the same process.\<close>

definition processSplit ::
    "(nat \<Rightarrow> 'e) \<Rightarrow> (encodedPtr \<Rightarrow> 'e request \<Rightarrow> 'e world \<Rightarrow> ('e reply \<times> 'e world) res) \<Rightarrow> hostPid \<Rightarrow>
     encodedPtr \<Rightarrow> regionDataSplit \<Rightarrow> 'e request \<Rightarrow> 'e world \<Rightarrow> ('e reply \<times> 'e world) res" where
  "processSplit junk rec self p r req w =
     (let sendSplit = rmap (\<lambda>rep. (rep, w)) (copyRegionDataSplit (whereIs w self) r)
      in case req of
        ReadCellMessage c \<Rightarrow> rbind (coordToPart r c) (\<lambda>(a, cp). rec a (ReadCellMessage cp) w)
      | WriteCellMessage v c \<Rightarrow> rbind (coordToPart r c) (\<lambda>(a, cp). rec a (WriteCellMessage v cp) w)
      | ReadCellCacheMessage n c \<Rightarrow> Inl AssertFail
      | WriteCellCacheMessage n v c \<Rightarrow> Inl AssertFail
      | GetHostListMessage b e \<Rightarrow> sendSplit
      | UpdateHandlerChainMessage q n \<Rightarrow> Inr (UpdateHandlerChainReplyMessage self n p True, w)
      | AllocDataMessage \<Rightarrow>
          rmap (\<lambda>(n, r', w'). (AllocDataReplyMessage n, setData self p (Split r') w'))
            (split_allocData (mkPart junk self) (\<lambda>a w. rmap snd (rec a AllocDataMessage w)) r w)
      | RandomizeDataMessage \<Rightarrow>
          rmap (Pair RandomizeDataReplyMessage)
            (split_randomize (\<lambda>a w. rmap snd (rec a RandomizeDataMessage w)) r w)
      | CopyToMatrixStorageMessage md \<Rightarrow> sendSplit
      | CopyFromMatrixStorageMessage md vs \<Rightarrow> Inl AssertFail
      | CopyRegionDataSplitMessage \<Rightarrow> sendSplit)"

text \<open>\<open>RegionDataRemote\<close> forwards every message but the two cache messages, for which it keeps the
  failing default, and counts a hop in an update message.\<close>

fun hop :: "'e request \<Rightarrow> 'e request" where
  "hop (UpdateHandlerChainMessage q n) = UpdateHandlerChainMessage q (n + 1)"
| "hop req = req"

fun forwards :: "'e request \<Rightarrow> bool" where
  "forwards (ReadCellCacheMessage n c) = False"
| "forwards (WriteCellCacheMessage n v c) = False"
| "forwards req = True"

text \<open>\<open>RegionMatrixProxy::onRecv\<close> at a host: the handler's region data processes the request.\<close>

primrec process ::
    "nat \<Rightarrow> (nat \<Rightarrow> 'e) \<Rightarrow> (nat \<Rightarrow> 'e) \<Rightarrow> hostPid \<Rightarrow> encodedPtr \<Rightarrow> 'e request \<Rightarrow> 'e world \<Rightarrow>
     ('e reply \<times> 'e world) res" where
  "process 0 junk rnd self p req w = Inl Diverges"
| "process (Suc k) junk rnd self p req w =
     rbind (dataAt w self p) (\<lambda>d. case d of
         Raw r \<Rightarrow> processRaw junk rnd self p r req w
       | Zero r \<Rightarrow> processZero rnd self p r req w
       | ConstZero r \<Rightarrow> processConst rnd self p r req w
       | Remote sz rrh sp \<Rightarrow>
           (if forwards req then process k junk rnd (rrhHost rrh) (rrhHandler rrh) (hop req) w
            else Inl AssertFail)
       | Split r \<Rightarrow> processSplit junk (process k junk rnd self) self p r req w)"

section \<open>Access from the own process\<close>

text \<open>\<open>RegionDataRemote::readNoCache\<close> and \<open>writeNoCache\<close>: one request to the remote handler.  The
  reply is interpreted as the answer to that request.\<close>

definition remote_readCell ::
    "nat \<Rightarrow> (nat \<Rightarrow> 'e) \<Rightarrow> (nat \<Rightarrow> 'e) \<Rightarrow> remoteRegionHandler \<Rightarrow> coord \<Rightarrow> 'e world \<Rightarrow> 'e res" where
  "remote_readCell k junk rnd rrh c w =
     rbind (process k junk rnd (rrhHost rrh) (rrhHandler rrh) (ReadCellMessage c) w)
       (\<lambda>(rep, w'). case rep of ReadCellReplyMessage v \<Rightarrow> Inr v | _ \<Rightarrow> Inl AssertFail)"

definition remote_writeCell ::
    "nat \<Rightarrow> (nat \<Rightarrow> 'e) \<Rightarrow> (nat \<Rightarrow> 'e) \<Rightarrow> remoteRegionHandler \<Rightarrow> coord \<Rightarrow> 'e \<Rightarrow> 'e world \<Rightarrow> 'e world res" where
  "remote_writeCell k junk rnd rrh c v w =
     rmap snd (process k junk rnd (rrhHost rrh) (rrhHandler rrh) (WriteCellMessage v c) w)"

text \<open>\<open>RegionHandler::readCell\<close> and \<open>writeCell\<close> in process \<open>self\<close>.\<close>

primrec handler_readCell ::
    "nat \<Rightarrow> (nat \<Rightarrow> 'e) \<Rightarrow> (nat \<Rightarrow> 'e) \<Rightarrow> hostPid \<Rightarrow> encodedPtr \<Rightarrow> coord \<Rightarrow> 'e world \<Rightarrow> 'e res" where
  "handler_readCell 0 junk rnd self p c w = Inl Diverges"
| "handler_readCell (Suc k) junk rnd self p c w =
     rbind (dataAt w self p) (\<lambda>d. case d of
         Raw r \<Rightarrow> raw_readCell r c (wHeap w)
       | Zero r \<Rightarrow> r0D_readCell r c (wHeap w)
       | ConstZero r \<Rightarrow> c0D_readCell r c
       | Remote sz rrh sp \<Rightarrow> remote_readCell k junk rnd rrh c w
       | Split r \<Rightarrow> split_readCell (handler_readCell k junk rnd self) r c w)"

primrec handler_writeCell ::
    "nat \<Rightarrow> (nat \<Rightarrow> 'e) \<Rightarrow> (nat \<Rightarrow> 'e) \<Rightarrow> hostPid \<Rightarrow> encodedPtr \<Rightarrow> coord \<Rightarrow> 'e \<Rightarrow> 'e world \<Rightarrow> 'e world res" where
  "handler_writeCell 0 junk rnd self p c v w = Inl Diverges"
| "handler_writeCell (Suc k) junk rnd self p c v w =
     rbind (dataAt w self p) (\<lambda>d. case d of
         Raw r \<Rightarrow> rmap (\<lambda>h. w\<lparr>wHeap := h\<rparr>) (raw_writeCell r c v (wHeap w))
       | Zero r \<Rightarrow> rmap (\<lambda>h. w\<lparr>wHeap := h\<rparr>) (r0D_writeCell r c v (wHeap w))
       | ConstZero r \<Rightarrow> rmap (\<lambda>r'. setData self p (ConstZero r') w) (c0D_writeCell r c v)
       | Remote sz rrh sp \<Rightarrow> remote_writeCell k junk rnd rrh c v w
       | Split r \<Rightarrow> split_writeCell (handler_writeCell k junk rnd self) r c v w)"

text \<open>\<open>RegionHandler::updateHandlerChain\<close>.\<close>

definition updateHandlerChain ::
    "nat \<Rightarrow> (nat \<Rightarrow> 'e) \<Rightarrow> (nat \<Rightarrow> 'e) \<Rightarrow> hostPid \<Rightarrow> encodedPtr \<Rightarrow> 'e world \<Rightarrow> 'e world res" where
  "updateHandlerChain k junk rnd self p w =
     rbind (dataAt w self p) (\<lambda>d. case d of
         Remote sz rrh sp \<Rightarrow>
           rbind (process k junk rnd (rrhHost rrh) (rrhHandler rrh) (UpdateHandlerChainMessage self 1) w)
             (\<lambda>(rep, w'). case rep of
                UpdateHandlerChainReplyMessage dataHost numHops q isSplit \<Rightarrow>
                  (if dataHost = self then rmap (\<lambda>d'. setData self p d' w') (dataAt w' self q)
                   else if numHops > 1
                   then Inr (setData self p (Remote sz \<lparr>rrhHost = dataHost, rrhHandler = q\<rparr> isSplit) w')
                   else Inr w')
              | _ \<Rightarrow> Inl AssertFail)
       | _ \<Rightarrow> Inr w)"

end
