(* ===== verification/RegionAccess.thy ===== *)
theory RegionAccess
  imports RegionWorld
begin

text \<open>
  What the access paths of theory \<open>RegionWorld\<close> guarantee: a request served through any chain of
  forwarding handlers has the effect of the direct access, shortening a chain keeps what is read,
  and a split region over raw parts satisfies the contracts \<open>part_store\<close> and \<open>part_copy\<close>, hence
  \<open>region_store\<close>.
\<close>

section \<open>Messages and direct access agree\<close>

text \<open>C12: processing a \<open>READCELL\<close> request at a handler, whatever kinds of region data and however
  many forwarding processes are behind it, answers exactly the value that a direct
  \<open>RegionHandler::readCell\<close> in that process yields, fails in exactly the same cases, and
  changes nothing.\<close>

theorem process_readCell:
  "process k junk rnd self p (ReadCellMessage c) w =
   rmap (\<lambda>v. (ReadCellReplyMessage v, w)) (handler_readCell k junk rnd self p c w)"
proof (induction k arbitrary: self p c)
  case (Suc k)
  have remote: "remote_readCell k junk rnd rrh c w = handler_readCell k junk rnd (rrhHost rrh) (rrhHandler rrh) c w" for rrh
    using Suc by (cases "handler_readCell k junk rnd (rrhHost rrh) (rrhHandler rrh) c w")
      (simp_all add: remote_readCell_def)
  show ?case
  proof (cases "dataAt w self p")
    case (Inr d)
    then show ?thesis using Suc remote
      by (cases d) (simp_all add: processRaw_def processZero_def processConst_def processSplit_def
          split_readCell_def Let_def rbind_def rmap_def split: sum.split prod.split)
  qed simp
qed simp

text \<open>Processing a \<open>WRITECELL\<close> request has exactly the effect of the direct
  \<open>RegionHandler::writeCell\<close> at the handler, through any chain of forwarding processes.\<close>

theorem process_writeCell:
  "process k junk rnd self p (WriteCellMessage v c) w =
   rmap (Pair (WriteCellReplyMessage v)) (handler_writeCell k junk rnd self p c v w)"
proof (induction k arbitrary: self p c w)
  case (Suc k)
  show ?case
  proof (cases "dataAt w self p")
    case (Inr d)
    then show ?thesis using Suc
      by (cases d) (simp_all add: processRaw_def processZero_def processConst_def processSplit_def
          split_writeCell_def remote_writeCell_def liftHeap_def Let_def rbind_def rmap_def
          split: sum.split prod.split)
  qed simp
qed simp

section \<open>Chains of handlers\<close>

text \<open>The process and handler at the end of a chain of remote handlers, with the chain's length.\<close>

primrec ownerOf :: "nat \<Rightarrow> 'e world \<Rightarrow> hostPid \<Rightarrow> encodedPtr \<Rightarrow> (nat \<times> hostPid \<times> encodedPtr) option" where
  "ownerOf 0 w host p = None"
| "ownerOf (Suc k) w host p =
     (case wData w host p of
        None \<Rightarrow> None
      | Some d \<Rightarrow> (case d of
            Remote sz rrh sp \<Rightarrow>
              (case ownerOf k w (rrhHost rrh) (rrhHandler rrh) of
                 None \<Rightarrow> None | Some (n, r) \<Rightarrow> Some (Suc n, r))
          | _ \<Rightarrow> Some (0, host, p)))"

fun isRemote :: "'e regionData \<Rightarrow> bool" where
  "isRemote (Remote sz rrh sp) = True"
| "isRemote _ = False"

fun isSplit :: "'e regionData \<Rightarrow> bool" where
  "isSplit (Split r) = True"
| "isSplit _ = False"

lemma ownerOf_data:
  "ownerOf k w host p = Some (n, oh, op) \<Longrightarrow> \<exists>d. wData w oh op = Some d \<and> \<not> isRemote d"
proof (induction k arbitrary: host p n)
  case (Suc k)
  then show ?case by (auto split: option.splits regionData.splits)
qed simp

lemma hop_funpow: "(hop ^^ n) (UpdateHandlerChainMessage q m) = UpdateHandlerChainMessage q (m + int n)"
  by (induction n) (auto simp: funpow_swap1)

lemma forwards_hop: "forwards (hop req) = forwards req"
  by (cases req) auto

lemma process_chain:
  "ownerOf k w host p = Some (n, oh, op) \<Longrightarrow> forwards req \<Longrightarrow>
   process (n + j) junk rnd host p req w = process j junk rnd oh op ((hop ^^ n) req) w \<and> n < k"
proof (induction k arbitrary: host p n req)
  case (Suc k)
  obtain d where d: "wData w host p = Some d" using Suc.prems(1) by (auto split: option.splits)
  show ?case
  proof (cases "isRemote d")
    case True
    then obtain sz rrh sp where r: "d = Remote sz rrh sp" by (cases d) auto
    then obtain m where m: "n = Suc m" "ownerOf k w (rrhHost rrh) (rrhHandler rrh) = Some (m, oh, op)"
      using Suc.prems(1) d by (auto split: option.splits)
    have "process (m + j) junk rnd (rrhHost rrh) (rrhHandler rrh) (hop req) w =
        process j junk rnd oh op ((hop ^^ m) (hop req)) w \<and> m < k"
      using Suc.IH[OF m(2)] Suc.prems(2) forwards_hop by blast
    then show ?thesis using m(1) d r Suc.prems(2) by (simp add: dataAt_def funpow_swap1)
  next
    case False
    then have "n = 0" "oh = host" "op = p" using Suc.prems(1) d by (cases d; auto)+
    then show ?thesis by simp
  qed
qed simp

lemma process_update_owner:
  "wData w oh op = Some d \<Longrightarrow> \<not> isRemote d \<Longrightarrow>
   process (Suc j) junk rnd oh op (UpdateHandlerChainMessage q n) w =
     Inr (UpdateHandlerChainReplyMessage oh n op (isSplit d), w)"
  by (cases d) (simp_all add: dataAt_def processRaw_def processZero_def processConst_def processSplit_def)

text \<open>C7: \<open>RegionHandler::updateHandlerChain\<close> on a handler whose chain of remote handlers ends at a
  data owner succeeds with as much fuel as the chain is long; only that handler's region data
  changes, no element changes, and afterwards the handler holds the owner's region data itself when
  the owner is in the same process, and is otherwise one hop away from the same owner.\<close>

theorem updateHandlerChain_shortens:
  assumes "wData w self p = Some (Remote sz rrh sp)" "ownerOf k w self p = Some (n, oh, op)" "k \<le> m"
  shows "\<exists>w'. updateHandlerChain m junk rnd self p w = Inr w' \<and> wHeap w' = wHeap w \<and>
      (\<forall>h q. (h, q) \<noteq> (self, p) \<longrightarrow> wData w' h q = wData w h q) \<and>
      (if oh = self then wData w' self p = wData w oh op
       else ownerOf 2 w' self p = Some (1, oh, op))"
proof -
  obtain k' n' where k: "k = Suc k'" "n = Suc n'"
    "ownerOf k' w (rrhHost rrh) (rrhHandler rrh) = Some (n', oh, op)"
    using assms(1,2) by (cases k) (auto split: option.splits)
  obtain d where d: "wData w oh op = Some d" "\<not> isRemote d" using ownerOf_data[OF assms(2)] by blast
  have lt: "n' < k'"
    using process_chain[OF k(3), of "UpdateHandlerChainMessage self 1" 0 junk rnd] by simp
  then obtain j where j: "m = n' + Suc j" using k assms(3) by (metis add_Suc_right less_imp_Suc_add
        less_le_trans Suc_le_eq le_Suc_eq not_less_eq less_imp_add_positive le_less_trans)
  have rep: "process m junk rnd (rrhHost rrh) (rrhHandler rrh) (UpdateHandlerChainMessage self 1) w =
      Inr (UpdateHandlerChainReplyMessage oh (1 + int n') op (isSplit d), w)"
    using process_chain[OF k(3), of "UpdateHandlerChainMessage self 1" "Suc j" junk rnd]
      process_update_owner[OF d] j by (simp add: hop_funpow del: process.simps)
  show ?thesis
  proof (cases "oh = self")
    case True
    then show ?thesis using rep assms(1) d
      by (simp add: updateHandlerChain_def dataAt_def setData_def)
  next
    case False
    show ?thesis
    proof (cases "n' = 0")
      case True
      then have "oh = rrhHost rrh" "op = rrhHandler rrh"
        using k(3) lt by (cases k'; auto split: option.splits regionData.splits)+
      then show ?thesis using rep assms(1) d False True
        by (cases d) (simp_all add: updateHandlerChain_def dataAt_def numeral_2_eq_2)
    next
      case n: False
      then have "oh \<noteq> self" "1 + int n' > 1" using False by simp_all
      then show ?thesis using rep assms(1) d False
        by (cases d) (simp_all add: updateHandlerChain_def dataAt_def setData_def numeral_2_eq_2)
    qed
  qed
qed

section \<open>Split regions over raw parts\<close>

text \<open>In process \<open>self\<close> every raw region has its storage, and no two share one.\<close>

definition raws_ok :: "hostPid \<Rightarrow> 'e world \<Rightarrow> bool" where
  "raws_ok self w =
     ((\<forall>a r. wData w self a = Some (Raw r) \<longrightarrow> (\<exists>s xs. raw_holds r (wHeap w) s xs)) \<and>
      (\<forall>a b r q. wData w self a = Some (Raw r) \<longrightarrow> wData w self b = Some (Raw q) \<longrightarrow> a \<noteq> b \<longrightarrow>
         rawStorage r \<noteq> rawStorage q))"

definition raw_part_cells :: "hostPid \<Rightarrow> 'e world \<Rightarrow> encodedPtr \<Rightarrow> coord set" where
  "raw_part_cells self w a = {c. \<exists>r. wData w self a = Some (Raw r) \<and> inBox (rawSize r) c}"

lemma raws_okD:
  assumes "raws_ok self w" "wData w self a = Some (Raw r)"
  obtains s xs where "raw_holds r (wHeap w) s xs"
proof -
  have "\<exists>s xs. raw_holds r (wHeap w) s xs" using assms unfolding raws_ok_def by blast
  then show ?thesis using that by blast
qed

text \<open>Overwriting the elements of one storage, of the same length, keeps all of this.\<close>

lemma raws_ok_setMem:
  assumes "raws_ok self w" "mem (wHeap w) s = Some xs" "length ys = length xs"
  shows "raws_ok self (w\<lparr>wHeap := setMem s ys (wHeap w)\<rparr>)"
  using assms unfolding raws_ok_def raw_holds_def by (simp, metis option.inject)

lemma raw_part_cells_heap [simp]:
  "raw_part_cells self (w\<lparr>wHeap := h\<rparr>) = raw_part_cells self w"
  by (rule ext) (simp add: raw_part_cells_def)

lemma raw_other_storage:
  assumes "raws_ok self w" "wData w self a = Some (Raw r)" "wData w self b = Some (Raw q)" "a \<noteq> b"
    "raw_holds r (wHeap w) s xs" "raw_holds q (wHeap w) t ys"
  shows "s \<noteq> t"
proof -
  have "rawStorage r \<noteq> rawStorage q" using assms(1-4) unfolding raws_ok_def by blast
  then show ?thesis using assms(5,6) by (simp add: raw_holds_def)
qed

lemma raw_holds_other:
  "raw_holds q h t ys \<Longrightarrow> s \<noteq> t \<Longrightarrow> raw_holds q (setMem s xs h) t ys"
  by (simp add: raw_holds_def)

interpretation rawParts: part_store
    "handler_readCell (Suc k) junk rnd self" "handler_writeCell (Suc k) junk rnd self"
    "raw_part_cells self" "raws_ok self"
  for k junk rnd self
proof unfold_locales
  fix w :: "'a world" and c a v w'
  assume ok: "raws_ok self w" and c: "c \<in> raw_part_cells self w a"
  then obtain r where r: "wData w self a = Some (Raw r)" "inBox (rawSize r) c"
    by (auto simp: raw_part_cells_def)
  obtain s xs where h: "raw_holds r (wHeap w) s xs" by (rule raws_okD[OF ok r(1)])
  note wr = raw_writeCell_radix[OF h r(2), of v]
  let ?h = "setMem s (xs[nat (radix (rawSize r) c) := v]) (wHeap w)"
  show "\<exists>v. handler_readCell (Suc k) junk rnd self a c w = Inr v"
    using r raw_readCell_radix[OF h r(2)] by (simp add: dataAt_def)
  have w: "handler_writeCell (Suc k) junk rnd self a c v w = Inr (w\<lparr>wHeap := ?h\<rparr>)"
    using r wr by (simp add: dataAt_def)
  then show "\<exists>w'. handler_writeCell (Suc k) junk rnd self a c v w = Inr w'" by blast
  assume "handler_writeCell (Suc k) junk rnd self a c v w = Inr w'"
  then have w': "w' = w\<lparr>wHeap := ?h\<rparr>" using w by simp
  have "mem (wHeap w) s = Some xs" using h by (simp add: raw_holds_def)
  then show "raws_ok self w' \<and> raw_part_cells self w' = raw_part_cells self w"
    using raws_ok_setMem[OF ok, of s xs] w' by simp
  fix c' a' assume "c' \<in> raw_part_cells self w a'"
  then obtain q where q: "wData w self a' = Some (Raw q)" "inBox (rawSize q) c'"
    by (auto simp: raw_part_cells_def)
  obtain t ys where hq: "raw_holds q (wHeap w) t ys" by (rule raws_okD[OF ok q(1)])
  show "handler_readCell (Suc k) junk rnd self a' c' w' =
      (if a' = a \<and> c' = c then Inr v else handler_readCell (Suc k) junk rnd self a' c' w)"
  proof (cases "a' = a")
    case True
    then have "q = r" using q r by simp
    have h': "raw_holds r ?h s (xs[nat (radix (rawSize r) c) := v])" by (rule raw_holds_write[OF h]) simp
    have "raw_readCell r c' ?h = (if c' = c then Inr v else raw_readCell r c' (wHeap w))"
      using raw_readCell_radix[OF h', of c'] raw_readCell_radix[OF h, of c'] q(2) \<open>q = r\<close>
        radix_inj[OF r(2), of c'] radix_bounds[OF r(2)] radix_bounds[of "rawSize r" c'] h
      by (auto simp: raw_holds_def nth_list_update nat_eq_iff)
    then show ?thesis using True r w' by (simp add: dataAt_def)
  next
    case False
    have "s \<noteq> t" using raw_other_storage[OF ok r(1) q(1) _ h hq] False by blast
    then show ?thesis
      using False q w' raw_readCell_radix[OF hq q(2)] raw_readCell_radix[OF raw_holds_other[OF hq] q(2)]
      by (simp add: dataAt_def)
  qed
qed














text \<open>C8: a split region over raw parts of its process is one array: after \<open>writeCell\<close> at a
  coordinate inside it, \<open>readCell\<close> there gives the value written, and every other coordinate of
  the region, in the same part or another, reads as before.\<close>

theorem split_cells:
  assumes "raws_ok self w" "parts_in (raw_part_cells self) r w" "inBox (splSize r) c" "inBox (splSize r) c'"
  shows "\<exists>w'. split_writeCell (handler_writeCell (Suc k) junk rnd self) r c v w = Inr w' \<and>
      raws_ok self w' \<and> parts_in (raw_part_cells self) r w' \<and>
      split_readCell (handler_readCell (Suc k) junk rnd self) r c' w' =
        (if c' = c then Inr v else split_readCell (handler_readCell (Suc k) junk rnd self) r c' w)"
proof -
  obtain w' where "split_writeCell (handler_writeCell (Suc k) junk rnd self) r c v w = Inr w'"
    using rawParts.split_writeCell_ok[OF assms(1-3)] by blast
  then show ?thesis
    using rawParts.split_writeCell_inv[OF assms(1-3)] rawParts.split_read_write[OF assms] by blast
qed


end
