(* ===== verification/RegionRemote.thy ===== *)
theory RegionRemote
  imports RegionAccess
begin

text \<open>
  Copies between a remote region and a local scratch storage
  (\<open>RegionDataRemote::copyToScratchMatrixStorage\<close> and \<open>copyFromScratchMatrixStorage\<close> in
  \<open>runtime/regiondataremote.cpp\<close>), the local copy of a remote split region, the reported hosts, and
  the registry of local handlers for remote ones (\<open>RegionHandlerDB\<close> in \<open>regionhandler.cpp\<close>).
\<close>

section \<open>Copying from a remote region\<close>

definition scratchIndex :: "regionMatrixMetadata \<Rightarrow> nat \<Rightarrow> int list \<Rightarrow> coord \<Rightarrow> int res" where
  "scratchIndex smd d ssz c =
     toRegionDataIndex d c (splitOffset smd) (slices smd) (sizeToMultipliers (take d ssz))"

text \<open>Filling the scratch storage from the reply: one \<open>memcpy\<close> when the reply is as long as the
  scratch storage, the coordinate loop otherwise.\<close>

definition storeReply ::
    "int list \<Rightarrow> int \<Rightarrow> 'e list \<Rightarrow> storagePtr \<Rightarrow> regionMatrixMetadata \<Rightarrow> int list \<Rightarrow> 'e heap \<Rightarrow> 'e heap res" where
  "storeReply sz count vs scratch smd ssz h =
     rbind (storageCount scratch h) (\<lambda>n.
       if count = n
       then (case scratch of None \<Rightarrow> Inl NullDeref
             | Some t \<Rightarrow> (if int (length vs) < count then Inl OutOfBounds
                         else Inr (setMem t (take (nat count) vs) h)))
       else rmap snd (ended (doWhile (incCoord sz) (copyInCell scratch (scratchIndex smd (length sz) ssz) vs)
              (replicate (length sz) 0) (0, h))))"

definition remote_copyToScratch ::
    "nat \<Rightarrow> (nat \<Rightarrow> 'e) \<Rightarrow> (nat \<Rightarrow> 'e) \<Rightarrow> remoteRegionHandler \<Rightarrow> regionMatrixMetadata \<Rightarrow> storagePtr \<Rightarrow>
     regionMatrixMetadata \<Rightarrow> int list \<Rightarrow> 'e world \<Rightarrow> 'e world res" where
  "remote_copyToScratch k junk rnd rrh md scratch smd ssz w =
     rbind (process k junk rnd (rrhHost rrh) (rrhHandler rrh) (CopyToMatrixStorageMessage md) w)
       (\<lambda>(rep, w'). case rep of
          CopyToMatrixStorageReplyMessage count vs \<Rightarrow>
            rmap (\<lambda>h. w'\<lparr>wHeap := h\<rparr>) (storeReply (mdSize md) count vs scratch smd ssz (wHeap w'))
        | _ \<Rightarrow> Inl AssertFail)"

text \<open>Collecting the elements for the reverse copy; \<open>len\<close> is the size in bytes of the caller's
  message buffer, which holds the metadata and the elements.\<close>

definition loadRequest ::
    "(nat \<Rightarrow> 'e) \<Rightarrow> int list \<Rightarrow> storagePtr \<Rightarrow> regionMatrixMetadata \<Rightarrow> int list \<Rightarrow> 'e heap \<Rightarrow> 'e list res" where
  "loadRequest junk sz scratch smd ssz h =
     rbind (storageData scratch h) (\<lambda>xs.
       (let storageCount = countOf sz
        in if storageCount = int (length xs) then Inr xs
           else rmap snd (ended (doWhile (incCoord sz) (copyOutCell scratch (scratchIndex smd (length sz) ssz) h)
                  (replicate (length sz) 0) (0, map junk [0..<nat storageCount])))))"

definition remote_copyFromScratch ::
    "nat \<Rightarrow> (nat \<Rightarrow> 'e) \<Rightarrow> (nat \<Rightarrow> 'e) \<Rightarrow> remoteRegionHandler \<Rightarrow> regionMatrixMetadata \<Rightarrow> nat \<Rightarrow> storagePtr \<Rightarrow>
     regionMatrixMetadata \<Rightarrow> int list \<Rightarrow> 'e world \<Rightarrow> 'e world res" where
  "remote_copyFromScratch k junk rnd rrh md len scratch smd ssz w =
     rbind (loadRequest junk (mdSize md) scratch smd ssz (wHeap w)) (\<lambda>vs.
       rassert (metadataLen (length (mdSize md)) (length (slices md)) + 8 * nat (countOf (mdSize md)) \<le> len)
         (rmap snd (process k junk rnd (rrhHost rrh) (rrhHandler rrh) (CopyFromMatrixStorageMessage md vs) w)))"

section \<open>Local handlers for remote ones\<close>

text \<open>\<open>RegionHandlerDB\<close>: per remote process, the local handlers already made for its handlers.\<close>

type_synonym handlerDB = "hostPid \<Rightarrow> encodedPtr \<Rightarrow> encodedPtr option"

definition getLocalRegionHandler ::
    "hostPid \<Rightarrow> handlerDB \<Rightarrow> remoteRegionHandler \<Rightarrow> int list \<Rightarrow> bool \<Rightarrow> 'e world \<Rightarrow>
     encodedPtr \<times> handlerDB \<times> 'e world" where
  "getLocalRegionHandler self db rrh sz isDataSplit w =
     (if rrhHost rrh = self then (rrhHandler rrh, db, w)
      else (case db (rrhHost rrh) (rrhHandler rrh) of
          Some p \<Rightarrow> (p, db, w)
        | None \<Rightarrow> (let (p, w') = newHandler self (Remote sz rrh isDataSplit) w
                  in (p, db(rrhHost rrh := (db (rrhHost rrh))(rrhHandler rrh := Some p)), w'))))"

text \<open>\<open>RegionDataRemote::copyRegionDataSplit\<close>: the parts of the remote split region become local
  handlers.\<close>

fun setPartsLoop ::
    "hostPid \<Rightarrow> int \<Rightarrow> remoteRegionHandler list \<Rightarrow> regionDataSplit \<Rightarrow> handlerDB \<times> 'e world \<Rightarrow>
     (regionDataSplit \<times> handlerDB \<times> 'e world) res" where
  "setPartsLoop self i [] r st = Inr (r, fst st, snd st)"
| "setPartsLoop self i (h # hs) r st =
     rbind (setPart (\<lambda>rrh sz (db, w). (let (p, db', w') = getLocalRegionHandler self db rrh sz False w
              in Inr (p, (db', w')))) i h r st)
       (\<lambda>(r', st'). setPartsLoop self (i + 1) hs r' st')"

definition remote_copyRegionDataSplit ::
    "nat \<Rightarrow> (nat \<Rightarrow> 'e) \<Rightarrow> (nat \<Rightarrow> 'e) \<Rightarrow> hostPid \<Rightarrow> int list \<Rightarrow> remoteRegionHandler \<Rightarrow> handlerDB \<Rightarrow> 'e world \<Rightarrow>
     (regionDataSplit \<times> handlerDB \<times> 'e world) res" where
  "remote_copyRegionDataSplit k junk rnd self sz rrh db w =
     rbind (process k junk rnd (rrhHost rrh) (rrhHandler rrh) CopyRegionDataSplitMessage w)
       (\<lambda>(rep, w'). case rep of
          CopyRegionDataSplitReplyMessage d n spl hs \<Rightarrow>
            rbind (split_init sz spl) (\<lambda>r. setPartsLoop self 0 (take (nat n) hs) r (db, w'))
        | _ \<Rightarrow> Inl AssertFail)"

definition remote_hosts :: "remoteRegionHandler \<Rightarrow> coord \<Rightarrow> coord \<Rightarrow> dataHostPidList" where
  "remote_hosts rrh begin' end' =
     [\<lparr>itemHost = rrhHost rrh, itemWeight = fold (\<lambda>(b, e) n. n * (e - b)) (zip begin' end') 1\<rparr>]"

text \<open>\<open>RegionHandler::copyRegionDataToLocal\<close>: a remote region is replaced by a local copy.\<close>

definition copyRegionDataToLocal ::
    "nat \<Rightarrow> (nat \<Rightarrow> 'e) \<Rightarrow> (nat \<Rightarrow> 'e) \<Rightarrow> hostPid \<Rightarrow> encodedPtr \<Rightarrow> 'e world \<Rightarrow> 'e world res" where
  "copyRegionDataToLocal k junk rnd self p w =
     rbind (dataAt w self p) (\<lambda>d. case d of
         Raw r \<Rightarrow> Inr w
       | Remote sz rrh sp \<Rightarrow>
           (let (n, r, h) = raw_allocData junk (newRaw sz) (wHeap w); md = plainMd (map (\<lambda>_. 0) sz) sz
            in rmap (setData self p (Raw r))
                 (remote_copyToScratch k junk rnd rrh md (rawStorage r) md sz (w\<lparr>wHeap := h\<rparr>)))
       | _ \<Rightarrow> Inl AssertFail)"

section \<open>The short cut of a whole copy\<close>







end
