(* ===== verification/RegionAlloc.thy ===== *)
theory RegionAlloc
  imports RegionRemote
begin

text \<open>
  Placement of a new region: \<open>RegionHandler::allocData\<close> and the distribution strategies behind it
  (\<open>runtime/regionhandler.cpp\<close>), with \<open>RemoteHostDB::allocHost\<close> (\<open>runtime/remotehost.h\<close>).

  The process knows the other hosts in a list and its own position \<open>allocHostNumber\<close> in the order
  common to all of them (0 at the master).  The random host of \<open>allocDataOneRemoteNode\<close> is an
  argument, and so is what new storages hold.
\<close>

record hostDB =
  dbHosts :: "hostPid list"
  allocHostNumber :: int

definition allocHost :: "hostDB \<Rightarrow> int \<Rightarrow> hostPid option res" where
  "allocHost db i =
     (if i < allocHostNumber db then rmap Some (rd (dbHosts db) i)
      else if i = allocHostNumber db then Inr None
      else rmap Some (rd (dbHosts db) (i - 1)))"

datatype distribution = LOCAL | ONE_REMOTE | N_BY_ROW | N_BY_COL | N_BY_BLOCK | N_BY_BLOCK_TRANSPOSED

fun isSizeLargerThanDistributedCutoff :: "int list \<Rightarrow> int \<Rightarrow> bool" where
  "isSizeLargerThanDistributedCutoff [] cutoff = False"
| "isSizeLargerThanDistributedCutoff (s # ss) cutoff =
     (if s \<ge> cutoff then True else isSizeLargerThanDistributedCutoff ss cutoff)"

text \<open>A handler whose region data is \<open>NULL\<close> has no entry in the world.\<close>

definition splitData :: "hostPid \<Rightarrow> encodedPtr \<Rightarrow> int list \<Rightarrow> int list \<Rightarrow> 'e world \<Rightarrow> (regionDataSplit \<times> 'e world) res" where
  "splitData self p sz spl w =
     rassert (case wData w self p of None \<Rightarrow> True | Some d \<Rightarrow> (case d of Raw r \<Rightarrow> True | _ \<Rightarrow> False))
       (rmap (\<lambda>r. (r, setData self p (Split r) w)) (split_init sz spl))"

text \<open>\<open>createPart\<close> on the host with allocation number \<open>h\<close>.\<close>

definition createPartAt ::
    "(nat \<Rightarrow> 'e) \<Rightarrow> hostDB \<Rightarrow> hostPid \<Rightarrow> int \<Rightarrow> int \<Rightarrow> regionDataSplit \<times> 'e world \<Rightarrow>
     (regionDataSplit \<times> 'e world) res" where
  "createPartAt junk db self partIndex h st =
     rbind (allocHost db h) (\<lambda>host. createPart (mkPart junk self) partIndex host (fst st) (snd st))"

text \<open>The loop of \<open>allocDataNBySlice\<close> (and of \<open>allocDataNByBlock\<close> for other than two dimensions):
  \<open>r\<close> is passed by value to \<open>allocHost\<close> and nothing in the loop increments it.\<close>

fun slicePartsLoop ::
    "(nat \<Rightarrow> 'e) \<Rightarrow> hostDB \<Rightarrow> hostPid \<Rightarrow> int \<Rightarrow> nat \<Rightarrow> int \<Rightarrow> int \<Rightarrow> regionDataSplit \<times> 'e world \<Rightarrow>
     (regionDataSplit \<times> 'e world) res" where
  "slicePartsLoop junk db self numHosts 0 i r st = Inr st"
| "slicePartsLoop junk db self numHosts (Suc n) i r st =
     rbind (createPartAt junk db self i r st)
       (slicePartsLoop junk db self numHosts n (i + 1) (if r \<ge> numHosts then 0 else r))"

definition finishSplit ::
    "nat \<Rightarrow> (nat \<Rightarrow> 'e) \<Rightarrow> (nat \<Rightarrow> 'e) \<Rightarrow> hostPid \<Rightarrow> encodedPtr \<Rightarrow> regionDataSplit \<times> 'e world \<Rightarrow> 'e world res" where
  "finishSplit k junk rnd self p st =
     rbind (split_allocData (mkPart junk self)
         (\<lambda>a w. rmap snd (process k junk rnd self a AllocDataMessage w)) (fst st) (setData self p (Split (fst st)) (snd st)))
       (\<lambda>(n, r, w). Inr (setData self p (Split r) w))"

definition allocDataNBySlice ::
    "nat \<Rightarrow> (nat \<Rightarrow> 'e) \<Rightarrow> (nat \<Rightarrow> 'e) \<Rightarrow> hostDB \<Rightarrow> hostPid \<Rightarrow> encodedPtr \<Rightarrow> int list \<Rightarrow> int \<Rightarrow> nat \<Rightarrow> 'e world \<Rightarrow>
     'e world res" where
  "allocDataNBySlice k junk rnd db self p sz distributionSize sliceDimension w =
     (let numHosts = int (length (dbHosts db)) + 1;
          ds = (if distributionSize > numHosts then numHosts else distributionSize)
      in if length sz \<le> sliceDimension then Inl OutOfBounds
         else if ds = 0 then Inl DivByZero
         else
           (let s = cdiv (sz ! sliceDimension) ds; spl = sz[sliceDimension := (if s = 0 then 1 else s)]
            in rbind (splitData self p sz spl w) (\<lambda>(r, w1).
                 rbind (slicePartsLoop junk db self numHosts (nat (numParts r)) 0 0 (r, w1))
                   (finishSplit k junk rnd self p))))"

text \<open>The split sizes of \<open>allocDataNByBlock\<close> with the \<open>hasExtra\<close> flags.\<close>

fun blockSizes :: "bool \<Rightarrow> int \<Rightarrow> int list \<Rightarrow> (int \<times> bool) list" where
  "blockSizes two ds [] = []"
| "blockSizes two ds (s # ss) =
     (let q = cdiv s ds; rest = (cmod s ds \<noteq> 0);
          q' = (if rest \<and> \<not> two then q + 1 else q)
      in ((if q' = 0 then 1 else q'), rest \<and> two) # blockSizes two ds ss)"

fun blockInner ::
    "(int \<Rightarrow> int) \<Rightarrow> (nat \<Rightarrow> 'e) \<Rightarrow> hostDB \<Rightarrow> hostPid \<Rightarrow> int \<Rightarrow> bool \<Rightarrow> int \<Rightarrow> nat \<Rightarrow> int \<Rightarrow>
     int \<times> regionDataSplit \<times> 'e world \<Rightarrow> (int \<times> regionDataSplit \<times> 'e world) res" where
  "blockInner index junk db self numHosts extra count 0 i st = Inr st"
| "blockInner index junk db self numHosts extra count (Suc n) i (r, st) =
     rbind (createPartAt junk db self (index i) r st) (\<lambda>st'.
       let r1 = (if \<not> extra \<or> i \<noteq> count - 2 then r + 1 else r)
       in blockInner index junk db self numHosts extra count n (i + 1) (if r1 \<ge> numHosts then 0 else r1, st'))"

fun blockOuter ::
    "(int \<Rightarrow> int \<Rightarrow> int) \<Rightarrow> (nat \<Rightarrow> 'e) \<Rightarrow> hostDB \<Rightarrow> hostPid \<Rightarrow> int \<Rightarrow> bool \<Rightarrow> bool \<Rightarrow> int \<Rightarrow> int \<Rightarrow> nat \<Rightarrow> int \<Rightarrow> int \<Rightarrow>
     int \<times> regionDataSplit \<times> 'e world \<Rightarrow> (int \<times> regionDataSplit \<times> 'e world) res" where
  "blockOuter index junk db self numHosts extraOut extraIn outer inner 0 j lastBegin st = Inr st"
| "blockOuter index junk db self numHosts extraOut extraIn outer inner (Suc n) j lastBegin (r, st) =
     (let r' = (if extraOut \<and> j = outer - 1 then lastBegin else r)
      in rbind (blockInner (index j) junk db self numHosts extraIn inner (nat inner) 0 (r', st))
           (blockOuter index junk db self numHosts extraOut extraIn outer inner n (j + 1) r'))"

definition ceilParts :: "int \<Rightarrow> int \<Rightarrow> int" where
  "ceilParts s p = cdiv s p + (if cmod s p \<noteq> 0 then 1 else 0)"

definition allocDataNByBlock ::
    "nat \<Rightarrow> (nat \<Rightarrow> 'e) \<Rightarrow> (nat \<Rightarrow> 'e) \<Rightarrow> hostDB \<Rightarrow> hostPid \<Rightarrow> encodedPtr \<Rightarrow> int list \<Rightarrow> int \<Rightarrow> bool \<Rightarrow> 'e world \<Rightarrow>
     'e world res" where
  "allocDataNByBlock k junk rnd db self p sz distributionSize transposed w =
     (let numHosts = int (length (dbHosts db)) + 1;
          ds = (if distributionSize > numHosts then numHosts else distributionSize)
      in if ds = 0 then Inl DivByZero
         else
           (let bs = blockSizes (length sz = 2) ds sz; spl = map fst bs
            in rbind (splitData self p sz spl w) (\<lambda>(r, w1).
              if length sz = 2
              then
                (let numCols = ceilParts (sz ! 0) (spl ! 0); numRows = ceilParts (sz ! 1) (spl ! 1);
                     x0 = snd (bs ! 0); x1 = snd (bs ! 1);
                     parts = (if transposed
                       then blockOuter (\<lambda>i j. j * numCols + i) junk db self numHosts x0 x1 numCols numRows
                              (nat numCols) 0 0 (0, r, w1)
                       else blockOuter (\<lambda>j i. j * numCols + i) junk db self numHosts x1 x0 numRows numCols
                              (nat numRows) 0 0 (0, r, w1))
                 in rbind parts (\<lambda>(_, st). finishSplit k junk rnd self p st))
              else rbind (slicePartsLoop junk db self numHosts (nat (numParts r)) 0 0 (r, w1))
                     (finishSplit k junk rnd self p))))"

definition allocDataLocal ::
    "nat \<Rightarrow> (nat \<Rightarrow> 'e) \<Rightarrow> (nat \<Rightarrow> 'e) \<Rightarrow> hostPid \<Rightarrow> encodedPtr \<Rightarrow> int list \<Rightarrow> 'e world \<Rightarrow> 'e world res" where
  "allocDataLocal k junk rnd self p sz w =
     (case wData w self p of
        Some d \<Rightarrow> rassert (isSplit d) (rmap snd (process k junk rnd self p AllocDataMessage w))
      | None \<Rightarrow> (let (n, r, h) = raw_allocData junk (newRaw sz) (wHeap w)
                 in Inr (setData self p (Raw r) (w\<lparr>wHeap := h\<rparr>))))"

definition allocDataOneRemoteNode ::
    "nat \<Rightarrow> (nat \<Rightarrow> 'e) \<Rightarrow> (nat \<Rightarrow> 'e) \<Rightarrow> hostDB \<Rightarrow> hostPid \<Rightarrow> int \<Rightarrow> encodedPtr \<Rightarrow> int list \<Rightarrow> 'e world \<Rightarrow> 'e world res" where
  "allocDataOneRemoteNode k junk rnd db self random p sz w =
     (if dbHosts db \<noteq> []
      then rmap (\<lambda>host. let (rrh, w') = createRemoteRegionData junk host sz w
                        in setData self p (Remote sz rrh False) w') (rd (dbHosts db) random)
      else allocDataLocal k junk rnd self p sz w)"

definition allocDataRoundRobin ::
    "(nat \<Rightarrow> 'e) \<Rightarrow> hostDB \<Rightarrow> hostPid \<Rightarrow> int \<Rightarrow> encodedPtr \<Rightarrow> int list \<Rightarrow> 'e world \<Rightarrow> (int \<times> 'e world) res" where
  "allocDataRoundRobin junk db self currentIndex p sz w =
     (let numHosts = int (length (dbHosts db)); i = cmod (currentIndex + 1) (numHosts + 1)
      in if i < numHosts
         then rmap (\<lambda>host. let (rrh, w') = createRemoteRegionData junk host sz w
                           in (i, setData self p (Remote sz rrh False) w')) (rd (dbHosts db) i)
         else rassert (i = numHosts)
           (let (n, r, h) = raw_allocData junk (newRaw sz) (wHeap w)
            in Inr (i, setData self p (Raw r) (w\<lparr>wHeap := h\<rparr>))))"

definition handler_allocData ::
    "nat \<Rightarrow> (nat \<Rightarrow> 'e) \<Rightarrow> (nat \<Rightarrow> 'e) \<Rightarrow> hostDB \<Rightarrow> hostPid \<Rightarrow> int \<Rightarrow> encodedPtr \<Rightarrow> int list \<Rightarrow> int \<Rightarrow> distribution \<Rightarrow>
     int \<Rightarrow> 'e world \<Rightarrow> 'e world res" where
  "handler_allocData k junk rnd db self random p sz cutoff dist distSize w =
     (case wData w self p of
        Some d \<Rightarrow> rassert (isSplit d) (rmap snd (process k junk rnd self p AllocDataMessage w))
      | None \<Rightarrow>
          (let loc = allocDataLocal k junk rnd self p sz w
           in case dist of
                LOCAL \<Rightarrow> loc
              | ONE_REMOTE \<Rightarrow>
                  (if isSizeLargerThanDistributedCutoff sz cutoff
                   then allocDataOneRemoteNode k junk rnd db self random p sz w else loc)
              | N_BY_ROW \<Rightarrow>
                  (if length sz \<ge> 2 \<and> sz ! 1 \<ge> cutoff
                   then allocDataNBySlice k junk rnd db self p sz distSize 1 w else loc)
              | N_BY_COL \<Rightarrow>
                  (if sz = [] then Inl OutOfBounds
                   else if sz ! 0 \<ge> cutoff then allocDataNBySlice k junk rnd db self p sz distSize 0 w else loc)
              | N_BY_BLOCK \<Rightarrow>
                  (if isSizeLargerThanDistributedCutoff sz cutoff
                   then allocDataNByBlock k junk rnd db self p sz distSize False w else loc)
              | N_BY_BLOCK_TRANSPOSED \<Rightarrow>
                  (if isSizeLargerThanDistributedCutoff sz cutoff
                   then allocDataNByBlock k junk rnd db self p sz distSize True w else loc)))"

section \<open>What the placement loops achieve\<close>






end
