(* ===== verification/RegionCache.thy ===== *)
theory RegionCache
  imports RegionRaw
begin

text \<open>
  The cache a worker thread keeps for a remote region: \<open>RegionDataRemoteCache\<close>
  (\<open>runtime/regiondataremotecache.cpp\<close>), the per-thread table \<open>WorkerThreadCache\<close>
  (\<open>runtime/workerthreadcache.h\<close>) and the version counter \<open>SubRegionCacheManager\<close>
  (\<open>runtime/subregioncachemanager.h\<close>).  The interface \<open>IRegionCacheable\<close>, which the cache calls, is
  the locale \<open>cacheable\<close>; the data owner's message handlers interpret it.
\<close>

section \<open>The interface IRegionCacheable\<close>

text \<open>The line of \<open>n\<close> elements around offset \<open>k\<close>, as far as there are elements.\<close>

definition lineStart :: "int \<Rightarrow> int \<Rightarrow> int" where
  "lineStart n k = k - k mod n"

definition lineOf :: "'e list \<Rightarrow> int \<Rightarrow> int \<Rightarrow> 'e list" where
  "lineOf xs n k = take (nat (min (int (length xs) - lineStart n k) n)) (drop (nat (lineStart n k)) xs)"

locale cacheable =
  fixes readByCache :: "'s \<Rightarrow> int \<Rightarrow> coord \<Rightarrow> (int \<times> int \<times> 'e list) res"
    and writeByCache :: "'s \<Rightarrow> coord \<Rightarrow> 'e \<Rightarrow> 's res"
    and elems :: "'s \<Rightarrow> 'e list"
    and extent :: "'s \<Rightarrow> int list"
    and inv :: "'s \<Rightarrow> bool"
  assumes elems_length: "inv s \<Longrightarrow> int (length (elems s)) = prod_list (extent s)"
    and read_line: "inv s \<Longrightarrow> inBox (extent s) c \<Longrightarrow> 0 < n \<Longrightarrow>
      readByCache s n c = Inr (0, int (length (lineOf (elems s) n (radix (extent s) c))) - 1,
        lineOf (elems s) n (radix (extent s) c))"
    and write_cell: "inv s \<Longrightarrow> inBox (extent s) c \<Longrightarrow>
      \<exists>s'. writeByCache s c v = Inr s' \<and> inv s' \<and> extent s' = extent s \<and>
        elems s' = (elems s)[nat (radix (extent s) c) := v]"

section \<open>RegionDataRemoteCache\<close>

record 'e cacheLine =
  isValid :: bool
  clOffset :: int
  clStart :: int
  clEnd :: int
  clBase :: "'e list"

record 'e regionCache =
  rcMultipliers :: "int list"
  cacheLineSize :: int
  numCacheLines :: int
  cacheLines :: "int \<Rightarrow> 'e cacheLine option"

definition newCache :: "int list \<Rightarrow> int \<Rightarrow> int \<Rightarrow> 'e regionCache" where
  "newCache mults lineSize numLines =
     \<lparr>rcMultipliers = mults, cacheLineSize = lineSize, numCacheLines = numLines, cacheLines = \<lambda>_. None\<rparr>"

text \<open>\<open>RegionDataRemote::cacheGenerator\<close> with \<open>REGIONDATA_CACHE_LINE_SIZE\<close> and
  \<open>REGIONDATA_CACHE_NUM_LINES\<close>.\<close>

definition cacheGenerator :: "int list \<Rightarrow> 'e regionCache" where
  "cacheGenerator sz = newCache (rawMultsLoop 1 sz) 16 16"

definition cache_offset :: "'e regionCache \<Rightarrow> coord \<Rightarrow> int" where
  "cache_offset rc coord = rawOffsetLoop 0 (rcMultipliers rc) coord"

text \<open>\<open>getCacheLine\<close>: a new line is invalid; its other members are not initialised.\<close>

definition newLine :: "'e \<Rightarrow> int \<Rightarrow> 'e cacheLine" where
  "newLine junk n = \<lparr>isValid = False, clOffset = 0, clStart = 0, clEnd = 0, clBase = replicate (nat n) junk\<rparr>"

definition getCacheLine :: "'e \<Rightarrow> int \<Rightarrow> 'e regionCache \<Rightarrow> 'e cacheLine" where
  "getCacheLine junk key rc =
     (case cacheLines rc key of Some l \<Rightarrow> l | None \<Rightarrow> newLine junk (cacheLineSize rc))"

definition putCacheLine :: "int \<Rightarrow> 'e cacheLine \<Rightarrow> 'e regionCache \<Rightarrow> 'e regionCache" where
  "putCacheLine key l rc = rc\<lparr>cacheLines := (cacheLines rc)(key := Some l)\<rparr>"

definition hits :: "'e cacheLine \<Rightarrow> int \<Rightarrow> int \<Rightarrow> bool" where
  "hits l off el = (isValid l \<and> clOffset l = off \<and> clStart l \<le> el \<and> el \<le> clEnd l)"

text \<open>\<open>RegionDataRemote::readByCache\<close> copies the reply into the line.\<close>

definition fillLine :: "'e cacheLine \<Rightarrow> int \<times> int \<times> 'e list \<Rightarrow> 'e cacheLine res" where
  "fillLine l rep =
     (case rep of (st, en, vs) \<Rightarrow>
        (if en + 1 < 0 \<or> en + 1 > int (length vs) \<or> en + 1 > int (length (clBase l)) then Inl OutOfBounds
         else Inr (l\<lparr>clStart := st, clEnd := en,
                clBase := take (nat (en + 1)) vs @ drop (nat (en + 1)) (clBase l)\<rparr>)))"

text \<open>\<open>readCell\<close>; \<open>fetch\<close> is \<open>readByCache\<close>.  The answer is the value and the changed cache.\<close>

definition cache_readCell ::
    "'e \<Rightarrow> (int \<Rightarrow> coord \<Rightarrow> (int \<times> int \<times> 'e list) res) \<Rightarrow> 'e regionCache \<Rightarrow> coord \<Rightarrow> ('e \<times> 'e regionCache) res" where
  "cache_readCell junk fetch rc coord =
     (let pageSize = cacheLineSize rc * numCacheLines rc;
          coordOffset = cache_offset rc coord
      in if pageSize = 0 then Inl DivByZero
      else
       (let pageOffset = cmod coordOffset pageSize;
            off = coordOffset - pageOffset;
            elementOffset = cmod pageOffset (cacheLineSize rc);
            key = pageOffset - elementOffset;
            l = getCacheLine junk key rc
        in if hits l off elementOffset
           then rmap (\<lambda>v. (v, putCacheLine key l rc)) (rd (clBase l) elementOffset)
           else rbind (fetch (cacheLineSize rc) coord) (\<lambda>rep. rbind (fillLine l rep) (\<lambda>l'.
                  let l'' = l'\<lparr>isValid := True, clOffset := off\<rparr>
                  in rmap (\<lambda>v. (v, putCacheLine key l'' rc)) (rd (clBase l'') elementOffset)))))"

text \<open>\<open>writeCell\<close>: a line that holds the element is updated, and the value is always sent on.\<close>

definition cache_writeCell ::
    "'e \<Rightarrow> (coord \<Rightarrow> 'e \<Rightarrow> 's res) \<Rightarrow> 'e regionCache \<Rightarrow> coord \<Rightarrow> 'e \<Rightarrow> ('s \<times> 'e regionCache) res" where
  "cache_writeCell junk send rc coord value =
     (let pageSize = cacheLineSize rc * numCacheLines rc;
          coordOffset = cache_offset rc coord
      in if pageSize = 0 then Inl DivByZero
      else
       (let pageOffset = cmod coordOffset pageSize;
            off = coordOffset - pageOffset;
            elementOffset = cmod pageOffset (cacheLineSize rc);
            key = pageOffset - elementOffset;
            l = getCacheLine junk key rc;
            l' = (if hits l off elementOffset then rmap (\<lambda>b. l\<lparr>clBase := b\<rparr>) (wr (clBase l) elementOffset value)
                  else Inr l)
        in rbind l' (\<lambda>l'. rmap (\<lambda>s. (s, putCacheLine key l' rc)) (send coord value))))"

definition cache_invalidate :: "'e regionCache \<Rightarrow> 'e regionCache" where
  "cache_invalidate rc = rc\<lparr>cacheLines := \<lambda>_. None\<rparr>"

section \<open>WorkerThreadCache and SubRegionCacheManager\<close>

definition wtc_get :: "('c \<Rightarrow> 'e regionCache) \<Rightarrow> 'c \<Rightarrow> ('c \<Rightarrow> 'e regionCache option) \<Rightarrow>
    'e regionCache \<times> ('c \<Rightarrow> 'e regionCache option)" where
  "wtc_get gen c m = (case m c of Some rc \<Rightarrow> (rc, m) | None \<Rightarrow> (gen c, m(c := Some (gen c))))"

definition wtc_invalidate :: "('c \<Rightarrow> 'e regionCache option) \<Rightarrow> ('c \<Rightarrow> 'e regionCache option)" where
  "wtc_invalidate m = (\<lambda>_. None)"

definition incVersion :: "int \<Rightarrow> int" where
  "incVersion version = version + 1"

text \<open>The parameter of \<open>isValid\<close> has type \<open>bool\<close>: a version is converted to 0 or 1 before it is
  compared with the counter.\<close>

definition boolOf :: "int \<Rightarrow> int" where
  "boolOf v = (if v = 0 then 0 else 1)"

definition srcm_isValid :: "int \<Rightarrow> int \<Rightarrow> bool" where
  "srcm_isValid version cacheVersion = (boolOf cacheVersion = version)"

text \<open>The version test of the sub-region cache accepts an entry made at the current version only
  when that version is 0 or 1; from the second increment on, no entry is ever valid, whatever its
  version.\<close>

lemma srcm_never_valid: "srcm_isValid version cacheVersion = (version = (if cacheVersion = 0 then 0 else 1))"
  by (auto simp: srcm_isValid_def boolOf_def)

section \<open>Coherence\<close>

definition line_coherent :: "'e list \<Rightarrow> int \<Rightarrow> int \<Rightarrow> 'e cacheLine \<Rightarrow> bool" where
  "line_coherent xs n key l =
     (int (length (clBase l)) = n \<and>
      (isValid l \<longrightarrow> 0 \<le> clStart l \<and> clEnd l < n \<and> n dvd clOffset l \<and> 0 \<le> clOffset l \<and>
         (\<forall>i. clStart l \<le> i \<and> i \<le> clEnd l \<longrightarrow> rd (clBase l) i = rd xs (clOffset l + key + i))))"

definition coherent :: "'e list \<Rightarrow> int list \<Rightarrow> 'e regionCache \<Rightarrow> bool" where
  "coherent xs sz rc =
     (rcMultipliers rc = sizeToMultipliers sz \<and> 0 < cacheLineSize rc \<and> 0 < numCacheLines rc \<and>
      (\<forall>key l. cacheLines rc key = Some l \<longrightarrow>
         line_coherent xs (cacheLineSize rc) key l \<and> cacheLineSize rc dvd key \<and> 0 \<le> key \<and>
         key < cacheLineSize rc * numCacheLines rc \<and>
         (isValid l \<longrightarrow> cacheLineSize rc * numCacheLines rc dvd clOffset l)))"

lemma newCache_coherent:
  "0 < n \<Longrightarrow> 0 < m \<Longrightarrow> coherent xs sz (newCache (sizeToMultipliers sz) n m)"
  by (simp add: coherent_def newCache_def)

lemma cacheGenerator_coherent: "coherent xs sz (cacheGenerator sz)"
  by (simp add: cacheGenerator_def rawMultsLoop_eq newCache_coherent flip: sizeToMultipliers_def)

lemma cache_offset_radix:
  "coherent xs sz rc \<Longrightarrow> inBox sz c \<Longrightarrow> cache_offset rc c = radix sz c"
  using coordToOffset_radix[OF inBox_length, of sz c]
  by (simp add: cache_offset_def coherent_def rawOffsetLoop_eq coordToOffset_def)

text \<open>Splitting an offset into page, line and element.\<close>

lemma offset_split:
  assumes "0 < (n::int)" "0 < m" "0 \<le> k"
  defines "po \<equiv> k mod (n * m)" and "off \<equiv> k - k mod (n * m)" and "el \<equiv> k mod (n * m) mod n"
  shows "el = k mod n" "0 \<le> el" "el < n" "0 \<le> po - el" "po - el < n * m" "n dvd po - el" "n * m dvd off"
    "n dvd off" "0 \<le> off" "off + (po - el) + el = k" "off + (po - el) = lineStart n k"
proof -
  show e: "el = k mod n" unfolding el_def by (simp add: mod_mod_cancel)
  show "0 \<le> el" "el < n" using assms(1) e by simp_all
  show "n * m dvd off" unfolding off_def by (rule dvd_minus_mod)
  then show "n dvd off" by (rule dvd_mult_left)
  have "0 < n * m" using assms(1,2) by simp
  then show "0 \<le> off" unfolding off_def using assms(3) by (simp add: zmod_le_nonneg_dividend)
  have "po - el = n * (po div n)" unfolding po_def el_def by (simp add: minus_mod_eq_mult_div)
  moreover have "0 \<le> po" "po < n * m" unfolding po_def using \<open>0 < n * m\<close> by simp_all
  ultimately show "n dvd po - el" "0 \<le> po - el"
    using assms(1) by (simp_all add: pos_imp_zdiv_nonneg_iff)
  show "po - el < n * m" using \<open>po < n * m\<close> \<open>0 \<le> el\<close> by linarith
  show "off + (po - el) + el = k" unfolding off_def po_def by simp
  then show "off + (po - el) = lineStart n k" using e by (simp add: lineStart_def)
qed

lemma lineStart_bounds: "0 < n \<Longrightarrow> 0 \<le> k \<Longrightarrow> 0 \<le> lineStart n k \<and> lineStart n k \<le> k \<and> k < lineStart n k + n"
  using pos_mod_bound[of n k] pos_mod_sign[of n k] by (simp add: lineStart_def zmod_le_nonneg_dividend)

lemma lineOf_nth:
  assumes "0 < n" "0 \<le> k" "k < int (length xs)" "0 \<le> i" "i < int (length (lineOf xs n k))"
  shows "rd (lineOf xs n k) i = rd xs (lineStart n k + i)"
proof -
  note b = lineStart_bounds[OF assms(1,2)]
  have i: "i < int (length xs) - lineStart n k" "i < n" using assms b by (auto simp: lineOf_def)
  then have "nat (lineStart n k + i) = nat (lineStart n k) + nat i" using b assms(4) by (simp add: nat_add_distrib)
  then show ?thesis using i b assms by (simp add: lineOf_def)
qed

lemma lineOf_length:
  assumes "0 < n" "0 \<le> k" "k < int (length xs)"
  shows "int (length (lineOf xs n k)) \<le> n" "k mod n < int (length (lineOf xs n k))"
  using lineStart_bounds[OF assms(1,2)] assms by (auto simp: lineOf_def lineStart_def)

lemma coherent_line:
  assumes "coherent xs sz rc"
  shows "line_coherent xs (cacheLineSize rc) key (getCacheLine junk key rc)"
  using assms by (auto simp: getCacheLine_def coherent_def newLine_def line_coherent_def split: option.split)

lemma coherent_put:
  assumes "coherent xs sz rc" "line_coherent xs (cacheLineSize rc) key l" "cacheLineSize rc dvd key"
    "0 \<le> key" "key < cacheLineSize rc * numCacheLines rc"
    "isValid l \<longrightarrow> cacheLineSize rc * numCacheLines rc dvd clOffset l"
  shows "coherent xs sz (putCacheLine key l rc)"
  using assms by (auto simp: coherent_def putCacheLine_def)

lemma hit_value:
  assumes "line_coherent xs n key l" "hits l off el"
  shows "rd (clBase l) el = rd xs (off + key + el)" "0 \<le> el" "el < int (length (clBase l))"
  using assms by (auto simp: line_coherent_def hits_def)

text \<open>Two positions of valid lines that stand for the same element are the same position.\<close>

lemma position_unique:
  assumes "0 < (n::int)" "0 < m" "n * m dvd o1" "n * m dvd o2" "n dvd k1" "n dvd k2"
    "0 \<le> k1" "k1 < n * m" "0 \<le> k2" "k2 < n * m" "0 \<le> i1" "i1 < n" "0 \<le> i2" "i2 < n"
    "o1 + k1 + i1 = o2 + k2 + i2"
  shows "o1 = o2 \<and> k1 = k2 \<and> i1 = i2"
proof -
  have "n dvd o1 + k1" "n dvd o2 + k2"
    using assms(5,6) dvd_mult_left[OF assms(3)] dvd_mult_left[OF assms(4)] by auto
  then obtain q1 q2 where "o1 + k1 = n * q1" "o2 + k2 = n * q2" by (auto elim!: dvdE)
  then have "(o1 + k1 + i1) mod n = i1" "(o2 + k2 + i2) mod n = i2" using assms(11-14) by simp_all
  then have i: "i1 = i2" using assms(15) by simp
  then have "o1 + k1 = o2 + k2" using assms(15) by simp
  moreover have "(o1 + k1) mod (n * m) = k1" "(o2 + k2) mod (n * m) = k2"
    using assms by (auto elim!: dvdE)
  ultimately have "k1 = k2" by metis
  then show ?thesis using i assms(15) by simp
qed

text \<open>The two operations with the positions computed.\<close>

lemma cache_readCell_eq:
  fixes rc coord junk
  assumes "0 < cacheLineSize rc" "0 < numCacheLines rc" "0 \<le> cache_offset rc coord"
  defines "po \<equiv> cache_offset rc coord mod (cacheLineSize rc * numCacheLines rc)"
  defines "el \<equiv> po mod cacheLineSize rc"
  defines "off \<equiv> cache_offset rc coord - po" and "key \<equiv> po - el" and "l \<equiv> getCacheLine junk (po - el) rc"
  shows "cache_readCell junk fetch rc coord =
    (if hits l off el then rmap (\<lambda>v. (v, putCacheLine key l rc)) (rd (clBase l) el)
     else rbind (fetch (cacheLineSize rc) coord) (\<lambda>rep. rbind (fillLine l rep) (\<lambda>l'.
       rmap (\<lambda>v. (v, putCacheLine key (l'\<lparr>isValid := True, clOffset := off\<rparr>) rc))
         (rd (clBase (l'\<lparr>isValid := True, clOffset := off\<rparr>)) el))))"
proof -
  have pos: "0 < cacheLineSize rc * numCacheLines rc" using assms(1,2) by simp
  have "cmod (cache_offset rc coord) (cacheLineSize rc * numCacheLines rc) = po" "0 \<le> po"
    unfolding po_def using pos assms(3) by (simp_all add: cmod_nonneg)
  moreover from this have "cmod po (cacheLineSize rc) = el" unfolding el_def using assms(1) by (simp add: cmod_nonneg)
  ultimately show ?thesis using assms(1,2)
    by (simp add: cache_readCell_def Let_def off_def key_def l_def del: rd_in)
qed

lemma cache_writeCell_eq:
  fixes rc coord junk
  assumes "0 < cacheLineSize rc" "0 < numCacheLines rc" "0 \<le> cache_offset rc coord"
  defines "po \<equiv> cache_offset rc coord mod (cacheLineSize rc * numCacheLines rc)"
  defines "el \<equiv> po mod cacheLineSize rc"
  defines "off \<equiv> cache_offset rc coord - po" and "key \<equiv> po - el" and "l \<equiv> getCacheLine junk (po - el) rc"
  shows "cache_writeCell junk send rc coord v =
    rbind (if hits l off el then rmap (\<lambda>b. l\<lparr>clBase := b\<rparr>) (wr (clBase l) el v) else Inr l)
      (\<lambda>l'. rmap (\<lambda>s. (s, putCacheLine key l' rc)) (send coord v))"
proof -
  have pos: "0 < cacheLineSize rc * numCacheLines rc" using assms(1,2) by simp
  have "cmod (cache_offset rc coord) (cacheLineSize rc * numCacheLines rc) = po" "0 \<le> po"
    unfolding po_def using pos assms(3) by (simp_all add: cmod_nonneg)
  moreover from this have "cmod po (cacheLineSize rc) = el" unfolding el_def using assms(1) by (simp add: cmod_nonneg)
  ultimately show ?thesis using assms(1,2)
    by (simp add: cache_writeCell_def Let_def off_def key_def l_def del: wr_in)
qed

context cacheable
begin

lemma cached_read:
  assumes "inv s" "coherent (elems s) (extent s) rc" "inBox (extent s) c"
  shows "\<exists>rc'. cache_readCell junk (readByCache s) rc c = Inr (elems s ! nat (radix (extent s) c), rc') \<and>
    coherent (elems s) (extent s) rc'"
proof -
  let ?n = "cacheLineSize rc" and ?m = "numCacheLines rc" and ?k = "radix (extent s) c"
  let ?xs = "elems s" and ?po = "radix (extent s) c mod (cacheLineSize rc * numCacheLines rc)"
  let ?off = "?k - ?po" and ?el = "?po mod ?n"
  let ?key = "?po - ?el"
  let ?l = "getCacheLine junk ?key rc"
  have nm: "0 < ?n" "0 < ?m" using assms(2) by (auto simp: coherent_def)
  have k: "0 \<le> ?k" "?k < int (length ?xs)" using radix_bounds[OF assms(3)] elems_length[OF assms(1)] by auto
  note sp = offset_split[OF nm k(1)]
  note off = cache_offset_radix[OF assms(2,3)]
  note eq = cache_readCell_eq[of rc c junk "readByCache s", unfolded off, OF nm k(1)]
  have lc: "line_coherent ?xs ?n ?key ?l" by (rule coherent_line[OF assms(2)])
  show ?thesis
  proof (cases "hits ?l ?off ?el")
    case True
    have "rd (clBase ?l) ?el = Inr (?xs ! nat ?k)"
      using hit_value(1)[OF lc True] sp(10) k by simp
    moreover have "coherent ?xs (extent s) (putCacheLine ?key ?l rc)"
      by (rule coherent_put[OF assms(2) lc sp(6,4,5)]) (use True sp(7) in \<open>simp add: hits_def\<close>)
    ultimately show ?thesis unfolding eq using True by (simp only: if_True rmap_simps) blast
  next
    case False
    let ?vs = "lineOf ?xs ?n ?k"
    have vs: "int (length ?vs) \<le> ?n" "?el < int (length ?vs)"
      using lineOf_length[OF nm(1) k] sp(1) by auto
    let ?l' = "?l\<lparr>clStart := 0, clEnd := int (length ?vs) - 1, clBase := ?vs @ drop (length ?vs) (clBase ?l),
        isValid := True, clOffset := ?off\<rparr>"
    have lb: "int (length (clBase ?l)) = ?n" using lc by (simp add: line_coherent_def)
    have f: "fillLine ?l (0, int (length ?vs) - 1, ?vs) = Inr (?l\<lparr>clStart := 0, clEnd := int (length ?vs) - 1,
        clBase := ?vs @ drop (length ?vs) (clBase ?l)\<rparr>)"
      using vs lb by (simp add: fillLine_def)
    have el: "rd (clBase ?l') i = rd ?xs (?off + ?key + i)" if "0 \<le> i" "i < int (length ?vs)" for i
    proof -
      have "rd (clBase ?l') i = rd ?vs i" using that vs lb by (simp add: nth_append nat_less_iff)
      then show ?thesis using lineOf_nth[OF nm(1) k that] sp(11) by simp
    qed
    have "line_coherent ?xs ?n ?key ?l'"
      unfolding line_coherent_def
    proof (intro conjI impI allI)
      show "int (length (clBase ?l')) = ?n" using vs lb by simp
      show "clEnd ?l' < ?n" using vs by simp
      show "?n dvd clOffset ?l'" using sp(8) by simp
      show "0 \<le> clOffset ?l'" using sp(9) by simp
      fix i assume "clStart ?l' \<le> i \<and> i \<le> clEnd ?l'"
      then show "rd (clBase ?l') i = rd ?xs (clOffset ?l' + ?key + i)" using el[of i] by simp
    qed simp
    then have "coherent ?xs (extent s) (putCacheLine ?key ?l' rc)"
      by (rule coherent_put[OF assms(2) _ sp(6,4,5)]) (use sp(7) in simp)
    moreover have "rd (clBase ?l') ?el = Inr (?xs ! nat ?k)" using el[OF sp(2) vs(2)] sp(10) k by simp
    ultimately show ?thesis unfolding eq using False f read_line[OF assms(1,3) nm(1)]
      by (simp only: if_False rmap_simps rbind_simps) blast
  qed
qed

lemma cached_write:
  assumes "inv s" "coherent (elems s) (extent s) rc" "inBox (extent s) c"
  shows "\<exists>s' rc'. cache_writeCell junk (writeByCache s) rc c v = Inr (s', rc') \<and> inv s' \<and>
    extent s' = extent s \<and> elems s' = (elems s)[nat (radix (extent s) c) := v] \<and>
    coherent (elems s') (extent s') rc'"
proof -
  let ?n = "cacheLineSize rc" and ?m = "numCacheLines rc" and ?k = "radix (extent s) c"
  let ?xs = "elems s" and ?po = "radix (extent s) c mod (cacheLineSize rc * numCacheLines rc)"
  let ?off = "?k - ?po" and ?el = "?po mod ?n"
  let ?key = "?po - ?el"
  let ?l = "getCacheLine junk ?key rc" and ?ys = "(elems s)[nat (radix (extent s) c) := v]"
  have nm: "0 < ?n" "0 < ?m" using assms(2) by (auto simp: coherent_def)
  have k: "0 \<le> ?k" "?k < int (length ?xs)" using radix_bounds[OF assms(3)] elems_length[OF assms(1)] by auto
  note sp = offset_split[OF nm k(1)]
  note off = cache_offset_radix[OF assms(2,3)]
  note eq = cache_writeCell_eq[of rc c junk "writeByCache s" v, unfolded off, OF nm k(1)]
  obtain s' where s': "writeByCache s c v = Inr s'" "inv s'" "extent s' = extent s" "elems s' = ?ys"
    using write_cell[OF assms(1,3)] by blast
  have rdy: "rd ?ys i = (if i = ?k then Inr v else rd ?xs i)" for i
    using rd_wr[of ?xs ?k v ?ys i] k by simp
  have lc: "line_coherent ?xs ?n ?key ?l" by (rule coherent_line[OF assms(2)])
  have lb: "int (length (clBase ?l)) = ?n" using lc by (simp add: line_coherent_def)
  let ?b = "(clBase ?l)[nat ?el := v]"
  have wb: "wr (clBase ?l) ?el v = Inr ?b" using lb sp(2,3) by simp
  have rdb: "rd ?b i = (if i = ?el then Inr v else rd (clBase ?l) i)" for i by (rule rd_wr[OF wb])
  have pos: "i = ?el \<and> key' = ?key \<and> o' = ?off"
    if "?n * ?m dvd o'" "?n dvd key'" "0 \<le> key'" "key' < ?n * ?m" "0 \<le> i" "i < ?n" "o' + key' + i = ?k"
    for i key' o'
    using position_unique[OF nm that(1) sp(7) that(2) sp(6) that(3,4) sp(4,5) that(5,6) sp(2,3)] that(7) sp(10)
    by simp
  have keep: "line_coherent ?ys ?n key l'"
    if lck: "line_coherent ?xs ?n key l'" and kk: "?n dvd key" "0 \<le> key" "key < ?n * ?m"
      and d: "isValid l' \<longrightarrow> ?n * ?m dvd clOffset l'" and miss: "key \<noteq> ?key \<or> \<not> hits l' ?off ?el" for key l'
    unfolding line_coherent_def
  proof (intro conjI impI allI)
    fix i assume val: "isValid l'" and i: "clStart l' \<le> i \<and> i \<le> clEnd l'"
    have i': "0 \<le> i" "i < ?n" using lck val i by (auto simp: line_coherent_def)
    have "clOffset l' + key + i \<noteq> ?k"
    proof
      assume "clOffset l' + key + i = ?k"
      then have "i = ?el \<and> key = ?key \<and> clOffset l' = ?off" using pos d val kk i' by blast
      then show False using miss val i by (simp add: hits_def)
    qed
    then show "rd (clBase l') i = rd ?ys (clOffset l' + key + i)"
      using lck val i rdy by (simp add: line_coherent_def del: rd_in)
  qed (use lck in \<open>auto simp: line_coherent_def\<close>)
  have base: "coherent ?ys (extent s) (putCacheLine ?key l' rc)"
    if l': "line_coherent ?ys ?n ?key l'" "isValid l' \<longrightarrow> ?n * ?m dvd clOffset l'" for l'
    using assms(2) l' sp(4,5,6) keep by (auto simp: coherent_def putCacheLine_def)
  have dl: "isValid ?l \<longrightarrow> ?n * ?m dvd clOffset ?l"
    using assms(2) by (auto simp: getCacheLine_def newLine_def coherent_def split: option.split)
  show ?thesis
  proof (cases "hits ?l ?off ?el")
    case True
    have "line_coherent ?ys ?n ?key (?l\<lparr>clBase := ?b\<rparr>)"
      unfolding line_coherent_def
    proof (intro conjI impI allI)
      fix i assume val: "isValid (?l\<lparr>clBase := ?b\<rparr>)"
        and i: "clStart (?l\<lparr>clBase := ?b\<rparr>) \<le> i \<and> i \<le> clEnd (?l\<lparr>clBase := ?b\<rparr>)"
      have o: "clOffset ?l = ?off" using True by (simp add: hits_def)
      have "(?off + ?key + i = ?k) = (i = ?el)" using sp(10) by linarith
      moreover have "rd (clBase ?l) i = rd ?xs (?off + ?key + i)"
        using lc val i o by (simp add: line_coherent_def del: rd_in)
      ultimately show "rd (clBase (?l\<lparr>clBase := ?b\<rparr>)) i = rd ?ys (clOffset (?l\<lparr>clBase := ?b\<rparr>) + ?key + i)"
        using rdb[of i] rdy[of "?off + ?key + i"] o by (simp del: rd_in)
    qed (use lc in \<open>auto simp: line_coherent_def\<close>)
    then have "coherent ?ys (extent s) (putCacheLine ?key (?l\<lparr>clBase := ?b\<rparr>) rc)" by (rule base) (use dl in simp)
    then show ?thesis unfolding eq using True wb s' by (simp only: if_True rmap_simps rbind_simps) auto
  next
    case False
    have "line_coherent ?ys ?n ?key ?l" by (rule keep[OF lc sp(6,4,5) dl]) (use False in simp)
    then have "coherent ?ys (extent s) (putCacheLine ?key ?l rc)" by (rule base) (use dl in simp)
    then show ?thesis unfolding eq using False s' by (simp only: if_False rmap_simps rbind_simps) auto
  qed
qed

end

section \<open>Runs of cached operations\<close>

datatype 'e cellOp = ReadOp coord | WriteOp coord 'e

fun opCoord :: "'e cellOp \<Rightarrow> coord" where
  "opCoord (ReadOp c) = c"
| "opCoord (WriteOp c v) = c"

text \<open>A thread's operations on a cached region, with the values read; and the same operations on a
  plain array.\<close>

fun runCached ::
    "'e \<Rightarrow> ('s \<Rightarrow> int \<Rightarrow> coord \<Rightarrow> (int \<times> int \<times> 'e list) res) \<Rightarrow> ('s \<Rightarrow> coord \<Rightarrow> 'e \<Rightarrow> 's res) \<Rightarrow> 'e cellOp list \<Rightarrow>
     's \<Rightarrow> 'e regionCache \<Rightarrow> ('e list \<times> 's) res" where
  "runCached junk fetch send [] s rc = Inr ([], s)"
| "runCached junk fetch send (ReadOp c # ops) s rc =
     rbind (cache_readCell junk (fetch s) rc c) (\<lambda>(v, rc').
       rmap (\<lambda>(vs, s'). (v # vs, s')) (runCached junk fetch send ops s rc'))"
| "runCached junk fetch send (WriteOp c v # ops) s rc =
     rbind (cache_writeCell junk (send s) rc c v) (\<lambda>(s', rc'). runCached junk fetch send ops s' rc')"

fun runPlain :: "int list \<Rightarrow> 'e cellOp list \<Rightarrow> 'e list \<Rightarrow> 'e list \<times> 'e list" where
  "runPlain sz [] xs = ([], xs)"
| "runPlain sz (ReadOp c # ops) xs =
     (let (vs, ys) = runPlain sz ops xs in (xs ! nat (radix sz c) # vs, ys))"
| "runPlain sz (WriteOp c v # ops) xs = runPlain sz ops (xs[nat (radix sz c) := v])"

context cacheable
begin

lemma runCached_plain:
  assumes "inv s" "coherent (elems s) (extent s) rc" "\<forall>x \<in> set ops. inBox (extent s) (opCoord x)"
  shows "\<exists>s'. runCached junk readByCache writeByCache ops s rc = Inr (fst (runPlain (extent s) ops (elems s)), s') \<and>
    inv s' \<and> elems s' = snd (runPlain (extent s) ops (elems s))"
  using assms
proof (induction ops arbitrary: s rc)
  case (Cons x ops)
  show ?case
  proof (cases x)
    case (ReadOp c)
    then have c: "inBox (extent s) c" using Cons.prems(3) by simp
    obtain rc' where "cache_readCell junk (readByCache s) rc c = Inr (elems s ! nat (radix (extent s) c), rc')"
      "coherent (elems s) (extent s) rc'" using cached_read[OF Cons.prems(1,2) c] by blast
    then show ?thesis using Cons.IH[of s rc'] Cons.prems ReadOp by (auto split: prod.split)
  next
    case (WriteOp c v)
    then have c: "inBox (extent s) c" using Cons.prems(3) by simp
    obtain s' rc' where "cache_writeCell junk (writeByCache s) rc c v = Inr (s', rc')" "inv s'"
      "extent s' = extent s" "elems s' = (elems s)[nat (radix (extent s) c) := v]"
      "coherent (elems s') (extent s') rc'" using cached_write[OF Cons.prems(1,2) c] by blast
    then show ?thesis using Cons.IH[of s' rc'] Cons.prems WriteOp by auto
  qed
qed simp

end

section \<open>The owner's handlers provide the interface\<close>

definition owner_readByCache :: "regionDataRaw \<times> 'e heap \<Rightarrow> int \<Rightarrow> coord \<Rightarrow> (int \<times> int \<times> 'e list) res" where
  "owner_readByCache st n c =
     rbind (raw_processReadCellCacheMsg (fst st) n c (snd st))
       (\<lambda>rep. case rep of CacheReplyMessage a b vs \<Rightarrow> Inr (a, b, vs) | _ \<Rightarrow> Inl AssertFail)"

definition owner_writeByCache :: "regionDataRaw \<times> 'e heap \<Rightarrow> coord \<Rightarrow> 'e \<Rightarrow> (regionDataRaw \<times> 'e heap) res" where
  "owner_writeByCache st c v = rmap (Pair (fst st)) (raw_writeCell (fst st) c v (snd st))"

definition owner_elems :: "regionDataRaw \<times> 'e heap \<Rightarrow> 'e list" where
  "owner_elems st = (case storageData (rawStorage (fst st)) (snd st) of Inl e \<Rightarrow> [] | Inr xs \<Rightarrow> xs)"

lemma raw_holds_elems: "raw_holds r h s xs \<Longrightarrow> owner_elems (r, h) = xs"
  by (simp add: owner_elems_def raw_holds_def storageData_def)

interpretation ownerCache: cacheable
    owner_readByCache owner_writeByCache owner_elems "\<lambda>st. rawSize (fst st)" raw_ok
proof unfold_locales
  fix st :: "regionDataRaw \<times> 'e heap" and c v and n :: int
  obtain r h where st: "st = (r, h)" by (cases st)
  assume "raw_ok st"
  then obtain s xs where hs: "raw_holds r h s xs" using st by (auto simp: raw_ok_def)
  note xs = raw_holds_elems[OF hs]
  show "int (length (owner_elems st)) = prod_list (rawSize (fst st))"
    using xs hs st by (simp add: raw_holds_def)
  assume c: "inBox (rawSize (fst st)) c"
  then have c': "inBox (rawSize r) c" using st by simp
  note k = radix_bounds[OF c']
  show "\<exists>s'. owner_writeByCache st c v = Inr s' \<and> raw_ok s' \<and> rawSize (fst s') = rawSize (fst st) \<and>
      owner_elems s' = (owner_elems st)[nat (radix (rawSize (fst st)) c) := v]"
  proof -
    let ?ys = "xs[nat (radix (rawSize r) c) := v]"
    have hh: "raw_holds r (setMem s ?ys h) s ?ys" by (rule raw_holds_write[OF hs]) simp
    then have "raw_ok (r, setMem s ?ys h)" by (auto simp: raw_ok_def)
    then show ?thesis using raw_writeCell_radix[OF hs c', of v] raw_holds_elems[OF hh] xs st
      by (simp add: owner_writeByCache_def)
  qed
  assume n: "0 < n"
  have o: "raw_coordOffset r c = radix (rawSize r) c" by (rule raw_coordOffset_radix[OF hs c'])
  have m: "cmod (radix (rawSize r) c) n = radix (rawSize r) c mod n" using n k by (simp add: cmod_nonneg)
  have len: "int (length xs) = prod_list (rawSize r)" "storageData (rawStorage r) h = Inr xs"
    using hs by (auto simp: raw_holds_def storageData_def)
  note b = lineStart_bounds[OF n, of "radix (rawSize r) c"]
  have "int (length (lineOf xs n (radix (rawSize r) c))) =
      min (int (length xs) - lineStart n (radix (rawSize r) c)) n"
    using b k n len by (auto simp: lineOf_def)
  moreover have "\<not> min (prod_list (rawSize r) - lineStart n (radix (rawSize r) c)) n < 0"
    using b k n by auto
  ultimately show "owner_readByCache st n c = Inr (0,
      int (length (lineOf (owner_elems st) n (radix (rawSize (fst st)) c))) - 1,
      lineOf (owner_elems st) n (radix (rawSize (fst st)) c))"
    using st xs o m len b k n
    by (simp add: owner_readByCache_def raw_processReadCellCacheMsg_def Let_def lineOf_def lineStart_def
        min_less_iff_disj not_less)
qed

lemma cache_writeCell_sends: "cache_writeCell junk send rc c v = Inr (s', rc') \<Longrightarrow> send c v = Inr s'"
  by (auto simp: cache_writeCell_def Let_def rbind_Inr_iff rmap_Inr_iff split: if_splits)

lemma runCached_owner:
  "runCached junk owner_readByCache owner_writeByCache ops st rc = Inr (vs, st') \<Longrightarrow> fst st' = fst st"
proof (induction ops arbitrary: st rc vs)
  case (Cons x ops)
  show ?case
  proof (cases x)
    case (ReadOp c)
    then obtain rc' vs' where "runCached junk owner_readByCache owner_writeByCache ops st rc' = Inr (vs', st')"
      using Cons.prems by (auto simp: rbind_Inr_iff rmap_Inr_iff)
    then show ?thesis by (rule Cons.IH)
  next
    case (WriteOp c v)
    then obtain s1 rc' where "cache_writeCell junk (owner_writeByCache st) rc c v = Inr (s1, rc')"
      and r: "runCached junk owner_readByCache owner_writeByCache ops s1 rc' = Inr (vs, st')"
      using Cons.prems by (auto simp: rbind_Inr_iff)
    then have "fst s1 = fst st"
      by (auto simp: owner_writeByCache_def rmap_Inr_iff dest!: cache_writeCell_sends)
    then show ?thesis using Cons.IH[OF r] by simp
  qed
qed simp

text \<open>C2: reading and writing a remote raw region through the per-thread cache is transparent: any
  sequence of reads and writes inside the region, starting from an empty cache made by
  \<open>cacheGenerator\<close>, reads the values that the same sequence reads from a plain array, never fails,
  and leaves the owner with the elements of that array (no other thread writing meanwhile).\<close>

theorem cache_transparent:
  assumes "raw_holds r h s xs" "\<forall>x \<in> set ops. inBox (rawSize r) (opCoord x)"
  shows "\<exists>h'. runCached junk owner_readByCache owner_writeByCache ops (r, h) (cacheGenerator (rawSize r)) =
      Inr (fst (runPlain (rawSize r) ops xs), (r, h')) \<and> owner_elems (r, h') = snd (runPlain (rawSize r) ops xs)"
proof -
  have "raw_ok (r, h)" using assms(1) by (auto simp: raw_ok_def)
  from ownerCache.runCached_plain[OF this, of "cacheGenerator (rawSize r)" ops junk] raw_holds_elems[OF assms(1)]
    cacheGenerator_coherent[of xs "rawSize r"] assms(2)
  obtain st' where "runCached junk owner_readByCache owner_writeByCache ops (r, h) (cacheGenerator (rawSize r)) =
      Inr (fst (runPlain (rawSize r) ops xs), st')" "owner_elems st' = snd (runPlain (rawSize r) ops xs)"
    by auto
  then show ?thesis using runCached_owner[of junk ops "(r, h)"] by (cases st') fastforce
qed

end
