(* ===== verification/Examples.thy ===== *)
theory Examples
  imports RegionAlloc RegionCache
begin

text \<open>
  Concrete regions, storages and worlds, at which the theorems of the region theories are applied.
\<close>

section \<open>Witnesses: coordinates and raw regions\<close>

theorem incCoord_memory_order_witness:
  "doWhile (incCoord [2, 3]) (\<lambda>c os. Inr (os @ [coordToOffset c (sizeToMultipliers [2, 3])]))
     (replicate (length [2::int, 3]) 0) [] = Some (Inr (map int [0..<nat (prod_list [2, 3])]))"
  by (rule incCoord_memory_order) simp

definition exRaw :: regionDataRaw where
  "exRaw = \<lparr>rawSize = [2, 3], rawMultipliers = [1, 2], rawStorage = Some 0\<rparr>"

definition exElems :: "int list" where
  "exElems = [10, 11, 12, 13, 14, 15]"

definition exHeap :: "int heap" where
  "exHeap = \<lparr>nextId = 2, mem = (\<lambda>_. None)(0 := Some exElems, 1 := Some [0, 0, 0])\<rparr>"

text \<open>Row 1 onwards of column 1: dimension 0 is sliced at 1, dimension 1 is split at offset 1.\<close>

definition exMd :: regionMatrixMetadata where
  "exMd = \<lparr>splitOffset = [1], mdSize = [2], slices = [(0, 1)]\<rparr>"

definition exScratchMd :: regionMatrixMetadata where
  "exScratchMd = \<lparr>splitOffset = [1], mdSize = [2], slices = []\<rparr>"

lemma exRaw_holds: "raw_holds exRaw exHeap 0 exElems"
  by (simp add: raw_holds_def exRaw_def exHeap_def exElems_def sizeToMultipliers_def)

lemma exMd_fits: "md_fits (rawSize exRaw) exMd"
  by (simp add: md_fits_def md_wf_def exMd_def exRaw_def viewCoord_def toRegionDataCoord_def
      slices_ok_def)

lemma exScratchMd_fits: "md_fits [3] exScratchMd"
  by (simp add: md_fits_def md_wf_def exScratchMd_def viewCoord_def toRegionDataCoord_def)

theorem raw_copyToScratch_correct_witness:
  "\<exists>ys'. raw_copyToScratchMatrixStorage exRaw exMd (Some 1) exScratchMd [3] exHeap = Inr (setMem 1 ys' exHeap) \<and>
     length ys' = length [0, 0, 0::int] \<and>
     (\<forall>c. inBox (mdSize exMd) c \<longrightarrow> viewRead ys' [3] exScratchMd c = viewRead exElems (rawSize exRaw) exMd c) \<and>
     (\<forall>i. i \<notin> viewCells [3] exScratchMd \<longrightarrow> rd ys' i = rd [0, 0, 0] i)"
  by (rule raw_copyToScratch_correct[OF exRaw_holds _ _ exMd_fits exScratchMd_fits])
    (simp_all add: exHeap_def exMd_def exScratchMd_def)

theorem raw_copyFromScratch_correct_witness:
  "\<exists>xs'. raw_copyFromScratchMatrixStorage exRaw exMd (Some 1) exScratchMd [3] exHeap = Inr (setMem 0 xs' exHeap) \<and>
     raw_holds exRaw (setMem 0 xs' exHeap) 0 xs' \<and>
     (\<forall>c. inBox (mdSize exMd) c \<longrightarrow> viewRead xs' (rawSize exRaw) exMd c = viewRead [0, 0, 0] [3] exScratchMd c) \<and>
     (\<forall>i. i \<notin> viewCells (rawSize exRaw) exMd \<longrightarrow> rd xs' i = rd exElems i)"
  by (rule raw_copyFromScratch_correct[OF exRaw_holds _ _ exMd_fits exScratchMd_fits])
    (simp_all add: exHeap_def exMd_def exScratchMd_def)

theorem raw_messages_roundtrip_witness:
  "\<exists>n vs ys'. raw_processCopyToMatrixStorageMsg (\<lambda>_. 0) exRaw exMd exHeap =
       Inr (CopyToMatrixStorageReplyMessage n vs) \<and>
     raw_processCopyFromMatrixStorageMsg exRaw exMd vs exHeap =
       Inr (CopyFromMatrixStorageReplyMessage, setMem 0 ys' exHeap) \<and>
     (\<forall>c. inBox (mdSize exMd) c \<longrightarrow> viewRead ys' (rawSize exRaw) exMd c = viewRead exElems (rawSize exRaw) exMd c) \<and>
     (\<forall>i. i \<notin> viewCells (rawSize exRaw) exMd \<longrightarrow> rd ys' i = rd exElems i)"
  by (rule raw_messages_roundtrip[OF exRaw_holds exMd_fits exRaw_holds exMd_fits refl])

theorem cache_transparent_witness:
  "\<exists>h'. runCached 0 owner_readByCache owner_writeByCache
       [ReadOp [1, 2], WriteOp [1, 2] 99, ReadOp [1, 2], ReadOp [0, 0]] (exRaw, exHeap) (cacheGenerator (rawSize exRaw)) =
     Inr (fst (runPlain (rawSize exRaw) [ReadOp [1, 2], WriteOp [1, 2] 99, ReadOp [1, 2], ReadOp [0, 0]] exElems), (exRaw, h')) \<and>
     owner_elems (exRaw, h') =
       snd (runPlain (rawSize exRaw) [ReadOp [1, 2], WriteOp [1, 2] 99, ReadOp [1, 2], ReadOp [0, 0]] exElems)"
  by (rule cache_transparent[OF exRaw_holds]) (simp add: exRaw_def)

section \<open>Witnesses: split regions\<close>

text \<open>Two parts along dimension 0, at addresses 0 and 1 of process \<open>exHost\<close>.\<close>

definition exHost :: hostPid where
  "exHost = \<lparr>hostid = 1, pid = 1\<rparr>"

definition exHost2 :: hostPid where
  "exHost2 = \<lparr>hostid = 2, pid = 1\<rparr>"

definition exSplit :: regionDataSplit where
  "exSplit = \<lparr>splSize = [4, 3], splitSize = [2, 3], partsSize = [2, 1], numParts = 2,
     partsMultipliers = [1, 2], parts = [Some 0, Some 1]\<rparr>"

definition exRaw2 :: regionDataRaw where
  "exRaw2 = \<lparr>rawSize = [2, 3], rawMultipliers = [1, 2], rawStorage = Some 1\<rparr>"

definition exWorld :: "int world" where
  "exWorld = \<lparr>wHeap = \<lparr>nextId = 3, mem = (\<lambda>_. None)(0 := Some exElems, 1 := Some exElems, 2 := Some [0, 0, 0, 0])\<rparr>,
     wNext = 3,
     wData = (\<lambda>h p. if h = exHost then (if p = 0 then Some (Raw exRaw) else if p = 1 then Some (Raw exRaw2) else None)
        else if h = exHost2 \<and> p < 2 then Some (Remote [2, 3] \<lparr>rrhHost = if p = 0 then exHost else exHost2,
          rrhHandler = 0\<rparr> False) else None)\<rparr>"

lemma exHosts [simp]: "exHost \<noteq> exHost2" "exHost2 \<noteq> exHost"
  by (simp_all add: exHost_def exHost2_def)

lemma exSplit_ok: "split_ok exSplit"
  by (simp add: split_ok_def exSplit_def sizeToMultipliers_def)

theorem split_partition_witness:
  "bij_betw (coordToPartIndex exSplit) {c. inBox (splSize exSplit) c}
     {(i, cp). 0 \<le> i \<and> i < numParts exSplit \<and> inBox (partExtent exSplit i) cp}"
  by (rule split_partition[OF exSplit_ok])


lemma exWorld_raws: "raws_ok exHost exWorld"
  by (auto simp: raws_ok_def exWorld_def exRaw_def exRaw2_def raw_holds_def exElems_def
      sizeToMultipliers_def split: if_splits)

lemma exSplit_extents: "partExtent exSplit 0 = [2, 3]" "partExtent exSplit 1 = [2, 3]"
  by (simp_all add: partExtent_def exSplit_def cmod_nonneg cdiv_nonneg Let_def)

lemma exSplit_fields: "numParts exSplit = 2" "parts exSplit = [Some 0, Some 1]"
  by (simp_all add: exSplit_def)

lemma exWorld_cells:
  "raw_part_cells exHost exWorld 0 = {c. inBox [2, 3] c}"
  "raw_part_cells exHost exWorld (Suc 0) = {c. inBox [2, 3] c}"
  by (simp_all add: raw_part_cells_def exWorld_def exRaw_def exRaw2_def)

lemma exSplit_parts: "parts_in (raw_part_cells exHost) exSplit exWorld"
  unfolding parts_in_def
proof (intro conjI allI impI)
  fix i assume "i < length (parts exSplit)"
  then consider "i = 0" | "i = 1" by (fastforce simp: exSplit_fields)
  then show "\<exists>a. parts exSplit ! i = Some a \<and>
      raw_part_cells exHost exWorld a = {c. inBox (partExtent exSplit (int i)) c}"
  proof cases
    case 1
    then show ?thesis
      by (simp add: exSplit_fields exSplit_extents exWorld_cells)
  next
    case 2
    then show ?thesis
      by (simp add: exSplit_fields exSplit_extents exWorld_cells)
  qed
qed (simp_all add: exSplit_fields exSplit_ok)

theorem split_cells_witness:
  "\<exists>w'. split_writeCell (handler_writeCell (Suc 0) (\<lambda>_. 0) (\<lambda>_. 0) exHost) exSplit [3, 1] 77 exWorld = Inr w' \<and>
     raws_ok exHost w' \<and> parts_in (raw_part_cells exHost) exSplit w' \<and>
     split_readCell (handler_readCell (Suc 0) (\<lambda>_. 0) (\<lambda>_. 0) exHost) exSplit [0, 2] w' =
       (if [0, 2] = [3, 1::int] then Inr 77
        else split_readCell (handler_readCell (Suc 0) (\<lambda>_. 0) (\<lambda>_. 0) exHost) exSplit [0, 2] exWorld)"
  by (rule split_cells[OF exWorld_raws exSplit_parts]) (simp_all add: exSplit_def)



section \<open>Witnesses: remote regions\<close>

theorem updateHandlerChain_shortens_witness:
  "\<exists>w'. updateHandlerChain 3 (\<lambda>_. 0) (\<lambda>_. 0) exHost2 1 exWorld = Inr w' \<and> wHeap w' = wHeap exWorld \<and>
     (\<forall>h q. (h, q) \<noteq> (exHost2, 1) \<longrightarrow> wData w' h q = wData exWorld h q) \<and>
     (if exHost = exHost2 then wData w' exHost2 1 = wData exWorld exHost 0
      else ownerOf 2 w' exHost2 1 = Some (1, exHost, 0))"
proof (rule updateHandlerChain_shortens)
  show "wData exWorld exHost2 1 = Some (Remote [2, 3] \<lparr>rrhHost = exHost2, rrhHandler = 0\<rparr> False)"
    by (simp add: exWorld_def)
  show "ownerOf 3 exWorld exHost2 1 = Some (2, exHost, 0)"
    by (simp add: exWorld_def numeral_3_eq_3 numeral_2_eq_2)
qed simp



end
