(* ===== verification/TheDeque.thy ===== *)
theory TheDeque
  imports Prelude "HOL-Library.Multiset"
begin

text \<open>
  The work stealing deques of \<open>common/thedeque.h\<close>.

  \<open>THEDeque\<close> is used by one owner at the top and by any number of thieves at the bottom.  Its
  operations are split into the single accesses to the shared variables \<open>_h\<close>, \<open>_t\<close>, \<open>_array\<close> and
  \<open>_lock\<close>; a step of the model is one such access, and steps of the owner and of the thieves
  interleave freely (sequentially consistent memory, which the \<open>memFence\<close> calls are there for).
  A value of \<open>ownerPc\<close> or \<open>thiefPc\<close> is a place in the code: the access that comes next.  An access
  to a variable that nobody else can write at that place is merged with its neighbour.

  The simulation lemma shows that every step is a step of an atomic double ended queue: a push
  appends, the owner takes the last element, a thief takes the first.  Both may also answer
  \<open>NULL\<close> and leave the queue as it is.
\<close>

section \<open>The state\<close>

datatype holder = Owner | Thief nat

datatype 'a ownerPc =
    OIdle
  | PushCheckH 'a \<comment> \<open>\<open>empty()\<close> was true, \<open>_h > 0\<close> is next\<close>
  | PushLock 'a
  | PushRecheck 'a
  | PushResetT 'a \<comment> \<open>\<open>_h = 0\<close> is done, \<open>_t = 0\<close> is next\<close>
  | PushUnlock 'a
  | PushWrite 'a
  | PushInc 'a
  | PushGrowCheck
  | PushGrowLock
  | PushGrow
  | PopDec
  | PopCmp
  | PopRestore
  | PopLock
  | PopRecheck
  | PopRead
  | PopRead2

datatype thiefPc =
    TIdle
  | TReadT int \<comment> \<open>the value of \<open>_h\<close> that \<open>empty()\<close> read\<close>
  | TTry
  | TInc
  | TCmp
  | TBack
  | TRead
  | TUnlock

record 'a theDeque =
  arr :: "'a list"
  dh :: int
  dt :: int
  dlock :: "holder option"
  opc :: "'a ownerPc"
  tpc :: "nat \<Rightarrow> thiefPc"

definition newDeque :: "'a \<Rightarrow> 'a theDeque" where
  "newDeque junk = \<lparr>arr = replicate 1000 junk, dh = 0, dt = 0, dlock = None, opc = OIdle, tpc = \<lambda>_. TIdle\<rparr>"

text \<open>\<open>empty()\<close> and \<open>size()\<close>.\<close>

definition the_empty :: "'a theDeque \<Rightarrow> bool" where
  "the_empty d = (dh d \<ge> dt d)"

definition the_size :: "'a theDeque \<Rightarrow> int" where
  "the_size d = dt d - dh d"

text \<open>What a step does on the abstract queue.\<close>

datatype 'a event = Tau | DoPush 'a | DoPop 'a | DoSteal 'a

section \<open>The owner\<close>

text \<open>One access of \<open>push_top\<close> or \<open>pop_top\<close>.  A blocked \<open>JLOCKSCOPE\<close> has no step.  \<open>junk\<close> fills the
  new cells of \<open>realloc\<close>.\<close>

inductive ownerStep :: "'a \<Rightarrow> 'a theDeque \<Rightarrow> 'a event \<Rightarrow> 'a theDeque \<Rightarrow> bool" for junk :: 'a where
  push_begin: "opc d = OIdle \<Longrightarrow>
    ownerStep junk d Tau (d\<lparr>opc := (if the_empty d then PushCheckH x else PushWrite x)\<rparr>)"
| push_checkH: "opc d = PushCheckH x \<Longrightarrow>
    ownerStep junk d Tau (d\<lparr>opc := (if dh d > 0 then PushLock x else PushWrite x)\<rparr>)"
| push_lock: "opc d = PushLock x \<Longrightarrow> dlock d = None \<Longrightarrow>
    ownerStep junk d Tau (d\<lparr>dlock := Some Owner, opc := PushRecheck x\<rparr>)"
| push_recheck: "opc d = PushRecheck x \<Longrightarrow>
    ownerStep junk d Tau (if the_empty d then d\<lparr>dh := 0, opc := PushResetT x\<rparr> else d\<lparr>opc := PushUnlock x\<rparr>)"
| push_resetT: "opc d = PushResetT x \<Longrightarrow> ownerStep junk d Tau (d\<lparr>dt := 0, opc := PushUnlock x\<rparr>)"
| push_unlock: "opc d = PushUnlock x \<Longrightarrow> ownerStep junk d Tau (d\<lparr>dlock := None, opc := PushWrite x\<rparr>)"
| push_write: "opc d = PushWrite x \<Longrightarrow>
    ownerStep junk d Tau (d\<lparr>arr := (arr d)[nat (dt d) := x], opc := PushInc x\<rparr>)"
| push_inc: "opc d = PushInc x \<Longrightarrow>
    ownerStep junk d (DoPush x) (d\<lparr>dt := dt d + 1, opc := PushGrowCheck\<rparr>)"
| push_growCheck: "opc d = PushGrowCheck \<Longrightarrow>
    ownerStep junk d Tau (d\<lparr>opc := (if dt d \<ge> int (length (arr d)) - 1 then PushGrowLock else OIdle)\<rparr>)"
| push_growLock: "opc d = PushGrowLock \<Longrightarrow> dlock d = None \<Longrightarrow>
    ownerStep junk d Tau (d\<lparr>dlock := Some Owner, opc := PushGrow\<rparr>)"
| push_grow: "opc d = PushGrow \<Longrightarrow>
    ownerStep junk d Tau (d\<lparr>arr := arr d @ replicate (2 * length (arr d)) junk, dlock := None, opc := OIdle\<rparr>)"
| pop_begin: "opc d = OIdle \<Longrightarrow> \<not> the_empty d \<Longrightarrow> ownerStep junk d Tau (d\<lparr>opc := PopDec\<rparr>)"
| pop_empty: "opc d = OIdle \<Longrightarrow> the_empty d \<Longrightarrow> ownerStep junk d Tau d"
| pop_dec: "opc d = PopDec \<Longrightarrow> ownerStep junk d Tau (d\<lparr>dt := dt d - 1, opc := PopCmp\<rparr>)"
| pop_cmp: "opc d = PopCmp \<Longrightarrow>
    ownerStep junk d Tau (d\<lparr>opc := (if dh d > dt d then PopRestore else PopRead)\<rparr>)"
| pop_restore: "opc d = PopRestore \<Longrightarrow> ownerStep junk d Tau (d\<lparr>dt := dt d + 1, opc := PopLock\<rparr>)"
| pop_lock: "opc d = PopLock \<Longrightarrow> dlock d = None \<Longrightarrow>
    ownerStep junk d Tau (d\<lparr>dlock := Some Owner, opc := PopRecheck\<rparr>)"
| pop_recheck: "opc d = PopRecheck \<Longrightarrow>
    ownerStep junk d Tau (if the_empty d then d\<lparr>dlock := None, opc := OIdle\<rparr>
      else d\<lparr>dt := dt d - 1, opc := PopRead2\<rparr>)"
| pop_read2: "opc d = PopRead2 \<Longrightarrow>
    ownerStep junk d (DoPop (arr d ! nat (dt d))) (d\<lparr>dlock := None, opc := OIdle\<rparr>)"
| pop_read: "opc d = PopRead \<Longrightarrow> ownerStep junk d (DoPop (arr d ! nat (dt d))) (d\<lparr>opc := OIdle\<rparr>)"

section \<open>The thieves\<close>

text \<open>One access of \<open>pop_bottom\<close> in thread \<open>i\<close>.\<close>

definition goTo :: "nat \<Rightarrow> thiefPc \<Rightarrow> 'a theDeque \<Rightarrow> 'a theDeque" where
  "goTo i pc d = d\<lparr>tpc := (tpc d)(i := pc)\<rparr>"

inductive thiefStep :: "nat \<Rightarrow> 'a theDeque \<Rightarrow> 'a event \<Rightarrow> 'a theDeque \<Rightarrow> bool" for i :: nat where
  st_readH: "tpc d i = TIdle \<Longrightarrow> thiefStep i d Tau (goTo i (TReadT (dh d)) d)"
| st_readT: "tpc d i = TReadT h \<Longrightarrow> thiefStep i d Tau (goTo i (if h \<ge> dt d then TIdle else TTry) d)"
| st_tryOk: "tpc d i = TTry \<Longrightarrow> dlock d = None \<Longrightarrow>
    thiefStep i d Tau (goTo i TInc (d\<lparr>dlock := Some (Thief i)\<rparr>))"
| st_tryFail: "tpc d i = TTry \<Longrightarrow> dlock d \<noteq> None \<Longrightarrow> thiefStep i d Tau (goTo i TIdle d)"
| st_inc: "tpc d i = TInc \<Longrightarrow> thiefStep i d Tau (goTo i TCmp (d\<lparr>dh := dh d + 1\<rparr>))"
| st_cmp: "tpc d i = TCmp \<Longrightarrow> thiefStep i d Tau (goTo i (if dh d > dt d then TBack else TRead) d)"
| st_back: "tpc d i = TBack \<Longrightarrow> thiefStep i d Tau (goTo i TUnlock (d\<lparr>dh := dh d - 1\<rparr>))"
| st_read: "tpc d i = TRead \<Longrightarrow> thiefStep i d (DoSteal (arr d ! nat (dh d - 1))) (goTo i TUnlock d)"
| st_unlock: "tpc d i = TUnlock \<Longrightarrow> thiefStep i d Tau (goTo i TIdle (d\<lparr>dlock := None\<rparr>))"

definition dequeStep :: "'a \<Rightarrow> 'a theDeque \<Rightarrow> 'a event \<Rightarrow> 'a theDeque \<Rightarrow> bool" where
  "dequeStep junk d e d' = (ownerStep junk d e d' \<or> (\<exists>i. thiefStep i d e d'))"

text \<open>A run and the events it shows.\<close>

inductive dequeRun :: "'a \<Rightarrow> 'a theDeque \<Rightarrow> 'a event list \<Rightarrow> 'a theDeque \<Rightarrow> bool" for junk :: 'a where
  run_start: "dequeRun junk d [] d"
| run_step: "dequeRun junk d es d' \<Longrightarrow> dequeStep junk d' e d'' \<Longrightarrow> dequeRun junk d (es @ [e]) d''"

section \<open>The abstract queue\<close>

fun inCritical :: "thiefPc \<Rightarrow> bool" where
  "inCritical TInc = True"
| "inCritical TCmp = True"
| "inCritical TBack = True"
| "inCritical TRead = True"
| "inCritical TUnlock = True"
| "inCritical _ = False"

fun holdsLock :: "'a ownerPc \<Rightarrow> bool" where
  "holdsLock (PushRecheck x) = True"
| "holdsLock (PushResetT x) = True"
| "holdsLock (PushUnlock x) = True"
| "holdsLock PushGrow = True"
| "holdsLock PopRecheck = True"
| "holdsLock PopRead2 = True"
| "holdsLock _ = False"

text \<open>The place of the thief that holds the lock, \<open>TIdle\<close> if there is none.\<close>

definition lockThief :: "'a theDeque \<Rightarrow> thiefPc" where
  "lockThief d = (case dlock d of Some (Thief i) \<Rightarrow> tpc d i | _ \<Rightarrow> TIdle)"

fun claiming :: "thiefPc \<Rightarrow> bool" where
  "claiming TCmp = True"
| "claiming TBack = True"
| "claiming TRead = True"
| "claiming _ = False"

definition lowEnd :: "'a theDeque \<Rightarrow> int" where
  "lowEnd d = (if claiming (lockThief d) then dh d - 1 else dh d)"

fun popping :: "'a ownerPc \<Rightarrow> bool" where
  "popping PopCmp = True"
| "popping PopRestore = True"
| "popping PopRead = True"
| "popping PopRead2 = True"
| "popping _ = False"

definition highEnd :: "'a theDeque \<Rightarrow> int" where
  "highEnd d = (if popping (opc d) then dt d + 1 else dt d)"

fun resetting :: "'a ownerPc \<Rightarrow> bool" where
  "resetting (PushResetT x) = True"
| "resetting _ = False"

definition queue :: "'a theDeque \<Rightarrow> 'a list" where
  "queue d = (if resetting (opc d) then [] else map (\<lambda>k. arr d ! nat k) [lowEnd d..highEnd d - 1])"


section \<open>The invariant\<close>

fun growing :: "'a ownerPc \<Rightarrow> bool" where
  "growing PushGrowCheck = True"
| "growing PushGrowLock = True"
| "growing PushGrow = True"
| "growing _ = False"

fun retracted :: "'a ownerPc \<Rightarrow> bool" where
  "retracted PopCmp = True"
| "retracted PopRestore = True"
| "retracted _ = False"

definition lock_ok :: "'a theDeque \<Rightarrow> bool" where
  "lock_ok d = ((dlock d = Some Owner) = holdsLock (opc d) \<and>
     (\<forall>i. (dlock d = Some (Thief i)) = inCritical (tpc d i)))"

definition ends_ok :: "'a theDeque \<Rightarrow> bool" where
  "ends_ok d =
     (0 \<le> lowEnd d \<and> (if resetting (opc d) then dh d = 0 \<and> 0 \<le> dt d else lowEnd d \<le> highEnd d) \<and>
      (if growing (opc d) then dt d < int (length (arr d)) else highEnd d + 1 < int (length (arr d))))"

definition pcs_ok :: "'a theDeque \<Rightarrow> bool" where
  "pcs_ok d =
     ((\<forall>x. opc d = PushInc x \<longrightarrow> arr d ! nat (dt d) = x) \<and>
      (opc d = PopRead2 \<longrightarrow> dh d \<le> dt d) \<and>
      (opc d = PopRead \<longrightarrow> lowEnd d \<le> dt d) \<and>
      (lockThief d = TRead \<longrightarrow> dh d \<le> (if retracted (opc d) then dt d + 1 else dt d)))"

definition deque_ok :: "'a theDeque \<Rightarrow> bool" where
  "deque_ok d = (lock_ok d \<and> ends_ok d \<and> pcs_ok d)"

lemmas deque_defs = lock_ok_def ends_ok_def pcs_ok_def lowEnd_def highEnd_def the_empty_def

lemma newDeque_ok: "deque_ok (newDeque junk)" "queue (newDeque junk) = []"
  by (simp_all add: deque_ok_def deque_defs newDeque_def lockThief_def queue_def)

lemma lockThief_simps [simp]:
  "dlock d = None \<Longrightarrow> lockThief d = TIdle"
  "dlock d = Some Owner \<Longrightarrow> lockThief d = TIdle"
  "dlock d = Some (Thief i) \<Longrightarrow> lockThief d = tpc d i"
  by (simp_all add: lockThief_def)

lemma lockThief_upd [simp]:
  "lockThief (d\<lparr>opc := p\<rparr>) = lockThief d"
  "lockThief (d\<lparr>dt := t\<rparr>) = lockThief d"
  "lockThief (d\<lparr>dh := t\<rparr>) = lockThief d"
  "lockThief (d\<lparr>arr := a\<rparr>) = lockThief d"
  by (simp_all add: lockThief_def split: option.split holder.split)

lemma lowEnd_upd [simp]:
  "lowEnd (d\<lparr>opc := p\<rparr>) = lowEnd d"
  "lowEnd (d\<lparr>dt := t\<rparr>) = lowEnd d"
  "lowEnd (d\<lparr>arr := a\<rparr>) = lowEnd d"
  "dlock d = None \<Longrightarrow> lowEnd (d\<lparr>dlock := Some Owner\<rparr>) = lowEnd d"
  by (simp_all add: lowEnd_def)

lemma highEnd_upd [simp]:
  "highEnd (d\<lparr>dh := h\<rparr>) = highEnd d"
  "highEnd (d\<lparr>dlock := l\<rparr>) = highEnd d"
  "highEnd (d\<lparr>tpc := q\<rparr>) = highEnd d"
  by (simp_all add: highEnd_def)

lemma lock_free: "lock_ok d \<Longrightarrow> holdsLock (opc d) \<Longrightarrow> lockThief d = TIdle"
  by (simp add: lock_ok_def)

lemma ownerStep_ok:
  assumes "ownerStep junk d e d'" "deque_ok d"
  shows "deque_ok d'"
  using assms(1)
proof cases
  case (push_begin x)
  then show ?thesis using assms(2) by (auto simp: deque_ok_def deque_defs split: if_splits)
next
  case (push_checkH x)
  then show ?thesis using assms(2) by (auto simp: deque_ok_def deque_defs split: if_splits)
next
  case (push_lock x)
  then show ?thesis using assms(2) by (auto simp: deque_ok_def deque_defs)
next
  case (push_recheck x)
  then show ?thesis using assms(2) lock_free[of d] by (auto simp: deque_ok_def deque_defs)
next
  case (push_resetT x)
  then show ?thesis using assms(2) lock_free[of d] by (auto simp: deque_ok_def deque_defs)
next
  case (push_unlock x)
  then show ?thesis using assms(2) lock_free[of d] by (auto simp: deque_ok_def deque_defs)
next
  case (push_write x)
  then show ?thesis using assms(2) by (auto simp: deque_ok_def deque_defs split: if_splits)
next
  case (push_inc x)
  then show ?thesis using assms(2) by (auto simp: deque_ok_def deque_defs split: if_splits)
next
  case push_growCheck
  then show ?thesis using assms(2) by (auto simp: deque_ok_def deque_defs split: if_splits)
next
  case push_growLock
  then show ?thesis using assms(2) by (auto simp: deque_ok_def deque_defs)
next
  case push_grow
  then show ?thesis using assms(2) lock_free[of d] by (auto simp: deque_ok_def deque_defs)
next
  case pop_begin
  then show ?thesis using assms(2) by (auto simp: deque_ok_def deque_defs split: if_splits)
next
  case pop_empty
  then show ?thesis using assms(2) by simp
next
  case pop_dec
  then show ?thesis using assms(2) by (auto simp: deque_ok_def deque_defs split: if_splits)
next
  case pop_cmp
  then show ?thesis using assms(2) by (auto simp: deque_ok_def deque_defs split: if_splits)
next
  case pop_restore
  then show ?thesis using assms(2) by (auto simp: deque_ok_def deque_defs split: if_splits)
next
  case pop_lock
  then show ?thesis using assms(2) by (auto simp: deque_ok_def deque_defs)
next
  case pop_recheck
  then show ?thesis using assms(2) lock_free[of d] by (auto simp: deque_ok_def deque_defs)
next
  case pop_read2
  then show ?thesis using assms(2) lock_free[of d] by (auto simp: deque_ok_def deque_defs)
next
  case pop_read
  then show ?thesis using assms(2) by (auto simp: deque_ok_def deque_defs split: if_splits)
qed

lemma goTo_simps [simp]:
  "arr (goTo i p d) = arr d" "dh (goTo i p d) = dh d" "dt (goTo i p d) = dt d"
  "dlock (goTo i p d) = dlock d" "opc (goTo i p d) = opc d"
  "tpc (goTo i p d) = (tpc d)(i := p)"
  by (simp_all add: goTo_def)

lemma lockThief_goTo [simp]:
  "lockThief (goTo i p d) = (if dlock d = Some (Thief i) then p else lockThief d)"
  by (auto simp: lockThief_def split: option.split holder.split)

lemma ends_goTo [simp]:
  "lowEnd (goTo i p d) =
     (if dlock d = Some (Thief i) then (if claiming p then dh d - 1 else dh d) else lowEnd d)"
  "highEnd (goTo i p d) = highEnd d"
  by (simp_all add: lowEnd_def highEnd_def)

lemma thief_lock:
  assumes "deque_ok d"
  shows "inCritical (tpc d i) \<Longrightarrow> dlock d = Some (Thief i) \<and> lockThief d = tpc d i \<and> \<not> holdsLock (opc d)"
    and "\<not> inCritical (tpc d i) \<Longrightarrow> dlock d \<noteq> Some (Thief i)"
proof -
  assume "inCritical (tpc d i)"
  then have "dlock d = Some (Thief i)" using assms by (simp add: deque_ok_def lock_ok_def)
  then show "dlock d = Some (Thief i) \<and> lockThief d = tpc d i \<and> \<not> holdsLock (opc d)"
    using assms by (simp add: deque_ok_def lock_ok_def)
qed (use assms in \<open>simp add: deque_ok_def lock_ok_def\<close>)

lemma retracted_popping [simp]: "retracted p \<Longrightarrow> popping p"
  by (cases p) auto

lemma not_resetting: "\<not> holdsLock p \<Longrightarrow> \<not> resetting p"
  by (cases p) auto

text \<open>A thief outside the critical section changes nothing but its own place.\<close>

lemma goTo_outside:
  assumes "deque_ok d" "\<not> inCritical (tpc d i)" "\<not> inCritical p"
  shows "deque_ok (goTo i p d)" "queue (goTo i p d) = queue d"
proof -
  have l: "dlock d \<noteq> Some (Thief i)" by (rule thief_lock(2)[OF assms(1,2)])
  then have "lock_ok (goTo i p d)" using assms by (auto simp: deque_ok_def lock_ok_def)
  moreover have "ends_ok (goTo i p d)" using assms(1) l by (simp add: deque_ok_def ends_ok_def)
  moreover have "pcs_ok (goTo i p d)" using assms(1) l by (simp add: deque_ok_def pcs_ok_def split: if_splits)
  ultimately show "deque_ok (goTo i p d)" by (simp add: deque_ok_def)
  show "queue (goTo i p d) = queue d" using l by (simp add: queue_def)
qed

text \<open>A thief that holds the lock: what its next place needs.\<close>

lemma goTo_inside:
  assumes "deque_ok d" "inCritical (tpc d i)" "inCritical p"
    and d': "d' = goTo i p (d\<lparr>dh := h\<rparr>)"
    and low: "(if claiming p then h - 1 else h) = k" "0 \<le> k" "k \<le> highEnd d"
    and read: "opc d = PopRead \<Longrightarrow> k \<le> dt d"
    and thief: "p = TRead \<Longrightarrow> h \<le> (if retracted (opc d) then dt d + 1 else dt d)"
  shows "deque_ok d'"
proof -
  have l: "dlock d = Some (Thief i)" "\<not> holdsLock (opc d)" using thief_lock(1)[OF assms(1,2)] by auto
  have r: "\<not> resetting (opc d)" by (rule not_resetting[OF l(2)])
  have low': "lowEnd d' = k" using l(1) low(1) by (simp add: d' split: if_splits)
  have "lock_ok d'" using assms(1-3) l by (auto simp: d' deque_ok_def lock_ok_def)
  moreover have "ends_ok d'"
    using assms(1) r low(2,3) low' unfolding deque_ok_def ends_ok_def by (simp add: d')
  moreover have "pcs_ok d'"
    using assms(1) l read thief low' unfolding deque_ok_def pcs_ok_def by (auto simp: d')
  ultimately show ?thesis by (simp add: deque_ok_def)
qed

lemma thiefStep_ok:
  assumes "thiefStep i d e d'" "deque_ok d"
  shows "deque_ok d'"
  using assms(1)
proof cases
  case st_readH
  then show ?thesis using goTo_outside[OF assms(2), of i] by simp
next
  case (st_readT h)
  then show ?thesis using goTo_outside[OF assms(2), of i] by simp
next
  case st_tryOk
  then show ?thesis using assms(2) by (auto simp: deque_ok_def deque_defs)
next
  case st_tryFail
  then show ?thesis using goTo_outside[OF assms(2), of i] by simp
next
  case st_inc
  then show ?thesis using thief_lock(1)[OF assms(2), of i] assms(2) not_resetting[of "opc d"]
    by (intro goTo_inside[OF assms(2), of i TCmp d' "dh d + 1" "dh d"]) (auto simp: deque_ok_def deque_defs)
next
  case st_cmp
  then show ?thesis using thief_lock(1)[OF assms(2), of i] assms(2) not_resetting[of "opc d"]
    by (intro goTo_inside[OF assms(2), of i "if dh d > dt d then TBack else TRead" d' "dh d" "dh d - 1"])
      (auto simp: deque_ok_def deque_defs split: if_splits)
next
  case st_back
  then show ?thesis using thief_lock(1)[OF assms(2), of i] assms(2) not_resetting[of "opc d"]
    by (intro goTo_inside[OF assms(2), of i TUnlock d' "dh d - 1" "dh d - 1"]) (auto simp: deque_ok_def deque_defs)
next
  case st_read
  then show ?thesis using thief_lock(1)[OF assms(2), of i] assms(2) not_resetting[of "opc d"]
    by (intro goTo_inside[OF assms(2), of i TUnlock d' "dh d" "dh d"])
      (auto simp: deque_ok_def deque_defs split: if_splits)
next
  case st_unlock
  then show ?thesis using thief_lock(1)[OF assms(2), of i] assms(2) not_resetting[of "opc d"]
    by (auto simp: deque_ok_def deque_defs)
qed

section \<open>Every step is a step of an atomic queue\<close>

fun effect :: "'a event \<Rightarrow> 'a list \<Rightarrow> 'a list \<Rightarrow> bool" where
  "effect Tau q q' = (q' = q)"
| "effect (DoPush x) q q' = (q' = q @ [x])"
| "effect (DoPop x) q q' = (q = q' @ [x])"
| "effect (DoSteal x) q q' = (q = x # q')"

lemma ownerStep_effect:
  assumes "ownerStep junk d e d'" "deque_ok d"
  shows "effect e (queue d) (queue d')"
  using assms(1)
proof cases
  case (push_recheck x)
  then show ?thesis using assms(2) lock_free[of d] by (auto simp: deque_ok_def deque_defs queue_def)
next
  case (push_resetT x)
  then show ?thesis using assms(2) lock_free[of d] by (auto simp: deque_ok_def deque_defs queue_def)
next
  case (push_write x)
  have "0 \<le> lowEnd d" "highEnd d = dt d" using push_write assms(2) by (auto simp: deque_ok_def deque_defs)
  then show ?thesis using push_write by (auto simp: queue_def highEnd_def)
next
  case (push_inc x)
  have ends: "lowEnd d \<le> dt d" "highEnd d = dt d" "arr d ! nat (dt d) = x"
    using push_inc assms(2) by (auto simp: deque_ok_def ends_ok_def pcs_ok_def highEnd_def)
  then have "[lowEnd d..dt d] = [lowEnd d..dt d - 1] @ [dt d]" by (simp add: upto_rec2)
  then show ?thesis using push_inc ends(2,3) by (simp add: queue_def highEnd_def)
next
  case push_grow
  then show ?thesis using assms(2) lock_free[of d]
    by (auto simp: deque_ok_def deque_defs queue_def nth_append)
next
  case pop_read2
  then have ends: "lowEnd d \<le> dt d" "highEnd d = dt d + 1"
    using assms(2) lock_free[of d] by (auto simp: deque_ok_def deque_defs)
  then have "[lowEnd d..dt d] = [lowEnd d..dt d - 1] @ [dt d]" by (simp add: upto_rec2)
  then show ?thesis using pop_read2 assms(2) lock_free[of d] ends(2)
    by (simp add: queue_def highEnd_def deque_ok_def lowEnd_def)
next
  case pop_read
  then have ends: "lowEnd d \<le> dt d" "highEnd d = dt d + 1"
    using assms(2) by (auto simp: deque_ok_def pcs_ok_def highEnd_def)
  then have "[lowEnd d..dt d] = [lowEnd d..dt d - 1] @ [dt d]" by (simp add: upto_rec2)
  then show ?thesis using pop_read ends(2) by (simp add: queue_def highEnd_def)
next
  case pop_recheck
  then show ?thesis using assms(2) lock_free[of d] by (auto simp: deque_ok_def deque_defs queue_def)
next
  case (push_unlock x)
  then show ?thesis using assms(2) lock_free[of d] by (auto simp: deque_ok_def deque_defs queue_def)
qed (auto simp: queue_def highEnd_def)

lemma thiefStep_effect:
  assumes "thiefStep i d e d'" "deque_ok d"
  shows "effect e (queue d) (queue d')"
  using assms(1)
proof cases
  case st_readH
  then show ?thesis using goTo_outside[OF assms(2), of i] by simp
next
  case (st_readT h)
  then show ?thesis using goTo_outside[OF assms(2), of i] by simp
next
  case st_tryFail
  then show ?thesis using goTo_outside[OF assms(2), of i] by simp
next
  case st_read
  have ok: "lockThief d = TRead" "dlock d = Some (Thief i)" "\<not> resetting (opc d)"
    using thief_lock(1)[OF assms(2), of i] not_resetting[of "opc d"] st_read by auto
  then have "dh d - 1 < highEnd d"
    using assms(2) by (auto simp: deque_ok_def pcs_ok_def highEnd_def split: if_splits)
  then have "[dh d - 1..highEnd d - 1] = (dh d - 1) # [dh d..highEnd d - 1]" by (simp add: upto_rec1)
  then show ?thesis using ok st_read by (simp add: queue_def lowEnd_def highEnd_def)
next
  case st_tryOk
  then show ?thesis by (simp add: queue_def lowEnd_def)
next
  case st_unlock
  then show ?thesis using thief_lock(1)[OF assms(2), of i] by (simp add: queue_def lowEnd_def goTo_def)
qed (use thief_lock(1)[OF assms(2), of i] in \<open>simp_all add: queue_def lowEnd_def[of d]\<close>)

lemma dequeStep_sim:
  assumes "dequeStep junk d e d'" "deque_ok d"
  shows "deque_ok d'" "effect e (queue d) (queue d')"
proof -
  consider (owner) "ownerStep junk d e d'" | (thief) i where "thiefStep i d e d'"
    using assms(1) by (auto simp: dequeStep_def)
  then have "deque_ok d' \<and> effect e (queue d) (queue d')"
  proof cases
    case owner
    then show ?thesis using ownerStep_ok[OF _ assms(2)] ownerStep_effect[OF _ assms(2)] by simp
  next
    case thief
    then show ?thesis using thiefStep_ok[OF _ assms(2)] thiefStep_effect[OF _ assms(2)] by simp
  qed
  then show "deque_ok d'" "effect e (queue d) (queue d')" by simp_all
qed

text \<open>The atomic queue replays the events; it fails at an event that it cannot show.\<close>

fun replay :: "'a event list \<Rightarrow> 'a list \<Rightarrow> 'a list option" where
  "replay [] q = Some q"
| "replay (Tau # es) q = replay es q"
| "replay (DoPush x # es) q = replay es (q @ [x])"
| "replay (DoPop x # es) q = (if q \<noteq> [] \<and> last q = x then replay es (butlast q) else None)"
| "replay (DoSteal x # es) q = (if q \<noteq> [] \<and> hd q = x then replay es (tl q) else None)"

lemma replay_append:
  "replay (es @ es') q = (case replay es q of None \<Rightarrow> None | Some q' \<Rightarrow> replay es' q')"
  by (induction es q rule: replay.induct) auto

lemma replay_effect: "effect e q q' \<Longrightarrow> replay [e] q = Some q'"
  by (cases e) auto

lemma dequeRun_ok:
  assumes "dequeRun junk d es d'" "deque_ok d"
  shows "deque_ok d' \<and> replay es (queue d) = Some (queue d')"
  using assms
proof (induction rule: dequeRun.induct)
  case (run_step d es d' e d'')
  then show ?case
    using dequeStep_sim[OF run_step.hyps(2)] replay_effect[of e "queue d'" "queue d''"]
    by (simp add: replay_append)
qed simp

fun pushed :: "'a event \<Rightarrow> 'a list" where
  "pushed (DoPush x) = [x]"
| "pushed _ = []"

fun taken :: "'a event \<Rightarrow> 'a list" where
  "taken (DoPop x) = [x]"
| "taken (DoSteal x) = [x]"
| "taken _ = []"

lemma replay_mset:
  "replay es q = Some q' \<Longrightarrow>
   mset q + mset (concat (map pushed es)) = mset q' + mset (concat (map taken es))"
proof (induction es q rule: replay.induct)
  case (4 x es q)
  then obtain p where "q = p @ [x]" by (metis append_butlast_last_id option.distinct(1) replay.simps(4))
  then show ?case using 4 by simp
next
  case (5 x es q)
  then obtain p where "q = x # p" by (metis list.collapse option.distinct(1) replay.simps(5))
  then show ?case using 5 by simp
qed auto

lemma growing_popping: "growing p \<Longrightarrow> \<not> popping p"
  by (cases p) auto

section \<open>What the deque promises\<close>

text \<open>C14: \<open>THEDeque\<close> is linearizable: in every interleaving of the owner's \<open>push_top\<close> and \<open>pop_top\<close>
  with the \<open>pop_bottom\<close>s of any number of thieves, split into single memory accesses, the values
  that the operations take and return are those of an atomic double ended queue.\<close>

theorem deque_linearizable:
  assumes "dequeRun junk (newDeque junk) es d"
  shows "replay es [] = Some (queue d)"
  using dequeRun_ok[OF assms newDeque_ok(1)] newDeque_ok(2)[of junk] by simp

text \<open>C15: no task is lost and none is handed out twice: when the owner and all thieves are between
  their operations, the pushed values are exactly the popped ones, the stolen ones and those
  between \<open>_h\<close> and \<open>_t\<close> in the array.\<close>

theorem deque_exactly_once:
  assumes "dequeRun junk (newDeque junk) es d" "opc d = OIdle" "\<forall>i. tpc d i = TIdle"
  shows "mset (concat (map pushed es)) =
    mset (concat (map taken es)) + mset (map (\<lambda>k. arr d ! nat k) [dh d..dt d - 1])"
proof -
  have run: "deque_ok d" "replay es [] = Some (queue d)"
    using dequeRun_ok[OF assms(1) newDeque_ok(1)] newDeque_ok(2)[of junk] by auto
  have "dlock d = None"
    using run(1) assms(2,3) by (cases "dlock d"; (cases "the (dlock d)")) (auto simp: deque_ok_def lock_ok_def)
  then have "queue d = map (\<lambda>k. arr d ! nat k) [dh d..dt d - 1]"
    using assms(2) by (simp add: queue_def lowEnd_def highEnd_def)
  then show ?thesis using replay_mset[OF run(2)] by simp
qed

text \<open>C16: every access of the array is inside it: the cell that a push writes, the cell that a pop
  reads and the cell that a thief reads, whatever the other threads do meanwhile.\<close>

theorem deque_in_bounds:
  assumes "dequeRun junk (newDeque junk) es d"
  shows "(\<forall>x. opc d = PushWrite x \<longrightarrow> 0 \<le> dt d \<and> dt d < int (length (arr d))) \<and>
    (opc d \<in> {PopRead, PopRead2} \<longrightarrow> 0 \<le> dt d \<and> dt d < int (length (arr d))) \<and>
    (\<forall>i. tpc d i = TRead \<longrightarrow> 0 \<le> dh d - 1 \<and> dh d - 1 < int (length (arr d)))"
proof (intro conjI allI impI)
  have ok: "deque_ok d" using dequeRun_ok[OF assms newDeque_ok(1)] by simp
  show "0 \<le> dt d" "dt d < int (length (arr d))" if "opc d = PushWrite x" for x
    using ok that by (auto simp: deque_ok_def ends_ok_def highEnd_def)
  show "0 \<le> dt d" "dt d < int (length (arr d))" if "opc d \<in> {PopRead, PopRead2}"
    using ok that lock_free[of d] by (auto simp: deque_ok_def deque_defs split: if_splits)
  show "0 \<le> dh d - 1" "dh d - 1 < int (length (arr d))" if t: "tpc d i = TRead" for i
  proof -
    have "lowEnd d = dh d - 1" "\<not> resetting (opc d)"
      using t thief_lock(1)[OF ok, of i] not_resetting[of "opc d"] by (auto simp: lowEnd_def)
    moreover have "highEnd d < int (length (arr d))"
      using ok growing_popping[of "opc d"] by (auto simp: deque_ok_def ends_ok_def highEnd_def split: if_splits)
    ultimately show "0 \<le> dh d - 1" "dh d - 1 < int (length (arr d))"
      using ok by (simp_all add: deque_ok_def ends_ok_def)
  qed
qed

section \<open>Witnesses\<close>

text \<open>The owner pushes 7 and a thief steals it.\<close>

abbreviation exD :: "int theDeque" where
  "exD \<equiv> newDeque 0"

abbreviation exArr :: "int list" where
  "exArr \<equiv> (replicate 1000 0)[0 := 7]"

lemma thiefStep_dequeStep: "thiefStep i d e d' \<Longrightarrow> dequeStep junk d e d'"
  by (auto simp: dequeStep_def)

text \<open>The state in which the thief reads the element.\<close>

abbreviation exRead :: "int theDeque" where
  "exRead \<equiv> goTo 3 TRead (exD\<lparr>arr := exArr, dt := 1, dh := 1, dlock := Some (Thief 3)\<rparr>)"

lemma exRunRead:
  "dequeRun 0 exD [Tau, Tau, Tau, DoPush 7, Tau, Tau, Tau, Tau, Tau, Tau] exRead"
proof -
  note simps = newDeque_def the_empty_def goTo_def
  let ?d1 = "exD\<lparr>opc := PushCheckH 7\<rparr>" and ?d2 = "exD\<lparr>opc := PushWrite 7\<rparr>"
    and ?d3 = "exD\<lparr>arr := exArr, opc := PushInc 7\<rparr>"
    and ?d4 = "exD\<lparr>arr := exArr, dt := 1, opc := PushGrowCheck\<rparr>"
    and ?d5 = "exD\<lparr>arr := exArr, dt := 1\<rparr>"
  let ?d6 = "goTo 3 (TReadT 0) ?d5" and ?d7 = "goTo 3 TTry ?d5"
    and ?d8 = "goTo 3 TInc (?d5\<lparr>dlock := Some (Thief 3)\<rparr>)"
    and ?d9 = "goTo 3 TCmp (?d5\<lparr>dh := 1, dlock := Some (Thief 3)\<rparr>)"
  have s: "dequeStep 0 exD Tau ?d1" "dequeStep 0 ?d1 Tau ?d2" "dequeStep 0 ?d2 Tau ?d3"
      "dequeStep 0 ?d3 (DoPush 7) ?d4" "dequeStep 0 ?d4 Tau ?d5"
    using ownerStep.push_begin[of exD 0 7] ownerStep.push_checkH[of ?d1 7 0] ownerStep.push_write[of ?d2 7 0]
      ownerStep.push_inc[of ?d3 7 0] ownerStep.push_growCheck[of ?d4 0]
    unfolding dequeStep_def by (simp_all add: simps)
  have "thiefStep 3 ?d5 Tau ?d6" "thiefStep 3 ?d6 Tau ?d7" "thiefStep 3 ?d7 Tau ?d8"
      "thiefStep 3 ?d8 Tau ?d9" "thiefStep 3 ?d9 Tau exRead"
    using thiefStep.st_readH[of ?d5 3] thiefStep.st_readT[of ?d6 3 0] thiefStep.st_tryOk[of ?d7 3]
      thiefStep.st_inc[of ?d8 3] thiefStep.st_cmp[of ?d9 3]
    by (simp_all add: simps)
  note t = this[THEN thiefStep_dequeStep[of _ _ _ _ 0]]
  show ?thesis
    using run_step[OF run_step[OF run_step[OF run_step[OF run_step[OF run_step[OF
      run_step[OF run_step[OF run_step[OF run_step[OF run_start s(1)] s(2)] s(3)] s(4)] s(5)] t(1)] t(2)] t(3)]
      t(4)] t(5)] by simp
qed

lemma exRun:
  "dequeRun 0 exD [Tau, Tau, Tau, DoPush 7, Tau, Tau, Tau, Tau, Tau, Tau, DoSteal 7, Tau]
     (exD\<lparr>arr := exArr, dh := 1, dt := 1\<rparr>)"
proof -
  note simps = newDeque_def the_empty_def goTo_def
  let ?d11 = "goTo 3 TUnlock (exD\<lparr>arr := exArr, dt := 1, dh := 1, dlock := Some (Thief 3)\<rparr>)"
  have "thiefStep 3 exRead (DoSteal 7) ?d11" "thiefStep 3 ?d11 Tau (exD\<lparr>arr := exArr, dh := 1, dt := 1\<rparr>)"
    using thiefStep.st_read[of exRead 3] thiefStep.st_unlock[of ?d11 3]
    by (simp_all add: simps fun_upd_idem)
  note t = this[THEN thiefStep_dequeStep[of _ _ _ _ 0]]
  show ?thesis using run_step[OF run_step[OF exRunRead t(1)] t(2)] by simp
qed

theorem deque_linearizable_witness:
  "replay [Tau, Tau, Tau, DoPush 7, Tau, Tau, Tau, Tau, Tau, Tau, DoSteal 7, Tau] [] =
     Some (queue (exD\<lparr>arr := exArr, dh := 1, dt := 1\<rparr>))"
  by (rule deque_linearizable[OF exRun])

theorem deque_exactly_once_witness:
  "mset (concat (map pushed [Tau, Tau, Tau, DoPush 7, Tau, Tau, Tau, Tau, Tau, Tau, DoSteal 7, Tau])) =
     mset (concat (map taken [Tau, Tau, Tau, DoPush 7, Tau, Tau, Tau, Tau, Tau, Tau, DoSteal 7, Tau])) +
     mset (map (\<lambda>k. arr (exD\<lparr>arr := exArr, dh := 1, dt := 1\<rparr>) ! nat k)
       [dh (exD\<lparr>arr := exArr, dh := 1, dt := 1\<rparr>)..dt (exD\<lparr>arr := exArr, dh := 1, dt := 1\<rparr>) - 1])"
  by (rule deque_exactly_once[OF exRun]) (simp_all add: newDeque_def)

theorem deque_in_bounds_witness: "0 \<le> dh exRead - 1 \<and> dh exRead - 1 < int (length (arr exRead))"
proof -
  have "tpc exRead 3 = TRead" by (simp add: goTo_def)
  then show ?thesis using deque_in_bounds[OF exRunRead] by blast
qed

end
