(* ===== verification/WorkerThread.thy ===== *)
theory WorkerThread
  imports Prelude "HOL-Library.Multiset" "HOL-Library.Word"
begin

text \<open>
  Worker threads and their queues: \<open>runtime/workerthread.h\<close>, \<open>runtime/workerthread.cpp\<close> and the
  \<open>LockingDeque\<close> of \<open>common/thedeque.h\<close>.

  The operations of \<open>THEDeque\<close> appear here as the atomic queue operations that theory \<open>TheDeque\<close>
  proves them to be; the end of the list is the top.  An operation that takes a task may fail
  although there is one, because another thread holds the lock or is half way through a steal: the
  \<open>bool\<close> argument is false when that happens.
\<close>

section \<open>The interface of a task queue\<close>

locale work_queue =
  fixes give :: "'t \<Rightarrow> 'w \<Rightarrow> 'w"
    and take' :: "'b \<Rightarrow> 'w \<Rightarrow> 't option \<times> 'w"
    and contents :: "'w \<Rightarrow> 't multiset"
  assumes give_contents: "contents (give t w) = add_mset t (contents w)"
    and take_some: "take' ok w = (Some t, w') \<Longrightarrow> contents w = add_mset t (contents w')"
    and take_none: "take' ok w = (None, w') \<Longrightarrow> w' = w"
begin

text \<open>A sequence of operations: \<open>Inl t\<close> gives, \<open>Inr ok\<close> takes.\<close>

fun useQueue :: "('t + 'b) list \<Rightarrow> 'w \<Rightarrow> 't list \<times> 'w" where
  "useQueue [] w = ([], w)"
| "useQueue (Inl t # os) w = useQueue os (give t w)"
| "useQueue (Inr ok # os) w =
     (case take' ok w of (None, w') \<Rightarrow> useQueue os w'
      | (Some t, w') \<Rightarrow> (let (ts, w'') = useQueue os w' in (t # ts, w'')))"

lemma useQueue_conserves:
  "useQueue os w = (ts, w') \<Longrightarrow>
   contents w + mset (concat (map (\<lambda>q. case q of Inl t \<Rightarrow> [t] | Inr ok \<Rightarrow> []) os)) = contents w' + mset ts"
proof (induction os w arbitrary: ts w' rule: useQueue.induct)
  case (2 t os w)
  then show ?case by (simp add: give_contents)
next
  case (3 ok os w)
  obtain r v where tk: "take' ok w = (r, v)" by (cases "take' ok w")
  show ?case
  proof (cases r)
    case None
    then show ?thesis using 3 tk take_none[of ok w v] by simp
  next
    case (Some t)
    obtain us v' where u: "useQueue os v = (us, v')" by (cases "useQueue os v")
    show ?thesis using 3 tk Some u take_some[of ok w t v] by auto
  qed
qed simp

end

section \<open>Deques\<close>

text \<open>\<open>THEDeque\<close>.\<close>

definition the_push_top :: "'t \<Rightarrow> 't list \<Rightarrow> 't list" where
  "the_push_top t q = q @ [t]"

definition the_pop_top :: "bool \<Rightarrow> 't list \<Rightarrow> 't option \<times> 't list" where
  "the_pop_top ok q = (if q = [] \<or> \<not> ok then (None, q) else (Some (last q), butlast q))"

definition the_pop_bottom :: "bool \<Rightarrow> 't list \<Rightarrow> 't option \<times> 't list" where
  "the_pop_bottom ok q = (if q = [] \<or> \<not> ok then (None, q) else (Some (hd q), tl q))"

text \<open>\<open>LockingDeque\<close>: \<open>pop_bottom\<close> gives up when the lock is taken, the others wait for it.\<close>

definition ld_push_top :: "'t \<Rightarrow> 't list \<Rightarrow> 't list" where
  "ld_push_top t q = q @ [t]"

definition ld_push_bottom :: "'t \<Rightarrow> 't list \<Rightarrow> 't list" where
  "ld_push_bottom t q = t # q"

definition ld_pop_top :: "'t list \<Rightarrow> 't option \<times> 't list" where
  "ld_pop_top q = (if q = [] then (None, q) else (Some (last q), butlast q))"

definition ld_pop_bottom :: "bool \<Rightarrow> 't list \<Rightarrow> 't option \<times> 't list" where
  "ld_pop_bottom trylock q =
     (if q = [] \<or> \<not> trylock then (None, q) else (Some (hd q), tl q))"

section \<open>A worker\<close>

record 't worker =
  ondeck :: "'t option"
  wdeque :: "'t list"
  injectQueue :: "'t list"

definition newWorker :: "'t worker" where
  "newWorker = \<lparr>ondeck = None, wdeque = [], injectQueue = []\<rparr>"

definition pushLocal :: "'t \<Rightarrow> 't worker \<Rightarrow> 't worker" where
  "pushLocal t w =
     (case ondeck w of None \<Rightarrow> w\<lparr>ondeck := Some t\<rparr> | Some t' \<Rightarrow> w\<lparr>wdeque := the_push_top t (wdeque w)\<rparr>)"

definition popLocal :: "bool \<Rightarrow> 't worker \<Rightarrow> 't option \<times> 't worker" where
  "popLocal ok w =
     (case ondeck w of
        Some t \<Rightarrow> (Some t, w\<lparr>ondeck := None\<rparr>)
      | None \<Rightarrow>
          (case the_pop_top ok (wdeque w) of
             (Some t, q) \<Rightarrow> (Some t, w\<lparr>wdeque := q\<rparr>)
           | (None, q) \<Rightarrow>
               (if injectQueue w \<noteq> []
                then (let (r, iq) = ld_pop_top (injectQueue w) in (r, w\<lparr>injectQueue := iq\<rparr>))
                else (None, w))))"

definition inject :: "'t \<Rightarrow> 't worker \<Rightarrow> 't worker" where
  "inject t w = w\<lparr>injectQueue := ld_push_bottom t (injectQueue w)\<rparr>"

definition steal :: "bool \<Rightarrow> bool \<Rightarrow> 't worker \<Rightarrow> 't option \<times> 't worker" where
  "steal injectOk dequeOk w =
     (let (t, iq) = (if injectQueue w \<noteq> [] then ld_pop_bottom injectOk (injectQueue w) else (None, injectQueue w));
          w' = w\<lparr>injectQueue := iq\<rparr>
      in case t of
           Some x \<Rightarrow> (Some x, w')
         | None \<Rightarrow> (let (t', q) = the_pop_bottom dequeOk (wdeque w') in (t', w'\<lparr>wdeque := q\<rparr>)))"

definition workCount :: "'t worker \<Rightarrow> int" where
  "workCount w = int (length (wdeque w)) + int (length (injectQueue w))"

definition worker_tasks :: "'t worker \<Rightarrow> 't multiset" where
  "worker_tasks w = (case ondeck w of None \<Rightarrow> {#} | Some t \<Rightarrow> {#t#}) + mset (wdeque w) + mset (injectQueue w)"

lemma mset_last: "q \<noteq> [] \<Longrightarrow> mset q = add_mset (last q) (mset (butlast q))"
  by (metis append_butlast_last_id mset.simps union_mset_add_mset_right mset_append add.right_neutral)

lemma mset_hd: "q \<noteq> [] \<Longrightarrow> mset q = add_mset (hd q) (mset (tl q))"
  by (cases q) auto

interpretation theTop: work_queue the_push_top the_pop_top mset
  by unfold_locales (auto simp: the_push_top_def the_pop_top_def mset_last split: if_splits)

interpretation theBottom: work_queue the_push_top the_pop_bottom mset
  by unfold_locales (auto simp: the_push_top_def the_pop_bottom_def mset_hd split: if_splits)

interpretation injectTop: work_queue ld_push_bottom "\<lambda>_ :: unit. ld_pop_top" mset
  by unfold_locales (auto simp: ld_push_bottom_def ld_pop_top_def mset_last split: if_splits)

interpretation injectBottom: work_queue ld_push_bottom ld_pop_bottom mset
  by unfold_locales (auto simp: ld_push_bottom_def ld_pop_bottom_def mset_hd split: if_splits)

text \<open>The worker is a queue for its own thread and for the others.\<close>

interpretation ownWork: work_queue pushLocal popLocal worker_tasks
proof
  fix t :: 'a and w w' :: "'a worker" and ok
  show "worker_tasks (pushLocal t w) = add_mset t (worker_tasks w)"
    by (simp add: worker_tasks_def pushLocal_def theTop.give_contents split: option.split)
  show "worker_tasks w = add_mset t (worker_tasks w')" if "popLocal ok w = (Some t, w')"
    using that
    by (auto simp: worker_tasks_def popLocal_def theTop.take_some injectTop.take_some Let_def
        split: option.splits prod.splits if_splits dest: theTop.take_none theTop.take_some injectTop.take_some)
  show "w' = w" if "popLocal ok w = (None, w')"
    using that by (auto simp: popLocal_def Let_def split: option.splits prod.splits if_splits
        dest: injectTop.take_none)
qed

interpretation otherWork: work_queue inject "\<lambda>(a, b). steal a b" worker_tasks
proof
  fix t :: 'a and w w' :: "'a worker" and ok :: "bool \<times> bool"
  obtain a b where ok: "ok = (a, b)" by (cases ok)
  show "worker_tasks (inject t w) = add_mset t (worker_tasks w)"
    by (simp add: worker_tasks_def inject_def injectBottom.give_contents)
  show "worker_tasks w = add_mset t (worker_tasks w')" if "(case ok of (a, b) \<Rightarrow> steal a b) w = (Some t, w')"
    using that
    by (auto simp: ok worker_tasks_def steal_def Let_def split: option.splits prod.splits if_splits
        dest!: injectBottom.take_none injectBottom.take_some theBottom.take_some)
  show "w' = w" if "(case ok of (a, b) \<Rightarrow> steal a b) w = (None, w')"
    using that by (auto simp: ok steal_def Let_def split: option.splits prod.splits if_splits
        dest!: injectBottom.take_none theBottom.take_none)
qed

section \<open>All workers together\<close>

definition all_tasks :: "'t worker list \<Rightarrow> 't multiset" where
  "all_tasks ws = sum_list (map worker_tasks ws)"

lemma all_tasks_update:
  "i < length ws \<Longrightarrow> all_tasks (ws[i := w]) + worker_tasks (ws ! i) = all_tasks ws + worker_tasks w"
  by (induction ws arbitrary: i) (auto simp: all_tasks_def split: nat.split)

text \<open>The part of \<open>popAndRunOneTask\<close> that finds a task.  An attempt to steal is the victim that
  \<open>getRandom\<close> answered, if any, with the fate of its two deques; the list has \<open>stealLimit\<close> attempts
  for the deque operations to fail in.\<close>

fun stealLoop :: "(nat option \<times> bool \<times> bool) list \<Rightarrow> 't worker list \<Rightarrow> 't option \<times> 't worker list" where
  "stealLoop [] ws = (None, ws)"
| "stealLoop ((None, a, b) # vs) ws = stealLoop vs ws"
| "stealLoop ((Some v, a, b) # vs) ws =
     (case steal a b (ws ! v) of
        (Some t, w) \<Rightarrow> (Some t, ws[v := w])
      | (None, w) \<Rightarrow> stealLoop vs (ws[v := w]))"

definition popTask ::
    "nat \<Rightarrow> bool \<Rightarrow> (nat option \<times> bool \<times> bool) list \<Rightarrow> 't worker list \<Rightarrow> 't option \<times> 't worker list" where
  "popTask self ok vs ws =
     (case popLocal ok (ws ! self) of
        (Some t, w) \<Rightarrow> (Some t, ws[self := w])
      | (None, w) \<Rightarrow> stealLoop vs (ws[self := w]))"

lemma take_all_tasks:
  assumes "i < length ws" "worker_tasks (ws ! i) = add_mset t (worker_tasks w)"
  shows "all_tasks ws = add_mset t (all_tasks (ws[i := w]))"
proof -
  have "all_tasks (ws[i := w]) + worker_tasks (ws ! i) = all_tasks ws + worker_tasks w"
    by (rule all_tasks_update[OF assms(1)])
  then show ?thesis unfolding assms(2) by simp
qed

lemma give_all_tasks:
  assumes "i < length ws" "worker_tasks w = add_mset t (worker_tasks (ws ! i))"
  shows "all_tasks (ws[i := w]) = add_mset t (all_tasks ws)"
proof -
  have "all_tasks (ws[i := w]) + worker_tasks (ws ! i) = all_tasks ws + worker_tasks w"
    by (rule all_tasks_update[OF assms(1)])
  then show ?thesis unfolding assms(2) by simp
qed

lemma stealLoop_some:
  assumes "stealLoop vs ws = (r, ws')" "\<forall>v a b. (Some v, a, b) \<in> set vs \<longrightarrow> v < length ws"
  shows "length ws' = length ws \<and>
    (case r of None \<Rightarrow> ws' = ws | Some t \<Rightarrow> all_tasks ws = add_mset t (all_tasks ws'))"
  using assms
proof (induction vs ws rule: stealLoop.induct)
  case (2 a b vs ws)
  then show ?case by auto
next
  case (3 v a b vs ws)
  obtain x w where s: "steal a b (ws ! v) = (x, w)" by (cases "steal a b (ws ! v)")
  have v: "v < length ws" using 3(3) by auto
  show ?case
  proof (cases x)
    case None
    then have same: "ws[v := w] = ws" using otherWork.take_none[of "(a, b)" "ws ! v" w] s by simp
    have "stealLoop vs ws = (r, ws')" using 3(2) None s same by simp
    moreover have "\<forall>v a b. (Some v, a, b) \<in> set vs \<longrightarrow> v < length ws" using 3(3) by auto
    ultimately show ?thesis using 3(1)[OF s[symmetric] None] unfolding same by simp
  next
    case (Some t)
    then show ?thesis
      using 3(2) s take_all_tasks[OF v] otherWork.take_some[of "(a, b)" "ws ! v" t w] by auto
  qed
qed simp

lemma popTask_conserves:
  assumes "popTask self ok vs ws = (r, ws')" "self < length ws"
    "\<forall>v a b. (Some v, a, b) \<in> set vs \<longrightarrow> v < length ws"
  shows "length ws' = length ws \<and>
    (case r of None \<Rightarrow> ws' = ws | Some t \<Rightarrow> all_tasks ws = add_mset t (all_tasks ws'))"
proof (cases "popLocal ok (ws ! self)")
  case (Pair x w)
  show ?thesis
  proof (cases x)
    case None
    then have "ws[self := w] = ws" using ownWork.take_none[of ok "ws ! self" w] Pair by simp
    then show ?thesis using assms Pair None stealLoop_some[of vs ws r ws'] by (simp add: popTask_def)
  next
    case (Some t)
    then show ?thesis
      using assms(1) Pair take_all_tasks[OF assms(2)] ownWork.take_some[of ok "ws ! self" t w]
      by (auto simp: popTask_def)
  qed
qed

section \<open>Random victims\<close>

text \<open>Both fields are \<open>int\<close>; the shift of a signed number is arithmetic, and overflow wraps.\<close>

record rndState =
  rz :: "32 word"
  rw :: "32 word"

definition threadRandInt :: "rndState \<Rightarrow> 32 word \<times> rndState" where
  "threadRandInt st =
     (let z = 36969 * and (rz st) 65535 + signed_drop_bit 16 (rz st);
          w = 18000 * and (rw st) 65535 + signed_drop_bit 16 (rw st);
          r = push_bit 16 z + w
      in (if r <s 0 then - r else r, \<lparr>rz = z, rw = w\<rparr>))"

lemma sint_minus_pos:
  fixes r :: "32 word"
  shows "r <s 0 \<Longrightarrow> sint (- r) = (if sint r = - (2 ^ 31) then - (2 ^ 31) else - sint r)"
  using sint_greater_eq[of r]
  by (simp add: word_sless_alt sint_word_ariths signed_take_bit_int_eq_self_iff)

text \<open>C24: \<open>WorkerThread::threadRandInt\<close> answers a number that is not negative, with one exception: when
  the mixed value is the smallest \<open>int\<close>, negating it wraps and the answer stays negative.\<close>

theorem threadRandInt_range:
  "threadRandInt st = (r, st') \<Longrightarrow>
   (0 \<le> sint r \<and> sint r < 2 ^ 31) \<noteq> (push_bit 16 (rz st') + rw st' = 0x80000000)"
proof -
  assume t: "threadRandInt st = (r, st')"
  define m where "m = push_bit 16 (rz st') + rw st'"
  have r: "r = (if m <s 0 then - m else m)"
    using t by (auto simp: threadRandInt_def Let_def m_def)
  have lim: "- (2 ^ 31) \<le> sint m" "sint m < 2 ^ 31" using sint_greater_eq[of m] sint_less[of m] by simp_all
  have eq: "(m = 0x80000000) = (sint m = - (2 ^ 31))"
    using signed_word_eqI[of m "0x80000000"] by auto
  show "(0 \<le> sint r \<and> sint r < 2 ^ 31) \<noteq> (push_bit 16 (rz st') + rw st' = 0x80000000)"
    unfolding m_def[symmetric] eq using sint_minus_pos[of m] lim
    by (auto simp: r word_sless_alt)
qed

text \<open>The state in which it happens; \<open>_pool[r % _count]\<close> is then read before the array.\<close>

lemma threadRandInt_negative:
  "threadRandInt \<lparr>rz = 0x80000000, rw = 0\<rparr> = (0x80000000, \<lparr>rz = 0xFFFF8000, rw = 0\<rparr>)"
  by code_simp

section \<open>The pool\<close>

text \<open>\<open>_pool\<close> with its \<open>MAX_NUM_WORKERS\<close> slots and \<open>_count\<close>; \<open>'t\<close> names the threads.\<close>

record 't threadPool =
  slots :: "'t option list"
  pcount :: int

definition maxNumWorkers :: nat where
  "maxNumWorkers = 512"

definition newPool :: "'t threadPool" where
  "newPool = \<lparr>slots = replicate maxNumWorkers None, pcount = 0\<rparr>"

text \<open>\<open>getFixed\<close>: it returns once it meets a slot in use.\<close>

partial_function (option) getFixed :: "'t threadPool \<Rightarrow> int \<Rightarrow> 't res option" where
  "getFixed p i =
     (if pcount p = 0 then Some (Inl DivByZero)
      else (case rd (slots p) (cmod i (pcount p)) of
              Inl e \<Rightarrow> Some (Inl e)
            | Inr (Some t) \<Rightarrow> Some (Inr t)
            | Inr None \<Rightarrow> getFixed p (i + 1)))"

text \<open>\<open>getRandom\<close>: the slot is read before the number of workers is looked at.\<close>

partial_function (option) getRandom ::
    "'t \<Rightarrow> 't threadPool \<Rightarrow> rndState \<Rightarrow> ('t option \<times> rndState) res option" where
  "getRandom caller p st =
     (let (r, st') = threadRandInt st
      in if pcount p = 0 then Some (Inl DivByZero)
         else (case rd (slots p) (cmod (sint r) (pcount p)) of
             Inl e \<Rightarrow> Some (Inl e)
           | Inr rv \<Rightarrow>
               (if pcount p = 1 then Some (Inr (None, st'))
                else if rv = Some caller \<or> rv = None then getRandom caller p st'
                else Some (Inr (rv, st')))))"

text \<open>\<open>remove\<close>: the loop that lowers \<open>_count\<close> looks at \<open>_pool[_count - 1]\<close> and has no other bound.\<close>

fun lowerCount :: "'t option list \<Rightarrow> nat \<Rightarrow> int res" where
  "lowerCount sl 0 = Inl OutOfBounds"
| "lowerCount sl (Suc n) = (if sl ! n = None then lowerCount sl n else Inr (int (Suc n)))"

definition pool_remove :: "'t \<Rightarrow> 't threadPool \<Rightarrow> 't threadPool res" where
  "pool_remove t p =
     (let n = nat (pcount p);
          sl = map (\<lambda>s. if s = Some t then None else s) (take n (slots p)) @ drop n (slots p)
      in rmap (\<lambda>c. \<lparr>slots = sl, pcount = c\<rparr>) (lowerCount sl n))"

definition pool_ok :: "'t threadPool \<Rightarrow> bool" where
  "pool_ok p = (0 \<le> pcount p \<and> pcount p \<le> int (length (slots p)))"

definition members :: "'t threadPool \<Rightarrow> 't set" where
  "members p = {t. Some t \<in> set (take (nat (pcount p)) (slots p))}"

lemma slot_read:
  assumes "pool_ok p" "0 < pcount p" "0 \<le> i"
  shows "rd (slots p) (cmod i (pcount p)) = Inr (slots p ! nat (i mod pcount p))"
    and "slots p ! nat (i mod pcount p) = Some t \<Longrightarrow> t \<in> members p"
proof -
  have j: "nat (i mod pcount p) < nat (pcount p)" using assms(2) by (simp add: nat_less_iff)
  have "i mod pcount p < int (length (slots p))"
    using pos_mod_bound[OF assms(2), of i] assms(1) by (simp add: pool_ok_def)
  then show "rd (slots p) (cmod i (pcount p)) = Inr (slots p ! nat (i mod pcount p))"
    using assms by (simp add: cmod_nonneg rd_def pool_ok_def)
  assume "slots p ! nat (i mod pcount p) = Some t"
  then have "Some t \<in> set (take (nat (pcount p)) (slots p))"
    using j assms(1) by (auto simp: in_set_conv_nth pool_ok_def intro!: exI[of _ "nat (i mod pcount p)"])
  then show "t \<in> members p" by (simp add: members_def)
qed

lemma cmod_neg: "a < 0 \<Longrightarrow> 0 < b \<Longrightarrow> cmod a b = - ((- a) mod b)"
  by (simp add: cmod_def signed_modulo_int_def signed_divide_int_def sgn_if
      minus_mult_div_eq_mod[symmetric] algebra_simps)

lemma slot_read_neg:
  assumes "pool_ok p" "0 < pcount p" "i < 0" "rd (slots p) (cmod i (pcount p)) = Inr x"
  shows "rd (slots p) (cmod i (pcount p)) = Inr (slots p ! 0)" "x = slots p ! 0"
    "slots p ! 0 = Some t \<Longrightarrow> t \<in> members p"
proof -
  have "cmod i (pcount p) \<le> 0" using cmod_neg[OF assms(3,2)] assms(2) by simp
  then have z: "cmod i (pcount p) = 0" using assms(4) by (auto simp: rd_def split: if_splits)
  then show "rd (slots p) (cmod i (pcount p)) = Inr (slots p ! 0)" "x = slots p ! 0"
    using assms(4) by (auto simp: rd_def split: if_splits)
  show "slots p ! 0 = Some t \<Longrightarrow> t \<in> members p" using slot_read(2)[OF assms(1,2), of 0 t] by simp
qed

lemma getFixed_finds:
  assumes "pool_ok p" "0 < pcount p" "0 \<le> i" "slots p ! nat ((i + int k) mod pcount p) \<noteq> None"
  shows "\<exists>t. getFixed p i = Some (Inr t) \<and> t \<in> members p"
  using assms(3,4)
proof (induction k arbitrary: i)
  case (Suc k)
  note rd = slot_read[OF assms(1,2) Suc.prems(1)]
  show ?case
  proof (cases "slots p ! nat (i mod pcount p)")
    case None
    then have "getFixed p i = getFixed p (i + 1)" using assms(2) rd(1) getFixed.simps[of p i] by simp
    then show ?thesis using Suc.IH[of "i + 1"] Suc.prems by (simp add: ac_simps)
  next
    case (Some t)
    then show ?thesis using assms(2) rd(1) rd(2)[OF Some] getFixed.simps[of p i] by simp
  qed
next
  case 0
  then show ?case
    using assms(2) slot_read[OF assms(1,2) 0(1)] getFixed.simps[of p i] by auto
qed

text \<open>\<open>WorkerThreadPool::getFixed\<close> ends and answers a thread of the pool, whatever index it starts
  from, as soon as the pool has a thread.\<close>

theorem getFixed_returns:
  assumes "pool_ok p" "members p \<noteq> {}" "0 \<le> i"
  shows "\<exists>t. getFixed p i = Some (Inr t) \<and> t \<in> members p"
proof -
  obtain t where "Some t \<in> set (take (nat (pcount p)) (slots p))"
    using assms(2) by (auto simp: members_def)
  then obtain j where j: "j < nat (pcount p)" "slots p ! j = Some t"
    using assms(1) by (auto simp: in_set_conv_nth pool_ok_def)
  let ?k = "nat ((int j - i) mod pcount p)"
  have c: "0 < pcount p" using j by simp
  have "(i + int ?k) mod pcount p = int j mod pcount p"
    using c by (simp add: mod_add_right_eq)
  then have "nat ((i + int ?k) mod pcount p) = j" using j by simp
  then show ?thesis using getFixed_finds[OF assms(1) c assms(3), of ?k] j(2) by simp
qed

lemma getRandom_sound:
  "getRandom caller p st = Some r \<Longrightarrow> pool_ok p \<longrightarrow> 0 < pcount p \<longrightarrow>
    (\<exists>t st'. r = Inr (Some t, st') \<and> t \<in> members p \<and> t \<noteq> caller) \<or>
    (\<exists>st'. r = Inr (None, st') \<and> pcount p = 1) \<or>
    (\<exists>st1 st2 v. r = Inl OutOfBounds \<and> threadRandInt st1 = (v, st2) \<and> sint v < 0)"
proof (induction rule: getRandom.raw_induct[rotated, consumes 1, case_names body])
  case (body rec caller p st r)
  obtain v st' where rnd: "threadRandInt st = (v, st')" by (cases "threadRandInt st")
  show ?case
  proof (intro impI)
    assume p: "pool_ok p" "0 < pcount p"
    show "(\<exists>t st'. r = Inr (Some t, st') \<and> t \<in> members p \<and> t \<noteq> caller) \<or>
      (\<exists>st'. r = Inr (None, st') \<and> pcount p = 1) \<or>
      (\<exists>st1 st2 v. r = Inl OutOfBounds \<and> threadRandInt st1 = (v, st2) \<and> sint v < 0)"
    proof (cases "0 \<le> sint v")
      case True
      note rd = slot_read[OF p True]
      show ?thesis
        using body(1)[of caller p st' r] body(2) p rnd rd(1) rd(2)
        by (auto split: if_splits)
    next
      case neg: False
      show ?thesis
      proof (cases "rd (slots p) (cmod (sint v) (pcount p))")
        case (Inl e)
        then have "r = Inl OutOfBounds" using body(2) p rnd by (auto simp: rd_def split: if_splits)
        moreover have "sint v < 0" using neg by simp
        ultimately show ?thesis using rnd by blast
      next
        case (Inr x)
        note rd = slot_read_neg[OF p _ Inr]
        show ?thesis
          using body(1)[of caller p st' r] body(2) p rnd neg rd by (auto split: if_splits)
      qed
    qed
  qed
qed

text \<open>A victim that \<open>getRandom\<close> answers is a thread of the pool and never the caller itself.  The
  only other ways to return are \<open>NULL\<close>, for a pool of one slot, and a read outside the pool at a
  negative random number.\<close>

theorem getRandom_victim:
  assumes "pool_ok p" "0 < pcount p" "getRandom caller p st = Some r"
  shows "(\<exists>t st'. r = Inr (Some t, st') \<and> t \<in> members p \<and> t \<noteq> caller) \<or>
    (\<exists>st'. r = Inr (None, st') \<and> pcount p = 1) \<or>
    (\<exists>st1 st2 v. r = Inl OutOfBounds \<and> threadRandInt st1 = (v, st2) \<and> sint v < 0)"
  using getRandom_sound[OF assms(3)] assms(1,2) by blast

section \<open>Leaving the pool\<close>

lemma lowerCount_some:
  "(\<exists>j < n. sl ! j \<noteq> None) \<Longrightarrow>
   \<exists>m. lowerCount sl n = Inr (int m) \<and> 0 < m \<and> m \<le> n \<and> sl ! (m - 1) \<noteq> None \<and> (\<forall>j. m \<le> j \<and> j < n \<longrightarrow> sl ! j = None)"
proof (induction n)
  case (Suc n)
  show ?case
  proof (cases "sl ! n")
    case None
    then have "\<exists>j < n. sl ! j \<noteq> None" using Suc.prems less_Suc_eq by auto
    then show ?thesis using Suc.IH None less_Suc_eq by auto
  next
    case (Some t)
    then show ?thesis by (auto intro!: exI[of _ "Suc n"])
  qed
qed simp

lemma lowerCount_none: "(\<forall>j < n. sl ! j = None) \<Longrightarrow> lowerCount sl n = Inl OutOfBounds"
  by (induction n) auto

text \<open>C25: \<open>WorkerThreadPool::remove\<close> takes the thread out and keeps the others, and \<open>_count\<close> shrinks to
  the last slot in use; but when the pool holds no other thread the loop runs off the front of
  the array.\<close>

theorem pool_remove_result:
  assumes "pool_ok p"
  shows "if members p \<subseteq> {t} then pool_remove t p = Inl OutOfBounds
    else (\<exists>p'. pool_remove t p = Inr p' \<and> pool_ok p' \<and> members p' = members p - {t} \<and>
      slots p' ! nat (pcount p' - 1) \<noteq> None)"
proof -
  define n where "n = nat (pcount p)"
  define sl where "sl = map (\<lambda>s. if s = Some t then None else s) (take n (slots p)) @ drop n (slots p)"
  have n: "n \<le> length (slots p)" using assms by (auto simp: pool_ok_def n_def)
  have sl: "length sl = length (slots p)"
      "j < n \<Longrightarrow> sl ! j = (if slots p ! j = Some t then None else slots p ! j)" for j
    using n by (auto simp: sl_def nth_append)
  have mem: "x \<in> members p \<longleftrightarrow> (\<exists>j < n. slots p ! j = Some x)" for x
    using n by (auto simp: members_def n_def[symmetric] in_set_conv_nth)
  have rem: "pool_remove t p = rmap (\<lambda>c. \<lparr>slots = sl, pcount = c\<rparr>) (lowerCount sl n)"
    by (simp add: pool_remove_def Let_def n_def sl_def)
  show ?thesis
  proof (cases "members p \<subseteq> {t}")
    case True
    have "sl ! j = None" if "j < n" for j
      using True mem that sl(2)[OF that] by (cases "slots p ! j") auto
    then have "lowerCount sl n = Inl OutOfBounds" using lowerCount_none by blast
    then show ?thesis using True rem by (simp add: rmap_def)
  next
    case False
    then obtain x where "x \<in> members p" "x \<noteq> t" by auto
    then obtain j where "j < n" "slots p ! j = Some x" "slots p ! j \<noteq> Some t" using mem by auto
    then have "\<exists>j < n. sl ! j \<noteq> None" using sl(2) by auto
    from lowerCount_some[OF this] obtain m where m: "lowerCount sl n = Inr (int m)" "0 < m" "m \<le> n"
        "sl ! (m - 1) \<noteq> None" "\<forall>j. m \<le> j \<and> j < n \<longrightarrow> sl ! j = None" by blast
    have "x \<in> members \<lparr>slots = sl, pcount = int m\<rparr> \<longleftrightarrow> (\<exists>j < m. sl ! j = Some x)" for x
      using m(3) n sl(1) by (auto simp: members_def in_set_conv_nth)
    moreover have "(\<exists>j < m. sl ! j = Some x) \<longleftrightarrow> (\<exists>j < n. sl ! j = Some x)" for x
      using m(3,5) by (metis less_le_trans linorder_not_le option.distinct(1))
    ultimately have "x \<in> members \<lparr>slots = sl, pcount = int m\<rparr> \<longleftrightarrow> (\<exists>j < n. sl ! j = Some x)" for x
      by simp
    moreover have "(\<exists>j < n. sl ! j = Some x) \<longleftrightarrow> (\<exists>j < n. slots p ! j = Some x) \<and> x \<noteq> t" for x
      using sl(2) by (metis option.distinct(1) option.inject)
    ultimately have "members \<lparr>slots = sl, pcount = int m\<rparr> = members p - {t}"
      using mem by auto
    then show ?thesis using False rem m n sl(1) by (auto simp: rmap_def pool_ok_def nat_diff_distrib)
  qed
qed

section \<open>Joining the pool\<close>











section \<open>Witnesses\<close>

definition exPool :: "nat threadPool" where
  "exPool = \<lparr>slots = [Some 0, None, Some 2], pcount = 3\<rparr>"

lemma exPool_ok: "pool_ok exPool" "0 < pcount exPool" "members exPool = {0, 2}"
  by (auto simp: pool_ok_def exPool_def members_def eval_nat_numeral)

theorem threadRandInt_range_witness:
  "(0 \<le> sint (0x80000000 :: 32 word) \<and> sint (0x80000000 :: 32 word) < 2 ^ 31) \<noteq>
   (push_bit 16 (rz \<lparr>rz = 0xFFFF8000, rw = 0\<rparr>) + rw \<lparr>rz = 0xFFFF8000, rw = 0\<rparr> = 0x80000000)"
  by (rule threadRandInt_range[OF threadRandInt_negative])

theorem getFixed_returns_witness: "\<exists>t. getFixed exPool 1 = Some (Inr t) \<and> t \<in> members exPool"
  by (rule getFixed_returns) (simp_all add: exPool_ok)

lemma exRandom: "threadRandInt \<lparr>rz = 0, rw = 1\<rparr> = (18000, \<lparr>rz = 0, rw = 18000\<rparr>)"
  by code_simp

lemma exGetRandom: "getRandom 2 exPool \<lparr>rz = 0, rw = 1\<rparr> = Some (Inr (Some 0, \<lparr>rz = 0, rw = 18000\<rparr>))"
  by (simp add: getRandom.simps exRandom exPool_def cmod_nonneg)

theorem getRandom_victim_witness:
  "(\<exists>t st'. Inr (Some 0, \<lparr>rz = 0, rw = 18000\<rparr>) = (Inr (Some t, st') :: (nat option \<times> rndState) res) \<and>
     t \<in> members exPool \<and> t \<noteq> 2) \<or>
   (\<exists>st'. Inr (Some 0, \<lparr>rz = 0, rw = 18000\<rparr>) = (Inr (None, st') :: (nat option \<times> rndState) res) \<and> pcount exPool = 1) \<or>
   (\<exists>st1 st2 v. Inr (Some 0, \<lparr>rz = 0, rw = 18000\<rparr>) = (Inl OutOfBounds :: (nat option \<times> rndState) res) \<and>
     threadRandInt st1 = (v, st2) \<and> sint v < 0)"
  by (rule getRandom_victim[OF exPool_ok(1,2) exGetRandom])

theorem pool_remove_result_witness:
  "if members exPool \<subseteq> {2} then pool_remove 2 exPool = Inl OutOfBounds
   else (\<exists>p'. pool_remove 2 exPool = Inr p' \<and> pool_ok p' \<and> members p' = members exPool - {2} \<and>
     slots p' ! nat (pcount p' - 1) \<noteq> None)"
  by (rule pool_remove_result[OF exPool_ok(1)])




end
