(* ===== verification/TaskGraph.thy ===== *)
theory TaskGraph
  imports WorkerThread RegionMessages
begin

text \<open>
  The dynamic tasks of the runtime and their scheduling: \<open>runtime/dynamictask.h\<close>,
  \<open>runtime/dynamictask.cpp\<close>, \<open>runtime/remotetask.cpp\<close>.

  Tasks are entries of a list and refer to each other by index.  The code of a task operation is a
  sequence of critical sections; a value of \<open>taskOp\<close> stands for the next critical section that a
  thread executes, and \<open>exec\<close> gives its effect and the sections that follow.  A thread is a stack of
  such sections.  Threads interleave at this grain, which is that of the locks in the code.

  What a task does when it runs is generated code.  It appears as a choice of the thread that
  runs it: create tasks, register dependencies, enqueue, wait, and finally return with or without a
  continuation.  These choices keep to the rules that the code asks of its user: dependencies are
  registered before the task is enqueued, a task is enqueued once, and a continuation is a task that
  nobody else enqueues.
\<close>

section \<open>Tasks\<close>

datatype taskState =
    S_NEW | S_PENDING | S_READY | S_COMPLETE | S_CONTINUED
  | S_REMOTE_NEW | S_REMOTE_PENDING | S_REMOTE_READY

record dynamicTask =
  tState :: taskState
  tPreds :: int
  tDependents :: "nat list"
  tContinuation :: "nat option"
  tType :: int
  tNull :: bool
  tRefs :: int \<comment> \<open>the references that \<open>enqueue\<close> took\<close>

definition TYPE_CPU :: int where "TYPE_CPU = 1"
definition TYPE_OPENCL :: int where "TYPE_OPENCL = 2"

definition newTask :: "int \<Rightarrow> bool \<Rightarrow> bool \<Rightarrow> dynamicTask" where
  "newTask ty null remote =
     \<lparr>tState = (if remote then S_REMOTE_NEW else S_NEW), tPreds = 0, tDependents = [],
      tContinuation = None, tType = ty, tNull = null, tRefs = 0\<rparr>"

record scheduler =
  tasks :: "dynamicTask list"
  workers :: "nat worker list"
  remotes :: "nat list" \<comment> \<open>tasks that another host runs\<close>

definition upd :: "nat \<Rightarrow> (dynamicTask \<Rightarrow> dynamicTask) \<Rightarrow> scheduler \<Rightarrow> scheduler" where
  "upd t f s = s\<lparr>tasks := (tasks s)[t := f (tasks s ! t)]\<rparr>"

definition withTask :: "nat \<Rightarrow> scheduler \<Rightarrow> (dynamicTask \<Rightarrow> 'a res) \<Rightarrow> 'a res" where
  "withTask t s k = (if t < length (tasks s) then k (tasks s ! t) else Inl NullDeref)"

text \<open>The critical sections.\<close>

datatype taskOp =
    Enqueue nat
  | Schedule nat \<comment> \<open>what follows the lock in \<open>enqueue\<close> and \<open>decrementPredecessors\<close>\<close>
  | DependsOn nat "nat option"
  | Decrement nat bool
  | Dispatch nat \<comment> \<open>\<open>inlineOrEnqueueTask\<close>\<close>
  | RunWrapper nat bool
  | Running nat
  | CompleteDeps nat bool
  | ContinueWith nat "nat list" \<comment> \<open>hand the dependents to the continuation, then enqueue it\<close>
  | ReleaseRef nat
  | WaitFor nat

section \<open>Where a remote task runs\<close>

fun chooseLoop :: "hostPid \<Rightarrow> dataHostPidList \<Rightarrow> (hostPid \<Rightarrow> int) \<Rightarrow> hostPid \<Rightarrow> int \<Rightarrow> hostPid" where
  "chooseLoop self [] m toHost maxWeight = toHost"
| "chooseLoop self (it # its) m toHost maxWeight =
     (let h = itemHost it; m' = m(h := m h + itemWeight it)
      in if m' h > maxWeight then chooseLoop self its m' h (m' h)
         else if m' h = maxWeight \<and> h = self then chooseLoop self its m' h maxWeight
         else chooseLoop self its m' toHost maxWeight)"

definition chooseHost :: "hostPid \<Rightarrow> dataHostPidList \<Rightarrow> hostPid" where
  "chooseHost self hosts =
     (if length hosts = 1 then itemHost (hosts ! 0)
      else if length hosts > 1 then chooseLoop self hosts (\<lambda>_. 0) self 0
      else self)"

section \<open>The critical sections\<close>

definition exec_enqueue :: "nat \<Rightarrow> scheduler \<Rightarrow> (scheduler \<times> taskOp list) res" where
  "exec_enqueue t s = withTask t s (\<lambda>x.
     let s1 = upd t (\<lambda>x. x\<lparr>tRefs := tRefs x + 1\<rparr>) s;
         next = (if tPreds x = 0 then [Schedule t] else [])
     in if tState x = S_NEW
        then Inr (upd t (\<lambda>x. x\<lparr>tState := (if tPreds x = 0 then S_READY else S_PENDING)\<rparr>) s1, next)
        else if tState x = S_REMOTE_NEW
        then Inr (upd t (\<lambda>x. x\<lparr>tState := (if tPreds x = 0 then S_REMOTE_READY else S_REMOTE_PENDING)\<rparr>) s1, next)
        else Inl AssertFail)"

text \<open>\<open>RemoteTask::remoteScheduleTask\<close> with \<open>enqueueLocal\<close> and \<open>enqueueRemote\<close>; \<open>hosts\<close> are the data
  hosts of the task.\<close>

definition remoteScheduleTask ::
    "hostPid \<Rightarrow> dataHostPidList \<Rightarrow> nat \<Rightarrow> scheduler \<Rightarrow> (scheduler \<times> taskOp list) res" where
  "remoteScheduleTask self hosts t s =
     (if chooseHost self hosts = self
      then Inr (upd t (\<lambda>x. x\<lparr>tState := S_READY\<rparr>) s, [Dispatch t])
      else Inr (s\<lparr>remotes := t # remotes s\<rparr>, []))"

definition exec_schedule ::
    "hostPid \<Rightarrow> dataHostPidList \<Rightarrow> nat \<Rightarrow> scheduler \<Rightarrow> (scheduler \<times> taskOp list) res" where
  "exec_schedule self hosts t s = withTask t s (\<lambda>x.
     if tState x = S_READY then Inr (s, [Dispatch t])
     else if tState x = S_REMOTE_READY then remoteScheduleTask self hosts t s
     else Inl AssertFail)"

definition exec_dependsOn :: "nat \<Rightarrow> nat option \<Rightarrow> scheduler \<Rightarrow> (scheduler \<times> taskOp list) res" where
  "exec_dependsOn t that s =
     (case that of
        None \<Rightarrow> Inr (s, [])
      | Some u \<Rightarrow> withTask t s (\<lambda>x. withTask u s (\<lambda>y.
          rassert (u \<noteq> t) (rassert (tState x = S_NEW \<or> tState x = S_REMOTE_NEW)
            (if tState y = S_CONTINUED then Inr (s, [DependsOn t (tContinuation y)])
             else if tState y \<noteq> S_COMPLETE
             then Inr (upd t (\<lambda>x. x\<lparr>tPreds := tPreds x + 1\<rparr>)
                    (upd u (\<lambda>y. y\<lparr>tDependents := tDependents y @ [t]\<rparr>) s), [])
             else Inr (s, []))))))"

definition exec_decrement :: "nat \<Rightarrow> bool \<Rightarrow> scheduler \<Rightarrow> (scheduler \<times> taskOp list) res" where
  "exec_decrement t isAborting s = withTask t s (\<lambda>x.
     let p = tPreds x - 1;
         st = (if p = 0 \<and> tState x = S_PENDING then S_READY
               else if p = 0 \<and> tState x = S_REMOTE_PENDING then S_REMOTE_READY else tState x)
     in Inr (upd t (\<lambda>x. x\<lparr>tPreds := p, tState := st\<rparr>) s,
          if st \<noteq> tState x then (if isAborting then [RunWrapper t True] else [Schedule t]) else []))"

text \<open>\<open>me\<close> is the worker of the thread, if it has one; work from other threads goes to worker \<open>j\<close>
  (\<open>DynamicScheduler::injectWork\<close>).\<close>

definition exec_dispatch :: "nat option \<Rightarrow> nat \<Rightarrow> nat \<Rightarrow> scheduler \<Rightarrow> (scheduler \<times> taskOp list) res" where
  "exec_dispatch me j t s = withTask t s (\<lambda>x.
     if tNull x then Inr (s, [RunWrapper t False])
     else (case me of
         Some i \<Rightarrow> Inr (s\<lparr>workers := (workers s)[i := pushLocal t (workers s ! i)]\<rparr>, [])
       | None \<Rightarrow> Inr (s\<lparr>workers := (workers s)[j := inject t (workers s ! j)]\<rparr>, [])))"

definition exec_runWrapper :: "nat \<Rightarrow> bool \<Rightarrow> scheduler \<Rightarrow> (scheduler \<times> taskOp list) res" where
  "exec_runWrapper t isAborting s = withTask t s (\<lambda>x.
     rassert (((tState x = S_READY \<and> tType x = TYPE_CPU) \<or> (tState x = S_REMOTE_READY \<and> tType x = TYPE_OPENCL)) \<and>
         tPreds x = 0)
       (if \<not> isAborting then Inr (s, [Running t])
        else Inr (upd t (\<lambda>x. x\<lparr>tContinuation := None\<rparr>) s, [CompleteDeps t True])))"

definition exec_completeTaskDeps :: "nat \<Rightarrow> bool \<Rightarrow> scheduler \<Rightarrow> (scheduler \<times> taskOp list) res" where
  "exec_completeTaskDeps t isAborting s = withTask t s (\<lambda>x.
     let tmp = tDependents x;
         s1 = upd t (\<lambda>x. x\<lparr>tDependents := [],
                tState := (if tContinuation x \<noteq> None then S_CONTINUED else S_COMPLETE)\<rparr>) s
     in Inr (s1, (case tContinuation x of
             Some c \<Rightarrow> [ContinueWith c tmp]
           | None \<Rightarrow> map (\<lambda>d. Decrement d isAborting) tmp) @ [ReleaseRef t]))"

definition exec_continueWith :: "nat \<Rightarrow> nat list \<Rightarrow> scheduler \<Rightarrow> (scheduler \<times> taskOp list) res" where
  "exec_continueWith c tmp s = withTask c s (\<lambda>x.
     Inr (upd c (\<lambda>x. x\<lparr>tDependents := (if tDependents x = [] then tmp else tDependents x @ tmp)\<rparr>) s, [Enqueue c]))"

definition exec_release :: "nat \<Rightarrow> scheduler \<Rightarrow> (scheduler \<times> taskOp list) res" where
  "exec_release t s = withTask t s (\<lambda>x. Inr (upd t (\<lambda>x. x\<lparr>tRefs := tRefs x - 1\<rparr>) s, []))"

fun exec ::
    "hostPid \<Rightarrow> dataHostPidList \<Rightarrow> nat option \<Rightarrow> nat \<Rightarrow> taskOp \<Rightarrow> scheduler \<Rightarrow> (scheduler \<times> taskOp list) res" where
  "exec self hosts me j (Enqueue t) s = exec_enqueue t s"
| "exec self hosts me j (Schedule t) s = exec_schedule self hosts t s"
| "exec self hosts me j (DependsOn t u) s = exec_dependsOn t u s"
| "exec self hosts me j (Decrement t a) s = exec_decrement t a s"
| "exec self hosts me j (Dispatch t) s = exec_dispatch me j t s"
| "exec self hosts me j (RunWrapper t a) s = exec_runWrapper t a s"
| "exec self hosts me j (CompleteDeps t a) s = exec_completeTaskDeps t a s"
| "exec self hosts me j (ContinueWith c ts) s = exec_continueWith c ts s"
| "exec self hosts me j (ReleaseRef t) s = exec_release t s"
| "exec self hosts me j (Running t) s = Inl NotImplemented"
| "exec self hosts me j (WaitFor t) s = Inl NotImplemented"

fun inCode :: "taskOp \<Rightarrow> bool" where
  "inCode (Running t) = False"
| "inCode (WaitFor t) = False"
| "inCode _ = True"

section \<open>Threads\<close>

text \<open>The scheduler, the stacks of the threads, and a history variable: the pairs \<open>(t, u)\<close> for which
  \<open>t.dependsOn(u)\<close> was called.  Threads below \<open>length workers\<close> are the workers; the others are the
  threads that receive messages.\<close>

type_synonym config = "scheduler \<times> taskOp list list \<times> (nat \<times> nat) set"

definition isNew :: "dynamicTask \<Rightarrow> bool" where
  "isNew x = (tState x = S_NEW \<or> tState x = S_REMOTE_NEW)"

fun announces :: "dynamicTask list \<Rightarrow> taskOp \<Rightarrow> nat list" where
  "announces ts (Enqueue t) = [t]"
| "announces ts (ContinueWith c ds) = [c]"
| "announces ts (CompleteDeps t a) = (case tContinuation (ts ! t) of None \<Rightarrow> [] | Some c \<Rightarrow> [c])"
| "announces ts _ = []"

fun registers :: "taskOp \<Rightarrow> nat list" where
  "registers (DependsOn t u) = [t]"
| "registers _ = []"

text \<open>A task that is new, that no section in progress will enqueue, and for which no dependency is
  being registered.\<close>

definition unclaimed :: "scheduler \<Rightarrow> taskOp list \<Rightarrow> nat \<Rightarrow> bool" where
  "unclaimed s ops t =
     (t < length (tasks s) \<and> isNew (tasks s ! t) \<and> (\<forall>q \<in> set ops. t \<notin> set (announces (tasks s) q) \<and> t \<notin> set (registers q)))"

definition userTurn :: "taskOp list \<Rightarrow> bool" where
  "userTurn st = (case st of [] \<Rightarrow> True | Running t # rest \<Rightarrow> True | _ \<Rightarrow> False)"

definition workerOf :: "scheduler \<Rightarrow> nat \<Rightarrow> nat option" where
  "workerOf s i = (if i < length (workers s) then Some i else None)"

definition victims_ok :: "scheduler \<Rightarrow> (nat option \<times> bool \<times> bool) list \<Rightarrow> bool" where
  "victims_ok s vs = (\<forall>v a b. (Some v, a, b) \<in> set vs \<longrightarrow> v < length (workers s))"

inductive taskStep :: "hostPid \<Rightarrow> config \<Rightarrow> config \<Rightarrow> bool" for self where
  st_exec: "i < length ths \<Longrightarrow> ths ! i = q # rest \<Longrightarrow> inCode q \<Longrightarrow> j < length (workers s) \<Longrightarrow>
    exec self hosts (workerOf s i) j q s = Inr (s', qs) \<Longrightarrow>
    taskStep self (s, ths, lg) (s', ths[i := qs @ rest], lg)"
| st_new: "i < length ths \<Longrightarrow> userTurn (ths ! i) \<Longrightarrow>
    taskStep self (s, ths, lg) (s\<lparr>tasks := tasks s @ [newTask TYPE_CPU null remote]\<rparr>, ths, lg)"
| st_dependsOn: "i < length ths \<Longrightarrow> userTurn (ths ! i) \<Longrightarrow> unclaimed s (concat ths) t \<Longrightarrow>
    u < length (tasks s) \<Longrightarrow> u \<noteq> t \<Longrightarrow>
    taskStep self (s, ths, lg) (s, ths[i := DependsOn t (Some u) # ths ! i], insert (t, u) lg)"
| st_enqueue: "i < length ths \<Longrightarrow> userTurn (ths ! i) \<Longrightarrow> unclaimed s (concat ths) t \<Longrightarrow>
    taskStep self (s, ths, lg) (s, ths[i := Enqueue t # ths ! i], lg)"
| st_wait: "i < length (workers s) \<Longrightarrow> i < length ths \<Longrightarrow> userTurn (ths ! i) \<Longrightarrow> t < length (tasks s) \<Longrightarrow>
    taskStep self (s, ths, lg) (s, ths[i := WaitFor t # ths ! i], lg)"
| st_return: "i < length ths \<Longrightarrow> ths ! i = Running t # rest \<Longrightarrow>
    (case r of None \<Rightarrow> True | Some c \<Rightarrow> unclaimed s (concat ths) c) \<Longrightarrow>
    taskStep self (s, ths, lg) (upd t (\<lambda>x. x\<lparr>tContinuation := r\<rparr>) s, ths[i := CompleteDeps t False # rest], lg)"
| st_waitDone: "i < length ths \<Longrightarrow> ths ! i = WaitFor t # rest \<Longrightarrow> tState (tasks s ! t) = S_COMPLETE \<Longrightarrow>
    taskStep self (s, ths, lg) (s, ths[i := rest], lg)"
| st_waitNext: "i < length ths \<Longrightarrow> ths ! i = WaitFor t # rest \<Longrightarrow> tState (tasks s ! t) = S_CONTINUED \<Longrightarrow>
    tContinuation (tasks s ! t) = Some c \<Longrightarrow>
    taskStep self (s, ths, lg) (s, ths[i := WaitFor c # rest], lg)"
| st_waitRun: "i < length ths \<Longrightarrow> i < length (workers s) \<Longrightarrow> ths ! i = WaitFor t # rest \<Longrightarrow>
    tState (tasks s ! t) \<noteq> S_COMPLETE \<Longrightarrow> tState (tasks s ! t) \<noteq> S_CONTINUED \<Longrightarrow> victims_ok s vs \<Longrightarrow>
    popTask i ok vs (workers s) = (Some x, ws) \<Longrightarrow>
    taskStep self (s, ths, lg) (s\<lparr>workers := ws\<rparr>, ths[i := RunWrapper x False # WaitFor t # rest], lg)"
| st_idle: "i < length ths \<Longrightarrow> i < length (workers s) \<Longrightarrow> ths ! i = [] \<Longrightarrow> victims_ok s vs \<Longrightarrow>
    popTask i ok vs (workers s) = (Some x, ws) \<Longrightarrow>
    taskStep self (s, ths, lg) (s\<lparr>workers := ws\<rparr>, ths[i := [RunWrapper x False]], lg)"
| st_cancel: "i < length ths \<Longrightarrow> i < length (workers s) \<Longrightarrow> userTurn (ths ! i) \<Longrightarrow> victims_ok s vs \<Longrightarrow>
    popTask i ok vs (workers s) = (Some x, ws) \<Longrightarrow>
    taskStep self (s, ths, lg) (s\<lparr>workers := ws\<rparr>, ths[i := RunWrapper x True # ths ! i], lg)"
| st_remoteDone: "i < length ths \<Longrightarrow> ths ! i = [] \<Longrightarrow> t \<in> set (remotes s) \<Longrightarrow>
    taskStep self (s, ths, lg) (s\<lparr>remotes := remove1 t (remotes s)\<rparr>, ths[i := [CompleteDeps t False]], lg)"

inductive reached :: "hostPid \<Rightarrow> config \<Rightarrow> bool" for self where
  reached_start: "reached self (\<lparr>tasks = [], workers = replicate (Suc n) newWorker, remotes = []\<rparr>,
    replicate (Suc n + m) [], {})"
| reached_step: "reached self c \<Longrightarrow> taskStep self c c' \<Longrightarrow> reached self c'"

end
