(* ===== verification/TaskInvariant.thy ===== *)
theory TaskInvariant
  imports TaskGraph
begin

text \<open>
  The invariant of the task graph of theory \<open>TaskGraph\<close>.  The sections in progress of all threads are
  collected in a multiset, so that the invariant does not depend on which thread does what.
\<close>

section \<open>What the sections in progress stand for\<close>

definition flight :: "(taskOp \<Rightarrow> nat multiset) \<Rightarrow> taskOp multiset \<Rightarrow> nat multiset" where
  "flight f F = sum_mset (image_mset f F)"

lemma flight_simps [simp]:
  "flight f {#} = {#}"
  "flight f (add_mset q F) = f q + flight f F"
  "flight f (F + G) = flight f F + flight f G"
  by (simp_all add: flight_def)

lemma in_flight: "t \<in># flight f F \<longleftrightarrow> (\<exists>q. q \<in># F \<and> t \<in># f q)"
  by (auto simp: flight_def in_Union_mset_iff)

text \<open>Decrements that are still owed to a task, the right to run a task, the promise to enqueue it, and
  the reference to be dropped.\<close>

fun owes :: "taskOp \<Rightarrow> nat multiset" where
  "owes (Decrement t a) = {#t#}"
| "owes (ContinueWith c ds) = mset ds"
| "owes _ = {#}"

fun runs :: "taskOp \<Rightarrow> nat multiset" where
  "runs (Schedule t) = {#t#}"
| "runs (Dispatch t) = {#t#}"
| "runs (RunWrapper t a) = {#t#}"
| "runs (Running t) = {#t#}"
| "runs (CompleteDeps t a) = {#t#}"
| "runs _ = {#}"

fun releases :: "taskOp \<Rightarrow> nat multiset" where
  "releases (ReleaseRef t) = {#t#}"
| "releases _ = {#}"

definition dependentsOf :: "dynamicTask list \<Rightarrow> nat multiset" where
  "dependentsOf ts = sum_list (map (\<lambda>x. mset (tDependents x)) ts)"

definition owed :: "dynamicTask list \<Rightarrow> taskOp multiset \<Rightarrow> nat multiset" where
  "owed ts F = dependentsOf ts + flight owes F"

definition announced :: "dynamicTask list \<Rightarrow> taskOp multiset \<Rightarrow> nat multiset" where
  "announced ts F = flight (\<lambda>q. mset (announces ts q)) F"

lemma dependentsOf_update:
  "t < length ts \<Longrightarrow>
   dependentsOf (ts[t := x]) + mset (tDependents (ts ! t)) = dependentsOf ts + mset (tDependents x)"
  by (induction ts arbitrary: t) (auto simp: dependentsOf_def split: nat.split)

lemma dependentsOf_same [simp]:
  "t < length ts \<Longrightarrow> tDependents x = tDependents (ts ! t) \<Longrightarrow> dependentsOf (ts[t := x]) = dependentsOf ts"
  using dependentsOf_update[of t ts x] by simp

lemma in_dependentsOf: "t \<in># dependentsOf ts \<longleftrightarrow> (\<exists>u < length ts. t \<in> set (tDependents (ts ! u)))"
proof (induction ts)
  case (Cons x ts)
  have "(\<exists>u < length (x # ts). t \<in> set (tDependents ((x # ts) ! u))) \<longleftrightarrow>
      t \<in> set (tDependents x) \<or> (\<exists>u < length ts. t \<in> set (tDependents (ts ! u)))"
    by (auto simp: less_Suc_eq_0_disj)
  then show ?case using Cons by (simp add: dependentsOf_def)
qed (simp add: dependentsOf_def)

text \<open>Announcements depend on the continuations only.\<close>

lemma announced_cong:
  "(\<And>u a. CompleteDeps u a \<in># F \<Longrightarrow> tContinuation (ts' ! u) = tContinuation (ts ! u)) \<Longrightarrow>
   announced ts' F = announced ts F"
proof -
  assume same: "\<And>u a. CompleteDeps u a \<in># F \<Longrightarrow> tContinuation (ts' ! u) = tContinuation (ts ! u)"
  have "mset (announces ts' q) = mset (announces ts q)" if "q \<in># F" for q
    using same that by (cases q) auto
  then show ?thesis by (simp add: announced_def flight_def cong: image_mset_cong)
qed

section \<open>The end of a chain of continuations\<close>

inductive chainEnd :: "dynamicTask list \<Rightarrow> nat \<Rightarrow> nat \<Rightarrow> bool" for ts where
  fin_here: "u < length ts \<Longrightarrow> tState (ts ! u) \<noteq> S_CONTINUED \<Longrightarrow> chainEnd ts u u"
| fin_next: "u < length ts \<Longrightarrow> tState (ts ! u) = S_CONTINUED \<Longrightarrow> tContinuation (ts ! u) = Some c \<Longrightarrow>
    chainEnd ts c v \<Longrightarrow> chainEnd ts u v"

lemma chainEnd_end: "chainEnd ts u v \<Longrightarrow> v < length ts \<and> tState (ts ! v) \<noteq> S_CONTINUED"
  by (induction rule: chainEnd.induct) auto

lemma chainEnd_first: "chainEnd ts u v \<Longrightarrow> u < length ts"
  by (cases rule: chainEnd.cases) auto

lemma chainEnd_here: "chainEnd ts u v \<Longrightarrow> tState (ts ! u) \<noteq> S_CONTINUED \<Longrightarrow> v = u"
  by (auto elim: chainEnd.cases)

lemma chainEnd_next:
  "chainEnd ts u v \<Longrightarrow> tState (ts ! u) = S_CONTINUED \<Longrightarrow> \<exists>c. tContinuation (ts ! u) = Some c \<and> chainEnd ts c v"
  by (auto elim: chainEnd.cases)

lemma chainEnd_cong:
  assumes "chainEnd ts u v" "length ts \<le> length ts'"
    and "\<And>x. x < length ts \<Longrightarrow> (tState (ts' ! x) = S_CONTINUED) = (tState (ts ! x) = S_CONTINUED) \<and>
      (tState (ts ! x) = S_CONTINUED \<longrightarrow> tContinuation (ts' ! x) = tContinuation (ts ! x))"
  shows "chainEnd ts' u v"
  using assms(1)
proof induction
  case (fin_here u)
  then show ?case using assms(2,3) by (intro chainEnd.fin_here) auto
next
  case (fin_next u c v)
  then show ?case using assms(2,3) by (intro chainEnd.fin_next[of u _ c]) auto
qed

text \<open>A task that returns a continuation passes its place in every chain on to it.\<close>

lemma chainEnd_extend:
  assumes "chainEnd ts u v" "t < length ts" "tState (ts ! t) \<noteq> S_CONTINUED" "c < length ts" "c \<noteq> t"
    "tState (ts ! c) \<noteq> S_CONTINUED" "tState x = S_CONTINUED" "tContinuation x = Some c"
  shows "chainEnd (ts[t := x]) u (if v = t then c else v)"
  using assms(1)
proof induction
  case (fin_here u)
  show ?case
  proof (cases "u = t")
    case True
    have "chainEnd (ts[t := x]) c c" using assms(4-6) by (intro chainEnd.fin_here) simp_all
    then have "chainEnd (ts[t := x]) t c"
      using assms(2,7,8) by (intro chainEnd.fin_next[of t _ c c]) simp_all
    then show ?thesis using True by simp
  next
    case False
    then have "chainEnd (ts[t := x]) u u" using fin_here by (intro chainEnd.fin_here) simp_all
    then show ?thesis using False by simp
  qed
next
  case (fin_next u c' v)
  then have "u \<noteq> t" using assms(3) by auto
  then show ?case using fin_next by (intro chainEnd.fin_next[of u _ c']) simp_all
qed

section \<open>The invariant\<close>

definition ready :: "dynamicTask \<Rightarrow> bool" where
  "ready x = (tState x = S_READY \<or> tState x = S_REMOTE_READY)"

definition pending :: "dynamicTask \<Rightarrow> bool" where
  "pending x = (tState x = S_PENDING \<or> tState x = S_REMOTE_PENDING)"

definition finished :: "dynamicTask \<Rightarrow> bool" where
  "finished x = (tState x = S_COMPLETE \<or> tState x = S_CONTINUED)"

lemmas state_defs = isNew_def ready_def pending_def finished_def

lemma states_disjoint:
  "ready x \<Longrightarrow> \<not> isNew x \<and> \<not> pending x \<and> \<not> finished x"
  "isNew x \<Longrightarrow> \<not> ready x \<and> \<not> pending x \<and> \<not> finished x"
  "pending x \<Longrightarrow> \<not> ready x \<and> \<not> isNew x \<and> \<not> finished x"
  "finished x \<Longrightarrow> \<not> ready x \<and> \<not> isNew x \<and> \<not> pending x"
  by (auto simp: state_defs)

definition preds_ok :: "dynamicTask list \<Rightarrow> taskOp multiset \<Rightarrow> bool" where
  "preds_ok ts F =
     ((\<forall>t < length ts. tPreds (ts ! t) = int (count (owed ts F) t)) \<and> (\<forall>t. t \<in># owed ts F \<longrightarrow> t < length ts))"

definition tokens_ok :: "dynamicTask list \<Rightarrow> nat multiset \<Rightarrow> nat multiset \<Rightarrow> taskOp multiset \<Rightarrow> bool" where
  "tokens_ok ts W R F =
     (\<forall>t. count (W + R + flight runs F) t = (if t < length ts \<and> ready (ts ! t) then 1 else 0))"

definition local_ok :: "dynamicTask list \<Rightarrow> nat multiset \<Rightarrow> taskOp multiset \<Rightarrow> bool" where
  "local_ok ts W F =
     ((\<forall>t < length ts. tType (ts ! t) = TYPE_CPU) \<and>
      (\<forall>t. t \<in># W \<or> Dispatch t \<in># F \<or> RunWrapper t False \<in># F \<longrightarrow> tState (ts ! t) = S_READY))"

definition states_ok :: "dynamicTask list \<Rightarrow> bool" where
  "states_ok ts =
     (\<forall>t < length ts. (pending (ts ! t) \<longrightarrow> tPreds (ts ! t) > 0) \<and>
        (ready (ts ! t) \<or> finished (ts ! t) \<longrightarrow> tPreds (ts ! t) = 0) \<and>
        (finished (ts ! t) \<longrightarrow> tDependents (ts ! t) = []))"

definition announced_ok :: "dynamicTask list \<Rightarrow> taskOp multiset \<Rightarrow> bool" where
  "announced_ok ts F =
     (\<forall>t. t \<in># announced ts F \<longrightarrow> count (announced ts F) t = 1 \<and> t < length ts \<and> isNew (ts ! t))"

definition depends_ok :: "dynamicTask list \<Rightarrow> taskOp multiset \<Rightarrow> bool" where
  "depends_ok ts F =
     (\<forall>t u. DependsOn t u \<in># F \<longrightarrow>
        t < length ts \<and> isNew (ts ! t) \<and> t \<notin># announced ts F \<and> (\<forall>x. u = Some x \<longrightarrow> x < length ts \<and> x \<noteq> t))"

definition conts_ok :: "dynamicTask list \<Rightarrow> taskOp multiset \<Rightarrow> bool" where
  "conts_ok ts F =
     (\<forall>t < length ts.
        (tState (ts ! t) = S_CONTINUED \<longrightarrow> (\<exists>c. tContinuation (ts ! t) = Some c \<and> c < length ts \<and>
           (\<not> isNew (ts ! c) \<or> c \<in># announced ts F))) \<and>
        (tContinuation (ts ! t) \<noteq> None \<longrightarrow> tState (ts ! t) = S_CONTINUED \<or> (\<exists>a. CompleteDeps t a \<in># F)))"

definition refs_ok :: "dynamicTask list \<Rightarrow> taskOp multiset \<Rightarrow> bool" where
  "refs_ok ts F =
     ((\<forall>t < length ts. tRefs (ts ! t) =
         (if pending (ts ! t) \<or> ready (ts ! t) then 1 else 0) + int (count (flight releases F) t)) \<and>
      (\<forall>t. t \<in># flight releases F \<longrightarrow> t < length ts))"

definition served :: "dynamicTask list \<Rightarrow> taskOp multiset \<Rightarrow> nat \<Rightarrow> nat \<Rightarrow> bool" where
  "served ts F t v =
     (tState (ts ! v) = S_COMPLETE \<or> t \<in> set (tDependents (ts ! v)) \<or>
      (\<exists>ds. ContinueWith v ds \<in># F \<and> t \<in> set ds) \<or> (\<exists>x. DependsOn t (Some x) \<in># F \<and> chainEnd ts x v))"

definition log_ok :: "dynamicTask list \<Rightarrow> taskOp multiset \<Rightarrow> (nat \<times> nat) set \<Rightarrow> bool" where
  "log_ok ts F lg = (\<forall>(t, u) \<in> lg. t < length ts \<and> (\<exists>v. chainEnd ts u v \<and> served ts F t v))"

definition task_inv ::
    "dynamicTask list \<Rightarrow> nat multiset \<Rightarrow> nat multiset \<Rightarrow> taskOp multiset \<Rightarrow> (nat \<times> nat) set \<Rightarrow> bool" where
  "task_inv ts W R F lg =
     (preds_ok ts F \<and> tokens_ok ts W R F \<and> local_ok ts W F \<and> states_ok ts \<and> announced_ok ts F \<and>
      depends_ok ts F \<and> conts_ok ts F \<and> refs_ok ts F \<and> log_ok ts F lg)"

lemma log_okI:
  assumes "log_ok ts F lg" "length ts \<le> length ts'"
    and "\<And>t u v. (t, u) \<in> lg \<Longrightarrow> chainEnd ts u v \<Longrightarrow> served ts F t v \<Longrightarrow>
      \<exists>v'. chainEnd ts' u v' \<and> served ts' F' t v'"
  shows "log_ok ts' F' lg"
  using assms unfolding log_ok_def by (fastforce intro: less_le_trans)

lemma task_invD:
  assumes "task_inv ts W R F lg"
  shows "preds_ok ts F" "tokens_ok ts W R F" "local_ok ts W F" "states_ok ts" "announced_ok ts F"
    "depends_ok ts F" "conts_ok ts F" "refs_ok ts F" "log_ok ts F lg"
  using assms by (simp_all add: task_inv_def)

text \<open>A task with the right to run is ready, and nobody else has that right.\<close>

lemma token_ready:
  assumes "tokens_ok ts W R (add_mset q G)" "t \<in># runs q"
  shows "t < length ts" "ready (ts ! t)" "t \<notin># W" "t \<notin># R" "t \<notin># flight runs G" "runs q = {#t#}"
proof -
  have "runs q = {#t#}" using assms(2) by (cases q) auto
  moreover have "count (W + R + flight runs (add_mset q G)) t = (if t < length ts \<and> ready (ts ! t) then 1 else 0)"
    using assms(1) unfolding tokens_ok_def by blast
  ultimately show "t < length ts" "ready (ts ! t)" "t \<notin># W" "t \<notin># R" "t \<notin># flight runs G" "runs q = {#t#}"
    by (auto split: if_splits simp: not_in_iff)
qed

end
