(* ===== verification/TaskSteps.thy ===== *)
theory TaskSteps
  imports TaskInvariant
begin

text \<open>Every critical section of theory \<open>TaskGraph\<close>, and every choice of a running task, preserves the
  invariant of theory \<open>TaskInvariant\<close>.\<close>

section \<open>Changes of one task that other tasks do not notice\<close>

fun keepsDeps :: "taskOp \<Rightarrow> bool" where
  "keepsDeps (ContinueWith c ds) = True"
| "keepsDeps (DependsOn t u) = (u \<noteq> None)"
| "keepsDeps _ = False"

lemma log_same:
  assumes "log_ok ts F lg" "t < length ts" "tDependents x' = tDependents (ts ! t)"
    "(tState x' = S_CONTINUED) = (tState (ts ! t) = S_CONTINUED)"
    "tState (ts ! t) = S_CONTINUED \<Longrightarrow> tContinuation x' = tContinuation (ts ! t)"
    "tState (ts ! t) = S_COMPLETE \<Longrightarrow> tState x' = S_COMPLETE"
    "\<And>q. q \<in># F \<Longrightarrow> keepsDeps q \<Longrightarrow> q \<in># F'"
  shows "log_ok (ts[t := x']) F' lg"
proof (rule log_okI[OF assms(1)])
  fix a u v assume "chainEnd ts u v" "served ts F a v"
  have chain: "chainEnd ts p q \<Longrightarrow> chainEnd (ts[t := x']) p q" for p q
    by (erule chainEnd_cong) (use assms(2,4,5) in \<open>auto simp: nth_list_update\<close>)
  have "served (ts[t := x']) F' a v"
    using \<open>served ts F a v\<close> assms(2,3,6,7) chain unfolding served_def
    by (cases "v = t") fastforce+
  then show "\<exists>v'. chainEnd (ts[t := x']) u v' \<and> served (ts[t := x']) F' a v'"
    using chain \<open>chainEnd ts u v\<close> by blast
qed simp

lemma served_mono: "served ts F a v \<Longrightarrow> (\<And>q. q \<in># F \<Longrightarrow> keepsDeps q \<Longrightarrow> q \<in># F') \<Longrightarrow> served ts F' a v"
  unfolding served_def by fastforce

lemma log_mono: "log_ok ts F lg \<Longrightarrow> (\<And>q. q \<in># F \<Longrightarrow> keepsDeps q \<Longrightarrow> q \<in># F') \<Longrightarrow> log_ok ts F' lg"
  by (rule log_okI) (auto intro: served_mono)

text \<open>The right to run a task comes when it gets ready and goes when it is not ready any more.\<close>

lemma tokens_change:
  assumes "tokens_ok ts W R F" "t < length ts"
    and "W' + R' + flight runs F' + (if ready (ts ! t) then {#t#} else {#}) =
      W + R + flight runs F + (if ready x' then {#t#} else {#})"
  shows "tokens_ok (ts[t := x']) W' R' F'"
  unfolding tokens_ok_def
proof
  fix a
  have "count (W + R + flight runs F) a = (if a < length ts \<and> ready (ts ! a) then 1 else 0)"
    using assms(1) by (simp add: tokens_ok_def)
  moreover have "count (W' + R' + flight runs F') a + count (if ready (ts ! t) then {#t#} else {#}) a =
      count (W + R + flight runs F) a + count (if ready x' then {#t#} else {#}) a"
    using assms(3) by (metis count_union)
  ultimately show "count (W' + R' + flight runs F') a =
      (if a < length (ts[t := x']) \<and> ready (ts[t := x'] ! a) then 1 else 0)"
    using assms(2) by (cases "a = t") (auto split: if_splits)
qed

lemma tokens_same: "tokens_ok ts W R F \<Longrightarrow> W' + R' + flight runs F' = W + R + flight runs F \<Longrightarrow> tokens_ok ts W' R' F'"
  unfolding tokens_ok_def by simp

section \<open>Enqueueing\<close>

lemma inv_enqueue:
  assumes inv: "task_inv ts W R (add_mset (Enqueue t) G) lg"
    and st: "(tState (ts ! t) = S_NEW \<and> st = (if tPreds (ts ! t) = 0 then S_READY else S_PENDING)) \<or>
      (tState (ts ! t) = S_REMOTE_NEW \<and> st = (if tPreds (ts ! t) = 0 then S_REMOTE_READY else S_REMOTE_PENDING))"
  shows "task_inv (ts[t := (ts ! t)\<lparr>tRefs := tRefs (ts ! t) + 1, tState := st\<rparr>]) W R
    (mset (if tPreds (ts ! t) = 0 then [Schedule t] else []) + G) lg"
proof -
  let ?x = "(ts ! t)\<lparr>tRefs := tRefs (ts ! t) + 1, tState := st\<rparr>" and ?F = "add_mset (Enqueue t) G"
  let ?H = "mset (if tPreds (ts ! t) = 0 then [Schedule t] else []) + G"
  note I = task_invD[OF inv]
  have t: "t < length ts" "isNew (ts ! t)" "t \<notin># announced ts G"
    using I(5) by (auto simp: announced_ok_def announced_def not_in_iff)
  have nd: "DependsOn t u \<notin># G" for u using I(6) by (auto simp: depends_ok_def announced_def)
  have ann: "announced (ts[t := ?x]) ?H = announced ts G"
    using announced_cong[of G "ts[t := ?x]" ts] t(1) by (auto simp: announced_def nth_list_update)
  have owed: "owed (ts[t := ?x]) ?H = owed ts ?F" using t(1) by (simp add: owed_def)
  have p0: "0 \<le> tPreds (ts ! t)" using I(1) t(1) by (simp add: preds_ok_def)
  have "preds_ok (ts[t := ?x]) ?H" using I(1) t(1) unfolding preds_ok_def owed by (auto simp: nth_list_update)
  moreover have "tokens_ok (ts[t := ?x]) W R ?H"
    by (rule tokens_change[OF I(2) t(1)]) (use st in \<open>auto simp: ready_def\<close>)
  moreover have "local_ok (ts[t := ?x]) W ?H"
    using I(3) t unfolding local_ok_def by (auto simp: nth_list_update state_defs split: if_splits)
  moreover have "states_ok (ts[t := ?x])"
    using I(4) t st p0 unfolding states_ok_def by (auto simp: nth_list_update state_defs split: if_splits)
  moreover have "announced_ok (ts[t := ?x]) ?H"
    using I(5) t(3) unfolding announced_ok_def ann
    by (auto simp: nth_list_update announced_def split: if_splits)
  moreover have "depends_ok (ts[t := ?x]) ?H"
    using I(6) nd t unfolding depends_ok_def ann
    by (auto simp: nth_list_update announced_def split: if_splits)
  moreover have "conts_ok (ts[t := ?x]) ?H"
    using I(7) st t unfolding conts_ok_def ann
    by (auto simp: nth_list_update announced_def state_defs split: if_splits)
  moreover have "refs_ok (ts[t := ?x]) ?H"
    using I(8) st t unfolding refs_ok_def by (auto simp: nth_list_update state_defs split: if_splits)
  moreover have "log_ok (ts[t := ?x]) ?H lg"
    by (rule log_same[OF I(9) t(1)]) (use st t(2) in \<open>auto simp: state_defs split: if_splits\<close>)
  ultimately show ?thesis by (simp add: task_inv_def)
qed

section \<open>Handing a task on\<close>

lemma inv_same_tasks:
  assumes inv: "task_inv ts W R F lg"
    and same: "flight owes F' = flight owes F" "W' + R' + flight runs F' = W + R + flight runs F"
      "flight releases F' = flight releases F" "announced ts F' = announced ts F"
    and deps: "\<And>t u. DependsOn t u \<in># F' \<Longrightarrow> DependsOn t u \<in># F"
    and keeps: "\<And>q. q \<in># F \<Longrightarrow> keepsDeps q \<Longrightarrow> q \<in># F'"
    and comp: "\<And>t a. CompleteDeps t a \<in># F \<Longrightarrow> CompleteDeps t a \<in># F'"
    and "local_ok ts W' F'"
  shows "task_inv ts W' R' F' lg"
proof -
  note I = task_invD[OF inv]
  have owed: "owed ts F' = owed ts F" by (simp add: owed_def same(1))
  have "preds_ok ts F'" using I(1) by (simp add: preds_ok_def owed)
  moreover have "tokens_ok ts W' R' F'" by (rule tokens_same[OF I(2) same(2)])
  moreover have "announced_ok ts F'" using I(5) by (simp add: announced_ok_def same(4))
  moreover have "depends_ok ts F'" using I(6) deps unfolding depends_ok_def same(4) by blast
  moreover have "conts_ok ts F'" using I(7) comp unfolding conts_ok_def same(4) by blast
  moreover have "refs_ok ts F'" using I(8) by (simp add: refs_ok_def same(3))
  moreover have "log_ok ts F' lg" by (rule log_mono[OF I(9) keeps])
  ultimately show ?thesis using I(4) assms(9) by (simp add: task_inv_def)
qed

lemma inv_schedule_ready:
  assumes "task_inv ts W R (add_mset (Schedule t) G) lg" "tState (ts ! t) = S_READY"
  shows "task_inv ts W R (add_mset (Dispatch t) G) lg"
  by (rule inv_same_tasks[OF assms(1)])
    (use task_invD(3)[OF assms(1)] assms(2) in \<open>auto simp: announced_def local_ok_def\<close>)

lemma inv_schedule_remote:
  assumes "task_inv ts W R (add_mset (Schedule t) G) lg"
  shows "task_inv ts W (add_mset t R) G lg"
  by (rule inv_same_tasks[OF assms(1)])
    (use task_invD(3)[OF assms(1)] in \<open>auto simp: announced_def local_ok_def\<close>)

lemma inv_dispatch_queue:
  assumes "task_inv ts W R (add_mset (Dispatch t) G) lg"
  shows "task_inv ts (add_mset t W) R G lg"
  by (rule inv_same_tasks[OF assms(1)])
    (use task_invD(3)[OF assms(1)] in \<open>auto simp: announced_def local_ok_def\<close>)

lemma inv_dispatch_run:
  assumes "task_inv ts W R (add_mset (Dispatch t) G) lg"
  shows "task_inv ts W R (add_mset (RunWrapper t False) G) lg"
  by (rule inv_same_tasks[OF assms(1)])
    (use task_invD(3)[OF assms(1)] in \<open>auto simp: announced_def local_ok_def\<close>)

lemma inv_pop:
  assumes "task_inv ts (add_mset t W) R F lg"
  shows "task_inv ts W R (add_mset (RunWrapper t a) F) lg"
  by (rule inv_same_tasks[OF assms(1)])
    (use task_invD(3)[OF assms(1)] in \<open>auto simp: announced_def local_ok_def\<close>)

lemma inv_run:
  assumes "task_inv ts W R (add_mset (RunWrapper t False) G) lg"
  shows "task_inv ts W R (add_mset (Running t) G) lg"
  by (rule inv_same_tasks[OF assms(1)])
    (use task_invD(3)[OF assms(1)] in \<open>auto simp: announced_def local_ok_def\<close>)

lemma inv_wait:
  assumes "task_inv ts W R G lg"
  shows "task_inv ts W R (add_mset (WaitFor t) G) lg"
  by (rule inv_same_tasks[OF assms(1)])
    (use task_invD(3)[OF assms(1)] in \<open>auto simp: announced_def local_ok_def\<close>)

lemma inv_wait_end:
  assumes "task_inv ts W R (add_mset (WaitFor t) G) lg"
  shows "task_inv ts W R G lg"
  by (rule inv_same_tasks[OF assms(1)])
    (use task_invD(3)[OF assms(1)] in \<open>auto simp: announced_def local_ok_def\<close>)

text \<open>A task that is ready and not being completed has no continuation yet.\<close>

lemma no_continuation:
  assumes "task_inv ts W R F lg" "t < length ts" "ready (ts ! t)" "\<And>a. CompleteDeps t a \<notin># F"
  shows "tContinuation (ts ! t) = None"
proof -
  have "tState (ts ! t) \<noteq> S_CONTINUED" using assms(3) by (auto simp: ready_def)
  then show ?thesis using task_invD(7)[OF assms(1)] assms(2,4) unfolding conts_ok_def by blast
qed

lemma not_completing: "t \<notin># flight runs G \<Longrightarrow> CompleteDeps t a \<notin># G"
  by (auto simp: in_flight)

lemma inv_cancel:
  assumes inv: "task_inv ts W R (add_mset (RunWrapper t True) G) lg"
  shows "task_inv ts W R (add_mset (CompleteDeps t True) G) lg"
    and "ts[t := (ts ! t)\<lparr>tContinuation := None\<rparr>] = ts"
proof -
  note tok = token_ready[OF task_invD(2)[OF inv], of t, simplified]
  have none: "tContinuation (ts ! t) = None"
    by (rule no_continuation[OF inv tok(1,2)]) (use not_completing[OF tok(5)] in auto)
  show "task_inv ts W R (add_mset (CompleteDeps t True) G) lg"
    by (rule inv_same_tasks[OF inv])
      (use task_invD(3)[OF inv] none in \<open>auto simp: announced_def local_ok_def\<close>)
  have "(ts ! t)\<lparr>tContinuation := None\<rparr> = ts ! t" using none by (cases "ts ! t") simp
  then show "ts[t := (ts ! t)\<lparr>tContinuation := None\<rparr>] = ts" by simp
qed

lemma inv_remoteDone:
  assumes inv: "task_inv ts W (add_mset t R) F lg"
  shows "task_inv ts W R (add_mset (CompleteDeps t False) F) lg"
proof -
  have c: "count (W + add_mset t R + flight runs F) t = (if t < length ts \<and> ready (ts ! t) then 1 else 0)"
    using task_invD(2)[OF inv] unfolding tokens_ok_def by blast
  then have t: "t < length ts" "ready (ts ! t)" "t \<notin># flight runs F" by (auto split: if_splits simp: not_in_iff)
  have "tContinuation (ts ! t) = None"
    by (rule no_continuation[OF inv t(1,2)]) (rule not_completing[OF t(3)])
  then show ?thesis
    by (intro inv_same_tasks[OF inv])
      (use task_invD(3)[OF inv] in \<open>auto simp: announced_def local_ok_def\<close>)
qed

section \<open>Counting\<close>

lemma inv_update_task:
  assumes inv: "task_inv ts W R F lg" and t: "t < length ts"
    and fields: "tDependents x' = tDependents (ts ! t)" "tContinuation x' = tContinuation (ts ! t)"
      "(tState x' = S_CONTINUED) = (tState (ts ! t) = S_CONTINUED)"
      "(tState x' = S_COMPLETE) = (tState (ts ! t) = S_COMPLETE)" "isNew x' = isNew (ts ! t)"
    and st: "pending x' \<Longrightarrow> 0 < tPreds x'" "ready x' \<or> finished x' \<Longrightarrow> tPreds x' = 0"
    and owes: "\<And>a. int (count (flight owes F') a) =
      int (count (flight owes F) a) + (if a = t then tPreds x' - tPreds (ts ! t) else 0)"
    and toks: "W' + R' + flight runs F' + (if ready (ts ! t) then {#t#} else {#}) =
      W + R + flight runs F + (if ready x' then {#t#} else {#})"
    and refs: "tRefs x' = (if pending x' \<or> ready x' then 1 else 0) + int (count (flight releases F') t)"
      "\<And>a. a \<noteq> t \<Longrightarrow> count (flight releases F') a = count (flight releases F) a"
    and ann: "announced ts F' = announced ts F"
    and deps: "\<And>a u. DependsOn a u \<in># F' \<Longrightarrow> DependsOn a u \<in># F"
    and keeps: "\<And>q. q \<in># F \<Longrightarrow> keepsDeps q \<Longrightarrow> q \<in># F'"
    and comp: "\<And>a b. CompleteDeps a b \<in># F \<Longrightarrow> CompleteDeps a b \<in># F'"
    and local: "local_ok (ts[t := x']) W' F'"
  shows "task_inv (ts[t := x']) W' R' F' lg"
proof -
  note I = task_invD[OF inv]
  have ann': "announced (ts[t := x']) F' = announced ts F"
    using announced_cong[of F' "ts[t := x']" ts] t fields(2) ann by (auto simp: nth_list_update)
  have owed: "int (count (owed (ts[t := x']) F') a) =
      int (count (owed ts F) a) + (if a = t then tPreds x' - tPreds (ts ! t) else 0)" for a
    using owes[of a] t fields(1) by (simp add: owed_def)
  have in_owed: "a \<in># owed (ts[t := x']) F' \<Longrightarrow> a = t \<or> a \<in># owed ts F" for a
    using owed[of a] by (cases "a = t") (simp_all flip: count_greater_zero_iff)
  have "preds_ok (ts[t := x']) F'"
    using I(1) t in_owed unfolding preds_ok_def owed by (auto simp: nth_list_update)
  moreover have "tokens_ok (ts[t := x']) W' R' F'" by (rule tokens_change[OF I(2) t toks])
  moreover have "states_ok (ts[t := x'])"
    using I(4) t st fields unfolding states_ok_def by (auto simp: nth_list_update finished_def)
  moreover have "announced_ok (ts[t := x']) F'"
    using I(5) t fields(5) unfolding announced_ok_def ann' by (auto simp: nth_list_update)
  moreover have "depends_ok (ts[t := x']) F'"
    using I(6) t fields(5) deps unfolding depends_ok_def ann' by (auto simp: nth_list_update)
  moreover have "conts_ok (ts[t := x']) F'"
    unfolding conts_ok_def ann'
  proof (intro allI impI)
    fix a assume a: "a < length (ts[t := x'])"
    have st': "tState (ts[t := x'] ! a) = S_CONTINUED \<longleftrightarrow> tState (ts ! a) = S_CONTINUED"
      "tContinuation (ts[t := x'] ! a) = tContinuation (ts ! a)"
      using t fields(2,3) by (auto simp: nth_list_update)
    have new': "isNew (ts[t := x'] ! c) = isNew (ts ! c)" for c
      using t fields(5) by (auto simp: nth_list_update)
    have "(tState (ts ! a) = S_CONTINUED \<longrightarrow> (\<exists>c. tContinuation (ts ! a) = Some c \<and> c < length ts \<and>
           (\<not> isNew (ts ! c) \<or> c \<in># announced ts F))) \<and>
        (tContinuation (ts ! a) \<noteq> None \<longrightarrow> tState (ts ! a) = S_CONTINUED \<or> (\<exists>b. CompleteDeps a b \<in># F))"
      using I(7) a by (simp add: conts_ok_def)
    then show "(tState (ts[t := x'] ! a) = S_CONTINUED \<longrightarrow> (\<exists>c. tContinuation (ts[t := x'] ! a) = Some c \<and>
           c < length (ts[t := x']) \<and> (\<not> isNew (ts[t := x'] ! c) \<or> c \<in># announced ts F))) \<and>
        (tContinuation (ts[t := x'] ! a) \<noteq> None \<longrightarrow>
           tState (ts[t := x'] ! a) = S_CONTINUED \<or> (\<exists>b. CompleteDeps a b \<in># F'))"
      using comp unfolding st' new' by auto
  qed
  moreover have "refs_ok (ts[t := x']) F'"
  proof -
    have "a < length ts" if "a \<in># flight releases F'" for a
      using that t refs(2)[of a] I(8) by (cases "a = t") (simp_all add: refs_ok_def flip: count_greater_zero_iff)
    then show ?thesis using I(8) t refs unfolding refs_ok_def by (simp add: nth_list_update)
  qed
  moreover have "log_ok (ts[t := x']) F' lg"
    by (rule log_same[OF I(9) t]) (use fields keeps in auto)
  ultimately show ?thesis using local by (simp add: task_inv_def)
qed

lemma inv_schedule_local:
  assumes inv: "task_inv ts W R (add_mset (Schedule t) G) lg" and st: "tState (ts ! t) = S_REMOTE_READY"
  shows "task_inv (ts[t := (ts ! t)\<lparr>tState := S_READY\<rparr>]) W R (add_mset (Dispatch t) G) lg"
proof -
  note tok = token_ready[OF task_invD(2)[OF inv], of t, simplified]
  note I = task_invD[OF inv]
  have "tPreds (ts ! t) = 0" using I(4) tok(1,2) by (simp add: states_ok_def)
  moreover have "tRefs (ts ! t) = 1 + int (count (flight releases G) t)"
    using I(8) tok(1) st by (simp add: refs_ok_def ready_def)
  ultimately show ?thesis
    using tok st I(3)
    by (intro inv_update_task[OF inv tok(1)])
      (auto simp: state_defs announced_def local_ok_def nth_list_update split: if_splits)
qed

lemma inv_release:
  assumes inv: "task_inv ts W R (add_mset (ReleaseRef t) G) lg"
  shows "t < length ts"
    and "task_inv (ts[t := (ts ! t)\<lparr>tRefs := tRefs (ts ! t) - 1\<rparr>]) W R G lg"
proof -
  note I = task_invD[OF inv]
  show t: "t < length ts" using I(8) by (simp add: refs_ok_def)
  have "tRefs (ts ! t) = (if pending (ts ! t) \<or> ready (ts ! t) then 1 else 0) + 1 + int (count (flight releases G) t)"
    using I(8) t by (simp add: refs_ok_def)
  then show "task_inv (ts[t := (ts ! t)\<lparr>tRefs := tRefs (ts ! t) - 1\<rparr>]) W R G lg"
    using I(3,4) t
    by (intro inv_update_task[OF inv t])
      (auto simp: state_defs announced_def local_ok_def states_ok_def nth_list_update split: if_splits)
qed

lemma inv_decrement:
  assumes inv: "task_inv ts W R (add_mset (Decrement t a) G) lg"
    and p: "p = tPreds (ts ! t) - 1"
    and st: "st = (if p = 0 \<and> tState (ts ! t) = S_PENDING then S_READY
      else if p = 0 \<and> tState (ts ! t) = S_REMOTE_PENDING then S_REMOTE_READY else tState (ts ! t))"
    and q: "q = RunWrapper t True \<or> q = Schedule t"
  shows "t < length ts"
    and "task_inv (ts[t := (ts ! t)\<lparr>tPreds := p, tState := st\<rparr>]) W R
      (if st \<noteq> tState (ts ! t) then add_mset q G else G) lg"
proof -
  note I = task_invD[OF inv]
  have cnt: "0 < count (owed ts (add_mset (Decrement t a) G)) t" by (simp add: owed_def)
  show t: "t < length ts" using I(1) by (auto simp: preds_ok_def owed_def)
  have pos: "0 < tPreds (ts ! t)" using I(1) t cnt by (simp add: preds_ok_def)
  then have nr: "\<not> ready (ts ! t)" "\<not> finished (ts ! t)" using I(4) t by (auto simp: states_ok_def)
  have refs: "tRefs (ts ! t) = (if pending (ts ! t) then 1 else 0) + int (count (flight releases G) t)"
    using I(8) t nr by (simp add: refs_ok_def)
  show "task_inv (ts[t := (ts ! t)\<lparr>tPreds := p, tState := st\<rparr>]) W R
      (if st \<noteq> tState (ts ! t) then add_mset q G else G) lg"
  proof (cases "st = tState (ts ! t)")
    case True
    then have "0 < p \<or> isNew (ts ! t)"
      using st p pos nr by (cases "tState (ts ! t)") (auto simp: state_defs split: if_splits)
    then show ?thesis
      using True p pos nr refs I(3) t
      by (simp, intro inv_update_task[OF inv t])
        (auto simp: state_defs announced_def local_ok_def nth_list_update split: if_splits)
  next
    case False
    then have f: "p = 0" "pending (ts ! t)" "st = S_READY \<or> st = S_REMOTE_READY"
      using st by (auto simp: pending_def split: if_splits)
    show ?thesis
      using False f p pos nr refs I(3) t q
      by (simp, intro inv_update_task[OF inv t])
        (auto simp: state_defs announced_def local_ok_def nth_list_update split: if_splits)
  qed
qed

section \<open>Registering a dependency\<close>

lemma dependsOn_pair:
  assumes "task_inv ts W R (add_mset (DependsOn t (Some u)) G) lg"
  shows "t < length ts" "isNew (ts ! t)" "u < length ts" "u \<noteq> t" "t \<notin># announced ts G"
  using task_invD(6)[OF assms] by (auto simp: depends_ok_def announced_def)

text \<open>The task waits at the place \<open>u\<close> of the chain, or \<open>u\<close> is complete.\<close>

lemma log_registered:
  assumes log: "log_ok ts (add_mset (DependsOn t (Some u)) G) lg" and len: "length ts' = length ts"
    and chain: "\<And>p q. chainEnd ts p q \<Longrightarrow> chainEnd ts' p q"
    and kept: "\<And>a v. served ts G a v \<Longrightarrow> served ts' F' a v"
    and here: "\<And>v. chainEnd ts u v \<Longrightarrow> served ts' F' t v"
  shows "log_ok ts' F' lg"
proof (rule log_okI[OF log])
  fix a p v assume c: "chainEnd ts p v" and s: "served ts (add_mset (DependsOn t (Some u)) G) a v"
  show "\<exists>v'. chainEnd ts' p v' \<and> served ts' F' a v'"
  proof (cases "served ts G a v")
    case True
    then show ?thesis using kept chain[OF c] by blast
  next
    case False
    then have "a = t" "chainEnd ts u v" using s by (auto simp: served_def)
    then show ?thesis using here chain[OF c] by blast
  qed
qed (simp add: len)

lemma inv_dependsOn_complete:
  assumes inv: "task_inv ts W R (add_mset (DependsOn t (Some u)) G) lg" and st: "tState (ts ! u) = S_COMPLETE"
  shows "task_inv ts W R G lg"
proof -
  note I = task_invD[OF inv]
  have owed: "owed ts G = owed ts (add_mset (DependsOn t (Some u)) G)" by (simp add: owed_def)
  have ann: "announced ts G = announced ts (add_mset (DependsOn t (Some u)) G)" by (simp add: announced_def)
  have "log_ok ts G lg"
    by (rule log_registered[OF I(9)]) (use st in \<open>auto dest: chainEnd_here simp: served_def\<close>)
  then show ?thesis
    using I unfolding task_inv_def preds_ok_def owed announced_ok_def depends_ok_def conts_ok_def ann
    by (simp add: tokens_ok_def local_ok_def refs_ok_def)
qed

lemma inv_dependsOn_next:
  assumes inv: "task_inv ts W R (add_mset (DependsOn t (Some u)) G) lg" and st: "tState (ts ! u) = S_CONTINUED"
  shows "task_inv ts W R (add_mset (DependsOn t (tContinuation (ts ! u))) G) lg"
proof -
  note I = task_invD[OF inv] and p = dependsOn_pair[OF inv]
  obtain c where c: "tContinuation (ts ! u) = Some c" "c < length ts"
      "\<not> isNew (ts ! c) \<or> c \<in># announced ts (add_mset (DependsOn t (Some u)) G)"
    using I(7) p(3) st unfolding conts_ok_def by blast
  let ?F = "add_mset (DependsOn t (Some c)) G"
  have owed: "owed ts ?F = owed ts (add_mset (DependsOn t (Some u)) G)" by (simp add: owed_def)
  have ann: "announced ts ?F = announced ts (add_mset (DependsOn t (Some u)) G)" by (simp add: announced_def)
  have "c \<noteq> t" using c(3) p(2,5) by (auto simp: announced_def)
  then have "depends_ok ts ?F" using I(6) c(2) p unfolding depends_ok_def ann by (auto simp: announced_def)
  moreover have "log_ok ts ?F lg"
  proof (rule log_registered[OF I(9)])
    fix v assume "chainEnd ts u v"
    then have "chainEnd ts c v" using chainEnd_next[OF _ st] c(1) by auto
    then show "served ts ?F t v" by (auto simp: served_def)
  qed (auto simp: served_def)
  ultimately show ?thesis
    using I unfolding c(1) task_inv_def preds_ok_def owed announced_ok_def conts_ok_def ann
    by (simp add: tokens_ok_def local_ok_def refs_ok_def)
qed

lemma inv_dependsOn_wait:
  assumes inv: "task_inv ts W R (add_mset (DependsOn t (Some u)) G) lg"
    and st: "\<not> finished (ts ! u)"
  shows "task_inv (ts[u := (ts ! u)\<lparr>tDependents := tDependents (ts ! u) @ [t]\<rparr>,
      t := (ts ! t)\<lparr>tPreds := tPreds (ts ! t) + 1\<rparr>]) W R G lg"
proof -
  note I = task_invD[OF inv] and p = dependsOn_pair[OF inv]
  let ?y = "(ts ! u)\<lparr>tDependents := tDependents (ts ! u) @ [t]\<rparr>"
  let ?x = "(ts ! t)\<lparr>tPreds := tPreds (ts ! t) + 1\<rparr>"
  let ?ts = "ts[u := ?y, t := ?x]"
  have len: "length ?ts = length ts" by simp
  have st_same: "tState (?ts ! a) = tState (ts ! a)" "tContinuation (?ts ! a) = tContinuation (ts ! a)"
      "isNew (?ts ! a) = isNew (ts ! a)" "ready (?ts ! a) = ready (ts ! a)" "pending (?ts ! a) = pending (ts ! a)"
      "tRefs (?ts ! a) = tRefs (ts ! a)" "tType (?ts ! a) = tType (ts ! a)" "finished (?ts ! a) = finished (ts ! a)" for a
    using p(1,3,4) by (auto simp: nth_list_update state_defs)
  have "dependentsOf (ts[u := ?y]) = add_mset t (dependentsOf ts)"
    using dependentsOf_update[OF p(3), of ?y] by simp
  moreover have "tDependents ?x = tDependents (ts[u := ?y] ! t)" using p(4) by simp
  ultimately have owed: "owed ?ts G = add_mset t (owed ts (add_mset (DependsOn t (Some u)) G))"
    using p(1) by (simp add: owed_def)
  have ann: "announced ?ts G = announced ts (add_mset (DependsOn t (Some u)) G)"
    using announced_cong[of G ?ts ts] st_same(2) by (simp add: announced_def)
  have "preds_ok ?ts G" using I(1) p(1,3,4) unfolding preds_ok_def owed by (auto simp: nth_list_update)
  moreover have "tokens_ok ?ts W R G" using I(2) unfolding tokens_ok_def st_same len by simp
  moreover have "local_ok ?ts W G" using I(3) unfolding local_ok_def st_same len by auto
  moreover have "states_ok ?ts"
    using I(4) p states_disjoint(2)[OF p(2)] st unfolding states_ok_def st_same len
    by (auto simp: nth_list_update)
  moreover have "announced_ok ?ts G" using I(5) unfolding announced_ok_def ann st_same len by simp
  moreover have "depends_ok ?ts G" using I(6) unfolding depends_ok_def ann st_same len by auto
  moreover have "conts_ok ?ts G" using I(7) unfolding conts_ok_def ann st_same len by auto
  moreover have "refs_ok ?ts G" using I(8) unfolding refs_ok_def st_same len by simp
  moreover have "log_ok ?ts G lg"
  proof (rule log_registered[OF I(9) len])
    show chain: "chainEnd ts a q \<Longrightarrow> chainEnd ?ts a q" for a q
      by (erule chainEnd_cong) (simp_all add: st_same)
    have deps: "set (tDependents (ts ! v)) \<subseteq> set (tDependents (?ts ! v))" for v
      using p(1,3,4) by (auto simp: nth_list_update)
    show "served ?ts G a v" if "served ts G a v" for a v
      using that chain deps unfolding served_def st_same by blast
    show "served ?ts G t v" if "chainEnd ts u v" for v
    proof -
      have "v = u" using chainEnd_here[OF that] st by (simp add: finished_def)
      then show ?thesis using p(1,3,4) by (simp add: served_def nth_list_update)
    qed
  qed
  ultimately show ?thesis by (simp add: task_inv_def)
qed

section \<open>Completing a task\<close>

lemma conts_change:
  assumes "conts_ok ts F" "t < length ts" "\<not> isNew x'" "announced (ts[t := x']) F' = announced ts F"
    and own: "tState x' = S_CONTINUED \<Longrightarrow> \<exists>c. tContinuation x' = Some c \<and> c < length ts \<and> c \<in># announced ts F"
      "tContinuation x' \<noteq> None \<Longrightarrow> tState x' = S_CONTINUED"
    and comp: "\<And>u b. u \<noteq> t \<Longrightarrow> CompleteDeps u b \<in># F \<Longrightarrow> CompleteDeps u b \<in># F'"
  shows "conts_ok (ts[t := x']) F'"
  unfolding conts_ok_def assms(4)
proof (intro allI impI conjI)
  fix u assume u: "u < length (ts[t := x'])"
  have old: "isNew (ts[t := x'] ! d) \<Longrightarrow> isNew (ts ! d)" for d
    using assms(2,3) by (cases "d = t") auto
  show "\<exists>d. tContinuation (ts[t := x'] ! u) = Some d \<and> d < length (ts[t := x']) \<and>
      (\<not> isNew (ts[t := x'] ! d) \<or> d \<in># announced ts F)" if "tState (ts[t := x'] ! u) = S_CONTINUED"
  proof (cases "u = t")
    case True
    then show ?thesis using own(1) that assms(2) by auto
  next
    case False
    then have "\<exists>d. tContinuation (ts ! u) = Some d \<and> d < length ts \<and> (\<not> isNew (ts ! d) \<or> d \<in># announced ts F)"
      using that assms(1) u by (simp add: conts_ok_def)
    then show ?thesis using False old by auto
  qed
  show "tState (ts[t := x'] ! u) = S_CONTINUED \<or> (\<exists>b. CompleteDeps u b \<in># F')"
    if "tContinuation (ts[t := x'] ! u) \<noteq> None"
  proof (cases "u = t")
    case True
    then show ?thesis using own(2) that assms(2) by simp
  next
    case False
    then show ?thesis using that assms(1) u comp[OF False] unfolding conts_ok_def by fastforce
  qed
qed

lemma decrements_flight:
  "flight owes {#Decrement d a. d \<in># mset ds#} = mset ds"
  "flight runs {#Decrement d a. d \<in># mset ds#} = {#}"
  "flight releases {#Decrement d a. d \<in># mset ds#} = {#}"
  "announced ts {#Decrement d a. d \<in># mset ds#} = {#}"
  by (induction ds) (simp_all add: announced_def)

lemma inv_complete:
  assumes inv: "task_inv ts W R (add_mset (CompleteDeps t a) G) lg"
    and none: "tContinuation (ts ! t) = None"
  shows "task_inv (ts[t := (ts ! t)\<lparr>tDependents := [], tState := S_COMPLETE\<rparr>]) W R
    (add_mset (ReleaseRef t) (mset (map (\<lambda>d. Decrement d a) (tDependents (ts ! t))) + G)) lg"
proof -
  note I = task_invD[OF inv]
  note tok = token_ready[OF I(2), of t, simplified]
  let ?x = "(ts ! t)\<lparr>tDependents := [], tState := S_COMPLETE\<rparr>"
  let ?ts = "ts[t := ?x]" and ?F = "add_mset (CompleteDeps t a) G"
  let ?D = "mset (map (\<lambda>d. Decrement d a) (tDependents (ts ! t)))"
  let ?H = "add_mset (ReleaseRef t) (?D + G)"
  note D = decrements_flight[where a = a and ds = "tDependents (ts ! t)"]
  have notD: "q \<notin># ?D" if "\<And>d b. q \<noteq> Decrement d b" for q using that by auto
  have "dependentsOf ?ts + mset (tDependents (ts ! t)) = dependentsOf ts"
    using dependentsOf_update[OF tok(1), of ?x] by simp
  then have owed: "owed ?ts ?H = owed ts ?F" by (simp add: owed_def D ac_simps)
  have "announced ?ts G = announced ts G"
    by (rule announced_cong) (use tok(1) in \<open>auto simp: nth_list_update\<close>)
  then have ann: "announced ?ts ?H = announced ts ?F" using D(4) none by (simp add: announced_def)
  have t: "\<not> isNew (ts ! t)" "\<not> pending (ts ! t)" "tState (ts ! t) \<noteq> S_COMPLETE" "tState (ts ! t) \<noteq> S_CONTINUED"
    using tok(2) by (auto simp: state_defs)
  have "preds_ok ?ts ?H" using I(1) tok(1) unfolding preds_ok_def owed by (auto simp: nth_list_update)
  moreover have "tokens_ok ?ts W R ?H"
    by (rule tokens_change[OF I(2) tok(1)]) (use tok(2) in \<open>simp_all add: D ready_def\<close>)
  moreover have "local_ok ?ts W ?H"
  proof -
    have "Dispatch t \<notin># G" "RunWrapper t False \<notin># G" using tok(5) by (auto simp: in_flight)
    then show ?thesis using I(3) tok(1,3) notD unfolding local_ok_def by (auto simp: nth_list_update)
  qed
  moreover have "states_ok ?ts"
    using I(4) tok(1,2) unfolding states_ok_def by (auto simp: nth_list_update state_defs)
  moreover have "announced_ok ?ts ?H"
    using I(5) t(1) tok(1) unfolding announced_ok_def ann by (auto simp: nth_list_update state_defs)
  moreover have "depends_ok ?ts ?H"
    using I(6) t(1) notD tok(1) unfolding depends_ok_def ann by (auto simp: nth_list_update state_defs)
  moreover have "conts_ok ?ts ?H"
    by (rule conts_change[OF I(7) tok(1) _ ann]) (use none in \<open>auto simp: isNew_def\<close>)
  moreover have "refs_ok ?ts ?H"
    using I(8) tok(1,2) unfolding refs_ok_def by (auto simp: nth_list_update D state_defs)
  moreover have "log_ok ?ts ?H lg"
  proof (rule log_okI[OF I(9)])
    fix b u v assume c: "chainEnd ts u v" and s: "served ts ?F b v"
    have chain: "chainEnd ts p q \<Longrightarrow> chainEnd ?ts p q" for p q
      by (erule chainEnd_cong) (use tok(1) t in \<open>auto simp: nth_list_update\<close>)
    have "served ?ts ?H b v"
      using s chain tok(1) by (cases "v = t") (auto simp: served_def)
    then show "\<exists>v'. chainEnd ?ts u v' \<and> served ?ts ?H b v'" using chain c by blast
  qed simp
  ultimately show ?thesis by (simp add: task_inv_def)
qed

lemma inv_continue:
  assumes inv: "task_inv ts W R (add_mset (CompleteDeps t a) G) lg"
    and some: "tContinuation (ts ! t) = Some c"
  shows "task_inv (ts[t := (ts ! t)\<lparr>tDependents := [], tState := S_CONTINUED\<rparr>]) W R
    (add_mset (ReleaseRef t) (add_mset (ContinueWith c (tDependents (ts ! t))) G)) lg"
proof -
  note I = task_invD[OF inv]
  note tok = token_ready[OF I(2), of t, simplified]
  let ?x = "(ts ! t)\<lparr>tDependents := [], tState := S_CONTINUED\<rparr>"
  let ?ts = "ts[t := ?x]" and ?F = "add_mset (CompleteDeps t a) G"
  let ?H = "add_mset (ReleaseRef t) (add_mset (ContinueWith c (tDependents (ts ! t))) G)"
  have "dependentsOf ?ts + mset (tDependents (ts ! t)) = dependentsOf ts"
    using dependentsOf_update[OF tok(1), of ?x] by simp
  then have owed: "owed ?ts ?H = owed ts ?F" by (simp add: owed_def ac_simps)
  have "announced ?ts G = announced ts G"
    by (rule announced_cong) (use tok(1) in \<open>auto simp: nth_list_update\<close>)
  then have ann: "announced ?ts ?H = announced ts ?F" using some by (simp add: announced_def)
  have t: "\<not> isNew (ts ! t)" "\<not> pending (ts ! t)" "tState (ts ! t) \<noteq> S_COMPLETE" "tState (ts ! t) \<noteq> S_CONTINUED"
    using tok(2) by (auto simp: state_defs)
  have c: "c \<in># announced ts ?F" "c < length ts" "isNew (ts ! c)"
    using I(5) some by (auto simp: announced_ok_def announced_def)
  then have "c \<noteq> t" using t(1) by auto
  have "preds_ok ?ts ?H" using I(1) tok(1) unfolding preds_ok_def owed by (auto simp: nth_list_update)
  moreover have "tokens_ok ?ts W R ?H"
    by (rule tokens_change[OF I(2) tok(1)]) (use tok(2) in \<open>simp_all add: ready_def\<close>)
  moreover have "local_ok ?ts W ?H"
  proof -
    have "Dispatch t \<notin># G" "RunWrapper t False \<notin># G" using tok(5) by (auto simp: in_flight)
    then show ?thesis using I(3) tok(1,3) unfolding local_ok_def by (auto simp: nth_list_update)
  qed
  moreover have "states_ok ?ts"
    using I(4) tok(1,2) unfolding states_ok_def by (auto simp: nth_list_update state_defs)
  moreover have "announced_ok ?ts ?H"
    using I(5) t(1) tok(1) unfolding announced_ok_def ann by (auto simp: nth_list_update state_defs)
  moreover have "depends_ok ?ts ?H"
    using I(6) t(1) tok(1) unfolding depends_ok_def ann by (auto simp: nth_list_update state_defs)
  moreover have "conts_ok ?ts ?H"
    by (rule conts_change[OF I(7) tok(1) _ ann]) (use c some in \<open>auto simp: isNew_def\<close>)
  moreover have "refs_ok ?ts ?H"
    using I(8) tok(1,2) unfolding refs_ok_def by (auto simp: nth_list_update state_defs)
  moreover have "log_ok ?ts ?H lg"
  proof (rule log_okI[OF I(9)])
    fix b u v assume e: "chainEnd ts u v" and s: "served ts ?F b v"
    have chain: "chainEnd ts p q \<Longrightarrow> chainEnd ?ts p (if q = t then c else q)" for p q
      by (erule chainEnd_extend) (use tok(1) t(4) c \<open>c \<noteq> t\<close> some in \<open>auto simp: isNew_def\<close>)
    have "served ?ts ?H b (if v = t then c else v)"
    proof (cases "v = t")
      case True
      have no: "ContinueWith t ds \<notin># G" for ds
        using I(5) t(1) by (auto simp: announced_ok_def announced_def in_flight) (metis announces.simps(2) list.set_intros(1) set_mset_mset)
      have chain_t: "chainEnd ts p t \<Longrightarrow> chainEnd ?ts p c" for p using chain[of p t] by simp
      show ?thesis
        using s True chain_t t(3) no unfolding served_def by auto
    next
      case False
      then have chain_v: "chainEnd ts p v \<Longrightarrow> chainEnd ?ts p v" for p using chain[of p v] by simp
      show ?thesis using s False chain_v unfolding served_def by auto
    qed
    then show "\<exists>v'. chainEnd ?ts u v' \<and> served ?ts ?H b v'" using chain[OF e] by blast
  qed simp
  ultimately show ?thesis by (simp add: task_inv_def)
qed

lemma inv_continueWith:
  assumes inv: "task_inv ts W R (add_mset (ContinueWith c ds) G) lg"
    and deps: "set deps = set (tDependents (ts ! c)) \<union> set ds" "mset deps = mset (tDependents (ts ! c)) + mset ds"
  shows "c < length ts"
    and "task_inv (ts[c := (ts ! c)\<lparr>tDependents := deps\<rparr>]) W R (add_mset (Enqueue c) G) lg"
proof -
  note I = task_invD[OF inv]
  let ?x = "(ts ! c)\<lparr>tDependents := deps\<rparr>"
  let ?ts = "ts[c := ?x]" and ?F = "add_mset (ContinueWith c ds) G" and ?H = "add_mset (Enqueue c) G"
  show c: "c < length ts" using I(5) by (simp add: announced_ok_def announced_def)
  have new: "isNew (ts ! c)" using I(5) by (simp add: announced_ok_def announced_def)
  have same: "tState (?ts ! a) = tState (ts ! a)" "tContinuation (?ts ! a) = tContinuation (ts ! a)"
      "isNew (?ts ! a) = isNew (ts ! a)" "ready (?ts ! a) = ready (ts ! a)" "pending (?ts ! a) = pending (ts ! a)"
      "tRefs (?ts ! a) = tRefs (ts ! a)" "tType (?ts ! a) = tType (ts ! a)" "finished (?ts ! a) = finished (ts ! a)"
      "tPreds (?ts ! a) = tPreds (ts ! a)" for a
    using c by (auto simp: nth_list_update state_defs)
  have len: "length ?ts = length ts" by simp
  have "dependentsOf ?ts = dependentsOf ts + mset ds"
    using dependentsOf_update[OF c, of ?x] deps(2) by simp
  then have owed: "owed ?ts ?H = owed ts ?F" by (simp add: owed_def ac_simps)
  have ann: "announced ?ts ?H = announced ts ?F"
    using announced_cong[of G ?ts ts] same(2) by (simp add: announced_def)
  have "preds_ok ?ts ?H" using I(1) unfolding preds_ok_def owed same len .
  moreover have "tokens_ok ?ts W R ?H" using I(2) unfolding tokens_ok_def same len by simp
  moreover have "local_ok ?ts W ?H" using I(3) unfolding local_ok_def same len by auto
  moreover have "states_ok ?ts"
    using I(4) c states_disjoint(2)[OF new] unfolding states_ok_def same len by (auto simp: nth_list_update)
  moreover have "announced_ok ?ts ?H" using I(5) unfolding announced_ok_def ann same len .
  moreover have "depends_ok ?ts ?H" using I(6) unfolding depends_ok_def ann same len by auto
  moreover have "conts_ok ?ts ?H" using I(7) unfolding conts_ok_def ann same len by auto
  moreover have "refs_ok ?ts ?H" using I(8) unfolding refs_ok_def same len by simp
  moreover have "log_ok ?ts ?H lg"
  proof (rule log_okI[OF I(9)])
    fix b u v assume e: "chainEnd ts u v" and s: "served ts ?F b v"
    have chain: "chainEnd ts p q \<Longrightarrow> chainEnd ?ts p q" for p q
      by (erule chainEnd_cong) (simp_all add: same)
    have dv: "set (tDependents (ts ! w)) \<subseteq> set (tDependents (?ts ! w))" for w
      using c deps(1) by (auto simp: nth_list_update)
    have dc: "set ds \<subseteq> set (tDependents (?ts ! c))" using c deps(1) by simp
    have "served ?ts ?H b v"
      using s chain subsetD[OF dv] subsetD[OF dc] unfolding served_def same by auto
    then show "\<exists>v'. chainEnd ?ts u v' \<and> served ?ts ?H b v'" using chain[OF e] by blast
  qed simp
  ultimately show "task_inv ?ts W R ?H lg" by (simp add: task_inv_def)
qed

section \<open>What a running task does\<close>

lemma unclaimed_mset:
  assumes "unclaimed s ops t"
  shows "t < length (tasks s)" "isNew (tasks s ! t)" "t \<notin># announced (tasks s) (mset ops)"
    "DependsOn t u \<notin># mset ops"
  using assms by (auto simp: unclaimed_def announced_def in_flight)

lemma inv_return:
  assumes inv: "task_inv ts W R (add_mset (Running t) G) lg"
    and r: "\<And>c. r = Some c \<Longrightarrow> c < length ts \<and> isNew (ts ! c) \<and> c \<notin># announced ts G \<and> (\<forall>u. DependsOn c u \<notin># G)"
  shows "task_inv (ts[t := (ts ! t)\<lparr>tContinuation := r\<rparr>]) W R (add_mset (CompleteDeps t False) G) lg"
proof -
  note I = task_invD[OF inv]
  note tok = token_ready[OF I(2), of t, simplified]
  let ?x = "(ts ! t)\<lparr>tContinuation := r\<rparr>"
  let ?ts = "ts[t := ?x]" and ?F = "add_mset (Running t) G" and ?H = "add_mset (CompleteDeps t False) G"
  have same: "tState (?ts ! a) = tState (ts ! a)" "tDependents (?ts ! a) = tDependents (ts ! a)"
      "isNew (?ts ! a) = isNew (ts ! a)" "ready (?ts ! a) = ready (ts ! a)" "pending (?ts ! a) = pending (ts ! a)"
      "tRefs (?ts ! a) = tRefs (ts ! a)" "tType (?ts ! a) = tType (ts ! a)" "finished (?ts ! a) = finished (ts ! a)"
      "tPreds (?ts ! a) = tPreds (ts ! a)" for a
    using tok(1) by (auto simp: nth_list_update state_defs)
  have len: "length ?ts = length ts" by simp
  have owed: "owed ?ts ?H = owed ts ?F" using tok(1) by (simp add: owed_def)
  have "announced ?ts G = announced ts G"
    by (rule announced_cong) (use not_completing[OF tok(5)] tok(1) in \<open>auto simp: nth_list_update\<close>)
  then have ann: "announced ?ts ?H = announced ts ?F + (case r of None \<Rightarrow> {#} | Some c \<Rightarrow> {#c#})"
    using tok(1) by (simp add: announced_def split: option.split)
  have r': "c < length ts" "isNew (ts ! c)" "c \<notin># announced ts ?F" "DependsOn c u \<notin># ?F" if "r = Some c" for c u
    using r[OF that] by (auto simp: announced_def)
  have st: "tState (ts ! t) \<noteq> S_CONTINUED" using tok(2) by (auto simp: ready_def)
  have "preds_ok ?ts ?H" using I(1) unfolding preds_ok_def owed same len .
  moreover have "tokens_ok ?ts W R ?H" using I(2) unfolding tokens_ok_def same len by simp
  moreover have "local_ok ?ts W ?H" using I(3) unfolding local_ok_def same len by auto
  moreover have "states_ok ?ts" using I(4) unfolding states_ok_def same len .
  moreover have "announced_ok ?ts ?H"
    using I(5) r' unfolding announced_ok_def ann same len
    by (auto split: option.splits simp: not_in_iff)
  moreover have "depends_ok ?ts ?H"
    using I(6) r' unfolding depends_ok_def ann same len by (auto split: option.splits)
  moreover have "conts_ok ?ts ?H"
    unfolding conts_ok_def
  proof (intro allI impI conjI)
    fix u assume u: "u < length ?ts"
    show "\<exists>c. tContinuation (?ts ! u) = Some c \<and> c < length ?ts \<and> (\<not> isNew (?ts ! c) \<or> c \<in># announced ?ts ?H)"
      if "tState (?ts ! u) = S_CONTINUED"
    proof -
      have "u \<noteq> t" using that st unfolding same by auto
      then show ?thesis using I(7) u that unfolding conts_ok_def ann same len by auto
    qed
    show "tState (?ts ! u) = S_CONTINUED \<or> (\<exists>b. CompleteDeps u b \<in># ?H)" if "tContinuation (?ts ! u) \<noteq> None"
      using that I(7) u unfolding conts_ok_def same len by (cases "u = t") auto
  qed
  moreover have "refs_ok ?ts ?H" using I(8) unfolding refs_ok_def same len by simp
  moreover have "log_ok ?ts ?H lg"
  proof (rule log_okI[OF I(9)])
    fix b u v assume e: "chainEnd ts u v" and s: "served ts ?F b v"
    have chain: "chainEnd ts p q \<Longrightarrow> chainEnd ?ts p q" for p q
      by (erule chainEnd_cong) (use st in \<open>auto simp: same nth_list_update tok(1)\<close>)
    have "served ?ts ?H b v" using s chain unfolding served_def same by auto
    then show "\<exists>v'. chainEnd ?ts u v' \<and> served ?ts ?H b v'" using chain[OF e] by blast
  qed simp
  ultimately show ?thesis by (simp add: task_inv_def)
qed

lemma inv_announce:
  assumes inv: "task_inv ts W R G lg"
    and t: "t < length ts" "isNew (ts ! t)" "t \<notin># announced ts G" "\<And>u. DependsOn t u \<notin># G"
  shows "task_inv ts W R (add_mset (Enqueue t) G) lg"
proof -
  note I = task_invD[OF inv]
  have owed: "owed ts (add_mset (Enqueue t) G) = owed ts G" by (simp add: owed_def)
  have ann: "announced ts (add_mset (Enqueue t) G) = add_mset t (announced ts G)" by (simp add: announced_def)
  have "log_ok ts (add_mset (Enqueue t) G) lg" by (rule log_mono[OF I(9)]) simp
  moreover have "announced_ok ts (add_mset (Enqueue t) G)"
    using I(5) t unfolding announced_ok_def ann by (auto simp: not_in_iff)
  moreover have "depends_ok ts (add_mset (Enqueue t) G)"
    using I(6) t unfolding depends_ok_def ann by auto
  moreover have "conts_ok ts (add_mset (Enqueue t) G)"
    using I(7) unfolding conts_ok_def ann by auto
  ultimately show ?thesis
    using I by (simp add: task_inv_def preds_ok_def owed tokens_ok_def local_ok_def refs_ok_def)
qed

lemma chainEnd_exists_mono: "chainEnd ts u v \<Longrightarrow> chainEnd (ts @ xs) u v"
  by (erule chainEnd_cong) (simp_all add: nth_append)

text \<open>Every chain of continuations ends: it can be followed from any task.\<close>

definition chains_end :: "dynamicTask list \<Rightarrow> bool" where
  "chains_end ts = (\<forall>u < length ts. \<exists>v. chainEnd ts u v)"

lemma inv_register:
  assumes inv: "task_inv ts W R G lg" and ends: "chains_end ts"
    and t: "t < length ts" "isNew (ts ! t)" "t \<notin># announced ts G" "u < length ts" "u \<noteq> t"
  shows "task_inv ts W R (add_mset (DependsOn t (Some u)) G) (insert (t, u) lg)"
proof -
  note I = task_invD[OF inv]
  let ?F = "add_mset (DependsOn t (Some u)) G"
  have owed: "owed ts ?F = owed ts G" by (simp add: owed_def)
  have ann: "announced ts ?F = announced ts G" by (simp add: announced_def)
  obtain v where "chainEnd ts u v" using ends t(4) by (auto simp: chains_end_def)
  then have "\<exists>v. chainEnd ts u v \<and> served ts ?F t v" by (auto simp: served_def)
  moreover have "log_ok ts ?F lg" by (rule log_mono[OF I(9)]) simp
  ultimately have "log_ok ts ?F (insert (t, u) lg)" using t(1) by (simp add: log_ok_def)
  moreover have "depends_ok ts ?F" using I(6) t unfolding depends_ok_def ann by auto
  ultimately show ?thesis
    using I unfolding task_inv_def preds_ok_def owed announced_ok_def conts_ok_def ann
    by (simp add: tokens_ok_def local_ok_def refs_ok_def)
qed

lemma inv_new:
  assumes inv: "task_inv ts W R F lg"
  shows "task_inv (ts @ [newTask TYPE_CPU null remote]) W R F lg"
proof -
  note I = task_invD[OF inv]
  let ?x = "newTask TYPE_CPU null remote"
  have x: "isNew ?x" "\<not> ready ?x" "\<not> pending ?x" "\<not> finished ?x" "tDependents ?x = []" "tPreds ?x = 0"
      "tContinuation ?x = None" "tRefs ?x = 0" "tType ?x = TYPE_CPU"
    by (auto simp: newTask_def state_defs)
  have n: "(ts @ [?x]) ! t = (if t < length ts then ts ! t else ?x)" if "t < length (ts @ [?x])" for t
    using that by (auto simp: nth_append)
  have owed: "owed (ts @ [?x]) F = owed ts F" using x(5) by (simp add: owed_def dependentsOf_def)
  have cd: "u < length ts" if "CompleteDeps u a \<in># F" for u a
  proof -
    have "u \<in># flight runs F" using that by (auto simp: in_flight)
    then have "0 < count (W + R + flight runs F) u" by simp
    then show ?thesis using I(2) unfolding tokens_ok_def by (metis less_irrefl)
  qed
  have ann: "announced (ts @ [?x]) F = announced ts F"
    by (rule announced_cong) (use cd in \<open>auto simp: nth_append\<close>)
  have nr: "length ts \<notin># owed ts F" "length ts \<notin># flight releases F"
    using I(1,8) unfolding preds_ok_def refs_ok_def by (metis less_irrefl)+
  have "preds_ok (ts @ [?x]) F"
    using I(1) x nr(1) unfolding preds_ok_def owed
    by (auto simp: nth_append less_Suc_eq not_in_iff)
  moreover have "tokens_ok (ts @ [?x]) W R F"
    using I(2) x unfolding tokens_ok_def by (auto simp: nth_append less_Suc_eq)
  moreover have "local_ok (ts @ [?x]) W F"
  proof -
    have "t < length ts" if "t \<in># W \<or> Dispatch t \<in># F \<or> RunWrapper t False \<in># F" for t
    proof -
      have "t \<in># W \<or> t \<in># flight runs F" using that by (auto simp: in_flight)
      then have "0 < count (W + R + flight runs F) t" by auto
      then show ?thesis using I(2) unfolding tokens_ok_def by (metis less_irrefl)
    qed
    then show ?thesis using I(3) x unfolding local_ok_def by (auto simp: nth_append less_Suc_eq)
  qed
  moreover have "states_ok (ts @ [?x])" using I(4) x unfolding states_ok_def by (auto simp: nth_append less_Suc_eq)
  moreover have "announced_ok (ts @ [?x]) F" using I(5) unfolding announced_ok_def ann by (auto simp: nth_append)
  moreover have "depends_ok (ts @ [?x]) F"
    using I(6) unfolding depends_ok_def ann by (auto simp: nth_append less_Suc_eq)
  moreover have "conts_ok (ts @ [?x]) F"
    using I(7) x unfolding conts_ok_def ann by (fastforce simp: nth_append less_Suc_eq state_defs)
  moreover have "refs_ok (ts @ [?x]) F"
    using I(8) x nr(2) unfolding refs_ok_def by (auto simp: nth_append less_Suc_eq not_in_iff)
  moreover have "log_ok (ts @ [?x]) F lg"
  proof (rule log_okI[OF I(9)])
    fix b u v assume e: "chainEnd ts u v" and s: "served ts F b v"
    have "v < length ts" using chainEnd_end[OF e] by simp
    then have "served (ts @ [?x]) F b v"
      using s chainEnd_exists_mono unfolding served_def by (auto simp: nth_append)
    then show "\<exists>v'. chainEnd (ts @ [?x]) u v' \<and> served (ts @ [?x]) F b v'"
      using chainEnd_exists_mono[OF e] by blast
  qed simp
  ultimately show ?thesis by (simp add: task_inv_def)
qed

end
