(* ===== verification/TaskSafety.thy ===== *)
theory TaskSafety
  imports TaskSteps
begin

text \<open>
  What the task scheduler promises: no assertion of \<open>runtime/dynamictask.cpp\<close> fails, a task runs only
  after everything it depends on, it runs at most once, and no task is forgotten.
\<close>

section \<open>The invariant of a configuration\<close>

definition config_inv :: "config \<Rightarrow> bool" where
  "config_inv c = (case c of (s, ths, lg) \<Rightarrow>
     task_inv (tasks s) (all_tasks (workers s)) (mset (remotes s)) (mset (concat ths)) lg \<and>
     chains_end (tasks s) \<and> workers s \<noteq> [])"

lemma tasks_upd [simp]:
  "tasks (upd t f s) = (tasks s)[t := f (tasks s ! t)]"
  "workers (upd t f s) = workers s" "remotes (upd t f s) = remotes s"
  by (simp_all add: upd_def)

lemma mset_concat_update:
  "i < length ths \<Longrightarrow> ths ! i = old \<Longrightarrow> mset (concat (ths[i := new])) + mset old = mset (concat ths) + mset new"
  by (induction ths arbitrary: i) (auto split: nat.splits)

lemma concat_replace:
  assumes "i < length ths" "ths ! i = a @ rest"
  shows "\<exists>G. mset (concat ths) = mset a + G \<and> mset (concat (ths[i := b @ rest])) = mset b + G"
proof -
  have "mset (concat (ths[i := rest])) + mset a = mset (concat ths)"
    using mset_concat_update[OF assms, of rest] by simp
  moreover have "mset (concat (ths[i := b @ rest])) = mset b + mset (concat (ths[i := rest]))"
    using mset_concat_update[of i "ths[i := rest]" rest "b @ rest"] assms(1) by simp
  ultimately show ?thesis by (metis union_commute)
qed

section \<open>Chains of continuations\<close>

lemma chains_update:
  assumes "chains_end ts" "t < length ts" "(tState x' = S_CONTINUED) = (tState (ts ! t) = S_CONTINUED)"
    "tState (ts ! t) = S_CONTINUED \<Longrightarrow> tContinuation x' = tContinuation (ts ! t)"
  shows "chains_end (ts[t := x'])"
  unfolding chains_end_def
proof (intro allI impI)
  fix u assume "u < length (ts[t := x'])"
  then obtain v where "chainEnd ts u v" using assms(1) by (auto simp: chains_end_def)
  then have "chainEnd (ts[t := x']) u v"
    by (rule chainEnd_cong) (use assms(2-) in \<open>auto simp: nth_list_update\<close>)
  then show "\<exists>v. chainEnd (ts[t := x']) u v" by blast
qed

lemma chains_continue:
  assumes "chains_end ts" "t < length ts" "tState (ts ! t) \<noteq> S_CONTINUED" "c < length ts" "c \<noteq> t"
    "tState (ts ! c) \<noteq> S_CONTINUED" "tState x = S_CONTINUED" "tContinuation x = Some c"
  shows "chains_end (ts[t := x])"
  unfolding chains_end_def
proof (intro allI impI)
  fix u assume "u < length (ts[t := x])"
  then obtain v where "chainEnd ts u v" using assms(1) by (auto simp: chains_end_def)
  then show "\<exists>v. chainEnd (ts[t := x]) u v" using chainEnd_extend[OF _ assms(2-)] by blast
qed

lemma chains_new:
  assumes "chains_end ts"
  shows "chains_end (ts @ [newTask ty null remote])"
  unfolding chains_end_def
proof (intro allI impI)
  fix u assume u: "u < length (ts @ [newTask ty null remote])"
  show "\<exists>v. chainEnd (ts @ [newTask ty null remote]) u v"
  proof (cases "u < length ts")
    case True
    then show ?thesis using assms chainEnd_exists_mono unfolding chains_end_def by blast
  next
    case False
    then have "chainEnd (ts @ [newTask ty null remote]) u u"
      using u by (intro fin_here) (auto simp: nth_append newTask_def)
    then show ?thesis by blast
  qed
qed

section \<open>A critical section\<close>

text \<open>The result of a section keeps the invariant, with the sections that follow it in progress.\<close>

definition exec_fine :: "taskOp multiset \<Rightarrow> (nat \<times> nat) set \<Rightarrow> nat \<Rightarrow> scheduler \<times> taskOp list \<Rightarrow> bool" where
  "exec_fine G lg n r = (case r of (s', qs) \<Rightarrow>
     task_inv (tasks s') (all_tasks (workers s')) (mset (remotes s')) (mset qs + G) lg \<and>
     chains_end (tasks s') \<and> length (workers s') = n)"

abbreviation inv_with :: "scheduler \<Rightarrow> taskOp \<Rightarrow> taskOp multiset \<Rightarrow> (nat \<times> nat) set \<Rightarrow> bool" where
  "inv_with s q G lg \<equiv>
     task_inv (tasks s) (all_tasks (workers s)) (mset (remotes s)) (add_mset q G) lg \<and> chains_end (tasks s)"

lemma fine_enqueue:
  assumes "inv_with s (Enqueue t) G lg"
  shows "\<exists>r. exec_enqueue t s = Inr r \<and> exec_fine G lg (length (workers s)) r"
proof -
  have t: "t < length (tasks s)" "isNew (tasks s ! t)"
    using task_invD(5)[OF conjunct1[OF assms]] by (auto simp: announced_ok_def announced_def)
  let ?x = "tasks s ! t"
  define st where "st = (if tState ?x = S_NEW then (if tPreds ?x = 0 then S_READY else S_PENDING)
    else (if tPreds ?x = 0 then S_REMOTE_READY else S_REMOTE_PENDING))"
  have "task_inv ((tasks s)[t := ?x\<lparr>tRefs := tRefs ?x + 1, tState := st\<rparr>]) (all_tasks (workers s))
      (mset (remotes s)) (mset (if tPreds ?x = 0 then [Schedule t] else []) + G) lg"
    by (rule inv_enqueue[OF conjunct1[OF assms]]) (use t(2) in \<open>auto simp: st_def isNew_def\<close>)
  moreover have "chains_end ((tasks s)[t := ?x\<lparr>tRefs := tRefs ?x + 1, tState := st\<rparr>])"
    by (rule chains_update[OF conjunct2[OF assms] t(1)]) (use t(2) in \<open>auto simp: st_def isNew_def\<close>)
  ultimately show ?thesis
    using t by (auto simp: exec_enqueue_def withTask_def exec_fine_def Let_def st_def isNew_def)
qed

lemma fine_schedule:
  assumes "inv_with s (Schedule t) G lg"
  shows "\<exists>r. exec_schedule self hosts t s = Inr r \<and> exec_fine G lg (length (workers s)) r"
proof -
  note inv = conjunct1[OF assms] and ch = conjunct2[OF assms]
  note tok = token_ready[OF task_invD(2)[OF inv], of t, simplified]
  show ?thesis
  proof (cases "tState (tasks s ! t) = S_READY")
    case True
    then show ?thesis
      using tok(1) inv_schedule_ready[OF inv True] ch by (simp add: exec_schedule_def withTask_def exec_fine_def)
  next
    case False
    then have st: "tState (tasks s ! t) = S_REMOTE_READY" using tok(2) by (simp add: ready_def)
    have "chains_end ((tasks s)[t := (tasks s ! t)\<lparr>tState := S_READY\<rparr>])"
      by (rule chains_update[OF ch tok(1)]) (simp_all add: st)
    then show ?thesis
      using st tok(1) inv_schedule_local[OF inv st] inv_schedule_remote[OF inv] ch
      by (simp add: exec_schedule_def withTask_def exec_fine_def remoteScheduleTask_def)
  qed
qed

lemma fine_dependsOn:
  assumes "inv_with s (DependsOn t u) G lg"
  shows "\<exists>r. exec_dependsOn t u s = Inr r \<and> exec_fine G lg (length (workers s)) r"
proof (cases u)
  case None
  have "task_inv (tasks s) (all_tasks (workers s)) (mset (remotes s)) G lg"
    by (rule inv_same_tasks[OF conjunct1[OF assms]])
      (use task_invD(3)[OF conjunct1[OF assms]] None in \<open>auto simp: announced_def local_ok_def\<close>)
  then show ?thesis using None assms by (simp add: exec_dependsOn_def exec_fine_def)
next
  case (Some v)
  have inv: "task_inv (tasks s) (all_tasks (workers s)) (mset (remotes s)) (add_mset (DependsOn t (Some v)) G) lg"
    using assms Some by simp
  note p = dependsOn_pair[OF inv] and ch = conjunct2[OF assms]
  let ?y = "(tasks s ! v)\<lparr>tDependents := tDependents (tasks s ! v) @ [t]\<rparr>"
  let ?x = "(tasks s ! t)\<lparr>tPreds := tPreds (tasks s ! t) + 1\<rparr>"
  have "chains_end ((tasks s)[v := ?y])" by (rule chains_update[OF ch p(3)]) simp_all
  then have "chains_end ((tasks s)[v := ?y, t := ?x])"
    by (rule chains_update) (use p(1,4) in simp_all)
  then show ?thesis
    using p ch inv_dependsOn_complete[OF inv] inv_dependsOn_next[OF inv] inv_dependsOn_wait[OF inv]
    by (auto simp: Some exec_dependsOn_def withTask_def exec_fine_def rassert_def isNew_def finished_def)
qed

lemma fine_decrement:
  assumes "inv_with s (Decrement t a) G lg"
  shows "\<exists>r. exec_decrement t a s = Inr r \<and> exec_fine G lg (length (workers s)) r"
proof -
  define p where "p = tPreds (tasks s ! t) - 1"
  define st where "st = (if p = 0 \<and> tState (tasks s ! t) = S_PENDING then S_READY
      else if p = 0 \<and> tState (tasks s ! t) = S_REMOTE_PENDING then S_REMOTE_READY else tState (tasks s ! t))"
  let ?q = "if a then RunWrapper t True else Schedule t"
  note d = inv_decrement[OF conjunct1[OF assms] p_def st_def, of ?q]
  have "chains_end ((tasks s)[t := (tasks s ! t)\<lparr>tPreds := p, tState := st\<rparr>])"
    by (rule chains_update[OF conjunct2[OF assms] d(1)]) (auto simp: st_def)
  moreover have "exec_decrement t a s = Inr (upd t (\<lambda>x. x\<lparr>tPreds := p, tState := st\<rparr>) s,
      if st \<noteq> tState (tasks s ! t) then [?q] else [])"
    using d(1) by (simp add: exec_decrement_def withTask_def Let_def p_def st_def)
  moreover have "mset (if st \<noteq> tState (tasks s ! t) then [?q] else []) + G =
      (if st \<noteq> tState (tasks s ! t) then add_mset ?q G else G)" by simp
  ultimately show ?thesis using d(2) by (simp add: exec_fine_def)
qed

lemma fine_dispatch:
  assumes "inv_with s (Dispatch t) G lg" "j < length (workers s)" "\<And>i. me = Some i \<Longrightarrow> i < length (workers s)"
  shows "\<exists>r. exec_dispatch me j t s = Inr r \<and> exec_fine G lg (length (workers s)) r"
proof -
  note inv = conjunct1[OF assms(1)] and ch = conjunct2[OF assms(1)]
  note tok = token_ready[OF task_invD(2)[OF inv], of t, simplified]
  have q: "all_tasks ((workers s)[i := pushLocal t (workers s ! i)]) = add_mset t (all_tasks (workers s))"
    if "i < length (workers s)" for i
    using give_all_tasks[OF that ownWork.give_contents] .
  have q': "all_tasks ((workers s)[j := inject t (workers s ! j)]) = add_mset t (all_tasks (workers s))"
    using give_all_tasks[OF assms(2) otherWork.give_contents] .
  show ?thesis
    using tok(1) ch inv_dispatch_run[OF inv] inv_dispatch_queue[OF inv] q q' assms(3)
    by (auto simp: exec_dispatch_def withTask_def exec_fine_def split: option.split)
qed

text \<open>The one assertion that can fail: a remote task that is cancelled while it is pending.\<close>

lemma fine_runWrapper:
  assumes "inv_with s (RunWrapper t a) G lg"
  shows "(\<exists>r. exec_runWrapper t a s = Inr r \<and> exec_fine G lg (length (workers s)) r) \<or>
    (a \<and> tState (tasks s ! t) = S_REMOTE_READY \<and> exec_runWrapper t a s = Inl AssertFail)"
proof -
  note inv = conjunct1[OF assms] and ch = conjunct2[OF assms]
  note tok = token_ready[OF task_invD(2)[OF inv], of t, simplified]
  have cpu: "tType (tasks s ! t) = TYPE_CPU" and pr: "tPreds (tasks s ! t) = 0"
    using task_invD(3,4)[OF inv] tok(1,2) by (auto simp: local_ok_def states_ok_def)
  show ?thesis
  proof (cases a)
    case True
    then show ?thesis
      using tok(1,2) cpu pr ch inv_cancel[of _ _ _ t G lg] inv
      by (auto simp: exec_runWrapper_def withTask_def exec_fine_def rassert_def ready_def TYPE_CPU_def TYPE_OPENCL_def)
  next
    case False
    then have "tState (tasks s ! t) = S_READY" using task_invD(3)[OF inv] by (auto simp: local_ok_def)
    then show ?thesis
      using False tok(1) cpu pr ch inv_run[of _ _ _ t G lg] inv
      by (auto simp: exec_runWrapper_def withTask_def exec_fine_def rassert_def)
  qed
qed

lemma fine_complete:
  assumes "inv_with s (CompleteDeps t a) G lg"
  shows "\<exists>r. exec_completeTaskDeps t a s = Inr r \<and> exec_fine G lg (length (workers s)) r"
proof -
  note inv = conjunct1[OF assms] and ch = conjunct2[OF assms]
  note tok = token_ready[OF task_invD(2)[OF inv], of t, simplified]
  have st: "tState (tasks s ! t) \<noteq> S_CONTINUED" "\<not> isNew (tasks s ! t)" using tok(2) by (auto simp: state_defs)
  show ?thesis
  proof (cases "tContinuation (tasks s ! t)")
    case None
    have "chains_end ((tasks s)[t := (tasks s ! t)\<lparr>tDependents := [], tState := S_COMPLETE\<rparr>])"
      by (rule chains_update[OF ch tok(1)]) (use st in simp_all)
    then show ?thesis
      using tok(1) None inv_complete[OF inv None]
      by (simp add: exec_completeTaskDeps_def withTask_def exec_fine_def)
  next
    case (Some c)
    have c: "c < length (tasks s)" "isNew (tasks s ! c)"
      using task_invD(5)[OF inv] Some by (auto simp: announced_ok_def announced_def)
    have "chains_end ((tasks s)[t := (tasks s ! t)\<lparr>tDependents := [], tState := S_CONTINUED\<rparr>])"
      by (rule chains_continue[OF ch tok(1) st(1) c(1)]) (use c st Some in \<open>auto simp: isNew_def\<close>)
    then show ?thesis
      using tok(1) Some inv_continue[OF inv Some]
      by (simp add: exec_completeTaskDeps_def withTask_def exec_fine_def add_mset_commute)
  qed
qed

lemma fine_continueWith:
  assumes "inv_with s (ContinueWith c ds) G lg"
  shows "\<exists>r. exec_continueWith c ds s = Inr r \<and> exec_fine G lg (length (workers s)) r"
proof -
  let ?x = "tasks s ! c"
  let ?deps = "if tDependents ?x = [] then ds else tDependents ?x @ ds"
  note d = inv_continueWith[OF conjunct1[OF assms], of ?deps]
  have "chains_end ((tasks s)[c := ?x\<lparr>tDependents := ?deps\<rparr>])"
    by (rule chains_update[OF conjunct2[OF assms] d(1)]) auto
  then show ?thesis using d by (auto simp: exec_continueWith_def withTask_def exec_fine_def)
qed

lemma fine_release:
  assumes "inv_with s (ReleaseRef t) G lg"
  shows "\<exists>r. exec_release t s = Inr r \<and> exec_fine G lg (length (workers s)) r"
proof -
  note d = inv_release[OF conjunct1[OF assms]]
  have "chains_end ((tasks s)[t := (tasks s ! t)\<lparr>tRefs := tRefs (tasks s ! t) - 1\<rparr>])"
    by (rule chains_update[OF conjunct2[OF assms] d(1)]) simp_all
  then show ?thesis using d by (simp add: exec_release_def withTask_def exec_fine_def)
qed

lemma exec_ok:
  assumes "inv_with s q G lg" "inCode q" "j < length (workers s)" "\<And>i. me = Some i \<Longrightarrow> i < length (workers s)"
  shows "(\<exists>r. exec self hosts me j q s = Inr r \<and> exec_fine G lg (length (workers s)) r) \<or>
    (\<exists>t. q = RunWrapper t True \<and> tState (tasks s ! t) = S_REMOTE_READY \<and> exec self hosts me j q s = Inl AssertFail)"
proof (cases q)
  case (Enqueue t)
  then show ?thesis using fine_enqueue[of s t] assms(1) by simp
next
  case (Schedule t)
  then show ?thesis using fine_schedule[of s t] assms(1) by simp
next
  case (DependsOn t u)
  then show ?thesis using fine_dependsOn[of s t u] assms(1) by simp
next
  case (Decrement t a)
  then show ?thesis using fine_decrement[of s t a] assms(1) by simp
next
  case (Dispatch t)
  then show ?thesis using fine_dispatch[of s t] assms by simp
next
  case (RunWrapper t a)
  then show ?thesis using fine_runWrapper[of s t a] assms(1) by auto
next
  case (CompleteDeps t a)
  then show ?thesis using fine_complete[of s t a] assms(1) by simp
next
  case (ContinueWith c ds)
  then show ?thesis using fine_continueWith[of s c ds] assms(1) by simp
next
  case (ReleaseRef t)
  then show ?thesis using fine_release[of s t] assms(1) by simp
qed (use assms(2) in auto)

section \<open>Steps\<close>

text \<open>A step replaces the top of one stack.\<close>

lemma config_replace:
  assumes "config_inv (s, ths, lg)" "i < length ths" "ths ! i = a @ rest"
    and "\<And>G. mset (concat ths) = mset a + G \<Longrightarrow>
      task_inv (tasks s) (all_tasks (workers s)) (mset (remotes s)) (mset a + G) lg \<Longrightarrow> chains_end (tasks s) \<Longrightarrow>
      task_inv (tasks s') (all_tasks (workers s')) (mset (remotes s')) (mset b + G) lg' \<and>
      chains_end (tasks s') \<and> length (workers s') = length (workers s)"
  shows "config_inv (s', ths[i := b @ rest], lg')"
proof -
  obtain G where G: "mset (concat ths) = mset a + G" "mset (concat (ths[i := b @ rest])) = mset b + G"
    using concat_replace[OF assms(2,3)] by blast
  show ?thesis
    using assms(1) assms(4)[OF G(1)] G unfolding config_inv_def by auto
qed

lemma config_exec:
  assumes inv: "config_inv (s, ths, lg)" and i: "i < length ths" "ths ! i = q # rest"
    and q: "inCode q" "j < length (workers s)" and e: "exec self hosts (workerOf s i) j q s = Inr (s', qs)"
  shows "config_inv (s', ths[i := qs @ rest], lg)"
proof (rule config_replace[OF inv i(1), of "[q]"])
  fix G assume "task_inv (tasks s) (all_tasks (workers s)) (mset (remotes s)) (mset [q] + G) lg" "chains_end (tasks s)"
  then have "inv_with s q G lg" by simp
  have me: "workerOf s i = Some k \<Longrightarrow> k < length (workers s)" for k
    by (simp add: workerOf_def split: if_splits)
  have "exec_fine G lg (length (workers s)) (s', qs)"
    using exec_ok[where me = "workerOf s i", OF \<open>inv_with s q G lg\<close> q me, of self hosts] unfolding e by auto
  then show "task_inv (tasks s') (all_tasks (workers s')) (mset (remotes s')) (mset qs + G) lg \<and>
      chains_end (tasks s') \<and> length (workers s') = length (workers s)"
    by (simp only: exec_fine_def prod.case)
qed (use i in simp)

lemma config_pop:
  assumes inv: "config_inv (s, ths, lg)" and i: "i < length ths" "i < length (workers s)" "victims_ok s vs"
    and p: "popTask i ok vs (workers s) = (Some x, ws)" and rest: "ths ! i = rest"
  shows "config_inv (s\<lparr>workers := ws\<rparr>, ths[i := RunWrapper x a # rest], lg)"
proof -
  have ws: "length ws = length (workers s)" "all_tasks (workers s) = add_mset x (all_tasks ws)"
    using popTask_conserves[OF p i(2)] i(3) by (auto simp: victims_ok_def)
  show ?thesis
    using config_replace[OF inv i(1), of "[]" rest "s\<lparr>workers := ws\<rparr>" "[RunWrapper x a]" lg] rest inv_pop ws
    by simp
qed

lemma config_push:
  assumes inv: "config_inv (s, ths, lg)" and i: "i < length ths"
    and "task_inv (tasks s) (all_tasks (workers s)) (mset (remotes s)) (add_mset q (mset (concat ths))) lg'"
  shows "config_inv (s, ths[i := q # ths ! i], lg')"
  using config_replace[OF inv i, of "[]" "ths ! i" s "[q]" lg'] assms(3) by simp

lemma config_step:
  assumes "taskStep self c c'" "config_inv c"
  shows "config_inv c'"
  using assms
proof induction
  case (st_exec i ths q rest j s hosts s' qs lg)
  then show ?case using config_exec by blast
next
  case (st_new i ths s null remote lg)
  then show ?case using inv_new chains_new by (auto simp: config_inv_def)
next
  case (st_dependsOn i ths s t u lg)
  note u = unclaimed_mset[OF st_dependsOn(3)]
  have "task_inv (tasks s) (all_tasks (workers s)) (mset (remotes s)) (mset (concat ths)) lg" "chains_end (tasks s)"
    using st_dependsOn(6) by (simp_all add: config_inv_def)
  from inv_register[OF this u(1,2,3) st_dependsOn(4,5)] show ?case
    by (rule config_push[OF st_dependsOn(6,1)])
next
  case (st_enqueue i ths s t lg)
  note u = unclaimed_mset[OF st_enqueue(3)]
  have "task_inv (tasks s) (all_tasks (workers s)) (mset (remotes s)) (mset (concat ths)) lg"
    using st_enqueue(4) by (simp add: config_inv_def)
  from inv_announce[OF this u] show ?case by (rule config_push[OF st_enqueue(4,1)])
next
  case (st_wait i s ths t lg)
  then show ?case using inv_wait by (intro config_push) (auto simp: config_inv_def)
next
  case (st_return i ths t rest r s lg)
  let ?s = "upd t (\<lambda>x. x\<lparr>tContinuation := r\<rparr>) s"
  have "task_inv (tasks ?s) (all_tasks (workers ?s)) (mset (remotes ?s)) (mset [CompleteDeps t False] + G) lg \<and>
      chains_end (tasks ?s) \<and> length (workers ?s) = length (workers s)"
    if m: "mset (concat ths) = mset [Running t] + G" and c: "chains_end (tasks s)"
      and "task_inv (tasks s) (all_tasks (workers s)) (mset (remotes s)) (mset [Running t] + G) lg" for G
  proof -
    have I: "task_inv (tasks s) (all_tasks (workers s)) (mset (remotes s)) (add_mset (Running t) G) lg"
      using that(3) by simp
    note tok = token_ready[OF task_invD(2)[OF I], of t, simplified]
    have "c < length (tasks s) \<and> isNew (tasks s ! c) \<and> c \<notin># announced (tasks s) G \<and> (\<forall>u. DependsOn c u \<notin># G)"
      if "r = Some c" for c
      using unclaimed_mset[of s "concat ths" c] st_return(3) m that by (auto simp: announced_def)
    then have "task_inv (tasks ?s) (all_tasks (workers ?s)) (mset (remotes ?s)) (add_mset (CompleteDeps t False) G) lg"
      using inv_return[OF I] by simp
    moreover have "chains_end ((tasks s)[t := (tasks s ! t)\<lparr>tContinuation := r\<rparr>])"
      by (rule chains_update[OF c tok(1)]) (use tok(2) in \<open>auto simp: ready_def\<close>)
    ultimately show ?thesis by simp
  qed
  then show ?case
    using config_replace[OF st_return(4,1), of "[Running t]" rest ?s "[CompleteDeps t False]" lg] st_return(2)
    by simp
next
  case (st_waitDone i ths t rest s lg)
  show ?case
    using config_replace[OF st_waitDone(4,1), of "[WaitFor t]" rest s "[]" lg] st_waitDone(2) inv_wait_end by simp
next
  case (st_waitNext i ths t rest s c lg)
  show ?case
    using config_replace[OF st_waitNext(5,1), of "[WaitFor t]" rest s "[WaitFor c]" lg] st_waitNext(2)
      inv_wait[OF inv_wait_end] by simp
next
  case (st_waitRun i ths s t rest vs ok x ws lg)
  show ?case by (rule config_pop[OF st_waitRun(8,1,2,6,7,3)])
next
  case (st_idle i ths s vs ok x ws lg)
  show ?case by (rule config_pop[OF st_idle(6,1,2,4,5,3)])
next
  case (st_cancel i ths s vs ok x ws lg)
  show ?case by (rule config_pop[OF st_cancel(6,1,2,4,5) refl])
next
  case (st_remoteDone i ths t s lg)
  have "mset (remotes s) = add_mset t (mset (remove1 t (remotes s)))" using st_remoteDone(3) by simp
  then have "task_inv (tasks s) (all_tasks (workers s)) (mset (remove1 t (remotes s)))
      (add_mset (CompleteDeps t False) G) lg"
    if "task_inv (tasks s) (all_tasks (workers s)) (mset (remotes s)) G lg" for G
    using inv_remoteDone that by metis
  then show ?case
    using config_replace[OF st_remoteDone(4,1), of "[]" "[]" "s\<lparr>remotes := remove1 t (remotes s)\<rparr>"
        "[CompleteDeps t False]" lg] st_remoteDone(2)
    by (simp del: mset_remove1)
qed

lemma config_start:
  "config_inv (\<lparr>tasks = [], workers = replicate (Suc n) newWorker, remotes = []\<rparr>, replicate (Suc n + m) [], {})"
proof -
  have "all_tasks (replicate k newWorker) = ({#} :: nat multiset)" for k
    by (induction k) (simp_all add: all_tasks_def newWorker_def worker_tasks_def)
  moreover have "concat (replicate k []) = ([] :: taskOp list)" for k by (induction k) simp_all
  ultimately show ?thesis
    by (simp add: config_inv_def chains_end_def task_inv_def preds_ok_def owed_def dependentsOf_def tokens_ok_def
        local_ok_def states_ok_def announced_ok_def announced_def depends_ok_def conts_ok_def refs_ok_def log_ok_def
        del: replicate_Suc)
qed

lemma reached_inv: "reached self c \<Longrightarrow> config_inv c"
  by (induction rule: reached.induct) (use config_start config_step in blast)+

end
