(* ===== verification/TaskPromises.thy ===== *)
theory TaskPromises
  imports TaskSafety
begin

text \<open>
  The promises of the task scheduler that the invariant of theory \<open>TaskInvariant\<close> gives, for every
  interleaving of the threads, and a run of the scheduler on two tasks.
\<close>

section \<open>Consequences of the invariant\<close>

lemma reached_task_inv:
  "reached self (s, ths, lg) \<Longrightarrow>
   task_inv (tasks s) (all_tasks (workers s)) (mset (remotes s)) (mset (concat ths)) lg"
  using reached_inv[of self "(s, ths, lg)"] by (simp add: config_inv_def)

text \<open>A decrement owed to a task means that the task has not been released yet.\<close>

lemma owed_waiting:
  assumes "task_inv ts W R F lg" "t \<in># owed ts F"
  shows "isNew (ts ! t) \<or> pending (ts ! t)"
proof -
  have "t < length ts" using task_invD(1)[OF assms(1)] assms(2) by (simp add: preds_ok_def)
  moreover have "0 < count (owed ts F) t" using assms(2) by simp
  ultimately have "0 < tPreds (ts ! t)" using task_invD(1)[OF assms(1)] by (simp add: preds_ok_def)
  then show ?thesis
    using task_invD(4)[OF assms(1)] \<open>t < length ts\<close>
    by (cases "tState (ts ! t)") (auto simp: states_ok_def state_defs)
qed

lemma dependent_owed: "v < length ts \<Longrightarrow> t \<in> set (tDependents (ts ! v)) \<Longrightarrow> t \<in># owed ts F"
  by (auto simp: owed_def in_dependentsOf)

lemma owes_owed: "q \<in># F \<Longrightarrow> t \<in># owes q \<Longrightarrow> t \<in># owed ts F"
  by (auto simp: owed_def in_flight)

lemma served_waiting:
  assumes "task_inv ts W R F lg" "served ts F t v" "v < length ts"
  shows "isNew (ts ! t) \<or> pending (ts ! t) \<or> tState (ts ! v) = S_COMPLETE"
proof -
  have "isNew (ts ! t)" if "DependsOn t (Some x) \<in># F" for x
    using that task_invD(6)[OF assms(1)] by (simp add: depends_ok_def)
  moreover have "t \<in># owed ts F" if "ContinueWith v ds \<in># F" "t \<in> set ds" for ds
    using owes_owed[OF that(1)] that(2) by simp
  ultimately show ?thesis
    using assms(2) owed_waiting[OF assms(1)] dependent_owed[OF assms(3)] unfolding served_def by blast
qed

section \<open>Assertions\<close>

text \<open>C19: in every reachable state the next critical section of every thread runs without an assertion
  failing, whatever the host data and the receiving worker are; the one exception is a remote task
  that is cancelled while it is pending.\<close>

theorem task_assertions:
  assumes "reached self (s, ths, lg)" "i < length ths" "ths ! i = q # rest" "inCode q" "j < length (workers s)"
  shows "(\<exists>r. exec self hosts (workerOf s i) j q s = Inr r) \<or>
    (\<exists>t. q = RunWrapper t True \<and> tState (tasks s ! t) = S_REMOTE_READY \<and>
      exec self hosts (workerOf s i) j q s = Inl AssertFail)"
proof -
  have inv: "config_inv (s, ths, lg)" by (rule reached_inv[OF assms(1)])
  obtain G where "mset (concat ths) = mset [q] + G"
    using concat_replace[OF assms(2), of "[q]" rest] assms(3) by auto
  then have "inv_with s q G lg" using inv by (simp add: config_inv_def)
  moreover have "workerOf s i = Some k \<Longrightarrow> k < length (workers s)" for k
    by (simp add: workerOf_def split: if_splits)
  ultimately show ?thesis using exec_ok[of s q G lg j "workerOf s i" self hosts] assms(4,5) by auto
qed

section \<open>Order\<close>

text \<open>C18: once a task is released to run, every task it was made to depend on is complete, the
  continuations that it returned included.\<close>

theorem task_after_dependencies:
  assumes "reached self (s, ths, lg)" "(t, u) \<in> lg" "\<not> isNew (tasks s ! t)" "\<not> pending (tasks s ! t)"
  shows "\<exists>v. chainEnd (tasks s) u v \<and> tState (tasks s ! v) = S_COMPLETE"
proof -
  note inv = reached_task_inv[OF assms(1)]
  obtain v where v: "chainEnd (tasks s) u v" "served (tasks s) (mset (concat ths)) t v"
    using task_invD(9)[OF inv] assms(2) unfolding log_ok_def by blast
  then show ?thesis using served_waiting[OF inv v(2)] chainEnd_end[OF v(1)] assms(3,4) by blast
qed

section \<open>At most once\<close>

text \<open>C20: a task is at one place at most, a queue of a worker, the work of another host or the stack of
  a thread that runs or completes it, and only while it is ready.\<close>

theorem task_at_one_place:
  assumes "reached self (s, ths, lg)"
  shows "count (all_tasks (workers s)) t + count_list (remotes s) t + count (flight runs (mset (concat ths))) t =
    (if t < length (tasks s) \<and> ready (tasks s ! t) then 1 else 0)"
proof -
  have "count (all_tasks (workers s) + mset (remotes s) + flight runs (mset (concat ths))) t =
      (if t < length (tasks s) \<and> ready (tasks s ! t) then 1 else 0)"
    using task_invD(2)[OF reached_task_inv[OF assms]] unfolding tokens_ok_def by blast
  then show ?thesis by (simp add: count_mset)
qed

text \<open>A task that has finished is never touched again, whoever takes the next step.\<close>

lemma exec_finished:
  assumes "inv_with s q G lg" "exec self hosts me j q s = Inr (s', qs)" "t < length (tasks s)" "finished (tasks s ! t)"
  shows "length (tasks s') = length (tasks s) \<and> tState (tasks s' ! t) = tState (tasks s ! t) \<and>
    tContinuation (tasks s' ! t) = tContinuation (tasks s ! t)"
proof -
  have inv: "task_inv (tasks s) (all_tasks (workers s)) (mset (remotes s)) (add_mset q G) lg"
    using assms(1) by simp
  have tok: "x \<noteq> t" if "runs q = {#x#}" for x
    using token_ready(2)[OF task_invD(2)[OF inv], of x] that states_disjoint(4)[OF assms(4)] by auto
  have new: "x \<noteq> t" if "x \<in># announced (tasks s) {#q#}" for x
  proof -
    have "x \<in># announced (tasks s) (add_mset q G)" using that by (simp add: announced_def)
    then have "isNew (tasks s ! x)" using task_invD(5)[OF inv] by (auto simp: announced_ok_def)
    then show ?thesis using states_disjoint(4)[OF assms(4)] by auto
  qed
  have owed: "x \<noteq> t" if "x \<in># owes q" for x
    using owed_waiting[OF inv owes_owed[of q]] that states_disjoint(4)[OF assms(4)] by auto
  show ?thesis
  proof (cases q)
    case (Enqueue x)
    then have "x \<noteq> t" using new[of x] by (simp add: announced_def)
    then show ?thesis using assms(2) Enqueue
      by (auto simp: exec_enqueue_def withTask_def Let_def split: if_splits)
  next
    case (Schedule x)
    then show ?thesis using assms(2) tok[of x]
      by (auto simp: exec_schedule_def remoteScheduleTask_def withTask_def split: if_splits)
  next
    case (DependsOn x u)
    then show ?thesis using assms(2,3)
      by (auto simp: exec_dependsOn_def withTask_def rassert_def nth_list_update split: option.splits if_splits)
  next
    case (Decrement x a)
    then show ?thesis using assms(2) owed[of x]
      by (auto simp: exec_decrement_def withTask_def Let_def split: if_splits)
  next
    case (Dispatch x)
    then show ?thesis using assms(2)
      by (auto simp: exec_dispatch_def withTask_def split: if_splits option.splits)
  next
    case (RunWrapper x a)
    then show ?thesis using assms(2) tok[of x]
      by (auto simp: exec_runWrapper_def withTask_def rassert_def split: if_splits)
  next
    case (CompleteDeps x a)
    then show ?thesis using assms(2) tok[of x]
      by (auto simp: exec_completeTaskDeps_def withTask_def Let_def split: if_splits)
  next
    case (ContinueWith c ds)
    then show ?thesis using assms(2,3)
      by (auto simp: exec_continueWith_def withTask_def nth_list_update split: if_splits)
  next
    case (ReleaseRef x)
    then show ?thesis using assms(2,3)
      by (auto simp: exec_release_def withTask_def nth_list_update split: if_splits)
  qed (use assms(2) in auto)
qed

lemma step_finished:
  assumes "taskStep self (s, ths, lg) (s', ths', lg')" "config_inv (s, ths, lg)"
    "t < length (tasks s)" "finished (tasks s ! t)"
  shows "t < length (tasks s') \<and> tState (tasks s' ! t) = tState (tasks s ! t) \<and>
    tContinuation (tasks s' ! t) = tContinuation (tasks s ! t)"
  using assms(1)
proof (cases rule: taskStep.cases)
  case (st_exec i q rest j hosts qs)
  obtain G where "mset (concat ths) = mset [q] + G"
    using concat_replace[OF st_exec(3), of "[q]" rest] st_exec(4) by auto
  then have "inv_with s q G lg" using assms(2) by (simp add: config_inv_def)
  then show ?thesis using exec_finished[OF _ st_exec(7) assms(3,4)] assms(3) by auto
next
  case (st_return i x rest r)
  obtain G where "mset (concat ths) = mset [Running x] + G"
    using concat_replace[OF st_return(4), of "[Running x]" rest] st_return(5) by auto
  then have "tokens_ok (tasks s) (all_tasks (workers s)) (mset (remotes s)) (add_mset (Running x) G)"
    using assms(2) by (simp add: config_inv_def task_inv_def)
  from token_ready(2)[OF this, of x] have "x \<noteq> t" using states_disjoint(4)[OF assms(4)] by auto
  then show ?thesis using st_return assms(3) by auto
qed (use assms(3) in \<open>auto simp: nth_append\<close>)

text \<open>C21: a task that is complete or continued stays so, with the same continuation, whatever any thread
  does next.\<close>

theorem task_finished_stays:
  assumes "reached self (s, ths, lg)" "taskStep self (s, ths, lg) (s', ths', lg')"
    "t < length (tasks s)" "finished (tasks s ! t)"
  shows "t < length (tasks s') \<and> tState (tasks s' ! t) = tState (tasks s ! t) \<and>
    tContinuation (tasks s' ! t) = tContinuation (tasks s ! t)"
  using step_finished[OF assms(2) reached_inv[OF assms(1)] assms(3,4)] .

section \<open>References\<close>

text \<open>C22: the reference that \<open>enqueue\<close> takes is held as long as the task waits or can run, and is dropped
  exactly once: the count never gets negative, and a finished task whose completion is over holds none.\<close>

theorem task_references:
  assumes "reached self (s, ths, lg)" "t < length (tasks s)"
  shows "tRefs (tasks s ! t) = (if pending (tasks s ! t) \<or> ready (tasks s ! t) then 1 else 0) +
    int (count_list (concat ths) (ReleaseRef t))"
proof -
  have "count (flight releases (mset ops)) t = count_list ops (ReleaseRef t)" for ops
  proof (induction ops)
    case (Cons q ops)
    then show ?case by (cases q) auto
  qed simp
  then show ?thesis
    using task_invD(8)[OF reached_task_inv[OF assms(1)]] assms(2) by (simp add: refs_ok_def)
qed

section \<open>No task is forgotten\<close>

text \<open>When no thread does anything but wait, and no task is queued or away.\<close>

definition quiescent :: "scheduler \<Rightarrow> taskOp list \<Rightarrow> bool" where
  "quiescent s ops = ((\<forall>q \<in> set ops. case q of WaitFor t \<Rightarrow> True | _ \<Rightarrow> False) \<and> all_tasks (workers s) = {#} \<and> remotes s = [])"

definition waitsFor :: "dynamicTask list \<Rightarrow> (nat \<times> nat) set" where
  "waitsFor ts = {(u, t). u < length ts \<and> t \<in> set (tDependents (ts ! u))}"

lemma quiescent_flight:
  assumes "\<forall>q \<in> set ops. case q of WaitFor t \<Rightarrow> True | _ \<Rightarrow> False"
  shows "flight owes (mset ops) = {#} \<and> flight runs (mset ops) = {#}"
  using assms
proof (induction ops)
  case (Cons q ops)
  then show ?case by (cases q) auto
qed simp

lemma quiescent_ready:
  assumes "reached self (s, ths, lg)" "quiescent s (concat ths)" "t < length (tasks s)"
  shows "\<not> ready (tasks s ! t)"
proof -
  have "count (all_tasks (workers s) + mset (remotes s) + flight runs (mset (concat ths))) t =
      (if t < length (tasks s) \<and> ready (tasks s ! t) then 1 else 0)"
    using task_invD(2)[OF reached_task_inv[OF assms(1)]] unfolding tokens_ok_def by blast
  then show ?thesis
    using assms(2,3) quiescent_flight[of "concat ths"] unfolding quiescent_def
    by (auto split: if_splits)
qed

lemma quiescent_pending:
  assumes "reached self (s, ths, lg)" "quiescent s (concat ths)" "t < length (tasks s)" "pending (tasks s ! t)"
  shows "\<exists>u. (u, t) \<in> waitsFor (tasks s) \<and> (isNew (tasks s ! u) \<or> pending (tasks s ! u))"
proof -
  note inv = reached_task_inv[OF assms(1)]
  have "0 < tPreds (tasks s ! t)" using task_invD(4)[OF inv] assms(3,4) by (simp add: states_ok_def)
  then have "t \<in># owed (tasks s) (mset (concat ths))"
    using task_invD(1)[OF inv] assms(3) by (simp add: preds_ok_def flip: count_greater_zero_iff)
  then have "t \<in># dependentsOf (tasks s)"
    using quiescent_flight[of "concat ths"] assms(2) unfolding quiescent_def owed_def by simp
  then obtain u where u: "u < length (tasks s)" "t \<in> set (tDependents (tasks s ! u))"
    by (auto simp: in_dependentsOf)
  have "\<not> finished (tasks s ! u)" using u task_invD(4)[OF inv] by (auto simp: states_ok_def)
  moreover have "\<not> ready (tasks s ! u)" by (rule quiescent_ready[OF assms(1,2) u(1)])
  ultimately have "isNew (tasks s ! u) \<or> pending (tasks s ! u)"
    by (cases "tState (tasks s ! u)") (auto simp: state_defs)
  then show ?thesis using u by (auto simp: waitsFor_def)
qed

text \<open>C17: when nothing is in progress, queued or away, every task that was enqueued has finished, unless
  a task was never enqueued or the tasks wait for each other in a circle: no wake-up is lost.\<close>

theorem task_no_lost_wakeup:
  assumes "reached self (s, ths, lg)" "quiescent s (concat ths)"
    "\<forall>t < length (tasks s). \<not> isNew (tasks s ! t)" "acyclic (waitsFor (tasks s))" "t < length (tasks s)"
  shows "finished (tasks s ! t)"
proof -
  have fin: "finite (waitsFor (tasks s))"
  proof (rule finite_subset)
    show "waitsFor (tasks s) \<subseteq> {..< length (tasks s)} \<times> (\<Union>x \<in> set (tasks s). set (tDependents x))"
      by (auto simp: waitsFor_def) (use nth_mem in blast)
  qed simp
  have "t < length (tasks s) \<longrightarrow> \<not> pending (tasks s ! t)" for t
  proof (induction t rule: wf_induct_rule[OF finite_acyclic_wf[OF fin assms(4)]])
    case (1 t)
    show ?case
    proof
      assume t: "t < length (tasks s)"
      show "\<not> pending (tasks s ! t)"
      proof
        assume "pending (tasks s ! t)"
        then obtain u where u: "(u, t) \<in> waitsFor (tasks s)" "isNew (tasks s ! u) \<or> pending (tasks s ! u)"
          using quiescent_pending[OF assms(1,2) t] by blast
        then have "u < length (tasks s)" by (simp add: waitsFor_def)
        then show False using 1[OF u(1)] u(2) assms(3) by blast
      qed
    qed
  qed
  then show ?thesis
    using assms(3,5) quiescent_ready[OF assms(1,2,5)]
    by (cases "tState (tasks s ! t)") (auto simp: state_defs)
qed

text \<open>C23: a thread that waits for a task never follows a missing continuation: the chain of
  continuations can always be followed to a task that has not been continued.\<close>

theorem task_wait_chain:
  assumes "reached self (s, ths, lg)" "u < length (tasks s)"
  shows "\<exists>v. chainEnd (tasks s) u v \<and> v < length (tasks s) \<and> tState (tasks s ! v) \<noteq> S_CONTINUED"
proof -
  have "chains_end (tasks s)" using reached_inv[OF assms(1)] by (simp add: config_inv_def)
  then obtain v where "chainEnd (tasks s) u v" using assms(2) by (auto simp: chains_end_def)
  then show ?thesis using chainEnd_end by blast
qed

section \<open>Where a remote task runs\<close>

definition weightOn :: "dataHostPidList \<Rightarrow> hostPid \<Rightarrow> int" where
  "weightOn hosts h = sum_list (map itemWeight (filter (\<lambda>it. itemHost it = h) hosts))"

lemma chooseLoop_heaviest:
  assumes "\<forall>it \<in> set its. 0 \<le> itemWeight it" "\<And>h. m h \<le> mw" "m toHost = mw" "m self = mw \<Longrightarrow> toHost = self"
  shows "(\<forall>h. m h + weightOn its h \<le> m (chooseLoop self its m toHost mw) + weightOn its (chooseLoop self its m toHost mw)) \<and>
    (m self + weightOn its self = m (chooseLoop self its m toHost mw) + weightOn its (chooseLoop self its m toHost mw) \<longrightarrow>
      chooseLoop self its m toHost mw = self)"
  using assms
proof (induction its arbitrary: m toHost mw)
  case Nil
  then show ?case by (auto simp: weightOn_def)
next
  case (Cons it its)
  define m' where "m' = m(itemHost it := m (itemHost it) + itemWeight it)"
  have sum: "m h + weightOn (it # its) h = m' h + weightOn its h" for h
    by (simp add: weightOn_def m'_def)
  have w: "0 \<le> itemWeight it" "\<forall>it \<in> set its. 0 \<le> itemWeight it" using Cons.prems(1) by simp_all
  have le: "m h \<le> m' h" for h using w(1) by (simp add: m'_def)
  have eq: "m' h = m h" if "h \<noteq> itemHost it" for h using that by (simp add: m'_def)
  have step: "chooseLoop self (it # its) m toHost mw =
      (if m' (itemHost it) > mw then chooseLoop self its m' (itemHost it) (m' (itemHost it))
       else if m' (itemHost it) = mw \<and> itemHost it = self then chooseLoop self its m' self mw
       else chooseLoop self its m' toHost mw)"
    by (cases "itemHost it = self") (auto simp: m'_def Let_def)
  consider "m' (itemHost it) > mw" | "m' (itemHost it) = mw" "itemHost it = self"
    | "\<not> m' (itemHost it) > mw" "\<not> (m' (itemHost it) = mw \<and> itemHost it = self)" by linarith
  then show ?case
  proof cases
    case 1
    have "m' h \<le> m' (itemHost it)" for h using 1 eq[of h] Cons.prems(2)[of h] by (cases "h = itemHost it") auto
    moreover have "m' self = m' (itemHost it) \<Longrightarrow> itemHost it = self"
      using 1 eq[of self] Cons.prems(2)[of self] by fastforce
    ultimately show ?thesis unfolding sum step using 1 Cons.IH[OF w(2)] by simp
  next
    case 2
    have "m' h \<le> mw" for h using 2 eq[of h] Cons.prems(2)[of h] by (cases "h = itemHost it") auto
    then show ?thesis unfolding sum step using 2 Cons.IH[OF w(2), of m' mw self] by simp
  next
    case 3
    have b: "m' h \<le> mw" for h using 3 eq[of h] Cons.prems(2)[of h] by (cases "h = itemHost it") auto
    have "m' toHost = mw" using b[of toHost] le[of toHost] Cons.prems(3) by simp
    moreover have "m' self = mw \<Longrightarrow> toHost = self"
      using 3 eq[of self] Cons.prems(4) by (cases "itemHost it = self") auto
    ultimately show ?thesis unfolding sum step using 3 b Cons.IH[OF w(2), of m' mw toHost] by auto
  qed
qed

text \<open>\<open>remoteScheduleTask\<close> sends a task to a host that holds the most of its data, and prefers its
  own host among equals when it has a choice.\<close>

theorem chooseHost_heaviest:
  assumes "\<forall>it \<in> set hosts. 0 \<le> itemWeight it"
  shows "weightOn hosts h \<le> weightOn hosts (chooseHost self hosts) \<and>
    (length hosts = 1 \<or> weightOn hosts self < weightOn hosts (chooseHost self hosts) \<or> chooseHost self hosts = self)"
proof -
  consider "hosts = []" | it where "hosts = [it]" | "1 < length hosts"
    by (cases hosts rule: remdups_adj.cases) auto
  then show ?thesis
  proof cases
    case 3
    have "(\<forall>h. weightOn hosts h \<le> weightOn hosts (chooseLoop self hosts (\<lambda>_. 0) self 0)) \<and>
        (weightOn hosts self = weightOn hosts (chooseLoop self hosts (\<lambda>_. 0) self 0) \<longrightarrow>
          chooseLoop self hosts (\<lambda>_. 0) self 0 = self)"
      using chooseLoop_heaviest[OF assms, of "\<lambda>_. 0" 0 self self] by simp
    then show ?thesis using 3 by (force simp: chooseHost_def order_less_le)
  qed (use assms in \<open>auto simp: chooseHost_def weightOn_def\<close>)
qed

end
