(* ===== verification/TaskExamples.thy ===== *)
theory TaskExamples
  imports TaskPromises
begin

text \<open>
  A run of the scheduler on one worker and two tasks, the second of which depends on the first, and the
  promises of theory \<open>TaskPromises\<close> at states of that run.
\<close>

definition exSelf :: hostPid where
  "exSelf = \<lparr>hostid = 1, pid = 1\<rparr>"

definition tk :: "taskState \<Rightarrow> int \<Rightarrow> nat list \<Rightarrow> int \<Rightarrow> dynamicTask" where
  "tk st p ds r = \<lparr>tState = st, tPreds = p, tDependents = ds, tContinuation = None, tType = TYPE_CPU,
     tNull = False, tRefs = r\<rparr>"

definition exSched :: "dynamicTask list \<Rightarrow> nat worker \<Rightarrow> scheduler" where
  "exSched ts w = \<lparr>tasks = ts, workers = [w], remotes = []\<rparr>"

definition exCfg :: "dynamicTask list \<Rightarrow> nat worker \<Rightarrow> taskOp list \<Rightarrow> (nat \<times> nat) set \<Rightarrow> config" where
  "exCfg ts w ops lg = (exSched ts w, [ops], lg)"

lemmas run_defs = exSched_def tk_def exec_enqueue_def exec_schedule_def exec_dependsOn_def exec_decrement_def
  exec_dispatch_def exec_runWrapper_def exec_completeTaskDeps_def exec_continueWith_def exec_release_def
  withTask_def rassert_def upd_def Let_def workerOf_def popTask_def popLocal_def pushLocal_def newWorker_def
  unclaimed_def isNew_def userTurn_def TYPE_CPU_def TYPE_OPENCL_def

lemma run_exec:
  assumes "reached exSelf (exCfg ts w (q # rest) lg)" "inCode q"
    "exec exSelf [] (Some 0) 0 q (exSched ts w) = Inr (exSched ts' w', qs)" "ops' = qs @ rest"
  shows "reached exSelf (exCfg ts' w' ops' lg)"
  using reached_step[OF assms(1)[unfolded exCfg_def] st_exec[of 0 _ q rest 0 _ exSelf "[]"]] assms(2-4)
  by (simp add: exCfg_def workerOf_def exSched_def)

lemma run_new:
  assumes "reached exSelf (exCfg ts w [] lg)"
  shows "reached exSelf (exCfg (ts @ [tk S_NEW 0 [] 0]) w [] lg)"
  using reached_step[OF assms[unfolded exCfg_def] st_new[where i = 0 and null = False and remote = False]]
  by (simp add: exCfg_def exSched_def userTurn_def newTask_def tk_def)

lemma run_dependsOn:
  assumes "reached exSelf (exCfg ts w [] lg)" "unclaimed (exSched ts w) [] t" "u < length ts" "u \<noteq> t" "lg' = insert (t, u) lg"
  shows "reached exSelf (exCfg ts w [DependsOn t (Some u)] lg')"
  using reached_step[OF assms(1)[unfolded exCfg_def] st_dependsOn[of 0 _ _ t u]] assms(2-)
  by (simp add: exCfg_def exSched_def userTurn_def)

lemma run_enqueue:
  assumes "reached exSelf (exCfg ts w [] lg)" "unclaimed (exSched ts w) [] t"
  shows "reached exSelf (exCfg ts w [Enqueue t] lg)"
  using reached_step[OF assms(1)[unfolded exCfg_def] st_enqueue[of 0 _ _ t]] assms(2)
  by (simp add: exCfg_def exSched_def userTurn_def)

lemma run_idle:
  assumes "reached exSelf (exCfg ts w [] lg)" "popTask 0 True [] [w] = (Some t, [w'])"
  shows "reached exSelf (exCfg ts w' [RunWrapper t False] lg)"
  using reached_step[OF assms(1)[unfolded exCfg_def] st_idle[of 0 _ _ "[]" True t "[w']"]] assms(2)
  by (simp add: exCfg_def exSched_def victims_ok_def)

lemma run_return:
  assumes "reached exSelf (exCfg ts w (Running t # rest) lg)" "ts[t := (ts ! t)\<lparr>tContinuation := None\<rparr>] = ts"
  shows "reached exSelf (exCfg ts w (CompleteDeps t False # rest) lg)"
  using reached_step[OF assms(1)[unfolded exCfg_def] st_return[where i = 0 and t = t and rest = rest and r = None]] assms(2)
  by (simp add: exCfg_def exSched_def upd_def)

lemma run_scheduled: "reached exSelf (exCfg [(tk S_READY 0 [1] 1), (tk S_PENDING 1 [] 1)] newWorker [Schedule 0] {(1, 0)})"
proof -
  have "reached exSelf (exCfg [] newWorker [] {})"
    using reached_start[of exSelf 0 0] by (simp add: exCfg_def exSched_def)
  then have "reached exSelf (exCfg [(tk S_NEW 0 [] 0)] newWorker [] {})"
    by (simp add: run_new[of "[]", simplified] run_new[of "[_]", simplified])
  then have "reached exSelf (exCfg [(tk S_NEW 0 [] 0), (tk S_NEW 0 [] 0)] newWorker [] {})"
    by (simp add: run_new[of "[]", simplified] run_new[of "[_]", simplified])
  then have "reached exSelf (exCfg [(tk S_NEW 0 [] 0), (tk S_NEW 0 [] 0)] newWorker [DependsOn 1 (Some 0)] {(1, 0)})"
    by (rule run_dependsOn) (simp_all add: run_defs)
  then have "reached exSelf (exCfg [(tk S_NEW 0 [1] 0), (tk S_NEW 1 [] 0)] newWorker [] {(1, 0)})"
    by (rule run_exec) (simp_all add: run_defs)
  then have "reached exSelf (exCfg [(tk S_NEW 0 [1] 0), (tk S_NEW 1 [] 0)] newWorker [Enqueue 1] {(1, 0)})"
    by (rule run_enqueue) (simp_all add: run_defs)
  then have "reached exSelf (exCfg [(tk S_NEW 0 [1] 0), (tk S_PENDING 1 [] 1)] newWorker [] {(1, 0)})"
    by (rule run_exec) (simp_all add: run_defs)
  then have "reached exSelf (exCfg [(tk S_NEW 0 [1] 0), (tk S_PENDING 1 [] 1)] newWorker [Enqueue 0] {(1, 0)})"
    by (rule run_enqueue) (simp_all add: run_defs)
  then show ?thesis
    by (rule run_exec) (simp_all add: run_defs)
qed

lemma run_released: "reached exSelf (exCfg [(tk S_COMPLETE 0 [] 1), (tk S_READY 0 [] 1)] newWorker [Schedule 1, ReleaseRef 0] {(1, 0)})"
proof -
  from run_scheduled have "reached exSelf (exCfg [(tk S_READY 0 [1] 1), (tk S_PENDING 1 [] 1)] newWorker [Dispatch 0] {(1, 0)})"
    by (rule run_exec) (simp_all add: run_defs)
  then have "reached exSelf (exCfg [(tk S_READY 0 [1] 1), (tk S_PENDING 1 [] 1)] (newWorker\<lparr>ondeck := Some 0\<rparr>) [] {(1, 0)})"
    by (rule run_exec) (simp_all add: run_defs)
  then have "reached exSelf (exCfg [(tk S_READY 0 [1] 1), (tk S_PENDING 1 [] 1)] newWorker [RunWrapper 0 False] {(1, 0)})"
    by (rule run_idle) (simp add: run_defs)
  then have "reached exSelf (exCfg [(tk S_READY 0 [1] 1), (tk S_PENDING 1 [] 1)] newWorker [Running 0] {(1, 0)})"
    by (rule run_exec) (simp_all add: run_defs)
  then have "reached exSelf (exCfg [(tk S_READY 0 [1] 1), (tk S_PENDING 1 [] 1)] newWorker [CompleteDeps 0 False] {(1, 0)})"
    by (rule run_return) (simp add: run_defs)
  then have "reached exSelf (exCfg [(tk S_COMPLETE 0 [] 1), (tk S_PENDING 1 [] 1)] newWorker [Decrement 1 False, ReleaseRef 0] {(1, 0)})"
    by (rule run_exec) (simp_all add: run_defs)
  then show ?thesis
    by (rule run_exec) (simp_all add: run_defs)
qed

lemma run_over: "reached exSelf (exCfg [(tk S_COMPLETE 0 [] 0), (tk S_COMPLETE 0 [] 0)] newWorker [] {(1, 0)})"
proof -
  from run_released have "reached exSelf (exCfg [(tk S_COMPLETE 0 [] 1), (tk S_READY 0 [] 1)] newWorker [Dispatch 1, ReleaseRef 0] {(1, 0)})"
    by (rule run_exec) (simp_all add: run_defs)
  then have "reached exSelf (exCfg [(tk S_COMPLETE 0 [] 1), (tk S_READY 0 [] 1)] (newWorker\<lparr>ondeck := Some 1\<rparr>) [ReleaseRef 0] {(1, 0)})"
    by (rule run_exec) (simp_all add: run_defs)
  then have "reached exSelf (exCfg [(tk S_COMPLETE 0 [] 0), (tk S_READY 0 [] 1)] (newWorker\<lparr>ondeck := Some 1\<rparr>) [] {(1, 0)})"
    by (rule run_exec) (simp_all add: run_defs)
  then have "reached exSelf (exCfg [(tk S_COMPLETE 0 [] 0), (tk S_READY 0 [] 1)] newWorker [RunWrapper 1 False] {(1, 0)})"
    by (rule run_idle) (simp add: run_defs)
  then have "reached exSelf (exCfg [(tk S_COMPLETE 0 [] 0), (tk S_READY 0 [] 1)] newWorker [Running 1] {(1, 0)})"
    by (rule run_exec) (simp_all add: run_defs)
  then have "reached exSelf (exCfg [(tk S_COMPLETE 0 [] 0), (tk S_READY 0 [] 1)] newWorker [CompleteDeps 1 False] {(1, 0)})"
    by (rule run_return) (simp add: run_defs)
  then have "reached exSelf (exCfg [(tk S_COMPLETE 0 [] 0), (tk S_COMPLETE 0 [] 1)] newWorker [ReleaseRef 1] {(1, 0)})"
    by (rule run_exec) (simp_all add: run_defs)
  then show ?thesis
    by (rule run_exec) (simp_all add: run_defs)
qed

section \<open>Witnesses\<close>

abbreviation "schedEarly \<equiv> exSched [tk S_READY 0 [1] 1, tk S_PENDING 1 [] 1] newWorker"
abbreviation "schedMid \<equiv> exSched [tk S_COMPLETE 0 [] 1, tk S_READY 0 [] 1] newWorker"
abbreviation "schedEnd \<equiv> exSched [tk S_COMPLETE 0 [] 0, tk S_COMPLETE 0 [] 0] newWorker"

lemma reached_early: "reached exSelf (schedEarly, [[Schedule 0]], {(1, 0)})"
  using run_scheduled by (simp add: exCfg_def)

lemma reached_mid: "reached exSelf (schedMid, [[Schedule 1, ReleaseRef 0]], {(1, 0)})"
  using run_released by (simp add: exCfg_def)

lemma reached_end: "reached exSelf (schedEnd, [[]], {(1, 0)})"
  using run_over by (simp add: exCfg_def)

theorem task_assertions_witness:
  "\<exists>r. exec exSelf [] (workerOf schedEarly 0) 0 (Schedule 0) schedEarly = Inr r"
  using task_assertions[OF reached_early, of 0 "Schedule 0" "[]" 0 "[]"] by (simp add: exSched_def)

theorem task_after_dependencies_witness:
  "\<exists>v. chainEnd (tasks schedMid) 0 v \<and> tState (tasks schedMid ! v) = S_COMPLETE"
  by (rule task_after_dependencies[OF reached_mid, of 1 0])
    (simp_all add: exSched_def tk_def isNew_def pending_def)

theorem task_at_one_place_witness:
  "count (all_tasks (workers schedMid)) 1 + count_list (remotes schedMid) 1 +
    count (flight runs {#Schedule 1, ReleaseRef 0#}) 1 = 1"
  using task_at_one_place[OF reached_mid, of 1] by (simp add: exSched_def tk_def ready_def)

theorem task_finished_stays_witness:
  "tState (tasks (exSched [tk S_COMPLETE 0 [] 1, tk S_READY 0 [] 1] newWorker) ! 0) = S_COMPLETE"
proof -
  have "taskStep exSelf (schedMid, [[Schedule 1, ReleaseRef 0]], {(1, 0)})
      (schedMid, [[Dispatch 1, ReleaseRef 0]], {(1, 0)})"
    using st_exec[of 0 "[[Schedule 1, ReleaseRef 0]]" "Schedule 1" "[ReleaseRef 0]" 0 schedMid exSelf "[]" schedMid "[Dispatch 1]"]
    by (simp add: run_defs)
  from task_finished_stays[OF reached_mid this, of 0] show ?thesis
    by (simp add: exSched_def tk_def finished_def)
qed

theorem task_references_witness: "tRefs (tasks schedMid ! 0) = 1"
  using task_references[OF reached_mid, of 0] by (simp add: exSched_def tk_def ready_def pending_def)

theorem task_no_lost_wakeup_witness: "finished (tasks schedEnd ! 1)"
proof (rule task_no_lost_wakeup[OF reached_end])
  show "quiescent schedEnd (concat [[]])"
    by (simp add: quiescent_def exSched_def all_tasks_def worker_tasks_def newWorker_def)
  show "\<forall>t < length (tasks schedEnd). \<not> isNew (tasks schedEnd ! t)"
    by (auto simp: exSched_def tk_def isNew_def less_Suc_eq)
  have "waitsFor (tasks schedEnd) = {}"
    by (auto simp: waitsFor_def exSched_def tk_def nth_Cons' split: if_splits)
  then show "acyclic (waitsFor (tasks schedEnd))" by (simp add: acyclic_def)
qed (simp add: exSched_def)

theorem task_wait_chain_witness:
  "\<exists>v. chainEnd (tasks schedMid) 1 v \<and> v < length (tasks schedMid) \<and> tState (tasks schedMid ! v) \<noteq> S_CONTINUED"
  by (rule task_wait_chain[OF reached_mid]) (simp add: exSched_def)

definition exHosts :: dataHostPidList where
  "exHosts = [\<lparr>itemHost = exSelf, itemWeight = 2\<rparr>, \<lparr>itemHost = exSelf\<lparr>pid := 2\<rparr>, itemWeight = 1\<rparr>,
     \<lparr>itemHost = exSelf\<lparr>pid := 2\<rparr>, itemWeight = 1\<rparr>]"

theorem chooseHost_heaviest_witness: "chooseHost exSelf exHosts = exSelf"
proof -
  have "weightOn exHosts exSelf \<le> weightOn exHosts (chooseHost exSelf exHosts) \<and>
    (length exHosts = 1 \<or> weightOn exHosts exSelf < weightOn exHosts (chooseHost exSelf exHosts) \<or>
      chooseHost exSelf exHosts = exSelf)"
    by (rule chooseHost_heaviest) (simp add: exHosts_def)
  moreover have "weightOn exHosts h \<le> 2" for h by (auto simp: weightOn_def exHosts_def exSelf_def)
  moreover have "weightOn exHosts exSelf = 2" by (simp add: weightOn_def exHosts_def exSelf_def)
  ultimately show ?thesis by (auto simp: exHosts_def dest: order.strict_trans1)
qed

end
