(* ===== verification/MatrixRegions.thy ===== *)
theory MatrixRegions
  imports RegionRaw
begin

text \<open>
  The matrices of the sequential runtime: \<open>MatrixRegion\<close> of \<open>runtime/matrixregion.h\<close>.

  A region is a window on a storage: a base pointer, a size and a multiplier for each dimension.  The
  base is an offset in the storage, \<open>None\<close> for the null pointer.  \<open>_storageInfo\<close> is what \<open>exportTo\<close>
  answers for the region (theory \<open>Memoization\<close>) and is not a field here.  The locale \<open>region_view\<close>
  states what a function that makes one region from another promises: the cells of the new region are
  cells of the old one, each at a coordinate that the view determines.
\<close>

section \<open>Regions\<close>

record matrixRegion =
  rgStorage :: storagePtr
  rgBase :: "int option"
  rgSizes :: "int list"
  rgMults :: "int list"

definition mr_size :: "matrixRegion \<Rightarrow> nat \<Rightarrow> int" where
  "mr_size r d = rgSizes r ! d"

definition mr_count :: "matrixRegion \<Rightarrow> int" where
  "mr_count r = numDataLoop 1 (rgSizes r)"

fun perimeterLoop :: "int \<Rightarrow> int list \<Rightarrow> int" where
  "perimeterLoop s [] = s"
| "perimeterLoop s (n # ns) = perimeterLoop (s + n) ns"

definition mr_perimeter :: "matrixRegion \<Rightarrow> int" where
  "mr_perimeter r = perimeterLoop 0 (rgSizes r)"

text \<open>\<open>setStockLayout\<close>: \<open>mult\<close> starts at 1; the descending layout goes through the dimensions from the
  last to the first.\<close>

datatype stockLayout = LAYOUT_ASCENDING | LAYOUT_DECENDING

fun stockLoop :: "int \<Rightarrow> int list \<Rightarrow> int list" where
  "stockLoop mult [] = []"
| "stockLoop mult (n # ns) = mult # stockLoop (mult * n) ns"

definition setStockLayout :: "stockLayout \<Rightarrow> matrixRegion \<Rightarrow> matrixRegion" where
  "setStockLayout layout r =
     r\<lparr>rgMults := (case layout of
         LAYOUT_ASCENDING \<Rightarrow> stockLoop 1 (rgSizes r)
       | LAYOUT_DECENDING \<Rightarrow> rev (stockLoop 1 (rev (rgSizes r))))\<rparr>"

definition mr_stock :: "storagePtr \<Rightarrow> int option \<Rightarrow> int list \<Rightarrow> stockLayout \<Rightarrow> matrixRegion" where
  "mr_stock s b sz layout =
     setStockLayout layout \<lparr>rgStorage = s, rgBase = b, rgSizes = sz, rgMults = replicate (length sz) 0\<rparr>"

definition mr_transposed :: "matrixRegion \<Rightarrow> matrixRegion" where
  "mr_transposed r = r\<lparr>rgSizes := rev (rgSizes r), rgMults := rev (rgMults r)\<rparr>"

text \<open>\<open>columnMajor\<close> is the configuration macro \<open>COLUMN_MAJOR\<close>.\<close>

definition mr_allocate :: "bool \<Rightarrow> (nat \<Rightarrow> 'e) \<Rightarrow> int list \<Rightarrow> 'e heap \<Rightarrow> matrixRegion \<times> 'e heap" where
  "mr_allocate columnMajor junk sz h =
     (let (s, h') = newStorage junk (nat (numDataLoop 1 sz)) h
      in (if columnMajor then mr_transposed (mr_stock (Some s) (Some 0) (rev sz) LAYOUT_ASCENDING)
          else mr_stock (Some s) (Some 0) sz LAYOUT_ASCENDING, h'))"

definition mr_isSize :: "matrixRegion \<Rightarrow> int list \<Rightarrow> bool" where
  "mr_isSize r sz = (rgBase r \<noteq> None \<and> (\<forall>(a, b) \<in> set (zip (rgSizes r) sz). a = b))"

definition mr_contains :: "matrixRegion \<Rightarrow> coord \<Rightarrow> bool" where
  "mr_contains r c = (\<forall>(x, n) \<in> set (zip c (rgSizes r)). \<not> (x < 0 \<or> x \<ge> n))"

fun intervalLoop :: "int \<Rightarrow> coord \<Rightarrow> coord \<Rightarrow> int" where
  "intervalLoop s (a # as) (b # bs) = intervalLoop (s * (b - a)) as bs"
| "intervalLoop s _ _ = s"

definition mr_intervalSize :: "coord \<Rightarrow> coord \<Rightarrow> int" where
  "mr_intervalSize c1 c2 = intervalLoop 1 c1 c2"

definition mr_isEntireBuffer :: "matrixRegion \<Rightarrow> 'e heap \<Rightarrow> bool" where
  "mr_isEntireBuffer r h =
     (rgSizes r = [] \<or> (rgStorage r \<noteq> None \<and> storageCount (rgStorage r) h = Inr (mr_count r)))"

section \<open>Cells\<close>

definition mr_offset :: "matrixRegion \<Rightarrow> coord \<Rightarrow> int" where
  "mr_offset r c =
     (case (rgMults r, c) of
        ([m0, m1], [c0, c1]) \<Rightarrow> (m0 * c0) + (m1 * c1)
      | _ \<Rightarrow> coordToOffsetLoop 0 c (rgMults r))"

definition coordToPtr :: "matrixRegion \<Rightarrow> coord \<Rightarrow> int res" where
  "coordToPtr r c = (case rgBase r of None \<Rightarrow> Inl NullDeref | Some b \<Rightarrow> Inr (b + mr_offset r c))"

definition mr_cell :: "matrixRegion \<Rightarrow> coord \<Rightarrow> 'e heap \<Rightarrow> 'e res" where
  "mr_cell r c h = rbind (coordToPtr r c) (\<lambda>i. hread (rgStorage r) i h)"

definition mr_set :: "matrixRegion \<Rightarrow> coord \<Rightarrow> 'e \<Rightarrow> 'e heap \<Rightarrow> 'e heap res" where
  "mr_set r c v h = rbind (coordToPtr r c) (\<lambda>i. hwrite (rgStorage r) i v h)"

section \<open>Windows\<close>

text \<open>A null base stays null: pointer arithmetic on it is not given a meaning.\<close>

definition mr_moved :: "matrixRegion \<Rightarrow> coord \<Rightarrow> int option" where
  "mr_moved r c = map_option (\<lambda>b. b + mr_offset r c) (rgBase r)"

definition mr_region :: "coord \<Rightarrow> coord \<Rightarrow> matrixRegion \<Rightarrow> matrixRegion" where
  "mr_region c1 c2 r = r\<lparr>rgBase := mr_moved r c1, rgSizes := map2 (\<lambda>a b. b - a) c1 c2\<rparr>"

definition without :: "nat \<Rightarrow> 'a list \<Rightarrow> 'a list" where
  "without d xs = take d xs @ drop (Suc d) xs"

definition mr_slice :: "nat \<Rightarrow> int \<Rightarrow> matrixRegion \<Rightarrow> matrixRegion" where
  "mr_slice d pos r =
     r\<lparr>rgBase := mr_moved r ((replicate (length (rgSizes r)) 0)[d := pos]),
       rgSizes := without d (rgSizes r), rgMults := without d (rgMults r)\<rparr>"

definition mr_col :: "int \<Rightarrow> matrixRegion \<Rightarrow> matrixRegion" where
  "mr_col x r = mr_slice 0 x r"

definition mr_row :: "int \<Rightarrow> matrixRegion \<Rightarrow> matrixRegion" where
  "mr_row y r = mr_slice 1 y r"

section \<open>Going through the cells\<close>

definition mr_incCoord :: "matrixRegion \<Rightarrow> coord \<Rightarrow> int \<times> coord" where
  "mr_incCoord r c = incCoord (rgSizes r) c"

text \<open>\<open>incCoordWithBound\<close>; \<open>i\<close> is the loop counter, the lists start at dimension \<open>i\<close>.\<close>

fun boundLoop :: "int \<Rightarrow> coord \<Rightarrow> coord \<Rightarrow> coord \<Rightarrow> int \<times> coord" where
  "boundLoop i (l # l' # ls) (u # u' # us) (c # c' # cs) =
     (if c \<ge> u
      then (let (r, cs') = boundLoop (i + 1) (l' # ls) (u' # us) ((c' + 1) # cs) in (r, l # cs'))
      else (i, c # c' # cs))"
| "boundLoop i [l] [u] [c] = (if c \<ge> u then (-1, [c]) else (i, [c]))"
| "boundLoop i _ _ cs = (-1, cs)"

fun incCoordWithBound :: "coord \<Rightarrow> coord \<Rightarrow> coord \<Rightarrow> int \<times> coord" where
  "incCoordWithBound c1 c2 [] = (-1, [])"
| "incCoordWithBound c1 c2 (c # cs) = boundLoop 0 c1 c2 ((c + 1) # cs)"

section \<open>Copies\<close>

definition copyBody :: "matrixRegion \<Rightarrow> matrixRegion \<Rightarrow> coord \<Rightarrow> 'e heap \<Rightarrow> 'e heap res" where
  "copyBody src dst = copyCell (rgStorage src) (coordToPtr src) (rgStorage dst) (coordToPtr dst)"

text \<open>The loops run once before they test their condition.\<close>

definition mr_copyAll :: "matrixRegion \<Rightarrow> matrixRegion \<Rightarrow> matrixRegion \<Rightarrow> 'e heap \<Rightarrow> 'e heap res" where
  "mr_copyAll r src dst h =
     ended (doWhile (mr_incCoord r) (copyBody src dst) (replicate (length (rgSizes r)) 0) h)"

definition mr_copyTo :: "matrixRegion \<Rightarrow> matrixRegion \<Rightarrow> 'e heap \<Rightarrow> 'e heap res" where
  "mr_copyTo r dst h = (if rgStorage r = rgStorage dst then Inr h else mr_copyAll r r dst h)"

definition mr_copyBox :: "matrixRegion \<Rightarrow> matrixRegion \<Rightarrow> coord \<Rightarrow> coord \<Rightarrow> 'e heap \<Rightarrow> 'e heap res" where
  "mr_copyBox src dst c1 c2 h =
     (if rgStorage src = rgStorage dst then Inr h
      else if \<exists>(a, b) \<in> set (zip c1 c2). a \<ge> b then Inr h
      else ended (doWhile (incCoordWithBound c1 c2) (copyBody src dst) c1 h))"

definition mr_copyToBox :: "matrixRegion \<Rightarrow> matrixRegion \<Rightarrow> coord \<Rightarrow> coord \<Rightarrow> 'e heap \<Rightarrow> 'e heap res" where
  "mr_copyToBox r dst c1 c2 h = mr_copyBox r dst c1 c2 h"

definition mr_copyToBoxes :: "matrixRegion \<Rightarrow> matrixRegion \<Rightarrow> (coord \<times> coord) list \<Rightarrow> 'e heap \<Rightarrow> 'e heap res" where
  "mr_copyToBoxes r dst boxes h =
     (if rgStorage r = rgStorage dst then Inr h
      else if boxes = [] then mr_copyTo r dst h
      else foldR (\<lambda>(c1, c2). mr_copyToBox r dst c1 c2) boxes h)"

definition mr_copyFrom_unsafe :: "matrixRegion \<Rightarrow> matrixRegion \<Rightarrow> 'e heap \<Rightarrow> 'e heap res" where
  "mr_copyFrom_unsafe r src h = (if rgStorage r = rgStorage src then Inr h else mr_copyAll r src r h)"

definition mr_copyFromBox_unsafe :: "matrixRegion \<Rightarrow> matrixRegion \<Rightarrow> coord \<Rightarrow> coord \<Rightarrow> 'e heap \<Rightarrow> 'e heap res" where
  "mr_copyFromBox_unsafe r src c1 c2 h = mr_copyBox src r c1 c2 h"

definition mr_copyFromBoxes_unsafe ::
    "matrixRegion \<Rightarrow> matrixRegion \<Rightarrow> (coord \<times> coord) list \<Rightarrow> 'e heap \<Rightarrow> 'e heap res" where
  "mr_copyFromBoxes_unsafe r src boxes h =
     (if rgStorage r = rgStorage src then Inr h
      else if boxes = [] then mr_copyFrom_unsafe r src h
      else foldR (\<lambda>(c1, c2). mr_copyFromBox_unsafe r src c1 c2) boxes h)"

definition asNormalizedRegion :: "bool \<Rightarrow> (nat \<Rightarrow> 'e) \<Rightarrow> matrixRegion \<Rightarrow> 'e heap \<Rightarrow> (matrixRegion \<times> 'e heap) res" where
  "asNormalizedRegion columnMajor junk r h =
     (if mr_isEntireBuffer r h then Inr (r, h)
      else (let (t, h') = mr_allocate columnMajor junk (rgSizes r) h
            in rmap (Pair t) (mr_copyAll r r t h')))"

definition asGpuInputBuffer :: "bool \<Rightarrow> (nat \<Rightarrow> 'e) \<Rightarrow> matrixRegion \<Rightarrow> 'e heap \<Rightarrow> (matrixRegion \<times> 'e heap) res" where
  "asGpuInputBuffer columnMajor junk r h = asNormalizedRegion columnMajor junk r h"

definition asGpuOutputBuffer ::
    "bool \<Rightarrow> (nat \<Rightarrow> 'e) \<Rightarrow> matrixRegion \<Rightarrow> coord \<Rightarrow> coord \<Rightarrow> 'e heap \<Rightarrow> matrixRegion \<times> 'e heap" where
  "asGpuOutputBuffer columnMajor junk r c1 c2 h =
     (if mr_isEntireBuffer r h \<and> mr_intervalSize c1 c2 = mr_count r then (r, h)
      else mr_allocate columnMajor junk (rgSizes r) h)"

section \<open>Offsets\<close>

definition dot :: "int list \<Rightarrow> coord \<Rightarrow> int" where
  "dot ms c = sum_list (map2 (*) ms c)"

lemma dot_simps [simp]: "dot [] c = 0" "dot ms [] = 0" "dot (m # ms) (x # c) = m * x + dot ms c"
  by (simp_all add: dot_def)

lemma offsetLoop_dot: "coordToOffsetLoop off c ms = off + dot ms c"
  by (induction off c ms rule: coordToOffsetLoop.induct) auto

lemma mr_offset_dot: "mr_offset r c = dot (rgMults r) c"
  by (auto simp: mr_offset_def offsetLoop_dot split: list.split)

lemma dot_append: "length ms = length c \<Longrightarrow> dot (ms @ ms') (c @ c') = dot ms c + dot ms' c'"
  by (simp add: dot_def)

lemma dot_add: "length c = length ms \<Longrightarrow> length d = length ms \<Longrightarrow> dot ms (map2 (+) c d) = dot ms c + dot ms d"
proof (induction ms arbitrary: c d)
  case (Cons m ms)
  then show ?case by (cases c; cases d) (auto simp: algebra_simps)
qed simp

lemma dot_rev: "length c = length ms \<Longrightarrow> dot (rev ms) (rev c) = dot ms c"
  by (induction ms arbitrary: c rule: list.induct) (auto simp: dot_append length_Suc_conv)

lemma dot_zeros: "dot ms (replicate n 0) = 0"
  by (induction ms arbitrary: n) (case_tac n, simp_all)+

lemma dot_unit: "d < length ms \<Longrightarrow> dot ms ((replicate (length ms) 0)[d := x]) = ms ! d * x"
  by (induction ms arbitrary: d) (auto simp: dot_zeros split: nat.split)

lemma dot_without:
  "d < length ms \<Longrightarrow> length c + 1 = length ms \<Longrightarrow>
   dot ms (take d c @ x # drop d c) = dot (without d ms) c + ms ! d * x"
proof (induction ms arbitrary: d c)
  case (Cons m ms)
  show ?case
  proof (cases d)
    case 0
    then show ?thesis by (simp add: without_def)
  next
    case (Suc e)
    then obtain y ys where c: "c = y # ys" using Cons.prems by (cases c) auto
    have "dot ms (take e ys @ x # drop e ys) = dot (without e ms) ys + ms ! e * x"
      by (rule Cons.IH) (use Cons.prems Suc c in auto)
    then show ?thesis using Suc c by (simp add: without_def)
  qed
qed simp

lemma stockLoop_mults: "stockLoop m sz = sizeToMultipliersLoop m sz"
  by (induction m sz rule: sizeToMultipliersLoop.induct) auto

lemma length_stockLoop [simp]: "length (stockLoop m sz) = length sz"
  by (induction sz arbitrary: m) auto

lemma dot_stock: "length c = length sz \<Longrightarrow> dot (stockLoop 1 sz) c = radix sz c"
  using coordToOffset_mults[of c sz 0 1] by (simp add: stockLoop_mults offsetLoop_dot)

lemma perimeterLoop_sum: "perimeterLoop s sz = s + sum_list sz"
  by (induction sz arbitrary: s) auto

section \<open>Regions that hold their cells\<close>

text \<open>Every coordinate of the region is an element of the storage, and no two are the same one.\<close>

definition mr_holds :: "matrixRegion \<Rightarrow> 'e heap \<Rightarrow> nat \<Rightarrow> 'e list \<Rightarrow> int \<Rightarrow> bool" where
  "mr_holds r h s xs b =
     (rgStorage r = Some s \<and> mem h s = Some xs \<and> rgBase r = Some b \<and> length (rgMults r) = length (rgSizes r) \<and>
      (\<forall>c. inBox (rgSizes r) c \<longrightarrow> 0 \<le> b + mr_offset r c \<and> b + mr_offset r c < int (length xs)) \<and>
      inj_on (mr_offset r) {c. inBox (rgSizes r) c})"

definition mr_ok :: "matrixRegion \<Rightarrow> 'e heap \<Rightarrow> bool" where
  "mr_ok r h = (\<exists>s xs b. mr_holds r h s xs b)"

lemma mr_cell_holds:
  "mr_holds r h s xs b \<Longrightarrow> inBox (rgSizes r) c \<Longrightarrow> mr_cell r c h = Inr (xs ! nat (b + mr_offset r c))"
  by (simp add: mr_cell_def coordToPtr_def mr_holds_def hread_mem)

lemma mr_set_holds:
  "mr_holds r h s xs b \<Longrightarrow> inBox (rgSizes r) c \<Longrightarrow>
   mr_set r c v h = Inr (setMem s (xs[nat (b + mr_offset r c) := v]) h)"
  by (simp add: mr_set_def coordToPtr_def mr_holds_def hwrite_mem)

lemma mr_holds_setMem: "mr_holds r h s xs b \<Longrightarrow> length ys = length xs \<Longrightarrow> mr_holds r (setMem s ys h) s ys b"
  by (simp add: mr_holds_def)

interpretation matrixStore: region_store
    "\<lambda>st c. mr_cell (fst st) c (snd st)"
    "\<lambda>st c v. rmap (Pair (fst st)) (mr_set (fst st) c v (snd st))"
    "\<lambda>st. {c. inBox (rgSizes (fst st)) c}" "\<lambda>st. mr_ok (fst st) (snd st)"
proof unfold_locales
  fix st :: "matrixRegion \<times> 'e heap" and c v st'
  assume ok: "mr_ok (fst st) (snd st)" and "c \<in> {c. inBox (rgSizes (fst st)) c}"
  then have c: "inBox (rgSizes (fst st)) c" by simp
  obtain s xs b where h: "mr_holds (fst st) (snd st) s xs b" using ok by (auto simp: mr_ok_def)
  note w = mr_set_holds[OF h c, of v]
  show "\<exists>v. mr_cell (fst st) c (snd st) = Inr v" using mr_cell_holds[OF h c] by blast
  show "\<exists>st'. rmap (Pair (fst st)) (mr_set (fst st) c v (snd st)) = Inr st'" using w by simp
  assume "rmap (Pair (fst st)) (mr_set (fst st) c v (snd st)) = Inr st'"
  then have st': "st' = (fst st, setMem s (xs[nat (b + mr_offset (fst st) c) := v]) (snd st))" using w by simp
  have h': "mr_holds (fst st) (snd st') s (xs[nat (b + mr_offset (fst st) c) := v]) b"
    using mr_holds_setMem[OF h] st' by simp
  then show "mr_ok (fst st') (snd st') \<and> {c. inBox (rgSizes (fst st')) c} = {c. inBox (rgSizes (fst st)) c}"
    using st' by (auto simp: mr_ok_def)
  fix d assume "d \<in> {c. inBox (rgSizes (fst st)) c}"
  then have d: "inBox (rgSizes (fst st)) d" by simp
  have "b + mr_offset (fst st) c = b + mr_offset (fst st) d \<longleftrightarrow> c = d"
    using h c d by (auto simp: mr_holds_def inj_on_def)
  then show "mr_cell (fst st') d (snd st') = (if d = c then Inr v else mr_cell (fst st) d (snd st))"
    using mr_cell_holds[OF h' d] mr_cell_holds[OF h d] st' h c d
    by (auto simp: mr_holds_def nth_list_update nat_eq_iff)
qed

section \<open>The contract of a view\<close>

locale region_view =
  fixes view :: "'p \<Rightarrow> matrixRegion \<Rightarrow> matrixRegion"
    and place :: "'p \<Rightarrow> matrixRegion \<Rightarrow> coord \<Rightarrow> coord"
    and allowed :: "'p \<Rightarrow> matrixRegion \<Rightarrow> bool"
  assumes same_storage: "rgStorage (view p r) = rgStorage r"
    and same_cell: "allowed p r \<Longrightarrow> length (rgMults r) = length (rgSizes r) \<Longrightarrow> inBox (rgSizes (view p r)) c \<Longrightarrow>
      coordToPtr (view p r) c = coordToPtr r (place p r c)"
    and inside: "allowed p r \<Longrightarrow> inBox (rgSizes (view p r)) c \<Longrightarrow> inBox (rgSizes r) (place p r c)"
    and place_inj: "allowed p r \<Longrightarrow> inBox (rgSizes (view p r)) c \<Longrightarrow> inBox (rgSizes (view p r)) d \<Longrightarrow>
      place p r c = place p r d \<Longrightarrow> c = d"
    and mults_length: "allowed p r \<Longrightarrow> length (rgMults r) = length (rgSizes r) \<Longrightarrow>
      length (rgMults (view p r)) = length (rgSizes (view p r))"
    and base_null: "rgBase (view p r) = None \<longleftrightarrow> rgBase r = None"
begin

lemma view_cell:
  assumes "allowed p r" "length (rgMults r) = length (rgSizes r)" "inBox (rgSizes (view p r)) c"
  shows "mr_cell (view p r) c h = mr_cell r (place p r c) h" "mr_set (view p r) c v h = mr_set r (place p r c) v h"
  using same_cell[OF assms] by (simp_all add: mr_cell_def mr_set_def same_storage)

text \<open>A view of a region that holds its cells holds its cells.\<close>

lemma view_holds:
  assumes ok: "allowed p r" and h: "mr_holds r h s xs b"
  shows "\<exists>b'. mr_holds (view p r) h s xs b'"
proof -
  have len: "length (rgMults r) = length (rgSizes r)" using h by (simp add: mr_holds_def)
  obtain b' where b': "rgBase (view p r) = Some b'" using base_null h by (cases "rgBase (view p r)") (auto simp: mr_holds_def)
  have at: "b' + mr_offset (view p r) c = b + mr_offset r (place p r c)" if "inBox (rgSizes (view p r)) c" for c
    using same_cell[OF ok len that] b' h by (simp add: coordToPtr_def mr_holds_def)
  have "inj_on (mr_offset (view p r)) {c. inBox (rgSizes (view p r)) c}"
  proof (rule inj_onI)
    fix c d assume cd: "c \<in> {c. inBox (rgSizes (view p r)) c}" "d \<in> {c. inBox (rgSizes (view p r)) c}"
      "mr_offset (view p r) c = mr_offset (view p r) d"
    then have "mr_offset r (place p r c) = mr_offset r (place p r d)" using at[of c] at[of d] by simp
    then have "place p r c = place p r d"
      using h cd inside[OF ok] by (auto simp: mr_holds_def inj_on_def)
    then show "c = d" using place_inj[OF ok] cd by simp
  qed
  then show ?thesis
    using b' at inside[OF ok] h mults_length[OF ok len] unfolding mr_holds_def same_storage by auto
qed

end

definition within :: "coord \<Rightarrow> coord \<Rightarrow> matrixRegion \<Rightarrow> bool" where
  "within c1 c2 r = (length c1 = length (rgSizes r) \<and> length c2 = length (rgSizes r) \<and>
     (\<forall>i < length c1. 0 \<le> c1 ! i \<and> c1 ! i \<le> c2 ! i \<and> c2 ! i \<le> rgSizes r ! i))"

lemma inBox_nth: "inBox sz c \<longleftrightarrow> length c = length sz \<and> (\<forall>i < length sz. 0 \<le> c ! i \<and> c ! i < sz ! i)"
  by (auto simp: inBox_def list_all2_conv_all_nth)

lemma coordToPtr_moved:
  "rgBase r' = map_option (\<lambda>b. b + x) (rgBase r) \<Longrightarrow> x + mr_offset r' c = mr_offset r d \<Longrightarrow>
   coordToPtr r' c = coordToPtr r d"
  by (cases "rgBase r") (auto simp: coordToPtr_def)

interpretation regionView: region_view "\<lambda>(c1, c2). mr_region c1 c2" "\<lambda>(c1, c2) r c. map2 (+) c1 c"
    "\<lambda>(c1, c2). within c1 c2"
proof (unfold_locales; clarify)
  fix r :: matrixRegion and c1 c2 c d :: coord
  show "rgStorage (mr_region c1 c2 r) = rgStorage r" by (simp add: mr_region_def)
  show "(rgBase (mr_region c1 c2 r) = None) = (rgBase r = None)" by (simp add: mr_region_def mr_moved_def)
  assume w: "within c1 c2 r"
  then have len: "length (rgSizes (mr_region c1 c2 r)) = length (rgSizes r)" by (simp add: mr_region_def within_def)
  show "length (rgMults r) = length (rgSizes r) \<Longrightarrow>
      length (rgMults (mr_region c1 c2 r)) = length (rgSizes (mr_region c1 c2 r))"
    using w by (simp add: mr_region_def within_def)
  assume c: "inBox (rgSizes (mr_region c1 c2 r)) c"
  then have lc: "length c = length (rgSizes r)" using inBox_length len by metis
  show "inBox (rgSizes r) (map2 (+) c1 c)"
    using c w by (fastforce simp: inBox_nth mr_region_def within_def)
  show "coordToPtr (mr_region c1 c2 r) c = coordToPtr r (map2 (+) c1 c)" if "length (rgMults r) = length (rgSizes r)"
    by (rule coordToPtr_moved[where x = "mr_offset r c1"])
      (use that w lc in \<open>simp_all add: mr_region_def mr_moved_def mr_offset_dot dot_add within_def\<close>)
  assume "inBox (rgSizes (mr_region c1 c2 r)) d" "map2 (+) c1 c = map2 (+) c1 d"
  moreover from this(1) have "length d = length (rgSizes r)" using inBox_length len by metis
  ultimately show "c = d"
    using lc w by (intro nth_equalityI) (auto simp: within_def list_eq_iff_nth_eq)
qed

interpretation transposedView: region_view "\<lambda>_. mr_transposed" "\<lambda>_ r. rev" "\<lambda>_ r. True"
proof unfold_locales
  fix r :: matrixRegion and c :: coord
  show "coordToPtr (mr_transposed r) c = coordToPtr r (rev c)"
    if "length (rgMults r) = length (rgSizes r)" "inBox (rgSizes (mr_transposed r)) c"
    using dot_rev[of "rev c" "rgMults r"] that inBox_length[OF that(2)]
    by (simp add: coordToPtr_def mr_transposed_def mr_offset_dot split: option.split)
qed (auto simp: mr_transposed_def inBox_def list_all2_rev1)

lemma inBox_without:
  assumes "d < length sz" "inBox (without d sz) c" "0 \<le> x" "x < sz ! d"
  shows "inBox sz (take d c @ x # drop d c)"
proof -
  have "inBox (take d sz @ drop (Suc d) sz) (take d c @ drop d c)" using assms(2) by (simp add: without_def)
  moreover have "length (take d c) = length (take d sz)"
    using inBox_length[OF assms(2)] assms(1) by (simp add: without_def)
  ultimately have "inBox (take d sz) (take d c)" "inBox (drop (Suc d) sz) (drop d c)"
    using list_all2_append[of "take d sz" "take d c" _ "drop (Suc d) sz" "drop d c"]
    by (simp_all only: inBox_def)
  then have "inBox (take d sz @ sz ! d # drop (Suc d) sz) (take d c @ x # drop d c)"
    using assms(3,4) by (auto simp: inBox_def intro: list_all2_appendI)
  then show ?thesis using assms(1) by (simp add: id_take_nth_drop[symmetric])
qed

interpretation sliceView: region_view "\<lambda>(d, pos). mr_slice d pos"
    "\<lambda>(d, pos) r c. take d c @ pos # drop d c"
    "\<lambda>(d, pos) r. d < length (rgSizes r) \<and> 0 \<le> pos \<and> pos < rgSizes r ! d"
proof (unfold_locales; clarify)
  fix r :: matrixRegion and d pos and c e :: coord
  show "rgStorage (mr_slice d pos r) = rgStorage r" by (simp add: mr_slice_def)
  show "(rgBase (mr_slice d pos r) = None) = (rgBase r = None)" by (simp add: mr_slice_def mr_moved_def)
  assume d: "d < length (rgSizes r)" "0 \<le> pos" "pos < rgSizes r ! d"
  show "length (rgMults r) = length (rgSizes r) \<Longrightarrow>
      length (rgMults (mr_slice d pos r)) = length (rgSizes (mr_slice d pos r))"
    by (simp add: mr_slice_def without_def)
  assume c: "inBox (rgSizes (mr_slice d pos r)) c"
  then show "inBox (rgSizes r) (take d c @ pos # drop d c)"
    using inBox_without d by (simp add: mr_slice_def)
  have lc: "length c + 1 = length (rgSizes r)" using inBox_length[OF c] d(1) by (simp add: mr_slice_def without_def)
  show "coordToPtr (mr_slice d pos r) c = coordToPtr r (take d c @ pos # drop d c)"
    if len: "length (rgMults r) = length (rgSizes r)"
    by (rule coordToPtr_moved[where x = "mr_offset r ((replicate (length (rgSizes r)) 0)[d := pos])"])
      (use dot_without[of d "rgMults r" c pos] dot_unit[of d "rgMults r" pos] len d(1) lc
       in \<open>simp_all add: mr_slice_def mr_moved_def mr_offset_dot\<close>)
  assume "inBox (rgSizes (mr_slice d pos r)) e" "take d c @ pos # drop d c = take d e @ pos # drop d e"
  moreover from this(1) have "length e + 1 = length (rgSizes r)"
    using inBox_length[of _ e] d(1) by (simp add: mr_slice_def without_def)
  ultimately have "take d c = take d e" "drop d c = drop d e" using lc d(1) by (simp_all add: append_eq_append_conv)
  then show "c = e" by (metis append_take_drop_id)
qed

section \<open>New regions\<close>

lemma mr_stock_holds:
  assumes "sizes_pos sz" "mem h s = Some xs" "int (length xs) = prod_list sz"
  shows "mr_holds (mr_stock (Some s) (Some 0) sz LAYOUT_ASCENDING) h s xs 0"
proof -
  have off: "mr_offset (mr_stock (Some s) (Some 0) sz LAYOUT_ASCENDING) c = radix sz c" if "inBox sz c" for c
    using dot_stock[OF inBox_length[OF that]] by (simp add: mr_offset_dot mr_stock_def setStockLayout_def)
  then have "inj_on (mr_offset (mr_stock (Some s) (Some 0) sz LAYOUT_ASCENDING)) {c. inBox sz c}"
    using radix_inj by (auto simp: inj_on_def)
  then show ?thesis
    using off assms radix_bounds by (auto simp: mr_holds_def mr_stock_def setStockLayout_def)
qed

lemma prod_list_rev: "prod_list (rev sz) = (prod_list sz :: int)"
  by (induction sz) (simp_all add: mult.commute)

lemma mr_allocate_holds:
  assumes "sizes_pos sz" "heap_ok h" "mr_allocate cm junk sz h = (t, h')"
  shows "\<exists>s b. mr_holds t h' s (map junk [0..<nat (prod_list sz)]) b \<and> rgSizes t = sz \<and> mem h s = None \<and>
    heap_ok h' \<and> (\<forall>j. mem h j \<noteq> None \<longrightarrow> mem h' j = mem h j)"
proof -
  define s where "s = nextId h"
  let ?xs = "map junk [0..<nat (prod_list sz)]"
  have h': "newStorage junk (nat (prod_list sz)) h = (s, h')"
    and t: "t = (if cm then mr_transposed (mr_stock (Some s) (Some 0) (rev sz) LAYOUT_ASCENDING)
      else mr_stock (Some s) (Some 0) sz LAYOUT_ASCENDING)"
    using assms(3) by (auto simp: mr_allocate_def newStorage_def numDataLoop_prod s_def Let_def)
  note n = newStorage_mem[OF assms(2) h']
  have len: "int (length ?xs) = prod_list sz" using prod_list_pos[OF assms(1)] by simp
  have "\<exists>b. mr_holds t h' s ?xs b"
  proof (cases cm)
    case True
    have "mr_holds (mr_stock (Some s) (Some 0) (rev sz) LAYOUT_ASCENDING) h' s ?xs 0"
      by (rule mr_stock_holds) (use assms(1) n(2) len in \<open>simp_all add: sizes_pos_def prod_list_rev\<close>)
    then show ?thesis using transposedView.view_holds True t by simp
  next
    case False
    then show ?thesis using mr_stock_holds[OF assms(1) n(2) len] t by auto
  qed
  moreover have "rgSizes t = sz" by (simp add: t mr_transposed_def mr_stock_def setStockLayout_def)
  ultimately show ?thesis using n by blast
qed

section \<open>Walks\<close>

definition boundDims :: "coord \<Rightarrow> coord \<Rightarrow> dim list" where
  "boundDims c1 c2 = map2 (\<lambda>l u. (l, 1, u)) c1 c2"

lemma boundLoop_odo:
  "length ls = length us \<Longrightarrow> length cs = length us \<Longrightarrow>
   boundLoop i (l # ls) (u # us) ((c + 1) # cs) = odo i (boundDims (l # ls) (u # us)) (c # cs)"
proof (induction us arbitrary: i l ls u c cs)
  case (Cons u' us)
  then obtain l' ls' c' cs' where "ls = l' # ls'" "cs = c' # cs'" by (cases ls; cases cs) auto
  then show ?case using Cons.IH[of ls' cs' "i + 1" l' u' c'] Cons.prems
    by (auto simp: boundDims_def split: prod.splits)
qed (auto simp: boundDims_def)

interpretation boundWalk: coord_walk "\<lambda>(c1, c2). incCoordWithBound c1 c2" "\<lambda>(c1, c2). boundDims c1 c2"
    "\<lambda>(c1, c2). length c1 = length c2"
proof (unfold_locales, clarify)
  fix c1 c2 :: coord assume len: "length c1 = length c2"
  show "follows (incCoordWithBound c1 c2) (walk (boundDims c1 c2))"
  proof (cases c1)
    case Nil
    then show ?thesis by (simp add: boundDims_def)
  next
    case (Cons l ls)
    then obtain u us where c2: "c2 = u # us" "length ls = length us" using len by (cases c2) auto
    have "follows (odo 0 (boundDims c1 c2)) (walk (boundDims c1 c2))"
      by (rule follows_odo) (use Cons c2 in \<open>auto simp: boundDims_def dims_ok_def set_zip\<close>)
    moreover have "odo 0 (boundDims c1 c2) c = incCoordWithBound c1 c2 c"
      if c: "c \<in> set (walk (boundDims c1 c2))" for c
    proof -
      obtain x xs where "c = x # xs" "length xs = length us"
        using walk_length[OF c] Cons c2 by (cases c) (auto simp: boundDims_def)
      then show ?thesis using boundLoop_odo[of ls us xs 0 l u x] Cons c2 by simp
    qed
    ultimately show ?thesis using follows_cong[of "walk (boundDims c1 c2)" "odo 0 (boundDims c1 c2)"] by blast
  qed
qed

definition between :: "coord \<Rightarrow> coord \<Rightarrow> coord \<Rightarrow> bool" where
  "between c1 c2 c = (length c = length c1 \<and> (\<forall>i < length c1. c1 ! i \<le> c ! i \<and> c ! i < c2 ! i))"

lemma set_boundWalk:
  assumes "length c1 = length c2" "\<forall>i < length c1. c1 ! i < c2 ! i"
  shows "c \<in> set (walk (boundDims c1 c2)) \<longleftrightarrow> between c1 c2 c"
  using assms
  by (auto simp: in_walk list_all2_conv_all_nth boundDims_def between_def set_doRange_unit) (metis)

section \<open>What the copies do\<close>

text \<open>The cells of \<open>dst\<close> at the coordinates \<open>C\<close> get the values of \<open>src\<close>; nothing else changes.\<close>

definition copied :: "matrixRegion \<Rightarrow> matrixRegion \<Rightarrow> coord set \<Rightarrow> 'e heap \<Rightarrow> 'e heap \<Rightarrow> bool" where
  "copied src dst C h h' =
     ((\<forall>c. inBox (rgSizes dst) c \<longrightarrow> mr_cell dst c h' = (if c \<in> C then mr_cell src c h else mr_cell dst c h)) \<and>
      (\<forall>s i. (Some s \<noteq> rgStorage dst \<or> (\<forall>c \<in> C. Inr i \<noteq> coordToPtr dst c)) \<longrightarrow> hread (Some s) i h' = hread (Some s) i h) \<and>
      nextId h' = nextId h \<and> mr_ok dst h')"

lemma foldR_copyBody:
  assumes src: "mr_holds src h a xs ba" and dst: "mr_holds dst h b ys bb" and ab: "a \<noteq> b"
    and C: "distinct cs" "\<forall>c \<in> set cs. inBox (rgSizes src) c \<and> inBox (rgSizes dst) c"
  shows "\<exists>h'. foldR (copyBody src dst) cs h = Inr h' \<and> copied src dst (set cs) h h'"
proof -
  let ?f = "\<lambda>c. ba + mr_offset src c" and ?g = "\<lambda>c. bb + mr_offset dst c"
  have m: "mem h a = Some xs" "mem h b = Some ys" using src dst by (simp_all add: mr_holds_def)
  have f: "\<forall>c \<in> set cs. coordToPtr src c = Inr (?f c) \<and> 0 \<le> ?f c \<and> ?f c < int (length xs)"
    using src C(2) by (simp add: mr_holds_def coordToPtr_def)
  have g: "\<forall>c \<in> set cs. coordToPtr dst c = Inr (?g c) \<and> 0 \<le> ?g c \<and> ?g c < int (length ys)"
    using dst C(2) by (simp add: mr_holds_def coordToPtr_def)
  have inj: "inj_on ?g (set cs)" using dst C(2) by (auto simp: mr_holds_def inj_on_def)
  obtain ys' where r: "foldR (copyBody src dst) cs h = Inr (setMem b ys' h)" and len: "length ys' = length ys"
      and new: "\<forall>c \<in> set cs. rd ys' (?g c) = rd xs (?f c)" and old: "\<forall>i. i \<notin> ?g ` set cs \<longrightarrow> rd ys' i = rd ys i"
    using foldR_copyCell[OF m ab C(1) f g inj] src dst unfolding copyBody_def by (auto simp: mr_holds_def)
  have dst': "mr_holds dst (setMem b ys' h) b ys' bb" by (rule mr_holds_setMem[OF dst len])
  have "mr_cell dst c (setMem b ys' h) = (if c \<in> set cs then mr_cell src c h else mr_cell dst c h)"
    if c: "inBox (rgSizes dst) c" for c
  proof -
    have rd: "mr_cell dst c (setMem b ys' h) = rd ys' (?g c)" "mr_cell dst c h = rd ys (?g c)"
      using dst dst' by (simp_all add: mr_cell_def coordToPtr_def mr_holds_def hread_mem)
    have "inj_on ?g {c. inBox (rgSizes dst) c}" using dst by (auto simp: mr_holds_def inj_on_def)
    then have "?g c \<in> ?g ` set cs \<longleftrightarrow> c \<in> set cs"
      by (rule inj_on_image_mem_iff) (use C(2) c in auto)
    moreover have "mr_cell src c h = rd xs (?f c)" using src by (simp add: mr_cell_def coordToPtr_def mr_holds_def hread_mem)
    ultimately show ?thesis using rd new old by (cases "c \<in> set cs") simp_all
  qed
  moreover have "hread (Some s) i (setMem b ys' h) = hread (Some s) i h"
    if "Some s \<noteq> rgStorage dst \<or> (\<forall>c \<in> set cs. Inr i \<noteq> coordToPtr dst c)" for s i
  proof (cases "s = b")
    case True
    then have "i \<notin> ?g ` set cs" using that dst by (auto simp: mr_holds_def coordToPtr_def)
    then show ?thesis using True old m(2) by (simp add: hread_def storageData_def)
  qed (simp add: hread_def storageData_def)
  ultimately show ?thesis using r dst' unfolding copied_def mr_ok_def by auto
qed

lemma mr_copyAll_copied:
  assumes "mr_holds src h a xs ba" "mr_holds dst h b ys bb" "a \<noteq> b"
    "rgSizes src = rgSizes dst" "rgSizes r = rgSizes dst" "sizes_pos (rgSizes dst)"
  shows "\<exists>h'. mr_copyAll r src dst h = Inr h' \<and> copied src dst {c. inBox (rgSizes dst) c} h h'"
proof -
  have "set (box (rgSizes dst)) = {c. inBox (rgSizes dst) c}" using set_box[OF assms(6)] by auto
  then show ?thesis
    using foldR_copyBody[OF assms(1-3), of "box (rgSizes dst)"] set_box[OF assms(6)] assms(4)
    by (simp add: mr_copyAll_def mr_incCoord_def[abs_def] assms(5) rdi_loop)
qed

text \<open>C27: every way to make a region from another, a window, a slice or the transposed region, only renames
  cells: reading or writing the view at a coordinate is reading or writing the original region at
  the coordinate that the view stands for, which is inside the original.\<close>

theorem region_views_rename:
  assumes "length (rgMults r) = length (rgSizes r)"
  shows "(within c1 c2 r \<and> inBox (rgSizes (mr_region c1 c2 r)) c \<longrightarrow>
      mr_cell (mr_region c1 c2 r) c h = mr_cell r (map2 (+) c1 c) h \<and>
      mr_set (mr_region c1 c2 r) c v h = mr_set r (map2 (+) c1 c) v h \<and> inBox (rgSizes r) (map2 (+) c1 c)) \<and>
    (d < length (rgSizes r) \<and> 0 \<le> pos \<and> pos < rgSizes r ! d \<and> inBox (rgSizes (mr_slice d pos r)) c \<longrightarrow>
      mr_cell (mr_slice d pos r) c h = mr_cell r (take d c @ pos # drop d c) h \<and>
      mr_set (mr_slice d pos r) c v h = mr_set r (take d c @ pos # drop d c) v h \<and>
      inBox (rgSizes r) (take d c @ pos # drop d c)) \<and>
    (inBox (rgSizes (mr_transposed r)) c \<longrightarrow>
      mr_cell (mr_transposed r) c h = mr_cell r (rev c) h \<and> mr_set (mr_transposed r) c v h = mr_set r (rev c) v h \<and>
      inBox (rgSizes r) (rev c))"
  using regionView.view_cell[of "(c1, c2)" r c] regionView.inside[of "(c1, c2)" r c]
    sliceView.view_cell[of "(d, pos)" r c] sliceView.inside[of "(d, pos)" r c]
    transposedView.view_cell[OF TrueI, of r c] transposedView.inside[OF TrueI, of r c] assms by auto

section \<open>Copies between regions\<close>

lemma copied_src:
  assumes "copied src dst C h h'" "rgStorage src \<noteq> rgStorage dst"
  shows "mr_cell src c h' = mr_cell src c h"
proof (cases "rgStorage src")
  case (Some a)
  then have "hread (Some a) i h' = hread (Some a) i h" for i using assms by (simp add: copied_def)
  then show ?thesis using Some by (simp add: mr_cell_def)
qed (simp add: mr_cell_def hread_def storageData_def)

lemma copied_src_ok:
  assumes "copied src dst C h h'" "rgStorage src \<noteq> rgStorage dst" "mr_holds src h a xs b"
  shows "\<exists>xs'. mr_holds src h' a xs' b"
proof -
  have same: "hread (Some a) i h' = rd xs i" for i
    using assms by (simp add: copied_def mr_holds_def hread_mem)
  show ?thesis
  proof (cases "mem h' a")
    case None
    then have "hread (Some a) i h' = Inl NullDeref" for i by (simp add: hread_def storageData_def)
    then show ?thesis using same[of 0] by (auto simp: rd_def split: if_splits)
  next
    case (Some ys)
    then have rd: "rd ys i = rd xs i" for i using same by (simp add: hread_mem)
    have "int (length xs) \<le> int (length ys)"
    proof (rule ccontr)
      assume "\<not> int (length xs) \<le> int (length ys)"
      then show False using rd[of "int (length ys)"] by (simp add: rd_def)
    qed
    then show ?thesis using assms(3) Some by (fastforce simp: mr_holds_def)
  qed
qed

lemma copied_trans:
  assumes "copied src dst C h h1" "copied src dst D h1 h2" "rgStorage src \<noteq> rgStorage dst"
  shows "copied src dst (C \<union> D) h h2"
  using assms(1,2) copied_src[OF assms(1,3)] unfolding copied_def by auto

lemma copied_none: "mr_ok dst h \<Longrightarrow> copied src dst {} h h"
  by (simp add: copied_def)

lemma between_empty:
  "length c1 = length c2 \<Longrightarrow> \<exists>(a, b) \<in> set (zip c1 c2). a \<ge> b \<Longrightarrow> \<not> between c1 c2 c"
  by (force simp: between_def set_zip)

lemma mr_copyBox_copied:
  assumes ok: "mr_ok src h" "mr_ok dst h" and st: "rgStorage src \<noteq> rgStorage dst" and sz: "rgSizes src = rgSizes dst"
    and box: "length c1 = length c2" "\<forall>c. between c1 c2 c \<longrightarrow> inBox (rgSizes dst) c"
  shows "\<exists>h'. mr_copyBox src dst c1 c2 h = Inr h' \<and> copied src dst {c. between c1 c2 c} h h'"
proof (cases "\<exists>(a, b) \<in> set (zip c1 c2). a \<ge> b")
  case True
  then have "{c. between c1 c2 c} = {}" using between_empty[OF box(1)] by blast
  then show ?thesis using True st copied_none[OF ok(2)] by (auto simp: mr_copyBox_def)
next
  case False
  then have lt: "\<forall>i < length c1. c1 ! i < c2 ! i" using box(1) by (fastforce simp: set_zip)
  have w: "set (walk (boundDims c1 c2)) = {c. between c1 c2 c}" using set_boundWalk[OF box(1) lt] by auto
  have "map fst (boundDims c1 c2) = c1"
    unfolding boundDims_def using box(1) by (induction c1 c2 rule: list_induct2) auto
  then have "mr_copyBox src dst c1 c2 h = foldR (copyBody src dst) (walk (boundDims c1 c2)) h"
    using boundWalk.loop_eq[of "(c1, c2)" "copyBody src dst" h] False st box(1) by (simp add: mr_copyBox_def)
  moreover obtain a xs ba b ys bb where "mr_holds src h a xs ba" "mr_holds dst h b ys bb"
    using ok by (auto simp: mr_ok_def)
  moreover from this st have "a \<noteq> b" by (auto simp: mr_holds_def)
  ultimately show ?thesis
    using foldR_copyBody[of src h a xs ba dst b ys bb "walk (boundDims c1 c2)"] w box(2) sz by simp
qed

text \<open>C28: \<open>copyTo\<close> with a list of boxes copies the cells in the union of the boxes, whether or not the boxes
  overlap, and changes no other element of any storage; \<open>copyFrom_unsafe\<close> is the same copy seen
  from the other side.\<close>

theorem copyToBoxes_correct:
  assumes "mr_ok src h" "mr_ok dst h" "rgStorage src \<noteq> rgStorage dst" "rgSizes src = rgSizes dst" "boxes \<noteq> []"
    and "\<forall>(c1, c2) \<in> set boxes. length c1 = length c2 \<and> (\<forall>c. between c1 c2 c \<longrightarrow> inBox (rgSizes dst) c)"
  shows "\<exists>h'. mr_copyToBoxes src dst boxes h = Inr h' \<and> mr_copyFromBoxes_unsafe dst src boxes h = Inr h' \<and>
    copied src dst {c. \<exists>(c1, c2) \<in> set boxes. between c1 c2 c} h h'"
proof -
  have "\<exists>h'. foldR (\<lambda>(c1, c2). mr_copyBox src dst c1 c2) bs h = Inr h' \<and>
      copied src dst {c. \<exists>(c1, c2) \<in> set bs. between c1 c2 c} h h'"
    if "mr_ok src h" "mr_ok dst h"
      "\<forall>(c1, c2) \<in> set bs. length c1 = length c2 \<and> (\<forall>c. between c1 c2 c \<longrightarrow> inBox (rgSizes dst) c)" for bs h
    using that
  proof (induction bs arbitrary: h)
    case Nil
    then show ?case using copied_none by simp
  next
    case (Cons bx bs)
    obtain c1 c2 where bx: "bx = (c1, c2)" by (cases bx)
    obtain h1 where h1: "mr_copyBox src dst c1 c2 h = Inr h1" "copied src dst {c. between c1 c2 c} h h1"
      using mr_copyBox_copied[OF Cons.prems(1,2) assms(3,4), of c1 c2] Cons.prems(3) bx by auto
    have ok: "mr_ok src h1" "mr_ok dst h1"
      using copied_src_ok[OF h1(2) assms(3)] Cons.prems(1) h1(2) unfolding mr_ok_def[of src] copied_def by blast+
    obtain h2 where h2: "foldR (\<lambda>(c1, c2). mr_copyBox src dst c1 c2) bs h1 = Inr h2"
        "copied src dst {c. \<exists>(c1, c2) \<in> set bs. between c1 c2 c} h1 h2"
      using Cons.IH[OF ok] Cons.prems(3) by auto
    have "{c. \<exists>(c1, c2) \<in> set (bx # bs). between c1 c2 c} =
        {c. between c1 c2 c} \<union> {c. \<exists>(c1, c2) \<in> set bs. between c1 c2 c}" using bx by auto
    then show ?case using h1(1) h2(1) copied_trans[OF h1(2) h2(2) assms(3)] bx by auto
  qed
  from this[OF assms(1,2,6)] show ?thesis
    using assms(3,5) by (simp add: mr_copyToBoxes_def mr_copyFromBoxes_unsafe_def mr_copyToBox_def[abs_def]
        mr_copyFromBox_unsafe_def[abs_def] eq_commute[of "rgStorage dst"])
qed

lemma hwrite_length: "hwrite st i v h = Inr h' \<Longrightarrow> map_option length (mem h' s) = map_option length (mem h s)"
  by (auto simp: hwrite_def rmap_Inr_iff rbind_Inr_iff storageData_def split: option.splits dest!: wr_length)

lemma foldR_copyBody_length:
  "foldR (copyBody r t) cs h = Inr h' \<Longrightarrow> map_option length (mem h' s) = map_option length (mem h s)"
proof (induction cs arbitrary: h)
  case (Cons c cs)
  then obtain h1 where "copyBody r t c h = Inr h1" "foldR (copyBody r t) cs h1 = Inr h'"
    by (auto simp: rbind_Inr_iff)
  moreover from this(1) have "map_option length (mem h1 s) = map_option length (mem h s)"
    by (auto simp: copyBody_def copyCell_def rbind_Inr_iff dest: hwrite_length)
  ultimately show ?case using Cons.IH by simp
qed simp

lemma mr_copyAll_empty:
  assumes "mem h a = Some xs" "rgStorage r = Some a" "rgBase r \<noteq> None"
    and "mem h b = Some []" "rgStorage t = Some b" "rgBase t \<noteq> None" "0 < length (rgSizes r)"
  shows "mr_copyAll r r t h = Inl OutOfBounds"
proof -
  have "copyBody r t (replicate (length (rgSizes r)) 0) h = Inl OutOfBounds"
    using assms by (auto simp: copyBody_def copyCell_def coordToPtr_def hread_mem hwrite_mem wr_def rd_def)
  then show ?thesis unfolding mr_copyAll_def by (subst doWhile.simps) simp
qed

text \<open>C29: \<open>asNormalizedRegion\<close> answers a region over a whole buffer with the same cells, and leaves the
  region it is asked for unchanged; but for an empty region in a larger storage the loop that copies
  runs once all the same and leaves the new, empty buffer.\<close>

theorem asNormalizedRegion_result:
  assumes ok: "mr_ok r h" and heap: "heap_ok h" and nn: "\<forall>n \<in> set (rgSizes r). 0 \<le> n"
  shows "if sizes_pos (rgSizes r)
    then (\<exists>t h'. asNormalizedRegion cm junk r h = Inr (t, h') \<and> rgSizes t = rgSizes r \<and> mr_isEntireBuffer t h' \<and>
      (\<forall>c. inBox (rgSizes r) c \<longrightarrow> mr_cell t c h' = mr_cell r c h \<and> mr_cell r c h' = mr_cell r c h))
    else asNormalizedRegion cm junk r h = (if mr_isEntireBuffer r h then Inr (r, h) else Inl OutOfBounds)"
proof -
  obtain a xs ba where r: "mr_holds r h a xs ba" using ok by (auto simp: mr_ok_def)
  obtain t h1 where t: "mr_allocate cm junk (rgSizes r) h = (t, h1)" by (cases "mr_allocate cm junk (rgSizes r) h")
  show ?thesis
  proof (cases "mr_isEntireBuffer r h")
    case True
    then show ?thesis by (auto simp: asNormalizedRegion_def)
  next
    case part: False
    show ?thesis
    proof (cases "sizes_pos (rgSizes r)")
      case True
      obtain s b where s: "mr_holds t h1 s (map junk [0..<nat (prod_list (rgSizes r))]) b" "rgSizes t = rgSizes r"
          "mem h s = None" "\<forall>j. mem h j \<noteq> None \<longrightarrow> mem h1 j = mem h j"
        using mr_allocate_holds[OF True heap t] by blast
      have r1: "mr_holds r h1 a xs ba" and sa: "a \<noteq> s" using r s(3,4) by (auto simp: mr_holds_def)
      obtain h2 where h2: "mr_copyAll r r t h1 = Inr h2" "copied r t {c. inBox (rgSizes t) c} h1 h2"
        using mr_copyAll_copied[OF r1 s(1) sa s(2)[symmetric] s(2)[symmetric]] True s(2) by metis
      have st: "rgStorage r \<noteq> rgStorage t" using r1 s(1) sa by (simp add: mr_holds_def)
      have "mr_cell r c h1 = mr_cell r c h" for c
        using r r1 by (simp add: mr_cell_def coordToPtr_def mr_holds_def hread_mem)
      moreover have "mr_isEntireBuffer t h2"
      proof -
        have "foldR (copyBody r t) (box (rgSizes r)) h1 = Inr h2"
          using h2(1) by (simp add: mr_copyAll_def mr_incCoord_def[abs_def] rdi_loop)
        then have "map_option length (mem h2 s) = map_option length (mem h1 s)" by (rule foldR_copyBody_length)
        moreover have "mem h1 s = Some (map junk [0..<nat (prod_list (rgSizes r))])" using s(1) by (simp add: mr_holds_def)
        ultimately obtain ys where "mem h2 s = Some ys" "length ys = nat (prod_list (rgSizes r))" by auto
        then show ?thesis
          using s(1,2) prod_list_pos[OF True]
          by (simp add: mr_isEntireBuffer_def storageCount_def storageData_def mr_count_def numDataLoop_prod mr_holds_def)
      qed
      moreover have "asNormalizedRegion cm junk r h = Inr (t, h2)"
        using part t h2(1) by (simp add: asNormalizedRegion_def)
      moreover have "\<forall>c. inBox (rgSizes r) c \<longrightarrow> mr_cell t c h2 = mr_cell r c h1"
        using h2(2) s(2) by (simp add: copied_def)
      moreover have "mr_cell r c h2 = mr_cell r c h1" for c using copied_src[OF h2(2) st] .
      ultimately show ?thesis using True s(2) by auto
    next
      case False
      then have "0 \<in> set (rgSizes r)" using nn by (force simp: sizes_pos_def)
      then have "prod_list (rgSizes r) = 0" by (simp add: prod_list_zero_iff)
      then have "mem h1 (nextId h) = Some []" "rgStorage t = Some (nextId h)" "rgBase t = Some 0"
          "nextId h \<noteq> a \<longrightarrow> mem h1 a = mem h a"
        using t by (auto simp: mr_allocate_def newStorage_def numDataLoop_prod Let_def mr_stock_def setStockLayout_def
            mr_transposed_def)
      moreover have "nextId h \<noteq> a" using r heap by (auto simp: mr_holds_def heap_ok_def)
      moreover have "0 < length (rgSizes r)" using \<open>0 \<in> set (rgSizes r)\<close> by (cases "rgSizes r") auto
      ultimately have "mr_copyAll r r t h1 = Inl OutOfBounds"
        using r by (intro mr_copyAll_empty[of h1 a xs r "nextId h"]) (auto simp: mr_holds_def)
      then show ?thesis using False part t by (simp add: asNormalizedRegion_def)
    qed
  qed
qed

end
