(* ===== verification/Memoization.thy ===== *)
theory Memoization
  imports MatrixRegions "HOL-Library.Countable"
begin

text \<open>
  \<open>MatrixStorageInfo\<close> of \<open>runtime/matrixstorage.h\<close> and \<open>runtime/matrixstorage.cpp\<close>: any region with its
  number of dimensions, a hash of its data, and the copies that bring a packed buffer of a GPU back
  into a storage; and the memoization of \<open>runtime/memoization.h\<close>, which compares such descriptions.

  The hash (MD5 or SHA-1 of a crypto library) is the parameter \<open>hsh\<close>, \<open>h0\<close> is the hash that
  \<open>Hash()\<close> makes, and \<open>e0\<close> is the element 0.
\<close>

section \<open>MatrixStorageInfo\<close>

record ('e, 'h) matrixStorageInfo =
  msiStorage :: storagePtr
  msiDimensions :: int
  msiBaseOffset :: int
  msiMultipliers :: "int list"
  msiSizes :: "int list"
  msiExtraVal :: 'e
  msiHash :: 'h
  msiCount :: int
  msiNormalized :: "int list"

text \<open>\<open>base\<close> is an element pointer into \<open>s\<close>, as an offset.\<close>

definition setStorage ::
    "'h \<Rightarrow> storagePtr \<Rightarrow> int \<Rightarrow> ('e, 'h) matrixStorageInfo \<Rightarrow> ('e, 'h) matrixStorageInfo" where
  "setStorage h0 s base m =
     (if s \<noteq> None then m\<lparr>msiStorage := s, msiBaseOffset := base, msiHash := h0\<rparr>
      else m\<lparr>msiStorage := None, msiBaseOffset := 0, msiHash := h0\<rparr>)"

fun sizeLoop :: "int \<Rightarrow> int list \<Rightarrow> int list \<times> int" where
  "sizeLoop count [] = ([], count)"
| "sizeLoop count (n # ns) = (let (ms, c) = sizeLoop (count * n) ns in (count # ms, c))"

definition setSize :: "int list \<Rightarrow> ('e, 'h) matrixStorageInfo \<Rightarrow> ('e, 'h) matrixStorageInfo" where
  "setSize siz m =
     (let (norm, c) = sizeLoop 1 siz
      in m\<lparr>msiDimensions := int (length siz), msiSizes := siz, msiNormalized := norm, msiCount := c\<rparr>)"

definition setMultipliers :: "int list \<Rightarrow> ('e, 'h) matrixStorageInfo \<Rightarrow> ('e, 'h) matrixStorageInfo" where
  "setMultipliers mult m = m\<lparr>msiMultipliers := take (nat (msiDimensions m)) mult\<rparr>"

definition setSizeMultipliers ::
    "int list \<Rightarrow> int list \<Rightarrow> ('e, 'h) matrixStorageInfo \<Rightarrow> ('e, 'h) matrixStorageInfo" where
  "setSizeMultipliers mult siz m = setMultipliers mult (setSize siz m)"

definition setExtraVal :: "'e \<Rightarrow> ('e, 'h) matrixStorageInfo \<Rightarrow> ('e, 'h) matrixStorageInfo" where
  "setExtraVal v m = m\<lparr>msiExtraVal := v\<rparr>"

definition reset :: "'e \<Rightarrow> 'h \<Rightarrow> ('e, 'h) matrixStorageInfo \<Rightarrow> ('e, 'h) matrixStorageInfo" where
  "reset e0 h0 m = (setStorage h0 None 0 (setExtraVal e0 m))\<lparr>msiDimensions := -1\<rparr>"

definition releaseStorage :: "('e, 'h) matrixStorageInfo \<Rightarrow> ('e, 'h) matrixStorageInfo" where
  "releaseStorage m = m\<lparr>msiStorage := None\<rparr>"

definition computeDataHash ::
    "('e list \<Rightarrow> 'h) \<Rightarrow> 'h \<Rightarrow> 'e heap \<Rightarrow> ('e, 'h) matrixStorageInfo \<Rightarrow> ('e, 'h) matrixStorageInfo res" where
  "computeDataHash hsh h0 h m =
     (if msiStorage m \<noteq> None then rmap (\<lambda>xs. m\<lparr>msiHash := hsh xs\<rparr>) (storageData (msiStorage m) h)
      else Inr (m\<lparr>msiHash := h0\<rparr>))"

definition isMetadataMatch :: "('e, 'h) matrixStorageInfo \<Rightarrow> ('e, 'h) matrixStorageInfo \<Rightarrow> bool" where
  "isMetadataMatch a b =
     (if msiDimensions a \<noteq> msiDimensions b then False
      else if msiDimensions a < 0 then False
      else if msiBaseOffset a \<noteq> msiBaseOffset b then False
      else (\<forall>d < nat (msiDimensions a). msiMultipliers a ! d = msiMultipliers b ! d) \<and>
           (\<forall>d < nat (msiDimensions a). msiSizes a ! d = msiSizes b ! d))"


text \<open>\<open>MatrixRegion::exportTo\<close> and \<open>MatrixRegion::copyFrom\<close>.\<close>

definition exportTo ::
    "'e \<Rightarrow> 'h \<Rightarrow> matrixRegion \<Rightarrow> ('e, 'h) matrixStorageInfo \<Rightarrow> ('e, 'h) matrixStorageInfo" where
  "exportTo e0 h0 r m =
     setExtraVal e0 (setSizeMultipliers (rgMults r) (rgSizes r)
       (setStorage h0 (rgStorage r) (case rgBase r of None \<Rightarrow> 0 | Some b \<Rightarrow> b) m))"

definition mr_copyFrom :: "matrixRegion \<Rightarrow> ('e, 'h) matrixStorageInfo \<Rightarrow> 'e heap \<Rightarrow> 'e heap res" where
  "mr_copyFrom r m h =
     (if msiStorage m \<noteq> rgStorage r
      then rbind (storageData (msiStorage m) h) (\<lambda>xs. rbind (storageData (rgStorage r) h) (\<lambda>ys.
             if length xs < length ys then Inl OutOfBounds
             else Inr (setMem (the (rgStorage r)) (take (length ys) xs) h)))
      else Inr h)"

section \<open>Indices and copies\<close>

definition coordToIndex :: "('e, 'h) matrixStorageInfo \<Rightarrow> coord \<Rightarrow> int" where
  "coordToIndex m c = msiBaseOffset m + coordToOffsetLoop 0 c (msiMultipliers m)"

definition coordToNormalizedIndex :: "('e, 'h) matrixStorageInfo \<Rightarrow> coord \<Rightarrow> int" where
  "coordToNormalizedIndex m c = coordToOffsetLoop 0 c (msiNormalized m)"

definition msi_incCoord :: "('e, 'h) matrixStorageInfo \<Rightarrow> coord \<Rightarrow> int \<times> coord" where
  "msi_incCoord m c = incCoord (msiSizes m) c"

definition msi_copyBody :: "('e, 'h) matrixStorageInfo \<Rightarrow> storagePtr \<Rightarrow> storagePtr \<Rightarrow> coord \<Rightarrow> 'e heap \<Rightarrow> 'e heap res" where
  "msi_copyBody m dest src =
     copyCell src (\<lambda>c. Inr (coordToNormalizedIndex m c)) dest (\<lambda>c. Inr (coordToIndex m c))"

definition msi_copy :: "('e, 'h) matrixStorageInfo \<Rightarrow> storagePtr \<Rightarrow> storagePtr \<Rightarrow> 'e heap \<Rightarrow> 'e heap res" where
  "msi_copy m dest src h =
     (if src = dest then Inr h
      else ended (doWhile (msi_incCoord m) (msi_copyBody m dest src) (replicate (length (msiSizes m)) 0) h))"

definition msi_copyBox ::
    "('e, 'h) matrixStorageInfo \<Rightarrow> storagePtr \<Rightarrow> storagePtr \<Rightarrow> coord \<Rightarrow> coord \<Rightarrow> 'e heap \<Rightarrow> 'e heap res" where
  "msi_copyBox m dest src c1 c2 h =
     (if src = dest then Inr h
      else if \<exists>(a, b) \<in> set (zip c1 c2). a \<ge> b then Inr h
      else ended (doWhile (incCoordWithBound c1 c2) (msi_copyBody m dest src) c1 h))"

definition msi_copyBoxes ::
    "('e, 'h) matrixStorageInfo \<Rightarrow> storagePtr \<Rightarrow> storagePtr \<Rightarrow> (coord \<times> coord) list \<Rightarrow> 'e heap \<Rightarrow> 'e heap res" where
  "msi_copyBoxes m dest src boxes h =
     (if src = dest then Inr h
      else if boxes = [] then msi_copy m dest src h
      else foldR (\<lambda>(c1, c2). msi_copyBox m dest src c1 c2) boxes h)"

section \<open>The part on the GPU\<close>

text \<open>\<open>lastRow\<close> is \<open>_lastRowOnGpu\<close>, \<open>es\<close> the size of an element in bytes.  \<open>overlap\<close> adds a number of
  bytes to an element pointer; addresses here are in elements.\<close>

definition countOnGpu :: "('e, 'h) matrixStorageInfo \<Rightarrow> int \<Rightarrow> int" where
  "countOnGpu m lastRow = msiNormalized m ! nat (msiDimensions m - 1) * lastRow"

definition bytesAt :: "int \<Rightarrow> ('e, 'h) matrixStorageInfo \<Rightarrow> int \<Rightarrow> int" where
  "bytesAt es m offset =
     (if msiDimensions m = 0 then es else msiNormalized m ! nat (msiDimensions m - 1) * offset * es)"

definition bytesOnGpu :: "int \<Rightarrow> ('e, 'h) matrixStorageInfo \<Rightarrow> int \<Rightarrow> int" where
  "bytesOnGpu es m lastRow =
     (if msiDimensions m = 0 then es else msiNormalized m ! nat (msiDimensions m - 1) * lastRow * es)"

definition intervalsMeet :: "int \<Rightarrow> int \<Rightarrow> int \<Rightarrow> int \<Rightarrow> bool" where
  "intervalsMeet this_i this_f that_i that_f =
     (if this_i \<ge> that_i \<and> this_i < that_f then True
      else if this_f > that_i \<and> this_f \<le> that_f then True
      else if that_i \<ge> this_i \<and> that_i < this_f then True
      else if that_f > this_i \<and> that_f \<le> this_f then True
      else False)"

definition overlap ::
    "int \<Rightarrow> int \<Rightarrow> ('e, 'h) matrixStorageInfo \<Rightarrow> int \<Rightarrow> int \<Rightarrow> ('e, 'h) matrixStorageInfo \<Rightarrow> int \<Rightarrow> bool" where
  "overlap es base a lastA base' b lastB =
     intervalsMeet base (base + bytesOnGpu es a lastA) base' (base' + bytesOnGpu es b lastB)"

definition overlapRow ::
    "int \<Rightarrow> int \<Rightarrow> ('e, 'h) matrixStorageInfo \<Rightarrow> int \<Rightarrow> int \<Rightarrow> ('e, 'h) matrixStorageInfo \<Rightarrow> int \<Rightarrow> bool" where
  "overlapRow es base a lastA base' b offset =
     intervalsMeet base (base + bytesOnGpu es a lastA) (base' + bytesAt es b offset) (base' + bytesAt es b (offset + 1))"

section \<open>Memoization\<close>

record ('e, 'h) memoizationInstance =
  miInputs :: "('e, 'h) matrixStorageInfo list"
  miOutputs :: "('e, 'h) matrixStorageInfo list"



fun hashAll ::
    "('e list \<Rightarrow> 'h) \<Rightarrow> 'h \<Rightarrow> 'e heap \<Rightarrow> ('e, 'h) matrixStorageInfo list \<Rightarrow> ('e, 'h) matrixStorageInfo list res" where
  "hashAll hsh h0 h [] = Inr []"
| "hashAll hsh h0 h (m # ms) =
     rbind (computeDataHash hsh h0 h m) (\<lambda>m'. rmap ((#) m') (hashAll hsh h0 h ms))"


definition hashOutputs ::
    "('e list \<Rightarrow> 'h) \<Rightarrow> 'h \<Rightarrow> 'e heap \<Rightarrow> ('e, 'h) memoizationInstance \<Rightarrow> ('e, 'h) memoizationInstance res" where
  "hashOutputs hsh h0 h mi = rmap (\<lambda>ms. mi\<lparr>miOutputs := ms\<rparr>) (hashAll hsh h0 h (miOutputs mi))"


definition releaseInputStorage :: "('e, 'h) memoizationInstance \<Rightarrow> ('e, 'h) memoizationInstance" where
  "releaseInputStorage mi = mi\<lparr>miInputs := map releaseStorage (miInputs mi)\<rparr>"


section \<open>Exported regions\<close>

lemma sizeLoop_eq: "sizeLoop c sz = (stockLoop c sz, c * prod_list sz)"
  by (induction sz arbitrary: c) auto

lemma setSize_simps [simp]:
  "msiDimensions (setSize sz m) = int (length sz)" "msiSizes (setSize sz m) = sz"
  "msiNormalized (setSize sz m) = stockLoop 1 sz" "msiCount (setSize sz m) = prod_list sz"
  "msiStorage (setSize sz m) = msiStorage m" "msiBaseOffset (setSize sz m) = msiBaseOffset m"
  "msiHash (setSize sz m) = msiHash m" "msiMultipliers (setSize sz m) = msiMultipliers m"
  by (simp_all add: setSize_def sizeLoop_eq)

lemma exportTo_simps [simp]:
  "msiDimensions (exportTo e0 h0 r m) = int (length (rgSizes r))" "msiSizes (exportTo e0 h0 r m) = rgSizes r"
  "msiNormalized (exportTo e0 h0 r m) = stockLoop 1 (rgSizes r)" "msiStorage (exportTo e0 h0 r m) = rgStorage r"
  "msiMultipliers (exportTo e0 h0 r m) = take (length (rgSizes r)) (rgMults r)"
  "msiBaseOffset (exportTo e0 h0 r m) = (if rgStorage r = None then 0 else case rgBase r of None \<Rightarrow> 0 | Some b \<Rightarrow> b)"
  by (simp_all add: exportTo_def setExtraVal_def setSizeMultipliers_def setMultipliers_def setStorage_def)

lemma coordToPtr_exported:
  "rgStorage r = Some s \<Longrightarrow> rgBase r = Some b \<Longrightarrow> length (rgMults r) = length (rgSizes r) \<Longrightarrow>
   coordToPtr r c = Inr (coordToIndex (exportTo e0 h0 r m) c)"
  by (simp add: coordToPtr_def coordToIndex_def offsetLoop_dot mr_offset_dot)

text \<open>Two exported regions match when they have the same window of their storages.\<close>

lemma exported_match:
  assumes "rgStorage r = Some s" "rgBase r = Some b" "rgStorage r' = Some s'" "rgBase r' = Some b'"
    "length (rgMults r) = length (rgSizes r)" "length (rgMults r') = length (rgSizes r')"
  shows "isMetadataMatch (exportTo e0 h0 r m) (exportTo e0 h0 r' m') \<longleftrightarrow>
    rgSizes r = rgSizes r' \<and> rgMults r = rgMults r' \<and> b = b'"
  using assms by (auto simp: isMetadataMatch_def list_eq_iff_nth_eq)

section \<open>Copying back from the GPU\<close>

text \<open>C30: copying a packed GPU buffer back through a \<open>MatrixStorageInfo\<close> is \<open>copyTo\<close> from a region that has the
  buffer for itself to the region that the info describes.\<close>

theorem copyback_is_copyTo:
  assumes "rgStorage r = Some s" "rgBase r = Some b" "length (rgMults r) = length (rgSizes r)"
  shows "msi_copyBoxes (exportTo e0 h0 r m) (rgStorage r) (Some g) boxes h =
    mr_copyToBoxes (mr_stock (Some g) (Some 0) (rgSizes r) LAYOUT_ASCENDING) r boxes h"
proof -
  let ?g = "mr_stock (Some g) (Some 0) (rgSizes r) LAYOUT_ASCENDING" and ?m = "exportTo e0 h0 r m"
  have g: "rgStorage ?g = Some g" "rgSizes ?g = rgSizes r" by (simp_all add: mr_stock_def setStockLayout_def)
  have "coordToPtr ?g = (\<lambda>c. Inr (coordToNormalizedIndex ?m c))"
    by (simp add: fun_eq_iff coordToPtr_def mr_offset_dot coordToNormalizedIndex_def offsetLoop_dot mr_stock_def setStockLayout_def)
  then have body: "msi_copyBody ?m (rgStorage r) (Some g) = copyBody ?g r"
    using coordToPtr_exported[OF assms, of _ e0 h0 m]
    by (simp add: msi_copyBody_def copyBody_def g(1) ext[of "coordToPtr r" "\<lambda>c. Inr (coordToIndex ?m c)"])
  have "msi_incCoord ?m = mr_incCoord ?g" by (simp add: fun_eq_iff msi_incCoord_def mr_incCoord_def g(2))
  then show ?thesis
    by (simp add: msi_copyBoxes_def mr_copyToBoxes_def msi_copy_def mr_copyTo_def mr_copyAll_def body g
        msi_copyBox_def[abs_def] mr_copyToBox_def[abs_def] mr_copyBox_def[abs_def] cong: if_cong)
qed

section \<open>What overlaps\<close>

lemma intervalsMeet_iff:
  "a < b \<Longrightarrow> c < d \<Longrightarrow> intervalsMeet a b c d \<longleftrightarrow> (\<exists>x. a \<le> x \<and> x < b \<and> c \<le> x \<and> x < d)"
  by (auto simp: intervalsMeet_def intro!: exI[of _ "max a c"])

text \<open>The bytes are added to element pointers, so regions that are apart are said to overlap.\<close>

lemma overlap_too_wide:
  assumes "m = \<lparr>msiStorage = Some 0, msiDimensions = 1, msiBaseOffset = 0, msiMultipliers = [1], msiSizes = [4],
      msiExtraVal = (0::int), msiHash = (0::nat), msiCount = 4, msiNormalized = [1]\<rparr>"
  shows "overlap 8 0 m 4 4 m 4"
  using assms by (simp add: overlap_def bytesOnGpu_def intervalsMeet_def)

section \<open>Memoization\<close>





section \<open>Witnesses\<close>

definition exHeap :: "int heap" where
  "exHeap = \<lparr>nextId = 2, mem = [0 \<mapsto> [1, 2, 3, 4, 5, 6], 1 \<mapsto> [0, 0, 0, 0, 0, 0]]\<rparr>"

definition exReg :: "nat \<Rightarrow> matrixRegion" where
  "exReg s = mr_stock (Some s) (Some 0) [2, 3] LAYOUT_ASCENDING"

lemma exReg_holds: "s \<in> {0, 1} \<Longrightarrow> mr_ok (exReg s) exHeap"
proof -
  assume "s \<in> {0, 1}"
  then have "mem exHeap s = Some (the (mem exHeap s)) \<and> int (length (the (mem exHeap s))) = prod_list [2, 3]"
    by (auto simp: exHeap_def)
  then have "mr_holds (exReg s) exHeap s (the (mem exHeap s)) 0"
    unfolding exReg_def by (intro mr_stock_holds) simp_all
  then show ?thesis unfolding mr_ok_def by blast
qed

lemma exReg_fields: "rgSizes (exReg s) = [2, 3]" "rgStorage (exReg s) = Some s" "rgBase (exReg s) = Some 0"
    "rgMults (exReg s) = [1, 2]"
  by (simp_all add: exReg_def mr_stock_def setStockLayout_def)

theorem region_views_rename_witness:
  "mr_cell (mr_region [1, 1] [2, 3] (exReg 0)) [0, 1] exHeap = Inr 6 \<and>
   mr_cell (mr_slice 0 1 (exReg 0)) [2] exHeap = Inr 6 \<and> mr_cell (mr_transposed (exReg 0)) [2, 1] exHeap = Inr 6"
proof -
  have "mr_cell (exReg 0) [1, 2] exHeap = Inr 6"
    by (simp add: mr_cell_def coordToPtr_def mr_offset_def exReg_fields exHeap_def hread_mem)
  moreover have "within [1, 1] [2, 3] (exReg 0)" by (simp add: within_def exReg_fields less_Suc_eq)
  ultimately show ?thesis
    using region_views_rename[of "exReg 0" "[1, 1]" "[2, 3]" "[0, 1]" exHeap 0 0 0]
      region_views_rename[of "exReg 0" "[]" "[]" "[2]" exHeap 0 0 1]
      region_views_rename[of "exReg 0" "[]" "[]" "[2, 1]" exHeap 0 0 0]
    by (simp add: exReg_fields mr_region_def mr_slice_def mr_transposed_def without_def)
qed

theorem copyToBoxes_correct_witness:
  "\<exists>h'. mr_copyToBoxes (exReg 0) (exReg 1) [([0, 1], [2, 2]), ([1, 0], [2, 3])] exHeap = Inr h' \<and>
    mr_cell (exReg 1) [1, 2] h' = Inr 6 \<and> mr_cell (exReg 1) [0, 2] h' = Inr 0"
proof -
  have b: "between c1 c2 c \<longrightarrow> inBox [2, 3] c" if "(c1, c2) \<in> {([0, 1], [2, 2]), ([1, 0], [2, 3])}" for c1 c2 c
    using that by (auto simp: between_def inBox_nth less_Suc_eq)
  obtain h' where h': "mr_copyToBoxes (exReg 0) (exReg 1) [([0, 1], [2, 2]), ([1, 0], [2, 3])] exHeap = Inr h'"
      "copied (exReg 0) (exReg 1) {c. \<exists>(c1, c2) \<in> set [([0, 1], [2, 2]), ([1, 0], [2, 3])]. between c1 c2 c} exHeap h'"
    using copyToBoxes_correct[of "exReg 0" exHeap "exReg 1" "[([0, 1], [2, 2]), ([1, 0], [2, 3])]"] b
    by (auto simp: exReg_holds exReg_fields)
  have "mr_cell (exReg 0) [1, 2] exHeap = Inr 6" "mr_cell (exReg 1) [0, 2] exHeap = Inr 0"
    by (simp_all add: mr_cell_def coordToPtr_def mr_offset_def exReg_fields exHeap_def hread_mem)
  moreover have "between [1, 0] [2, 3] [1, 2]" "\<not> between [0, 1] [2, 2] [0, 2]" "\<not> between [1, 0] [2, 3] [0, 2]"
    by (auto simp: between_def less_Suc_eq)
  ultimately have "mr_cell (exReg 1) [1, 2] h' = Inr 6 \<and> mr_cell (exReg 1) [0, 2] h' = Inr 0"
    using h'(2) by (simp add: copied_def exReg_fields)
  then show ?thesis using h'(1) by blast
qed

theorem asNormalizedRegion_result_witness:
  "asNormalizedRegion False (\<lambda>_. 0) (mr_region [0, 0] [0, 3] (exReg 0)) exHeap = Inl OutOfBounds"
proof -
  let ?r = "mr_region [0, 0] [0, 3] (exReg 0)"
  have "within [0, 0] [0, 3] (exReg 0)" by (simp add: within_def exReg_fields less_Suc_eq)
  then have "mr_ok ?r exHeap"
    using regionView.view_holds[of "([0, 0], [0, 3])" "exReg 0" exHeap] exReg_holds[of 0]
    unfolding mr_ok_def case_prod_conv by blast
  moreover have "rgSizes ?r = [0, 3]" by (simp add: mr_region_def)
  moreover have "\<not> mr_isEntireBuffer ?r exHeap"
    by (simp add: mr_isEntireBuffer_def storageCount_def storageData_def exHeap_def mr_region_def mr_count_def exReg_fields)
  moreover have "heap_ok exHeap" by (simp add: heap_ok_def exHeap_def)
  ultimately show ?thesis using asNormalizedRegion_result[of ?r exHeap False "\<lambda>_. 0"] by simp
qed

theorem copyback_is_copyTo_witness:
  "msi_copyBoxes (exportTo 0 (0::nat) (exReg 0) undefined) (Some 0) (Some 1) [([0, 0], [1, 1])] exHeap =
    mr_copyToBoxes (exReg 1) (exReg 0) [([0, 0], [1, 1])] exHeap"
  using copyback_is_copyTo[of "exReg 0" 0 0 0 "0::nat" undefined 1 "[([0, 0], [1, 1])]" exHeap]
  by (simp add: exReg_fields exReg_def[of 1, symmetric] del: One_nat_def)





end
