(* ===== verification/DepDirection.thy ===== *)
theory DepDirection
  imports Prelude
begin

text \<open>
  Directions of data dependencies: \<open>DependencyDirection\<close> of \<open>compiler/matrixdependency.h\<close> and
  \<open>compiler/matrixdependency.cpp\<close>, one mask of bits per dimension.  The masks are C++ \<open>int\<close>s of
  which four bits are used, so integers with the bit operations of the library model them exactly.

  \<^item> \<open>dd_merge\<close>, \<open>dd_add\<close>, \<open>dd_removeDimension\<close>, \<open>isMultioutput\<close>, \<open>removeMultioutput\<close>, \<open>isNone\<close>,
    \<open>canIterateForward\<close> and \<open>canIterateBackward\<close> are the operations of the class.
  \<^item> \<open>mayDepend\<close> is what the masks mean: which cells a cell may read.
\<close>

unbundle bit_operations_syntax

named_theorems mask_simps \<open>tests of the bits of a mask\<close>

type_synonym direction = "int list"

definition D_NONE :: int where "D_NONE = 0"
definition D_LT :: int where "D_LT = 1"
definition D_EQ :: int where "D_EQ = 2"
definition D_GT :: int where "D_GT = 4"
definition D_MULTIOUTPUT :: int where "D_MULTIOUTPUT = 8"
definition D_LE :: int where "D_LE = D_LT OR D_EQ"
definition D_GE :: int where "D_GE = D_GT OR D_EQ"
definition D_NEQ :: int where "D_NEQ = D_LT OR D_GT"
definition D_ALL :: int where "D_ALL = D_LT OR D_EQ OR D_GT"

lemmas direction_defs = D_NONE_def D_LT_def D_EQ_def D_GT_def D_MULTIOUTPUT_def D_LE_def D_GE_def
  D_NEQ_def D_ALL_def

definition dd_new :: "nat \<Rightarrow> int \<Rightarrow> direction" where
  "dd_new dimensions dir = replicate dimensions dir"

definition maskAt :: "direction \<Rightarrow> nat \<Rightarrow> int" where
  "maskAt d i = (if i < length d then d ! i else D_NONE)"

definition dd_merge :: "direction \<Rightarrow> direction \<Rightarrow> direction" where
  "dd_merge left right =
     map (\<lambda>i. D_NONE OR maskAt left i OR maskAt right i) [0..<max (length left) (length right)]"

definition dd_add :: "direction \<Rightarrow> nat \<Rightarrow> int \<Rightarrow> direction res" where
  "dd_add d dim dir = rassert (dim < length d) (Inr (d[dim := d ! dim OR dir]))"

definition dd_removeDimension :: "direction \<Rightarrow> nat \<Rightarrow> direction res" where
  "dd_removeDimension d dimension =
     rassert (dimension < length d) (Inr (take dimension d @ drop (Suc dimension) d))"

definition isMultioutput :: "direction \<Rightarrow> bool" where
  "isMultioutput d = list_ex (\<lambda>m. m AND D_MULTIOUTPUT \<noteq> 0) d"

definition removeMultioutput :: "direction \<Rightarrow> direction" where
  "removeMultioutput d = map (\<lambda>m. m AND NOT D_MULTIOUTPUT) d"

definition isNone :: "direction \<Rightarrow> bool" where
  "isNone d = list_all (\<lambda>m. m = 0) d"

definition canIterateForward :: "int \<Rightarrow> bool" where
  "canIterateForward m = (m AND D_GT = 0)"

definition canIterateBackward :: "int \<Rightarrow> bool" where
  "canIterateBackward m = (m AND D_LT = 0)"

section \<open>Bits of the masks\<close>

lemma mask_bit [mask_simps]:
  "(m AND D_LT = 0) = (\<not> bit m 0)" "(m AND D_EQ = 0) = (\<not> bit m 1)"
  "(m AND D_GT = 0) = (\<not> bit m 2)" "(m AND D_MULTIOUTPUT = 0) = (\<not> bit m 3)"
proof -
  have "(m AND 2 ^ n = 0) = (\<not> bit m n)" for n by (rule and_exp_eq_0_iff_not_bit)
  from this[of 0] this[of 1] this[of 2] this[of 3]
  show "(m AND D_LT = 0) = (\<not> bit m 0)" "(m AND D_EQ = 0) = (\<not> bit m 1)"
    "(m AND D_GT = 0) = (\<not> bit m 2)" "(m AND D_MULTIOUTPUT = 0) = (\<not> bit m 3)"
    by (simp_all add: direction_defs)
qed

lemma canIterate_bit [mask_simps]:
  "canIterateForward m = (\<not> bit m 2)" "canIterateBackward m = (\<not> bit m 0)"
  by (simp_all add: canIterateForward_def canIterateBackward_def mask_simps)

lemma bit_one_int: "bit (1::int) b = (b = 0)"
  by (simp add: bit_1_iff)

lemma only_bit:
  "(m AND NOT D_LT = 0) = (\<forall>b. bit m b \<longrightarrow> b = 0)"
  "(m AND NOT D_GT = 0) = (\<forall>b. bit m b \<longrightarrow> b = 2)"
proof -
  have *: "(m AND NOT (2 ^ n) = 0) = (\<forall>b. bit m b \<longrightarrow> b = n)" for n
  proof -
    have "(m AND NOT (2 ^ n) = 0) = (\<forall>b. \<not> bit (m AND NOT (2 ^ n)) b)"
      by (auto simp: bit_eq_iff)
    then show ?thesis by (auto simp: bit_and_iff bit_not_iff bit_exp_iff)
  qed
  show "(m AND NOT D_LT = 0) = (\<forall>b. bit m b \<longrightarrow> b = 0)"
    "(m AND NOT D_GT = 0) = (\<forall>b. bit m b \<longrightarrow> b = 2)"
    using *[of 0] *[of 2] by (simp_all add: direction_defs)
qed

lemma dd_merge_length [simp]: "length (dd_merge a b) = max (length a) (length b)"
  by (simp add: dd_merge_def)

lemma dd_merge_bit:
  "bit (maskAt (dd_merge a b) i) n = (bit (maskAt a i) n \<or> bit (maskAt b i) n)"
  by (auto simp: maskAt_def dd_merge_def D_NONE_def bit_or_iff)

lemma direction_eqI:
  assumes "length a = length b" and "\<And>i n. bit (maskAt a i) n = bit (maskAt b i) n"
  shows "a = b"
proof (rule nth_equalityI)
  fix i assume i: "i < length a"
  have "bit (a ! i) n = bit (b ! i) n" for n
    using assms(2)[of i n] i assms(1) by (simp add: maskAt_def)
  then show "a ! i = b ! i" by (simp add: bit_eq_iff)
qed (rule assms(1))

lemma dd_merge_idem: "dd_merge a a = a"
  by (rule direction_eqI) (auto simp: dd_merge_bit)

lemma isMultioutput_bit: "isMultioutput d = (\<exists>i < length d. bit (maskAt d i) 3)"
  by (auto simp: isMultioutput_def list_ex_length mask_simps maskAt_def)

lemma removeMultioutput_bit:
  "bit (maskAt (removeMultioutput d) i) n = (bit (maskAt d i) n \<and> n \<noteq> 3)"
proof -
  have "D_MULTIOUTPUT = 2 ^ 3" by (simp add: D_MULTIOUTPUT_def)
  moreover have "bit ((2::int) ^ 3) n = (n = 3)" by (subst bit_exp_iff) auto
  ultimately have "bit D_MULTIOUTPUT n = (n = 3)" by simp
  then have "bit (m AND NOT D_MULTIOUTPUT) n = (bit m n \<and> n \<noteq> 3)" for m
    by (simp add: bit_and_iff bit_not_iff)
  then show ?thesis by (auto simp: maskAt_def removeMultioutput_def D_NONE_def)
qed

lemma removeMultioutput_clears: "\<not> isMultioutput (removeMultioutput d)"
  by (simp add: isMultioutput_bit removeMultioutput_bit)

section \<open>What a direction allows\<close>

text \<open>The bit of a mask that stands for reading at \<open>y\<close> when computing at \<open>x\<close>.\<close>

definition dirBit :: "int \<Rightarrow> int \<Rightarrow> nat" where
  "dirBit x y = (if y < x then 0 else if y = x then 1 else 2)"

text \<open>A rule of direction \<open>order\<close> that computes the cell \<open>x\<close> may read the cell \<open>y\<close>.\<close>

fun mayDepend :: "direction \<Rightarrow> int list \<Rightarrow> int list \<Rightarrow> bool" where
  "mayDepend [] [] [] = True"
| "mayDepend (m # ms) (x # xs) (y # ys) = (bit m (dirBit x y) \<and> mayDepend ms xs ys)"
| "mayDepend _ _ _ = False"

text \<open>Every dimension has a direction of iteration.\<close>

definition splittable :: "direction \<Rightarrow> bool" where
  "splittable d = list_all (\<lambda>m. canIterateForward m \<or> canIterateBackward m) d"

text \<open>For nested loops it suffices that each dimension has one down to the first that all
  dependencies cross.\<close>

fun iterable :: "direction \<Rightarrow> bool" where
  "iterable [] = True"
| "iterable (m # ms) =
     ((canIterateForward m \<or> canIterateBackward m) \<and> (m AND D_EQ = 0 \<or> iterable ms))"

lemma splittable_iterable: "splittable d \<Longrightarrow> iterable d"
  by (induction d) (auto simp: splittable_def)

lemma mayDepend_length: "mayDepend d x y \<Longrightarrow> length x = length d \<and> length y = length d"
  by (induction d x y rule: mayDepend.induct) auto

end
