(* ===== verification/IterationOrders.thy ===== *)
theory IterationOrders
  imports DepDirection
begin

text \<open>
  The order in which the generated code applies a rule to the cells of a region:
  \<open>IterationDefinition\<close> of \<open>compiler/iterationorders.cpp\<close>, the loops of
  \<open>compiler/codegenerator.cpp\<close> it prints, and \<open>split_condition\<close> of \<open>runtime/petabricks.h\<close>.

  The compiler works on formulas; the model takes the bounds of the iteration space as the integers
  that these formulas have when the generated code runs.

  \<^item> \<open>loopNest\<close> lists the cells in the order of the nested loops of \<open>genLoopBegin\<close>.
  \<^item> \<open>fillSplitRegionList\<close>, \<open>splitRegionLess\<close> (\<open>SplitRegionCmp\<close>), \<open>canDependOn\<close> and \<open>genSplitCode\<close>
    divide the space into blocks, order them, and say which block task waits for which.
  \<^item> \<open>runRegion\<close> is the sequential code of a rule: it splits as long as \<open>split_condition\<close> holds.
\<close>

section \<open>The loops\<close>

text \<open>\<open>for(int v=b; v<e; v+=s)\<close> and \<open>for(int v=e-1; v>=b; v-=s)\<close>: the values of \<open>v\<close>.\<close>

partial_function (option) forValues :: "int \<Rightarrow> int \<Rightarrow> int \<Rightarrow> int list option" where
  "forValues v e s =
     (if v < e then Option.bind (forValues (v + s) e s) (\<lambda>vs. Some (v # vs)) else Some [])"

partial_function (option) reverseForValues :: "int \<Rightarrow> int \<Rightarrow> int \<Rightarrow> int list option" where
  "reverseForValues v b s =
     (if v \<ge> b then Option.bind (reverseForValues (v - s) b s) (\<lambda>vs. Some (v # vs)) else Some [])"

declare forValues.simps [code] reverseForValues.simps [code]

text \<open>A dimension iterates forward unless only the backward direction is possible.\<close>

definition iterateForward :: "int \<Rightarrow> bool" where
  "iterateForward m = (canIterateForward m \<or> \<not> canIterateBackward m)"

text \<open>Begin, end and step of a dimension.\<close>

type_synonym loopDim = "int \<times> int \<times> int"

definition loopValues :: "int \<Rightarrow> loopDim \<Rightarrow> int list option" where
  "loopValues m d = (case d of (b, e, s) \<Rightarrow>
     if iterateForward m then forValues b e s else reverseForValues (e - 1) b s)"

fun loopNest :: "direction \<Rightarrow> loopDim list \<Rightarrow> int list list option" where
  "loopNest (m # ms) (d # ds) =
     (case loopValues m d of None \<Rightarrow> None
      | Some vs \<Rightarrow> (if vs = [] then Some [] else
          map_option (\<lambda>cs. concat (map (\<lambda>v. map ((#) v) cs) vs)) (loopNest ms ds)))"
| "loopNest _ _ = Some [[]]"

section \<open>Blocks\<close>

record splitRegion =
  srMin :: "int list"
  srMax :: "int list"
  srPart :: "nat list"

definition sr_push :: "splitRegion \<Rightarrow> int \<Rightarrow> int \<Rightarrow> nat \<Rightarrow> splitRegion" where
  "sr_push r b e f = \<lparr>srMin = srMin r @ [b], srMax = srMax r @ [e], srPart = srPart r @ [f]\<rparr>"

definition sr_empty :: splitRegion where
  "sr_empty = \<lparr>srMin = [], srMax = [], srPart = []\<rparr>"

text \<open>The begin and end of block \<open>i\<close> of \<open>n\<close>.\<close>

definition blockBounds :: "nat \<Rightarrow> int \<times> int \<Rightarrow> nat \<Rightarrow> int \<times> int" where
  "blockBounds n be i = (case be of (b, e) \<Rightarrow>
     let nthPart = cdiv (e - b) (int n) in
     if i = 0 then (b, b + nthPart)
     else (b + nthPart * int i, if i + 1 = n then e else b + nthPart * int (i + 1)))"

primrec fillSplitRegionList :: "nat \<Rightarrow> (int \<times> int) list \<Rightarrow> splitRegion \<Rightarrow> splitRegion list" where
  "fillSplitRegionList n [] r = [r]"
| "fillSplitRegionList n (d # ds) r =
     concat (map (\<lambda>i. fillSplitRegionList n ds
         (sr_push r (fst (blockBounds n d i)) (snd (blockBounds n d i)) i)) (0 # [1..<n]))"

fun orderLess :: "direction \<Rightarrow> 'a::linorder list \<Rightarrow> 'a list \<Rightarrow> bool" where
  "orderLess (m # ms) (p # ps) (q # qs) =
     (if p \<noteq> q then (if iterateForward m then p < q else q < p) else orderLess ms ps qs)"
| "orderLess _ _ _ = False"

definition splitRegionLess :: "direction \<Rightarrow> splitRegion \<Rightarrow> splitRegion \<Rightarrow> bool" where
  "splitRegionLess order a b = orderLess order (srPart a) (srPart b)"

text \<open>\<open>std::sort\<close>; no two blocks compare equal, so every sorting algorithm gives this list.\<close>

primrec insertRegion :: "direction \<Rightarrow> splitRegion \<Rightarrow> splitRegion list \<Rightarrow> splitRegion list" where
  "insertRegion order r [] = [r]"
| "insertRegion order r (x # xs) =
     (if splitRegionLess order r x then r # x # xs else x # insertRegion order r xs)"

definition sortRegions :: "direction \<Rightarrow> splitRegion list \<Rightarrow> splitRegion list" where
  "sortRegions order rs = foldr (insertRegion order) rs []"

fun partsCanDepend :: "direction \<Rightarrow> nat list \<Rightarrow> nat list \<Rightarrow> bool" where
  "partsCanDepend (m # ms) (p # ps) (q # qs) =
     (if p = q then partsCanDepend ms ps qs
      else if m AND (if p < q then D_GT else D_LT) = 0 then False
      else partsCanDepend ms ps qs)"
| "partsCanDepend _ _ _ = True"

definition canDependOn :: "direction \<Rightarrow> splitRegion \<Rightarrow> splitRegion \<Rightarrow> bool" where
  "canDependOn order a b = partsCanDepend order (srPart a) (srPart b)"

definition splitRegions :: "direction \<Rightarrow> nat \<Rightarrow> (int \<times> int) list \<Rightarrow> splitRegion list" where
  "splitRegions order blockNumber ds =
     sortRegions order (fillSplitRegionList blockNumber ds sr_empty)"

text \<open>The tasks of the parallel code: each block with the earlier blocks it depends on.\<close>

definition genSplitCode :: "direction \<Rightarrow> nat \<Rightarrow> (int \<times> int) list \<Rightarrow> (splitRegion \<times> nat list) list" where
  "genSplitCode order blockNumber ds =
     (let regions = splitRegions order blockNumber ds in
      map (\<lambda>a. (regions ! a, filter (\<lambda>b. canDependOn order (regions ! a) (regions ! b)) [0..<a]))
        [0..<length regions])"

section \<open>The sequential code of a rule\<close>

definition split_condition :: "nat \<Rightarrow> int \<Rightarrow> (int \<times> int) list \<Rightarrow> bool" where
  "split_condition blockNumber thresh ds =
     (\<not> list_ex (\<lambda>(b, e). e - b < int blockNumber) ds \<and> list_ex (\<lambda>(b, e). e - b \<ge> thresh) ds)"

text \<open>The cells of a region in the order in which the sequential code computes them: the code of the
  blocks calls the code of the rule again.  The first argument bounds the depth of these calls.\<close>

fun runRegion :: "nat \<Rightarrow> direction \<Rightarrow> nat \<Rightarrow> int \<Rightarrow> (int \<times> int) list \<Rightarrow> int list list option" where
  "runRegion 0 order blockNumber thresh ds = None"
| "runRegion (Suc f) order blockNumber thresh ds =
     (if split_condition blockNumber thresh ds then
        map_option concat (those (map
          (\<lambda>r. runRegion f order blockNumber thresh (zip (srMin r) (srMax r)))
          (splitRegions order blockNumber ds)))
      else loopNest order (map (\<lambda>(b, e). (b, e, 1)) ds))"

end
