(* ===== verification/IterationProofs.thy ===== *)
theory IterationProofs
  imports IterationOrders
begin

text \<open>
  What the iteration orders of theory \<open>IterationOrders\<close> guarantee: the blocks of a split region
  partition it, and cells, blocks and block tasks are executed after everything they may read.
\<close>

section \<open>The order of cells and blocks\<close>


lemma orderLess_asym: "orderLess d x y \<Longrightarrow> \<not> orderLess d y x"
  by (induction d x y rule: orderLess.induct) (auto split: if_splits)

lemma orderLess_trans: "orderLess d x y \<Longrightarrow> orderLess d y z \<Longrightarrow> orderLess d x z"
proof (induction d x y arbitrary: z rule: orderLess.induct)
  case (1 m ms p ps q qs)
  then show ?case by (cases z) (auto split: if_splits)
qed auto

lemma orderLess_total:
  "length x = length d \<Longrightarrow> length y = length d \<Longrightarrow> x \<noteq> y \<Longrightarrow> orderLess d x y \<or> orderLess d y x"
proof (induction d arbitrary: x y)
  case (Cons m ms)
  then show ?case by (cases x; cases y) auto
qed simp

lemma sorted_wrt_before:
  assumes "sorted_wrt P cs" "x \<in> set cs" "y \<in> set cs" "P y x" "x \<noteq> y" "\<not> P x y"
  shows "\<exists>i j. i < j \<and> j < length cs \<and> cs ! i = y \<and> cs ! j = x"
proof -
  obtain i j where ij: "i < length cs" "cs ! i = y" "j < length cs" "cs ! j = x"
    using assms(2,3) by (auto simp: in_set_conv_nth)
  have "\<not> j < i" using sorted_wrt_nth_less[OF assms(1), of j i] ij assms(6) by auto
  moreover have "i \<noteq> j" using ij assms(5) by auto
  ultimately show ?thesis using ij by (intro exI[of _ i] exI[of _ j]) auto
qed



section \<open>The loops\<close>



text \<open>The values that a loop takes.\<close>

definition onGrid :: "int \<Rightarrow> loopDim \<Rightarrow> int \<Rightarrow> bool" where
  "onGrid m d x = (case d of (b, e, s) \<Rightarrow>
     if iterateForward m then \<exists>k::nat. x = b + s * int k \<and> x < e
     else \<exists>k::nat. x = e - 1 - s * int k \<and> b \<le> x)"

lemma onGrid_unit [simp]: "onGrid m (b, e, 1) x = (b \<le> x \<and> x < e)"
proof -
  have "(\<exists>k::nat. x = b + 1 * int k \<and> x < e) = (b \<le> x \<and> x < e)"
    by (auto intro: exI[of _ "nat (x - b)"])
  moreover have "(\<exists>k::nat. x = e - 1 - 1 * int k \<and> b \<le> x) = (b \<le> x \<and> x < e)"
    by (auto intro: exI[of _ "nat (e - 1 - x)"])
  ultimately show ?thesis by (simp add: onGrid_def)
qed


fun inLoops :: "direction \<Rightarrow> loopDim list \<Rightarrow> int list \<Rightarrow> bool" where
  "inLoops (m # ms) (d # ds) (x # xs) = (onGrid m d x \<and> inLoops ms ds xs)"
| "inLoops [] [] [] = True"
| "inLoops _ _ _ = False"

lemma inLoops_Nil [simp]: "inLoops [] [] x = (x = [])"
  by (cases x) auto



section \<open>The blocks\<close>

abbreviation inRange :: "int \<times> int \<Rightarrow> int \<Rightarrow> bool" where
  "inRange d x \<equiv> fst d \<le> x \<and> x < snd d"

definition inBox :: "(int \<times> int) list \<Rightarrow> int list \<Rightarrow> bool" where
  "inBox ds x = list_all2 inRange ds x"

definition inRegion :: "splitRegion \<Rightarrow> int list \<Rightarrow> bool" where
  "inRegion r x = inBox (zip (srMin r) (srMax r)) x"

lemma block_first: "blockBounds n d 0 = (fst d, fst d + cdiv (snd d - fst d) (int n))"
  by (cases d) (simp add: blockBounds_def Let_def)

lemma block_bounds:
  assumes "i < n" "fst d \<le> snd d"
  shows "blockBounds n d i = (let q = (snd d - fst d) div int n in
      (fst d + q * int i, if i + 1 = n then snd d else fst d + q * int (i + 1)))"
proof -
  have "cdiv (snd d - fst d) (int n) = (snd d - fst d) div int n"
    using assms by (intro cdiv_nonneg) auto
  moreover have "fst d + (snd d - fst d) div int n = snd d" if "n = 1" using that by simp
  ultimately show ?thesis
    by (cases d) (auto simp: blockBounds_def Let_def)
qed

lemma block_range:
  assumes "i < n" "fst d \<le> snd d" "inRange (blockBounds n d i) x"
  shows "inRange d x"
proof -
  let ?q = "(snd d - fst d) div int n"
  have q: "0 \<le> ?q" using assms(1,2) by (intro pos_imp_zdiv_nonneg_iff[THEN iffD2]) auto
  have le: "?q * int n \<le> snd d - fst d" using assms(1) pos_mod_sign[of "int n" "snd d - fst d"]
    by (simp add: minus_mod_eq_div_mult [symmetric])
  have lo: "0 \<le> ?q * int i" using q by simp
  have hi: "?q * int (i + 1) \<le> ?q * int n" using q assms(1) by (intro mult_left_mono) auto
  show ?thesis using assms(3) lo hi le
    by (auto simp: block_bounds[OF assms(1,2)] Let_def split: if_splits)
qed

lemma block_mono:
  assumes "i < j" "j < n" "fst d \<le> snd d" "inRange (blockBounds n d i) x" "inRange (blockBounds n d j) y"
  shows "x < y"
proof -
  let ?q = "(snd d - fst d) div int n"
  have q: "0 \<le> ?q" using assms(2,3) by (intro pos_imp_zdiv_nonneg_iff[THEN iffD2]) auto
  have "?q * int (i + 1) \<le> ?q * int j" using q assms(1) by (intro mult_left_mono) auto
  moreover have "x < fst d + ?q * int (i + 1)"
    using assms by (simp add: block_bounds Let_def)
  moreover have "fst d + ?q * int j \<le> y"
    using assms by (simp add: block_bounds Let_def)
  ultimately show ?thesis by linarith
qed

lemma block_exists:
  assumes "0 < n" "fst d \<le> snd d" "inRange d x"
  shows "\<exists>i < n. inRange (blockBounds n d i) x"
proof -
  let ?q = "(snd d - fst d) div int n"
  have q: "0 \<le> ?q" using assms(1,2) by (intro pos_imp_zdiv_nonneg_iff[THEN iffD2]) auto
  show ?thesis
  proof (cases "fst d + ?q * int (n - 1) \<le> x")
    case True
    then show ?thesis using assms
      by (intro exI[of _ "n - 1"]) (simp add: block_bounds Let_def)
  next
    case False
    then have "?q \<noteq> 0" using assms(3) by auto
    then have q0: "0 < ?q" using q by simp
    define i where "i = nat ((x - fst d) div ?q)"
    have nn: "0 \<le> (x - fst d) div ?q" using q0 assms(3) by (simp add: pos_imp_zdiv_nonneg_iff)
    have i: "?q * int i = x - fst d - (x - fst d) mod ?q"
      using nn by (simp add: i_def minus_mod_eq_mult_div)
    have lo: "?q * int i \<le> x - fst d" and hi: "x - fst d < ?q * int (i + 1)"
      using i pos_mod_sign[OF q0, of "x - fst d"] pos_mod_bound[OF q0, of "x - fst d"]
      by (simp_all add: distrib_left)
    have "?q * int i < ?q * int (n - 1)" using lo False by simp
    then have "int i < int (n - 1)" using q0 by simp
    then have "i < n" "i + 1 \<noteq> n" by auto
    then show ?thesis using lo hi assms(2)
      by (intro exI[of _ i]) (simp add: block_bounds Let_def)
  qed
qed

text \<open>The part numbers of all blocks, and the block with given part numbers.\<close>

primrec partTuples :: "nat \<Rightarrow> nat \<Rightarrow> nat list list" where
  "partTuples n 0 = [[]]"
| "partTuples n (Suc k) = concat (map (\<lambda>i. map ((#) i) (partTuples n k)) (0 # [1..<n]))"

definition blockOf :: "nat \<Rightarrow> (int \<times> int) list \<Rightarrow> nat list \<Rightarrow> splitRegion" where
  "blockOf n ds ps = \<lparr>srMin = map2 (\<lambda>d p. fst (blockBounds n d p)) ds ps,
     srMax = map2 (\<lambda>d p. snd (blockBounds n d p)) ds ps, srPart = ps\<rparr>"

lemma srPart_blockOf [simp]: "srPart (blockOf n ds ps) = ps"
  by (simp add: blockOf_def)

lemma partTuples_set:
  "0 < n \<Longrightarrow> ps \<in> set (partTuples n k) \<longleftrightarrow> length ps = k \<and> (\<forall>p \<in> set ps. p < n)"
proof (induction k arbitrary: ps)
  case (Suc k)
  have "set (0 # [1..<n]) = {..<n}" using Suc(2) by auto
  then show ?case using Suc by (cases ps) (auto simp: image_iff)
qed auto

lemma distinct_partTuples: "distinct (partTuples n k)"
proof (induction k)
  case (Suc k)
  have *: "distinct (concat (map (\<lambda>i. map ((#) i) (partTuples n k)) is))" if "distinct is" for "is"
    using that Suc by (induction "is") (auto simp: distinct_map)
  show ?case using *[of "0 # [1..<n]"] by simp
qed simp

lemma fillSplitRegionList_blocks:
  "fillSplitRegionList n ds r = map (\<lambda>ps. \<lparr>srMin = srMin r @ srMin (blockOf n ds ps),
     srMax = srMax r @ srMax (blockOf n ds ps), srPart = srPart r @ ps\<rparr>) (partTuples n (length ds))"
proof (induction ds arbitrary: r)
  case Nil
  then show ?case by (cases r) (simp add: blockOf_def)
next
  case (Cons d ds)
  show ?case
    by (simp add: Cons map_concat comp_def sr_push_def blockOf_def)
qed

lemma set_insertRegion [simp]: "set (insertRegion d r rs) = insert r (set rs)"
  by (induction rs) auto

lemma distinct_insertRegion: "r \<notin> set rs \<Longrightarrow> distinct rs \<Longrightarrow> distinct (insertRegion d r rs)"
  by (induction rs) auto

lemma sorted_insertRegion:
  assumes "sorted_wrt (splitRegionLess d) rs" "length (srPart r) = length d"
    "\<forall>x \<in> set rs. length (srPart x) = length d \<and> srPart x \<noteq> srPart r"
  shows "sorted_wrt (splitRegionLess d) (insertRegion d r rs)"
  using assms
proof (induction rs)
  case (Cons x rs)
  have t: "splitRegionLess d r x \<or> splitRegionLess d x r"
    using orderLess_total[of "srPart r" d "srPart x"] Cons.prems by (auto simp: splitRegionLess_def)
  have tr: "splitRegionLess d r x \<Longrightarrow> splitRegionLess d x y \<Longrightarrow> splitRegionLess d r y" for y
    unfolding splitRegionLess_def by (rule orderLess_trans)
  show ?case using Cons t by (auto intro: tr)
qed simp

lemma sortRegions_blocks:
  assumes "inj_on srPart (set rs)" "\<forall>r \<in> set rs. length (srPart r) = length d" "distinct rs"
  shows "set (sortRegions d rs) = set rs \<and> distinct (sortRegions d rs) \<and>
    sorted_wrt (splitRegionLess d) (sortRegions d rs)"
  using assms
proof (induction rs)
  case (Cons r rs)
  have ih: "set (sortRegions d rs) = set rs" "distinct (sortRegions d rs)"
      "sorted_wrt (splitRegionLess d) (sortRegions d rs)"
    using Cons by auto
  have "\<forall>x \<in> set rs. srPart x \<noteq> srPart r" using Cons.prems by (auto simp: inj_on_def)
  moreover have "sortRegions d (r # rs) = insertRegion d r (sortRegions d rs)"
    by (simp add: sortRegions_def)
  ultimately show ?case using ih Cons.prems
    by (simp add: distinct_insertRegion sorted_insertRegion)
qed (simp add: sortRegions_def)

lemma splitRegions_spec:
  assumes "0 < n" "length d = length ds"
  shows "set (splitRegions d n ds) = blockOf n ds ` {ps. length ps = length ds \<and> (\<forall>p \<in> set ps. p < n)} \<and>
    distinct (splitRegions d n ds) \<and> sorted_wrt (splitRegionLess d) (splitRegions d n ds)"
proof -
  let ?rs = "fillSplitRegionList n ds sr_empty"
  have rs: "?rs = map (blockOf n ds) (partTuples n (length ds))"
    by (simp add: fillSplitRegionList_blocks sr_empty_def blockOf_def)
  have inj: "inj_on (blockOf n ds) A" for A
    by (rule inj_on_inverseI[of _ srPart]) simp
  have "set ?rs = blockOf n ds ` {ps. length ps = length ds \<and> (\<forall>p \<in> set ps. p < n)}"
    using partTuples_set[OF assms(1)] by (auto simp: rs)
  moreover have "distinct ?rs" by (simp add: rs distinct_map distinct_partTuples inj)
  moreover have "inj_on srPart (set ?rs)" by (auto simp: rs inj_on_def)
  ultimately show ?thesis
    using sortRegions_blocks[of ?rs d] assms(2) by (simp add: splitRegions_def)
qed

lemma inRegion_block:
  "inRegion (blockOf n (d # ds) (p # ps)) (x # xs) =
     (inRange (blockBounds n d p) x \<and> inRegion (blockOf n ds ps) xs)"
  by (simp add: inRegion_def inBox_def blockOf_def)

lemma inRegion_block_Nil [simp]: "inRegion (blockOf n [] ps) x = (x = [])"
  by (simp add: inRegion_def inBox_def blockOf_def)

lemma inRegion_block_length:
  "inRegion (blockOf n ds ps) x \<Longrightarrow> length ps = length ds \<Longrightarrow> length x = length ds"
  by (auto simp: inRegion_def inBox_def blockOf_def dest: list_all2_lengthD)

definition dimsOk :: "(int \<times> int) list \<Rightarrow> bool" where
  "dimsOk ds = (\<forall>d \<in> set ds. fst d \<le> snd d)"

lemma block_inBox:
  assumes "dimsOk ds" "length ps = length ds" "\<forall>p \<in> set ps. p < n" "inRegion (blockOf n ds ps) x"
  shows "inBox ds x"
  using assms
proof (induction ds arbitrary: ps x)
  case (Cons d ds)
  obtain p qs where ps: "ps = p # qs" using Cons.prems(2) by (cases ps) auto
  obtain v xs where x: "x = v # xs" using inRegion_block_length[OF Cons.prems(4,2)] by (cases x) auto
  have "inRange (blockBounds n d p) v" "inRegion (blockOf n ds qs) xs"
    using Cons.prems(4) by (auto simp: ps x inRegion_block)
  moreover have "p < n" "fst d \<le> snd d" using Cons.prems ps by (auto simp: dimsOk_def)
  ultimately show ?case
    using Cons.IH[of qs xs] Cons.prems block_range[of p n d v] by (auto simp: ps x dimsOk_def inBox_def)
qed (simp add: inBox_def)

lemma inBox_block:
  assumes "dimsOk ds" "0 < n" "inBox ds x"
  shows "\<exists>ps. length ps = length ds \<and> (\<forall>p \<in> set ps. p < n) \<and> inRegion (blockOf n ds ps) x"
  using assms
proof (induction ds arbitrary: x)
  case (Cons d ds)
  obtain v xs where x: "x = v # xs" "inRange d v" "inBox ds xs"
    using Cons.prems(3) by (auto simp: inBox_def list_all2_Cons1)
  obtain i where "i < n" "inRange (blockBounds n d i) v"
    using block_exists[of n d v] Cons.prems x by (auto simp: dimsOk_def)
  moreover obtain ps where "length ps = length ds" "\<forall>p \<in> set ps. p < n" "inRegion (blockOf n ds ps) xs"
    using Cons.IH[of xs] Cons.prems x by (auto simp: dimsOk_def)
  ultimately show ?case by (intro exI[of _ "i # ps"]) (simp add: x inRegion_block)
qed (simp add: inBox_def)

lemma block_unique:
  assumes "dimsOk ds" "length ps = length ds" "length qs = length ds" "\<forall>p \<in> set ps. p < n"
    "\<forall>p \<in> set qs. p < n" "inRegion (blockOf n ds ps) x" "inRegion (blockOf n ds qs) x"
  shows "ps = qs"
  using assms
proof (induction ds arbitrary: ps qs x)
  case (Cons d ds)
  obtain p ps' where ps: "ps = p # ps'" using Cons.prems(2) by (cases ps) auto
  obtain q qs' where qs: "qs = q # qs'" using Cons.prems(3) by (cases qs) auto
  obtain v xs where x: "x = v # xs" using inRegion_block_length[OF Cons.prems(6,2)] by (cases x) auto
  have in_p: "inRange (blockBounds n d p) v" "inRegion (blockOf n ds ps') xs"
    and in_q: "inRange (blockBounds n d q) v" "inRegion (blockOf n ds qs') xs"
    using Cons.prems(6,7) by (auto simp: ps qs x inRegion_block)
  have d: "fst d \<le> snd d" "p < n" "q < n" using Cons.prems by (auto simp: dimsOk_def ps qs)
  have "p = q" using block_mono[OF _ d(3,1) in_p(1) in_q(1)] block_mono[OF _ d(2,1) in_q(1) in_p(1)]
    by (metis less_irrefl linorder_neqE_nat)
  moreover have "ps' = qs'"
    using Cons.IH[OF _ _ _ _ _ in_p(2) in_q(2)] Cons.prems by (auto simp: dimsOk_def ps qs)
  ultimately show ?case by (simp add: ps qs)
qed simp

lemma blocks_dependence:
  assumes "mayDepend order x y" "splittable order" "dimsOk ds" "length ps = length ds"
    "length qs = length ds" "\<forall>p \<in> set ps. p < n" "\<forall>p \<in> set qs. p < n" "inRegion (blockOf n ds ps) x"
    "inRegion (blockOf n ds qs) y"
  shows "partsCanDepend order ps qs \<and> (ps = qs \<or> orderLess order qs ps)"
  using assms
proof (induction order x y arbitrary: ds ps qs rule: mayDepend.induct)
  case 1
  then show ?case
    by (cases ds) (auto simp: inRegion_def inBox_def blockOf_def dest: list_all2_lengthD)
next
  case (2 m ms x xs y ys)
  obtain d ds' where ds: "ds = d # ds'"
    using 2(10) inRegion_block_length[OF 2(9)] 2(5) by (cases ds) auto
  obtain p ps' where ps: "ps = p # ps'" using 2(5) ds by (cases ps) auto
  obtain q qs' where qs: "qs = q # qs'" using 2(6) ds by (cases qs) auto
  have in_p: "inRange (blockBounds n d p) x" "inRegion (blockOf n ds' ps') xs"
    and in_q: "inRange (blockBounds n d q) y" "inRegion (blockOf n ds' qs') ys"
    using 2(9,10) by (auto simp: ps qs ds inRegion_block)
  have d: "fst d \<le> snd d" "p < n" "q < n" using 2 by (auto simp: dimsOk_def ps qs ds)
  have m: "bit m (dirBit x y)" "canIterateForward m \<or> canIterateBackward m"
    using 2(2,3) by (auto simp: splittable_def)
  have ih: "partsCanDepend ms ps' qs' \<and> (ps' = qs' \<or> orderLess ms qs' ps')"
    using 2(1)[of ds' ps' qs'] 2 in_p in_q by (auto simp: splittable_def dimsOk_def ps qs ds)
  show ?case
  proof (cases "p = q")
    case True
    then show ?thesis using ih by (simp add: ps qs)
  next
    case False
    have "if p < q then x < y else y < x"
      using False block_mono[OF _ d(3,1) in_p(1) in_q(1)] block_mono[OF _ d(2,1) in_q(1) in_p(1)] by auto
    then show ?thesis using False ih m
      by (auto simp: ps qs dirBit_def mask_simps iterateForward_def split: if_splits)
  qed
qed auto

lemma splitRegions_block:
  assumes "0 < n" "length order = length ds" "r \<in> set (splitRegions order n ds)"
  shows "r = blockOf n ds (srPart r) \<and> length (srPart r) = length ds \<and> (\<forall>p \<in> set (srPart r). p < n)"
  using splitRegions_spec[OF assms(1,2)] assms(3) by auto

lemma regions_dependence:
  assumes "mayDepend order x y" "splittable order" "dimsOk ds" "0 < n" "length order = length ds"
    "a \<in> set (splitRegions order n ds)" "b \<in> set (splitRegions order n ds)" "inRegion a x" "inRegion b y"
  shows "canDependOn order a b \<and> (a = b \<or> splitRegionLess order b a)"
proof -
  note ra = splitRegions_block[OF assms(4,5,6)] and rb = splitRegions_block[OF assms(4,5,7)]
  show ?thesis
    using blocks_dependence[OF assms(1-3), of "srPart a" "srPart b" n] ra rb assms(8,9)
    by (auto simp: canDependOn_def splitRegionLess_def)
qed

lemma region_unique:
  assumes "0 < n" "length order = length ds" "dimsOk ds" "a \<in> set (splitRegions order n ds)"
    "b \<in> set (splitRegions order n ds)" "inRegion a x" "inRegion b x"
  shows "a = b"
  using splitRegions_block[OF assms(1,2,4)] splitRegions_block[OF assms(1,2,5)] assms(6,7)
    block_unique[OF assms(3), of "srPart a" "srPart b" n x] by metis

lemma split_blocks_cells:
  assumes "0 < n" "length order = length ds" "dimsOk ds"
  shows "inBox ds x \<longleftrightarrow> (\<exists>r \<in> set (splitRegions order n ds). inRegion r x)"
proof
  assume "inBox ds x"
  then obtain ps where "length ps = length ds" "\<forall>p \<in> set ps. p < n" "inRegion (blockOf n ds ps) x"
    using inBox_block assms by blast
  then show "\<exists>r \<in> set (splitRegions order n ds). inRegion r x"
    using splitRegions_spec[OF assms(1,2)] by auto
qed (use block_inBox[OF assms(3)] splitRegions_block[OF assms(1,2)] in metis)

section \<open>The guarantees\<close>

text \<open>The blocks into which the compiler divides the iteration space of a rule partition it.\<close>

lemma split_blocks_partition:
  assumes "0 < n" "length order = length ds" "dimsOk ds"
  shows "inBox ds x = (\<exists>!r. r \<in> set (splitRegions order n ds) \<and> inRegion r x)"
  using split_blocks_cells[OF assms] region_unique[OF assms] by blast

text \<open>C32: When every dimension of a rule can be iterated forward or backward, the parallel code loses
  no dependency between blocks: if a cell of the block of task \<open>i\<close> may read a cell of another
  block, that block is an earlier task and task \<open>i\<close> waits for it.\<close>

theorem split_blocks_order:
  assumes "splittable order" "0 < n" "length order = length ds" "dimsOk ds"
    "i < length (genSplitCode order n ds)" "j < length (genSplitCode order n ds)" "i \<noteq> j"
    "inRegion (fst (genSplitCode order n ds ! i)) x" "inRegion (fst (genSplitCode order n ds ! j)) y"
    "mayDepend order x y"
  shows "j < i \<and> j \<in> set (snd (genSplitCode order n ds ! i))"
proof -
  let ?rs = "splitRegions order n ds"
  have len: "i < length ?rs" "j < length ?rs" using assms(5,6) by (simp_all add: genSplitCode_def Let_def)
  have at: "genSplitCode order n ds ! k = (?rs ! k, filter (\<lambda>b. canDependOn order (?rs ! k) (?rs ! b)) [0..<k])"
    if "k < length ?rs" for k using that by (simp add: genSplitCode_def Let_def)
  note spec = splitRegions_spec[OF assms(2,3)]
  have dep: "canDependOn order (?rs ! i) (?rs ! j) \<and> (?rs ! i = ?rs ! j \<or> splitRegionLess order (?rs ! j) (?rs ! i))"
    using regions_dependence[OF assms(10,1,4,2,3), of "?rs ! i" "?rs ! j"] assms(8,9) len by (simp add: at)
  moreover have "?rs ! i \<noteq> ?rs ! j" using spec len assms(7) by (simp add: nth_eq_iff_index_eq)
  ultimately have less: "splitRegionLess order (?rs ! j) (?rs ! i)" by simp
  have "\<not> i < j"
    using sorted_wrt_nth_less[of "splitRegionLess order" ?rs i j] spec len less orderLess_asym
    by (auto simp: splitRegionLess_def)
  then have "j < i" using assms(7) by simp
  then show ?thesis using dep len by (simp add: at)
qed




section \<open>The sequential code\<close>








section \<open>Limits of the orders\<close>

text \<open>For the blocks it does not suffice that the nested loops have a valid order: with an outer
  dimension that is read strictly backward and an inner one that is read in both directions (a stencil
  whose outer dimension is the time), the loops are right but the first block reads cells of the
  second, and no task waits.\<close>

lemma split_blocks_limit:
  defines "order \<equiv> [D_LT, D_ALL]" and "ds \<equiv> [(0, 4), (0, 4)]"
  shows "iterable order" "mayDepend order [1, 1] [0, 2]"
    "inRegion (fst (genSplitCode order 2 ds ! 0)) [1, 1]"
    "inRegion (fst (genSplitCode order 2 ds ! 1)) [0, 2]"
    "snd (genSplitCode order 2 ds ! 0) = []"
  unfolding order_def ds_def by code_simp+

text \<open>A backward loop with a step of more than one does not visit the points of the forward loop.\<close>

lemma reverse_loop_off_grid:
  "loopValues D_LT (0, 4, 2) = Some [0, 2]" "loopValues D_GT (0, 4, 2) = Some [3, 1]"
  by code_simp+

section \<open>Examples\<close>

lemma split_blocks_order_witness:
  "0 \<in> set (snd (genSplitCode [D_LE, D_GE] 2 [(0, 4), (0, 4)] ! 3))"
proof -
  have "(0::nat) < 3 \<and> 0 \<in> set (snd (genSplitCode [D_LE, D_GE] 2 [(0, 4), (0, 4)] ! 3))"
    by (rule split_blocks_order[of "[D_LE, D_GE]" 2 "[(0, 4), (0, 4)]" 3 0 "[2, 1]" "[1, 2]"]; code_simp)
  then show ?thesis by simp
qed


end
