(* ===== verification/OrderedContainers.thy ===== *)
theory OrderedContainers
  imports Prelude
begin

text \<open>
  The ordered containers of the C++ library that the compiler iterates over: a \<open>std::set\<close> is the list
  of its elements in increasing order, a \<open>std::map\<close> the list of its entries in increasing order of
  their keys.  \<open>find\<close> is \<open>map_of\<close>; \<open>m[k]\<close> on a missing key first inserts a default value.
\<close>

named_theorems ord_simps \<open>contents of ordered sets and maps\<close>

section \<open>Sets\<close>

fun oinsert :: "'a::linorder \<Rightarrow> 'a list \<Rightarrow> 'a list" where
  "oinsert x [] = [x]"
| "oinsert x (y # ys) =
     (if x < y then x # y # ys else if x = y then y # ys else y # oinsert x ys)"

definition oerase :: "'a \<Rightarrow> 'a list \<Rightarrow> 'a list" where
  "oerase x xs = filter (\<lambda>y. y \<noteq> x) xs"

definition ounion :: "'a::linorder list \<Rightarrow> 'a list \<Rightarrow> 'a list" where
  "ounion xs ys = foldl (\<lambda>s y. oinsert y s) xs ys"

abbreviation osorted :: "'a::linorder list \<Rightarrow> bool" where
  "osorted \<equiv> sorted_wrt (<)"

lemma set_oinsert [simp, ord_simps]: "set (oinsert x xs) = insert x (set xs)"
  by (induction xs) auto

lemma osorted_oinsert [simp, intro]: "osorted xs \<Longrightarrow> osorted (oinsert x xs)"
  by (induction xs) auto

lemma set_oerase [simp, ord_simps]: "set (oerase x xs) = set xs - {x}"
  by (auto simp: oerase_def)

lemma osorted_oerase [simp, intro]: "osorted xs \<Longrightarrow> osorted (oerase x xs)"
  by (simp add: oerase_def sorted_wrt_filter)

lemma set_ounion [simp, ord_simps]: "set (ounion xs ys) = set xs \<union> set ys"
  unfolding ounion_def by (induction ys arbitrary: xs) auto

lemma osorted_ounion [simp, intro]: "osorted xs \<Longrightarrow> osorted (ounion xs ys)"
  unfolding ounion_def by (induction ys arbitrary: xs) auto

lemma osorted_distinct: "osorted xs \<Longrightarrow> distinct xs"
  by (induction xs) auto

text \<open>Two ordered sets are equal when they have the same elements; equal sizes suffice for a subset.\<close>

lemma osorted_eqI: "osorted xs \<Longrightarrow> osorted ys \<Longrightarrow> set xs = set ys \<Longrightarrow> xs = ys"
  by (rule strict_sorted_equal)

lemma length_ounion:
  assumes "osorted xs"
  shows "length (ounion xs ys) = length xs \<longleftrightarrow> set ys \<subseteq> set xs"
proof -
  have "length (ounion xs ys) = card (set xs \<union> set ys)"
    using distinct_card[OF osorted_distinct[OF osorted_ounion[OF assms, of ys]]] by simp
  moreover have "length xs = card (set xs)"
    using distinct_card[OF osorted_distinct[OF assms]] by simp
  ultimately show ?thesis
    by (metis List.finite_set Un_absorb2 card_subset_eq finite_UnI sup.cobounded1 sup.cobounded2)
qed

section \<open>Maps\<close>

fun oset :: "'k::linorder \<Rightarrow> 'v \<Rightarrow> ('k \<times> 'v) list \<Rightarrow> ('k \<times> 'v) list" where
  "oset k v [] = [(k, v)]"
| "oset k v ((l, w) # m) =
     (if k < l then (k, v) # (l, w) # m else if k = l then (k, v) # m else (l, w) # oset k v m)"

definition oat :: "'v \<Rightarrow> 'k \<Rightarrow> ('k \<times> 'v) list \<Rightarrow> 'v" where
  "oat d k m = (case map_of m k of Some v \<Rightarrow> v | None \<Rightarrow> d)"

abbreviation keys :: "('k \<times> 'v) list \<Rightarrow> 'k set" where
  "keys m \<equiv> fst ` set m"

abbreviation omap :: "('k::linorder \<times> 'v) list \<Rightarrow> bool" where
  "omap m \<equiv> osorted (map fst m)"

lemma map_of_oset [simp, ord_simps]: "map_of (oset k v m) = (map_of m)(k \<mapsto> v)"
  by (induction m) auto

lemma keys_oset [simp, ord_simps]: "keys (oset k v m) = insert k (keys m)"
  by (simp flip: dom_map_of_conv_image_fst)

lemma omap_oset [simp, intro]: "omap m \<Longrightarrow> omap (oset k v m)"
proof (induction m)
  case (Cons e m)
  obtain l w where e: "e = (l, w)" by (cases e) auto
  have "fst ` set (oset k v m) = insert k (fst ` set m)" by (rule keys_oset)
  then show ?case using Cons by (auto simp: e)
qed simp

lemma omap_distinct: "omap m \<Longrightarrow> distinct (map fst m)"
  by (rule osorted_distinct)

lemma map_of_keys: "map_of m k \<noteq> None \<longleftrightarrow> k \<in> keys m" "map_of m k = None \<longleftrightarrow> k \<notin> keys m"
  by (auto simp: map_of_eq_None_iff)

lemma omap_map_of: "omap m \<Longrightarrow> (k, v) \<in> set m \<longleftrightarrow> map_of m k = Some v"
  using omap_distinct[of m] by (auto simp: map_of_eq_Some_iff)

end
