(* ===== verification/RuleChoices.thy ===== *)
theory RuleChoices
  imports OrderedContainers
begin

text \<open>
  The choices of rules that the compiler tries: \<open>RulePriCmp\<close> of \<open>compiler/rule.cpp\<close>,
  \<open>RuleChoiceCollection\<close> of \<open>compiler/rulechoice.h\<close> and \<open>compiler/rulechoice.cpp\<close>.

  \<^item> A rule is its priority, whether it has a where clause, and its number, the attributes that order a
    \<open>RuleSet\<close>; a \<open>RuleSet\<close> is an ordered set of rules.
  \<^item> A consumer of choices is its address; \<open>choices\<close> are the rule sets of the consumers.
\<close>

section \<open>Rules\<close>

datatype ruleT = Rule (rulePriority: int) (ruleHasWhere: bool) (ruleId: nat)

definition rulePri :: "ruleT \<Rightarrow> int" where
  "rulePri r = rulePriority r * 2 - (if ruleHasWhere r then 1 else 0)"

definition RulePriCmp :: "ruleT \<Rightarrow> ruleT \<Rightarrow> bool" where
  "RulePriCmp r1 r2 =
     (if rulePri r1 = rulePri r2 then ruleId r1 < ruleId r2 else rulePri r1 < rulePri r2)"

text \<open>The comparison is a linear order: the priority tells apart rules with and without where clause.\<close>

lemma rulePri_inj:
  assumes "rulePri a = rulePri b" "ruleId a = ruleId b"
  shows "a = b"
proof -
  have "rulePriority a * 2 - (if ruleHasWhere a then 1 else 0) =
      rulePriority b * 2 - (if ruleHasWhere b then 1 else 0)"
    using assms(1) by (simp add: rulePri_def)
  then have "ruleHasWhere a = ruleHasWhere b \<and> rulePriority a = rulePriority b"
    by (cases "ruleHasWhere a"; cases "ruleHasWhere b"; simp) presburger+
  then show ?thesis using assms(2) by (cases a; cases b) simp
qed

instantiation ruleT :: linorder
begin

definition less_ruleT :: "ruleT \<Rightarrow> ruleT \<Rightarrow> bool" where
  "less_ruleT a b = RulePriCmp a b"

definition less_eq_ruleT :: "ruleT \<Rightarrow> ruleT \<Rightarrow> bool" where
  "less_eq_ruleT a b = (a = b \<or> RulePriCmp a b)"

instance
proof
  fix a b c :: ruleT
  show "(a < b) = (a \<le> b \<and> \<not> b \<le> a)"
    by (auto simp: less_ruleT_def less_eq_ruleT_def RulePriCmp_def split: if_splits)
  show "a \<le> a" by (simp add: less_eq_ruleT_def)
  show "a \<le> b \<Longrightarrow> b \<le> c \<Longrightarrow> a \<le> c"
    by (auto simp: less_eq_ruleT_def RulePriCmp_def split: if_splits)
  show "a \<le> b \<Longrightarrow> b \<le> a \<Longrightarrow> a = b"
    by (auto simp: less_eq_ruleT_def RulePriCmp_def split: if_splits)
  show "a \<le> b \<or> b \<le> a"
    using rulePri_inj[of a b] by (auto simp: less_eq_ruleT_def RulePriCmp_def)
qed

end

type_synonym ruleSet = "ruleT list"
type_synonym consumer = nat

section \<open>The collection of choices\<close>

record choiceCollection =
  rcOrdering :: "consumer list"
  rcInvalid :: "nat list"
  rcCombined :: "(consumer \<times> consumer) list"

definition rcEmpty :: choiceCollection where
  "rcEmpty = \<lparr>rcOrdering = [], rcInvalid = [], rcCombined = []\<rparr>"

definition addConsumer :: "consumer \<Rightarrow> choiceCollection \<Rightarrow> choiceCollection" where
  "addConsumer c rc = rc\<lparr>rcOrdering := rcOrdering rc @ [c]\<rparr>"

definition markInvalid :: "nat \<Rightarrow> choiceCollection \<Rightarrow> choiceCollection" where
  "markInvalid i rc = rc\<lparr>rcInvalid := rcInvalid rc @ [i]\<rparr>"

text \<open>The number of choices of a site; a site without rules has one, the null rule.\<close>

definition siteSize :: "ruleSet \<Rightarrow> nat" where
  "siteSize rs = max 1 (length rs)"

text \<open>The number of all choices, in the 64 bits of a \<open>size_t\<close>.\<close>

definition rc_size :: "(consumer \<Rightarrow> ruleSet) \<Rightarrow> choiceCollection \<Rightarrow> nat" where
  "rc_size choices rc = foldl (\<lambda>c i. if map_of (rcCombined rc) i = None
     then c * siteSize (choices i) mod 2 ^ 64 else c) 1 (rcOrdering rc)"

text \<open>One site is combined with the first one that has the same rules; \<open>rulesets\<close> remembers those.\<close>

definition pruneStep :: "(consumer \<Rightarrow> ruleSet) \<Rightarrow> consumer \<Rightarrow>
    (ruleSet \<times> consumer) list \<times> (consumer \<times> consumer) list \<Rightarrow>
    (ruleSet \<times> consumer) list \<times> (consumer \<times> consumer) list" where
  "pruneStep choices i = (\<lambda>(rulesets, combined).
     if length (choices i) \<le> 1 then (rulesets, combined)
     else (case map_of rulesets (choices i) of
         None \<Rightarrow> ((choices i, i) # rulesets, combined)
       | Some j \<Rightarrow> (rulesets, oset i j combined)))"

definition pruneChoiceSpace :: "(consumer \<Rightarrow> ruleSet) \<Rightarrow> choiceCollection \<Rightarrow> choiceCollection" where
  "pruneChoiceSpace choices rc =
     rc\<lparr>rcCombined := snd (fold (pruneStep choices) (rcOrdering rc) ([], rcCombined rc))\<rparr>"

type_synonym assignment = "(consumer \<times> ruleT option) list"

text \<open>\<open>for(r in rs) if(c--==0) { a = r; break; }\<close>\<close>

definition pickRule :: "ruleSet \<Rightarrow> nat \<Rightarrow> ruleT option" where
  "pickRule rs c = (if c < length rs then Some (rs ! c) else None)"

text \<open>The rule of this site at the place of the rule \<open>x\<close> of the site it is combined with.\<close>

fun matchRule :: "ruleSet \<Rightarrow> ruleSet \<Rightarrow> ruleT option \<Rightarrow> ruleT option" where
  "matchRule (r # rs) (rb # rsb) x = (if Some rb = x then Some r else matchRule rs rsb x)"
| "matchRule _ _ x = None"

definition assignStep :: "(consumer \<Rightarrow> ruleSet) \<Rightarrow> (consumer \<times> consumer) list \<Rightarrow> consumer \<Rightarrow>
    nat \<times> assignment \<Rightarrow> (nat \<times> assignment) res" where
  "assignStep choices combined i = (\<lambda>(choice, a).
     let rs = choices i in
     case map_of combined i of
       None \<Rightarrow>
         (let r = pickRule rs (choice mod siteSize rs) in
          rassert (rs = [] \<or> r \<noteq> None) (Inr (choice div siteSize rs, oset i r a)))
     | Some j \<Rightarrow>
         rassert (length rs = length (choices j))
          (let r = matchRule rs (choices j) (oat None j a) in
           rassert (rs = [] \<or> r \<noteq> None) (Inr (choice, oset i r a))))"

definition getAssignment :: "(consumer \<Rightarrow> ruleSet) \<Rightarrow> choiceCollection \<Rightarrow> nat \<Rightarrow> assignment res" where
  "getAssignment choices rc choice =
     rmap snd (foldR (assignStep choices (rcCombined rc)) (rcOrdering rc) (choice, []))"

end
