(* ===== verification/RuleChoiceProofs.thy ===== *)
theory RuleChoiceProofs
  imports RuleChoices
begin

text \<open>
  The choices of theory \<open>RuleChoices\<close> enumerate every combination of rules exactly once.
\<close>

section \<open>The combined sites\<close>

text \<open>Every combined site refers to an earlier site with the same rules, and a site that is not
  combined has at most one rule or is the first with its rules.\<close>

fun combinedOk :: "(consumer \<Rightarrow> ruleSet) \<Rightarrow> (consumer \<times> consumer) list \<Rightarrow> consumer set \<Rightarrow>
    consumer list \<Rightarrow> bool" where
  "combinedOk choices comb seen [] = True"
| "combinedOk choices comb seen (n # ns) =
     ((case map_of comb n of
         None \<Rightarrow> length (choices n) \<le> 1 \<or> (\<forall>m \<in> seen. choices m \<noteq> choices n)
       | Some m \<Rightarrow> m \<in> seen \<and> choices m = choices n \<and> 1 < length (choices n)) \<and>
      combinedOk choices comb (insert n seen) ns)"

lemma pruneStep_keeps:
  "n \<notin> set ns \<Longrightarrow> map_of (snd (fold (pruneStep choices) ns (R, B))) n = map_of B n"
proof (induction ns arbitrary: R B)
  case (Cons i ns)
  obtain R' B' where st: "pruneStep choices i (R, B) = (R', B')" by (cases "pruneStep choices i (R, B)")
  then have "map_of B' n = map_of B n" using Cons.prems
    by (auto simp: pruneStep_def split: if_splits option.splits)
  then show ?case using Cons by (simp add: st)
qed simp

lemma prune_combinedOk:
  assumes "distinct ns" "set ns \<inter> seen = {}"
    "\<forall>rs m. map_of R rs = Some m \<longrightarrow> m \<in> seen \<and> choices m = rs"
    "\<forall>m \<in> seen. 1 < length (choices m) \<longrightarrow> map_of R (choices m) \<noteq> None"
    "\<forall>n \<in> set ns. map_of B n = None"
  shows "combinedOk choices (snd (fold (pruneStep choices) ns (R, B))) seen ns"
  using assms
proof (induction ns arbitrary: seen R B)
  case (Cons n ns)
  obtain R' B' where st: "pruneStep choices n (R, B) = (R', B')" by (cases "pruneStep choices n (R, B)")
  have "map_of (snd (fold (pruneStep choices) ns (R', B'))) n = map_of B' n"
    using Cons.prems(1) by (intro pruneStep_keeps) simp
  moreover have "case map_of B' n of
      None \<Rightarrow> length (choices n) \<le> 1 \<or> (\<forall>m \<in> seen. choices m \<noteq> choices n)
    | Some m \<Rightarrow> m \<in> seen \<and> choices m = choices n \<and> 1 < length (choices n)"
    using st Cons.prems(3-5) by (fastforce simp: pruneStep_def split: if_splits option.splits)
  moreover have "combinedOk choices (snd (fold (pruneStep choices) ns (R', B'))) (insert n seen) ns"
  proof (rule Cons.IH)
    show "\<forall>rs m. map_of R' rs = Some m \<longrightarrow> m \<in> insert n seen \<and> choices m = rs"
      using st Cons.prems(3) by (auto simp: pruneStep_def split: if_splits option.splits)
    show "\<forall>m \<in> insert n seen. 1 < length (choices m) \<longrightarrow> map_of R' (choices m) \<noteq> None"
      using st Cons.prems(4) by (auto simp: pruneStep_def split: if_splits option.splits)
    show "\<forall>i \<in> set ns. map_of B' i = None"
      using st Cons.prems(1,5) by (auto simp: pruneStep_def split: if_splits option.splits)
  qed (use Cons.prems in auto)
  ultimately show ?case by (simp add: st)
qed simp

section \<open>One assignment\<close>

text \<open>The rules that a site may be given.\<close>

definition siteOptions :: "ruleSet \<Rightarrow> ruleT option set" where
  "siteOptions rs = (if rs = [] then {None} else Some ` set rs)"

fun assignAll :: "(consumer \<Rightarrow> ruleSet) \<Rightarrow> (consumer \<times> consumer) list \<Rightarrow> consumer list \<Rightarrow> nat \<Rightarrow>
    (consumer \<rightharpoonup> ruleT option) \<Rightarrow> (consumer \<rightharpoonup> ruleT option)" where
  "assignAll choices comb [] c a = a"
| "assignAll choices comb (n # ns) c a = (case map_of comb n of
       None \<Rightarrow> assignAll choices comb ns (c div siteSize (choices n))
         (a(n \<mapsto> pickRule (choices n) (c mod siteSize (choices n))))
     | Some m \<Rightarrow> assignAll choices comb ns c (a(n := a m)))"

lemma siteSize_simps [simp]: "0 < siteSize rs" "siteSize [] = 1" "rs \<noteq> [] \<Longrightarrow> siteSize rs = length rs"
  by (auto simp: siteSize_def Suc_le_eq max_def)

lemma pickRule_option: "c < siteSize rs \<Longrightarrow> pickRule rs c \<in> siteOptions rs"
  by (cases "rs = []") (auto simp: pickRule_def siteOptions_def)

lemma pickRule_inj:
  "osorted rs \<Longrightarrow> c < siteSize rs \<Longrightarrow> c' < siteSize rs \<Longrightarrow> pickRule rs c = pickRule rs c' \<Longrightarrow> c = c'"
  using osorted_distinct[of rs]
  by (cases "rs = []") (auto simp: pickRule_def nth_eq_iff_index_eq)

lemma pickRule_onto:
  assumes "x \<in> siteOptions rs"
  shows "\<exists>c < siteSize rs. pickRule rs c = x"
proof (cases "rs = []")
  case True
  then show ?thesis using assms by (auto simp: siteOptions_def pickRule_def)
next
  case False
  then obtain c where "c < length rs" "x = Some (rs ! c)"
    using assms by (auto simp: siteOptions_def in_set_conv_nth)
  then show ?thesis using False by (intro exI[of _ c]) (simp add: pickRule_def)
qed

lemma matchRule_same: "r \<in> set rs \<Longrightarrow> matchRule rs rs (Some r) = Some r"
  by (induction rs) auto

lemma assign_foldR:
  assumes "combinedOk choices comb seen ns" "\<forall>m \<in> seen. \<exists>x \<in> siteOptions (choices m). map_of a m = Some x"
  shows "\<exists>c' a'. foldR (assignStep choices comb) ns (c, a) = Inr (c', a') \<and>
    map_of a' = assignAll choices comb ns c (map_of a)"
  using assms
proof (induction ns arbitrary: seen c a)
  case (Cons n ns)
  show ?case
  proof (cases "map_of comb n")
    case None
    let ?k = "siteSize (choices n)"
    let ?r = "pickRule (choices n) (c mod ?k)"
    have r: "?r \<in> siteOptions (choices n)" by (rule pickRule_option) simp
    then have st: "assignStep choices comb n (c, a) = Inr (c div ?k, oset n ?r a)"
      using None by (auto simp: assignStep_def Let_def siteOptions_def rassert_def split: if_splits)
    have "\<forall>m \<in> insert n seen. \<exists>x \<in> siteOptions (choices m). map_of (oset n ?r a) m = Some x"
      using r Cons.prems(2) by auto
    from Cons.IH[OF _ this, of "c div ?k"] show ?thesis using Cons.prems(1) None
      by (simp add: st del: fun_upd_apply)
  next
    case (Some m)
    then have m: "m \<in> seen" "choices m = choices n" using Cons.prems(1) by auto
    then obtain x where x: "x \<in> siteOptions (choices n)" "map_of a m = Some x"
      using Cons.prems(2) by metis
    then have st: "assignStep choices comb n (c, a) = Inr (c, oset n x a)"
      using Some m(2) by (auto simp: assignStep_def Let_def siteOptions_def rassert_def oat_def
          matchRule_same split: if_splits)
    have "\<forall>m \<in> insert n seen. \<exists>y \<in> siteOptions (choices m). map_of (oset n x a) m = Some y"
      using x Cons.prems(2) by auto
    from Cons.IH[OF _ this, of c] show ?thesis using Cons.prems(1) Some x(2)
      by (simp add: st del: fun_upd_apply)
  qed
qed simp

section \<open>All assignments\<close>

fun choiceCount :: "(consumer \<Rightarrow> ruleSet) \<Rightarrow> (consumer \<times> consumer) list \<Rightarrow> consumer list \<Rightarrow> nat" where
  "choiceCount choices comb [] = 1"
| "choiceCount choices comb (n # ns) =
     (if map_of comb n = None then siteSize (choices n) else 1) * choiceCount choices comb ns"

text \<open>The assignments that give each site one of its rules, combined sites the same one.\<close>

definition extends :: "(consumer \<Rightarrow> ruleSet) \<Rightarrow> (consumer \<times> consumer) list \<Rightarrow> consumer list \<Rightarrow>
    (consumer \<rightharpoonup> ruleT option) \<Rightarrow> (consumer \<rightharpoonup> ruleT option) \<Rightarrow> bool" where
  "extends choices comb ns a f = ((\<forall>n. n \<notin> set ns \<longrightarrow> f n = a n) \<and>
     (\<forall>n \<in> set ns. case map_of comb n of None \<Rightarrow> f n \<in> Some ` siteOptions (choices n) | Some m \<Rightarrow> f n = f m))"

lemma assignAll_other: "n \<notin> set ns \<Longrightarrow> assignAll choices comb ns c a n = a n"
  by (induction ns arbitrary: c a) (auto split: option.splits)

lemma assignAll_extends:
  "combinedOk choices comb seen ns \<Longrightarrow> distinct ns \<Longrightarrow> set ns \<inter> seen = {} \<Longrightarrow>
    extends choices comb ns a (assignAll choices comb ns c a)"
proof (induction ns arbitrary: seen c a)
  case (Cons n ns)
  show ?case
  proof (cases "map_of comb n")
    case None
    let ?r = "pickRule (choices n) (c mod siteSize (choices n))"
    have "?r \<in> siteOptions (choices n)" by (rule pickRule_option) simp
    moreover have "extends choices comb ns (a(n \<mapsto> ?r))
        (assignAll choices comb ns (c div siteSize (choices n)) (a(n \<mapsto> ?r)))"
      using Cons.IH[of "insert n seen"] Cons.prems by auto
    ultimately show ?thesis
      using Cons.prems None assignAll_other[of n ns] by (auto simp: extends_def)
  next
    case (Some m)
    then have "m \<notin> set ns" "m \<noteq> n" using Cons.prems by auto
    moreover have "extends choices comb ns (a(n := a m)) (assignAll choices comb ns c (a(n := a m)))"
      using Cons.IH[of "insert n seen"] Cons.prems by auto
    ultimately show ?thesis using Cons.prems Some assignAll_other[of n ns] assignAll_other[of m ns]
      by (auto simp: extends_def)
  qed
qed (simp add: extends_def)

lemma assignAll_inj:
  "combinedOk choices comb seen ns \<Longrightarrow> distinct ns \<Longrightarrow> \<forall>n. osorted (choices n) \<Longrightarrow>
    c < choiceCount choices comb ns \<Longrightarrow> c' < choiceCount choices comb ns \<Longrightarrow>
    assignAll choices comb ns c a = assignAll choices comb ns c' a \<Longrightarrow> c = c'"
proof (induction ns arbitrary: seen c c' a)
  case (Cons n ns)
  show ?case
  proof (cases "map_of comb n")
    case None
    let ?k = "siteSize (choices n)"
    let ?f = "\<lambda>c. assignAll choices comb ns (c div ?k) (a(n \<mapsto> pickRule (choices n) (c mod ?k)))"
    have eq: "?f c = ?f c'" using Cons.prems(6) None by simp
    then have "?f c n = ?f c' n" by simp
    then have p: "pickRule (choices n) (c mod ?k) = pickRule (choices n) (c' mod ?k)"
      using Cons.prems(2) by (simp add: assignAll_other)
    have m: "c mod ?k = c' mod ?k"
      by (rule pickRule_inj[OF _ _ _ p]) (use Cons.prems(3) in auto)
    have "c div ?k = c' div ?k"
      using Cons.IH[of "insert n seen" "c div ?k" "c' div ?k"] eq p Cons.prems None
      by (simp add: less_mult_imp_div_less mult.commute)
    then show ?thesis using m by (metis div_mult_mod_eq)
  next
    case (Some m)
    then show ?thesis using Cons.IH[of "insert n seen" c c' "a(n := a m)"] Cons.prems
      by (simp del: fun_upd_apply)
  qed
qed simp

lemma assignAll_onto:
  "combinedOk choices comb seen ns \<Longrightarrow> distinct ns \<Longrightarrow> set ns \<inter> seen = {} \<Longrightarrow>
    extends choices comb ns a f \<Longrightarrow> \<exists>c < choiceCount choices comb ns. assignAll choices comb ns c a = f"
proof (induction ns arbitrary: seen a)
  case Nil
  then show ?case by (auto simp: extends_def)
next
  case (Cons n ns)
  show ?case
  proof (cases "map_of comb n")
    case None
    let ?k = "siteSize (choices n)"
    obtain x where x: "f n = Some x" "x \<in> siteOptions (choices n)"
      using Cons.prems(4) None by (auto simp: extends_def)
    obtain d where d: "d < ?k" "pickRule (choices n) d = x" using pickRule_onto[OF x(2)] by auto
    have "extends choices comb ns (a(n \<mapsto> x)) f"
      using Cons.prems(2,4) x by (auto simp: extends_def)
    then obtain c where c: "c < choiceCount choices comb ns" "assignAll choices comb ns c (a(n \<mapsto> x)) = f"
      using Cons.IH[of "insert n seen"] Cons.prems by auto
    have "c * ?k + d < choiceCount choices comb ns * ?k"
    proof -
      have "c * ?k + d < Suc c * ?k" using d(1) by simp
      also have "\<dots> \<le> choiceCount choices comb ns * ?k" using c(1) by (intro mult_le_mono1) simp
      finally show ?thesis .
    qed
    then show ?thesis using c d None by (intro exI[of _ "c * ?k + d"]) (simp add: mult.commute)
  next
    case (Some m)
    then have m: "m \<in> seen" using Cons.prems(1) by simp
    then have "f n = f m" "f m = a m" using Cons.prems(3,4) Some by (auto simp: extends_def)
    then have "extends choices comb ns (a(n := a m)) f"
      using Cons.prems(2,4) by (auto simp: extends_def)
    then show ?thesis using Cons.IH[of "insert n seen" "a(n := a m)"] Cons.prems Some
      by (simp del: fun_upd_apply)
  qed
qed

lemma rc_size_count:
  assumes "choiceCount choices (rcCombined rc) (rcOrdering rc) < 2 ^ 64"
  shows "rc_size choices rc = choiceCount choices (rcCombined rc) (rcOrdering rc)"
proof -
  let ?step = "\<lambda>c i. if map_of (rcCombined rc) i = None then c * siteSize (choices i) mod 2 ^ 64 else c"
  let ?count = "choiceCount choices (rcCombined rc)"
  have m: "foldl ?step c ns mod 2 ^ 64 = c * ?count ns mod 2 ^ 64" for ns c
    by (induction ns arbitrary: c) (simp_all add: mod_mult_left_eq mult.assoc)
  have l: "c < 2 ^ 64 \<Longrightarrow> foldl ?step c ns < 2 ^ 64" for ns c
    by (induction ns arbitrary: c) simp_all
  have "rc_size choices rc < 2 ^ 64" unfolding rc_size_def by (rule l) simp
  then have "rc_size choices rc = rc_size choices rc mod 2 ^ 64" by simp
  also have "\<dots> = ?count (rcOrdering rc) mod 2 ^ 64"
    using m[of 1 "rcOrdering rc"] unfolding rc_size_def by (simp only: mult_1)
  also have "\<dots> = ?count (rcOrdering rc)" using assms by simp
  finally show ?thesis .
qed

section \<open>The guarantee\<close>

text \<open>An assignment of rules to sites: each site has one of its rules, and sites with the same two or
  more rules have the same one.\<close>

definition ownRules :: "(consumer \<Rightarrow> ruleSet) \<Rightarrow> consumer set \<Rightarrow> (consumer \<rightharpoonup> ruleT option) \<Rightarrow> bool" where
  "ownRules choices N f = (\<forall>n \<in> N. f n \<in> Some ` siteOptions (choices n))"

definition sameRules :: "(consumer \<Rightarrow> ruleSet) \<Rightarrow> consumer set \<Rightarrow> (consumer \<rightharpoonup> ruleT option) \<Rightarrow> bool" where
  "sameRules choices N f =
     (\<forall>n \<in> N. \<forall>m \<in> N. choices n = choices m \<and> 1 < length (choices n) \<longrightarrow> f n = f m)"

definition legalAssignment :: "(consumer \<Rightarrow> ruleSet) \<Rightarrow> consumer list \<Rightarrow> (consumer \<rightharpoonup> ruleT option) \<Rightarrow> bool" where
  "legalAssignment choices ns f =
     (dom f = set ns \<and> ownRules choices (set ns) f \<and> sameRules choices (set ns) f)"

lemma sameRules_insert:
  assumes "sameRules choices N f"
    and "\<And>m. m \<in> N \<Longrightarrow> choices n = choices m \<Longrightarrow> 1 < length (choices n) \<Longrightarrow> f n = f m"
  shows "sameRules choices (insert n N) f"
  unfolding sameRules_def
proof (intro ballI impI)
  fix a b
  assume ab: "a \<in> insert n N" "b \<in> insert n N" "choices a = choices b \<and> 1 < length (choices a)"
  consider "a = n" "b = n" | "a = n" "b \<in> N" | "a \<in> N" "b = n" | "a \<in> N" "b \<in> N" using ab by blast
  then show "f a = f b"
  proof cases
    case 2
    then show ?thesis using assms(2)[of b] ab(3) by metis
  next
    case 3
    then show ?thesis using assms(2)[of a] ab(3) by metis
  next
    case 4
    then show ?thesis using assms(1) ab(3) unfolding sameRules_def by blast
  qed simp
qed

lemma sameRules_empty: "sameRules choices {} f"
  by (simp add: sameRules_def)

lemma sameRulesD:
  "sameRules choices N f \<Longrightarrow> n \<in> N \<Longrightarrow> m \<in> N \<Longrightarrow> choices n = choices m \<Longrightarrow>
    1 < length (choices n) \<Longrightarrow> f n = f m"
  unfolding sameRules_def by blast

abbreviation siteOk :: "(consumer \<Rightarrow> ruleSet) \<Rightarrow> (consumer \<times> consumer) list \<Rightarrow>
    (consumer \<rightharpoonup> ruleT option) \<Rightarrow> consumer \<Rightarrow> bool" where
  "siteOk choices comb f n \<equiv>
     (case map_of comb n of None \<Rightarrow> f n \<in> Some ` siteOptions (choices n) | Some m \<Rightarrow> f n = f m)"

lemma extends_same:
  assumes "combinedOk choices comb seen ns" "\<forall>n \<in> set ns. siteOk choices comb f n"
    "ownRules choices seen f" "sameRules choices seen f"
  shows "ownRules choices (seen \<union> set ns) f \<and> sameRules choices (seen \<union> set ns) f"
  using assms
proof (induction ns arbitrary: seen)
  case (Cons n ns)
  have c: "case map_of comb n of
      None \<Rightarrow> length (choices n) \<le> 1 \<or> (\<forall>m \<in> seen. choices m \<noteq> choices n)
    | Some m \<Rightarrow> m \<in> seen \<and> choices m = choices n \<and> 1 < length (choices n)"
    and f: "siteOk choices comb f n"
    using Cons.prems(1,2) by simp_all
  have "ownRules choices (insert n seen) f"
    using c f Cons.prems(3) by (cases "map_of comb n") (auto simp: ownRules_def)
  moreover have "sameRules choices (insert n seen) f"
  proof (rule sameRules_insert[OF Cons.prems(4)])
    fix m assume m: "m \<in> seen" "choices n = choices m" "1 < length (choices n)"
    show "f n = f m"
    proof (cases "map_of comb n")
      case None
      then show ?thesis using c m by auto
    next
      case (Some k)
      then have "f n = f k" "k \<in> seen" "choices k = choices m" using c f m by auto
      then show ?thesis using sameRulesD[OF Cons.prems(4), of k m] m by simp
    qed
  qed
  moreover have "combinedOk choices comb (insert n seen) ns" "\<forall>n \<in> set ns. siteOk choices comb f n"
    using Cons.prems(1,2) by simp_all
  ultimately have "ownRules choices (insert n seen \<union> set ns) f \<and> sameRules choices (insert n seen \<union> set ns) f"
    using Cons.IH by blast
  then show ?case by simp
qed simp

lemma combinedOk_same:
  "combinedOk choices comb seen ns \<Longrightarrow> n \<in> set ns \<Longrightarrow> map_of comb n = Some m \<Longrightarrow>
    m \<in> seen \<union> set ns \<and> choices n = choices m \<and> 1 < length (choices n)"
proof (induction ns arbitrary: seen)
  case (Cons k ns)
  show ?case
  proof (cases "n = k")
    case True
    then show ?thesis using Cons.prems by simp
  next
    case False
    then have "n \<in> set ns" "combinedOk choices comb (insert k seen) ns" using Cons.prems by simp_all
    from Cons.IH[OF this(2,1) Cons.prems(3)] show ?thesis by auto
  qed
qed simp

lemma extends_legal:
  assumes "combinedOk choices comb {} ns"
  shows "extends choices comb ns Map.empty f \<longleftrightarrow> legalAssignment choices ns f"
proof
  assume e: "extends choices comb ns Map.empty f"
  then have o: "ownRules choices (set ns) f" "sameRules choices (set ns) f"
    using extends_same[OF assms, of f] by (auto simp: extends_def ownRules_def sameRulesD sameRules_empty)
  moreover have "dom f = set ns"
    using e o(1) by (auto simp: extends_def ownRules_def dom_def)
  ultimately show "legalAssignment choices ns f" by (simp add: legalAssignment_def)
next
  assume l: "legalAssignment choices ns f"
  have "siteOk choices comb f n" if n: "n \<in> set ns" for n
  proof (cases "map_of comb n")
    case None
    then show ?thesis using l n by (simp add: legalAssignment_def ownRules_def)
  next
    case (Some m)
    have "sameRules choices (set ns) f" using l by (simp add: legalAssignment_def)
    from sameRulesD[OF this n] combinedOk_same[OF assms n Some] have "f n = f m" by blast
    then show ?thesis using Some by simp
  qed
  moreover have "f n = None" if "n \<notin> set ns" for n
    using l that by (auto simp: legalAssignment_def dom_def)
  ultimately show "extends choices comb ns Map.empty f" by (simp add: extends_def)
qed

text \<open>C34: As long as the number of choices fits 64 bits, the indices below the size of a pruned
  collection of choices enumerate the assignments of rules to sites: no index fails an assertion, each
  gives every site one of its rules and sites with the same rules the same one, and each such
  assignment is given by exactly one index.\<close>

theorem getAssignment_enumerates:
  assumes "distinct (rcOrdering rc)" "rcCombined rc = []" "\<forall>n. osorted (choices n)"
    "choiceCount choices (rcCombined (pruneChoiceSpace choices rc)) (rcOrdering rc) < 2 ^ 64"
  shows "(\<forall>i < rc_size choices (pruneChoiceSpace choices rc).
      \<exists>a. getAssignment choices (pruneChoiceSpace choices rc) i = Inr a) \<and>
    bij_betw (\<lambda>i. map_of (projr (getAssignment choices (pruneChoiceSpace choices rc) i)))
      {..<rc_size choices (pruneChoiceSpace choices rc)}
      {f. legalAssignment choices (rcOrdering rc) f}"
proof -
  let ?rc = "pruneChoiceSpace choices rc"
  let ?ns = "rcOrdering rc" and ?comb = "rcCombined ?rc"
  have ns: "rcOrdering ?rc = ?ns" by (simp add: pruneChoiceSpace_def)
  have ok: "combinedOk choices ?comb {} ?ns"
    unfolding pruneChoiceSpace_def using prune_combinedOk[OF assms(1), of "{}" "[]" choices] assms(2) by simp
  have sz: "rc_size choices ?rc = choiceCount choices ?comb ?ns"
    using rc_size_count[of choices ?rc] assms(4) ns by simp
  have get: "\<exists>a. getAssignment choices ?rc i = Inr a \<and> map_of a = assignAll choices ?comb ?ns i Map.empty" for i
    using assign_foldR[OF ok, of "[]" i] by (auto simp: getAssignment_def ns)
  then have eq: "map_of (projr (getAssignment choices ?rc i)) = assignAll choices ?comb ?ns i Map.empty" for i
    by (metis sum.sel(2))
  have "bij_betw (\<lambda>i. assignAll choices ?comb ?ns i Map.empty) {..<choiceCount choices ?comb ?ns}
      {f. legalAssignment choices ?ns f}"
    unfolding bij_betw_def
  proof
    show "inj_on (\<lambda>i. assignAll choices ?comb ?ns i Map.empty) {..<choiceCount choices ?comb ?ns}"
      using assignAll_inj[OF ok assms(1,3)] by (auto intro: inj_onI)
    show "(\<lambda>i. assignAll choices ?comb ?ns i Map.empty) ` {..<choiceCount choices ?comb ?ns} =
        {f. legalAssignment choices ?ns f}"
      using assignAll_extends[OF ok assms(1)] assignAll_onto[OF ok assms(1)] extends_legal[OF ok] by fast
  qed
  then show ?thesis using get sz eq by auto
qed

section \<open>Example\<close>

text \<open>Three sites: two share the rules 1 and 2, one has no rule and one has three rules.\<close>

definition exChoices :: "consumer \<Rightarrow> ruleSet" where
  "exChoices n = (if n = 1 \<or> n = 3 then [Rule 1 False 1, Rule 1 False 2]
     else if n = 4 then [Rule 0 True 5, Rule 1 False 3, Rule 2 False 4] else [])"

definition exCollection :: choiceCollection where
  "exCollection = foldl (\<lambda>c i. addConsumer i c) rcEmpty [1, 2, 3, 4]"

lemma exCollection_eq: "exCollection = \<lparr>rcOrdering = [1, 2, 3, 4], rcInvalid = [], rcCombined = []\<rparr>"
  by (simp add: exCollection_def rcEmpty_def addConsumer_def)

lemma exPruned: "rcCombined (pruneChoiceSpace exChoices exCollection) = [(3, 1)]"
  by (simp add: pruneChoiceSpace_def exCollection_eq pruneStep_def exChoices_def)

lemma getAssignment_enumerates_witness:
  "rc_size exChoices (pruneChoiceSpace exChoices exCollection) = 6 \<and>
   bij_betw (\<lambda>i. map_of (projr (getAssignment exChoices (pruneChoiceSpace exChoices exCollection) i)))
      {..<6} {f. legalAssignment exChoices [1, 2, 3, 4] f}"
proof -
  have ord: "rcOrdering exCollection = [1, 2, 3, 4]" "rcCombined exCollection = []"
    by (simp_all add: exCollection_eq)
  have sorted: "\<forall>n. osorted (exChoices n)"
    by (simp add: exChoices_def less_ruleT_def RulePriCmp_def rulePri_def)
  have "choiceCount exChoices [(3, 1)] [1, 2, 3, 4] = 6"
    by (simp add: siteSize_def exChoices_def)
  then have count: "choiceCount exChoices (rcCombined (pruneChoiceSpace exChoices exCollection))
      (rcOrdering exCollection) = 6"
    by (simp only: ord(1) exPruned)
  then have fits: "choiceCount exChoices (rcCombined (pruneChoiceSpace exChoices exCollection))
      (rcOrdering exCollection) < 2 ^ 64"
    by simp
  have size: "rc_size exChoices (pruneChoiceSpace exChoices exCollection) = 6"
    using rc_size_count[of exChoices "pruneChoiceSpace exChoices exCollection"] count
    by (simp add: pruneChoiceSpace_def)
  have "distinct (rcOrdering exCollection)" by (simp add: ord(1))
  from getAssignment_enumerates[OF this ord(2) sorted fits] show ?thesis
    unfolding size ord(1) by blast
qed

end
