(* ===== verification/ChoiceGraph.thy ===== *)
theory ChoiceGraph
  imports DepDirection RuleChoices
begin

text \<open>
  The dependency graph of the compiler: \<open>compiler/choicedepgraph.h\<close> and \<open>compiler/choicedepgraph.cpp\<close>.

  \<^item> A node is an address; the graph maps addresses to nodes.  A \<open>ScheduleDependencies\<close> maps the nodes
    that a node depends on, in the order of their addresses, to the rules that need them and the
    directions in which they read.
  \<^item> A formula is its text, a region the list of its begin and end formulas per dimension.
  \<^item> \<open>updateIndirectDepends\<close> is one step towards the transitive dependencies,
    \<open>getStronglyConnectedComponent\<close> and \<open>getMultioutputComponent\<close> are the nodes that have to be scheduled
    together, \<open>metaNode\<close> and the remappings replace them by one node.
  \<^item> Printing, and the operations that only print code, are not modelled.
\<close>

section \<open>Dependencies\<close>

record depInfo =
  diRules :: ruleSet
  diDirection :: direction

definition emptyInfo :: depInfo where
  "emptyInfo = \<lparr>diRules = [], diDirection = []\<rparr>"

text \<open>\<open>DependencyInformation::merge\<close>: whether the information was changed, and the merged one.\<close>

definition info_merge :: "depInfo \<Rightarrow> depInfo \<Rightarrow> bool \<times> depInfo" where
  "info_merge this that =
     (let rules = ounion (diRules this) (diRules that);
          dir = dd_merge (diDirection this) (diDirection that) in
      (length rules \<noteq> length (diRules this) \<or> diDirection this \<noteq> dir,
       \<lparr>diRules = rules, diDirection = dir\<rparr>))"

definition info_contains :: "depInfo \<Rightarrow> ruleT \<Rightarrow> bool" where
  "info_contains d r = List.member (diRules d) r"

type_synonym deps = "(nat \<times> depInfo) list"

definition deps_merge :: "deps \<Rightarrow> deps \<Rightarrow> deps" where
  "deps_merge this that =
     foldl (\<lambda>m (k, v). oset k (snd (info_merge (oat emptyInfo k m) v)) m) this that"

type_synonym remapping = "(nat \<times> nat) list"

definition deps_applyRemapping :: "remapping \<Rightarrow> deps \<Rightarrow> deps" where
  "deps_applyRemapping mp orig =
     (if mp = [] then orig
      else foldl (\<lambda>m (k, v). oset (case map_of mp k of None \<Rightarrow> k | Some t \<Rightarrow> t) v m) [] orig)"

definition set_applyRemapping :: "remapping \<Rightarrow> nat list \<Rightarrow> nat list" where
  "set_applyRemapping mp s =
     foldl (\<lambda>s (k, t). if List.member s k then oinsert t (oerase k s) else s) s mp"

definition set_overlaps :: "nat list \<Rightarrow> nat list \<Rightarrow> bool" where
  "set_overlaps this that = list_ex (List.member that) this"

section \<open>Nodes\<close>

type_synonym formula = string
type_synonym simpleRegion = "(formula \<times> formula) list"

datatype nodeKind = BasicNode | MultiOutputNode | SlicedNode

record node =
  nKind :: nodeKind
  nOriginals :: "nat list"
  nRegion :: simpleRegion
  nChoices :: ruleSet
  nIsInput :: bool
  nIsOutput :: bool
  nOriginal :: deps
  nRemapped :: deps
  nIndirect :: deps
  nDimension :: int
  nForward :: bool
  nBegin :: formula
  nEnd :: formula

type_synonym graph = "nat \<Rightarrow> node"

definition basicNode :: "simpleRegion \<Rightarrow> ruleSet \<Rightarrow> node" where
  "basicNode r choices = \<lparr>nKind = BasicNode, nOriginals = [], nRegion = r, nChoices = choices,
     nIsInput = False, nIsOutput = False, nOriginal = [], nRemapped = [], nIndirect = [],
     nDimension = -1, nForward = True, nBegin = [], nEnd = []\<rparr>"

definition directDepends :: "node \<Rightarrow> deps" where
  "directDepends n = (if nRemapped n = [] then nOriginal n else nRemapped n)"

definition addDependency :: "nat \<Rightarrow> nat \<Rightarrow> ruleT \<Rightarrow> direction \<Rightarrow> graph \<Rightarrow> graph res" where
  "addDependency this n r dir g =
     rassert (nRemapped (g this) = [])
      (let d = oat emptyInfo n (nOriginal (g this)) in
       Inr (g(this := (g this)\<lparr>nOriginal := oset n
         \<lparr>diRules = oinsert r (diRules d), diDirection = dd_merge (diDirection d) dir\<rparr>
         (nOriginal (g this))\<rparr>)))"

section \<open>Transitive dependencies\<close>

text \<open>\<open>remote\<close> is the indirect dependencies of another node, or of the node itself, in which case the
  merges change nothing.\<close>

definition mergeRemote :: "deps \<Rightarrow> deps \<times> nat \<Rightarrow> deps \<times> nat" where
  "mergeRemote remote mc = foldl (\<lambda>(m, c) (k, v).
     (case info_merge (oat emptyInfo k m) v of
        (changed, d) \<Rightarrow> (oset k d m, if changed then c + 1 else c))) mc remote"

definition updateIndirectDepends :: "nat \<Rightarrow> graph \<Rightarrow> graph \<times> nat" where
  "updateIndirectDepends n g =
     (let empty = (nIndirect (g n) = []);
          tmp = (if empty then directDepends (g n) else nIndirect (g n));
          c = (if empty then length tmp else 0);
          (m, c) = foldl (\<lambda>(m, c) (i, _).
             mergeRemote (if i = n then m else nIndirect (g i)) (m, c)) (tmp, c) tmp
      in (g(n := (g n)\<lparr>nIndirect := m\<rparr>), c))"

definition getStronglyConnectedComponent :: "nat \<Rightarrow> graph \<Rightarrow> nat list" where
  "getStronglyConnectedComponent n g =
     (if map_of (nIndirect (g n)) n = None then [n]
      else foldl (\<lambda>s (i, _). if map_of (nIndirect (g i)) n \<noteq> None then oinsert i s else s)
        [n] (nIndirect (g n)))"

definition getMultioutputComponent :: "nat \<Rightarrow> graph \<Rightarrow> nat list" where
  "getMultioutputComponent n g =
     foldl (\<lambda>s (i, d). if isMultioutput (diDirection d) then oinsert i s else s)
       [n] (directDepends (g n))"

section \<open>Remapping\<close>

definition resetRemapping :: "node \<Rightarrow> node" where
  "resetRemapping n = n\<lparr>nRemapped := [], nIndirect := []\<rparr>"

definition node_applyRemapping :: "remapping \<Rightarrow> node \<Rightarrow> node" where
  "node_applyRemapping mp n =
     n\<lparr>nRemapped := deps_applyRemapping mp (if nRemapped n = [] then nOriginal n else nRemapped n),
       nIndirect := deps_applyRemapping mp (nIndirect n)\<rparr>"

text \<open>\<open>UserRule::trimDependency\<close>, where \<open>toSize\<close> is the number of outputs of a user rule; that of a
  synthetic rule does nothing.\<close>

definition trimDependency :: "(ruleT \<Rightarrow> nat option) \<Rightarrow> ruleT \<Rightarrow> direction \<Rightarrow> direction" where
  "trimDependency toSize r dep =
     (case toSize r of
        None \<Rightarrow> dep
      | Some k \<Rightarrow> if isMultioutput dep \<and> k \<le> 1 then removeMultioutput dep else dep)"

text \<open>Keep the dependencies of the chosen rule.  Without a rule, looking for it in a set of rules
  follows a null pointer.\<close>

definition applyChoiceRemapping :: "(ruleT \<Rightarrow> nat option) \<Rightarrow> assignment \<Rightarrow> nat \<Rightarrow> graph \<Rightarrow> graph res" where
  "applyChoiceRemapping toSize choice n g =
     rassert (nIndirect (g n) = []) (rassert (nRemapped (g n) = [])
      (case map_of choice n of
         None \<Rightarrow> Inl NullDeref
       | Some None \<Rightarrow> (if list_ex (\<lambda>(k, d). diRules d \<noteq> []) (nOriginal (g n)) then Inl NullDeref else Inr g)
       | Some (Some r) \<Rightarrow>
           Inr (g(n := (g n)\<lparr>nRemapped :=
             foldl (\<lambda>m (k, d). if info_contains d r
                 then oset k (d\<lparr>diDirection := trimDependency toSize r (diDirection d)\<rparr>) m else m)
               [] (nOriginal (g n))\<rparr>))))"

section \<open>Meta nodes\<close>

definition metaNode :: "nodeKind \<Rightarrow> nat list \<Rightarrow> graph \<Rightarrow> node" where
  "metaNode kind s g =
     (basicNode [] [])\<lparr>nKind := kind, nOriginals := s,
       nIsInput := list_ex (\<lambda>i. nIsInput (g i)) s,
       nIsOutput := list_ex (\<lambda>i. nIsOutput (g i)) s,
       nOriginal := foldl (\<lambda>m i. deps_merge m (nOriginal (g i))) [] s,
       nRemapped := foldl (\<lambda>m i. deps_merge m (nRemapped (g i))) [] s,
       nIndirect := foldl (\<lambda>m i. deps_merge m (nIndirect (g i))) [] s\<rparr>"

text \<open>All outputs must be given by the same rule; the first rule is looked for as long as it is null.\<close>

fun sameRule :: "assignment \<Rightarrow> ruleT option \<Rightarrow> nat list \<Rightarrow> bool res" where
  "sameRule choice rule [] = Inr True"
| "sameRule choice rule (i # is) =
     (case map_of choice i of
        None \<Rightarrow> Inl AssertFail
      | Some r \<Rightarrow>
          (let rule' = (if rule = None then r else rule) in
           if rule' \<noteq> r then Inr False else sameRule choice rule' is))"

text \<open>Whether the regions have the same extent in dimension \<open>d\<close>, and that extent.\<close>

fun sameExtents :: "nat \<Rightarrow> (formula \<times> formula) option \<Rightarrow> simpleRegion list \<Rightarrow>
    (formula \<times> formula) option res" where
  "sameExtents d be [] = Inr be"
| "sameExtents d be (r # rs) =
     (if d < length r then
        (let x = (case be of None \<Rightarrow> r ! d | Some x \<Rightarrow> x) in
         if x = r ! d then sameExtents d (Some x) rs else Inr None)
      else Inl OutOfBounds)"

text \<open>The dimension \<open>d - 1\<close>, \<open>d - 2\<close>, ... in which the nodes can be sliced, the direction and the
  extent.\<close>

fun sliceLoop :: "simpleRegion list \<Rightarrow> direction \<Rightarrow> nat \<Rightarrow> (nat \<times> bool \<times> formula \<times> formula) option res" where
  "sliceLoop regions dir 0 = Inr None"
| "sliceLoop regions dir (Suc d) =
     rbind (sameExtents d None regions) (\<lambda>be. case be of
         None \<Rightarrow> sliceLoop regions dir d
       | Some (b, e) \<Rightarrow>
           if dir ! d AND NOT D_LT = 0 then Inr (Some (d, True, b, e))
           else if dir ! d AND NOT D_GT = 0 then Inr (Some (d, False, b, e))
           else sliceLoop regions dir d)"

definition findValidSchedule :: "assignment \<Rightarrow> nat \<Rightarrow> graph \<Rightarrow> (bool \<times> graph) res" where
  "findValidSchedule choice this g =
     (case nKind (g this) of
        BasicNode \<Rightarrow> Inr (True, g)
      | MultiOutputNode \<Rightarrow> rmap (\<lambda>b. (b, g)) (sameRule choice None (nOriginals (g this)))
      | SlicedNode \<Rightarrow>
          (let selfDep = oat emptyInfo this (nIndirect (g this));
               nd = (g this)\<lparr>nIndirect := oset this selfDep (nIndirect (g this))\<rparr> in
           rmap (\<lambda>r. case r of
               None \<Rightarrow> (False, g(this := nd))
             | Some (d, fwd, b, e) \<Rightarrow>
                 (True, g(this := nd\<lparr>nDimension := int d, nForward := fwd, nBegin := b, nEnd := e\<rparr>)))
            (sliceLoop (map (\<lambda>i. nRegion (g i)) (nOriginals (g this))) (diDirection selfDep)
              (length (diDirection selfDep)))))"

end
