(* ===== verification/StaticScheduler.thy ===== *)
theory StaticScheduler
  imports ChoiceGraph
begin

text \<open>
  The scheduler of the compiler: \<open>compiler/scheduler.h\<close>, \<open>compiler/scheduler.cpp\<close>,
  \<open>UserRule::collectDependencies\<close>, and the comparisons of \<open>compiler/maximawrapper.h\<close>.

  \<^item> \<open>maxima\<close>, an argument of the definitions that compare formulas, is the answer of the external
    Maxima process to \<open>is(a op b)\<close>.
  \<^item> \<open>addr\<close> gives the addresses of newly allocated nodes, in the order of their allocation.
  \<^item> \<open>regionsPass\<close> stands for \<open>removeUselessDimensions\<close> and \<open>fixVersionedRegionsType\<close>, which remove
    dimensions from the regions of nodes and rules; they are not modelled.
\<close>

section \<open>Comparing formulas\<close>

datatype tryCompareResult = NO | YES | UNKNOWN

type_synonym maxima = "formula \<Rightarrow> string \<Rightarrow> formula \<Rightarrow> tryCompareResult"

definition tryCompare :: "maxima \<Rightarrow> maxima" where
  "tryCompare maxima a op b =
     (if a = b \<and> (op = ''='' \<or> op = ''<='' \<or> op = ''>='') then YES
      else if a = b \<and> (op = ''<'' \<or> op = ''>'') then NO
      else maxima a op b)"

definition compare :: "maxima \<Rightarrow> formula \<Rightarrow> string \<Rightarrow> formula \<Rightarrow> bool res" where
  "compare maxima a op b =
     (let rslt = tryCompare maxima a op b in rassert (rslt \<noteq> UNKNOWN) (Inr (rslt = YES)))"

definition comparePessimistically :: "maxima \<Rightarrow> formula \<Rightarrow> string \<Rightarrow> formula \<Rightarrow> bool" where
  "comparePessimistically maxima a op b = (tryCompare maxima a op b = YES)"

fun intersectLoop :: "maxima \<Rightarrow> simpleRegion \<Rightarrow> simpleRegion \<Rightarrow> bool res" where
  "intersectLoop maxima ((lo, hi) # r) ((lo', hi') # r') =
     rbind (compare maxima hi ''<='' lo') (\<lambda>left. if left then Inr False else
       rbind (compare maxima lo ''>='' hi') (\<lambda>right. if right then Inr False else
         intersectLoop maxima r r'))"
| "intersectLoop maxima _ _ = Inr True"

definition hasIntersect :: "maxima \<Rightarrow> simpleRegion \<Rightarrow> simpleRegion \<Rightarrow> bool res" where
  "hasIntersect maxima a b =
     (if a = b then Inr True
      else if length a \<noteq> length b then Inr False
      else intersectLoop maxima a b)"

fun possibleLoop :: "maxima \<Rightarrow> simpleRegion \<Rightarrow> simpleRegion \<Rightarrow> direction \<Rightarrow> bool res" where
  "possibleLoop maxima ((lo, hi) # a) ((lo', hi') # b) (m # dir) =
     (if (m = D_GT \<or> m = D_GE) \<and> comparePessimistically maxima lo ''>='' hi' then Inr False
      else if (m = D_LT \<or> m = D_LE) \<and> comparePessimistically maxima lo' ''>='' hi then Inr False
      else possibleLoop maxima a b dir)"
| "possibleLoop maxima (_ # _) (_ # _) [] = Inl OutOfBounds"
| "possibleLoop maxima _ _ _ = Inr True"

definition dependencyPossible :: "maxima \<Rightarrow> node \<Rightarrow> node \<Rightarrow> direction \<Rightarrow> bool res" where
  "dependencyPossible maxima a b dir = possibleLoop maxima (nRegion a) (nRegion b) dir"

section \<open>Building the graph\<close>

type_synonym matrix = nat

record scheduler =
  sMatrixToNodes :: "(matrix \<times> nat list) list"
  sAllNodes :: "nat list"
  sMetaNodes :: "nat list"
  sInputs :: "nat list"
  sIntermediates :: "nat list"
  sOutputs :: "nat list"
  sGraph :: graph
  sAllocated :: nat

definition newNode :: "(nat \<Rightarrow> nat) \<Rightarrow> matrix \<Rightarrow> node \<Rightarrow> scheduler \<Rightarrow> scheduler" where
  "newNode addr m nd s =
     (let p = addr (sAllocated s) in
      s\<lparr>sMatrixToNodes := oset m (oat [] m (sMatrixToNodes s) @ [p]) (sMatrixToNodes s),
        sAllNodes := sAllNodes s @ [p], sGraph := (sGraph s)(p := nd),
        sAllocated := Suc (sAllocated s)\<rparr>)"

text \<open>The constructor, from the regions of the choice grid and the rules that apply there.\<close>

definition newScheduler :: "(nat \<Rightarrow> nat) \<Rightarrow> (matrix \<times> (simpleRegion \<times> ruleSet) list) list \<Rightarrow> scheduler" where
  "newScheduler addr cg =
     foldl (\<lambda>s (m, idx). foldl (\<lambda>s (r, rules). newNode addr m (basicNode r rules) s)
         (s\<lparr>sMatrixToNodes := oset m (oat [] m (sMatrixToNodes s)) (sMatrixToNodes s)\<rparr>) idx)
       \<lparr>sMatrixToNodes = [], sAllNodes = [], sMetaNodes = [], sInputs = [], sIntermediates = [],
        sOutputs = [], sGraph = (\<lambda>_. basicNode [] []), sAllocated = 0\<rparr> cg"

text \<open>\<open>whole\<close> is the region of the whole matrix.\<close>

definition markInputMatrix :: "(nat \<Rightarrow> nat) \<Rightarrow> matrix \<Rightarrow> simpleRegion \<Rightarrow> scheduler \<Rightarrow> scheduler res" where
  "markInputMatrix addr m whole s =
     rassert (oat [] m (sMatrixToNodes s) = [])
      (let p = addr (sAllocated s);
           s = newNode addr m ((basicNode whole [])\<lparr>nIsInput := True\<rparr>) s in
       Inr (s\<lparr>sInputs := oinsert p (sInputs s)\<rparr>))"

definition markOutputMatrix :: "matrix \<Rightarrow> scheduler \<Rightarrow> scheduler res" where
  "markOutputMatrix m s =
     (let lst = oat [] m (sMatrixToNodes s) in
      rassert (lst \<noteq> [])
       (Inr (foldl (\<lambda>s p. s\<lparr>sOutputs := oinsert p (sOutputs s),
          sGraph := (sGraph s)(p := (sGraph s p)\<lparr>nIsOutput := True\<rparr>)\<rparr>) s lst)))"

text \<open>The nodes of a matrix that a region meets; the search stops at a node of exactly this region.\<close>

fun lookupLoop :: "maxima \<Rightarrow> graph \<Rightarrow> simpleRegion \<Rightarrow> nat list \<Rightarrow> nat list \<Rightarrow> nat list res" where
  "lookupLoop maxima g r [] rv = Inr rv"
| "lookupLoop maxima g r (p # ps) rv =
     (if r = nRegion (g p) then Inr (oinsert p rv)
      else rbind (hasIntersect maxima (nRegion (g p)) r) (\<lambda>b.
        lookupLoop maxima g r ps (if b then oinsert p rv else rv)))"

definition lookupNode :: "maxima \<Rightarrow> (matrix \<Rightarrow> nat) \<Rightarrow> scheduler \<Rightarrow> matrix \<Rightarrow> simpleRegion \<Rightarrow> nat list res" where
  "lookupNode maxima numDimensions s m r =
     (let regions = oat [] m (sMatrixToNodes s) in
      rbind (if numDimensions m = 0 then rassert (length regions = 1) (Inr [hd regions])
             else lookupLoop maxima (sGraph s) r regions [])
        (\<lambda>rv. rassert (rv \<noteq> []) (Inr rv)))"

text \<open>A user rule with the regions it provides and depends on, one entry per matrix.\<close>

record userRule =
  urRule :: ruleT
  urDimensions :: nat
  urProvides :: "(matrix \<times> direction \<times> simpleRegion) list"
  urDepends :: "(matrix \<times> direction \<times> simpleRegion) list"

definition addPossible :: "maxima \<Rightarrow> ruleT \<Rightarrow> direction \<Rightarrow> nat \<Rightarrow> nat \<Rightarrow> graph \<Rightarrow> graph res" where
  "addPossible maxima r dir a b g =
     rbind (dependencyPossible maxima (g a) (g b) dir) (\<lambda>possible.
       if possible then addDependency a b r dir g else Inr g)"

definition collectDepends :: "maxima \<Rightarrow> (matrix \<Rightarrow> nat) \<Rightarrow> userRule \<Rightarrow> nat list \<Rightarrow>
    matrix \<times> direction \<times> simpleRegion \<Rightarrow> scheduler \<Rightarrow> scheduler res" where
  "collectDepends maxima numDimensions ur pNode = (\<lambda>(m, dir, r) s.
     rbind (lookupNode maxima numDimensions s m r) (\<lambda>dNode.
       rmap (\<lambda>g. s\<lparr>sGraph := g\<rparr>)
        (foldR (\<lambda>a. foldR (addPossible maxima (urRule ur) dir a) dNode) pNode (sGraph s))))"

definition collectOutputs :: "maxima \<Rightarrow> (matrix \<Rightarrow> nat) \<Rightarrow> userRule \<Rightarrow> nat list \<Rightarrow>
    matrix \<times> direction \<times> simpleRegion \<Rightarrow> scheduler \<Rightarrow> scheduler res" where
  "collectOutputs maxima numDimensions ur pNode = (\<lambda>(m, dir, r) s.
     rbind (lookupNode maxima numDimensions s m r) (\<lambda>dNode.
       rmap (\<lambda>g. s\<lparr>sGraph := g\<rparr>)
        (foldR (\<lambda>a. foldR (\<lambda>b. addDependency a b (urRule ur)
            (dd_new (max 1 (urDimensions ur)) D_MULTIOUTPUT)) dNode) pNode (sGraph s))))"

definition collectDependencies :: "maxima \<Rightarrow> (matrix \<Rightarrow> nat) \<Rightarrow> userRule \<Rightarrow> scheduler \<Rightarrow> scheduler res" where
  "collectDependencies maxima numDimensions ur s =
     foldR (\<lambda>i s. case urProvides ur ! i of (m, dir, r) \<Rightarrow>
        rbind (lookupNode maxima numDimensions s m r) (\<lambda>pNode.
        rbind (foldR (collectDepends maxima numDimensions ur pNode) (urDepends ur) s)
          (foldR (collectOutputs maxima numDimensions ur pNode)
            (map (\<lambda>j. urProvides ur ! j) (filter (\<lambda>j. j \<noteq> i) [0..<length (urProvides ur)])))))
      [0..<length (urProvides ur)] s"

section \<open>Scheduling\<close>

definition updateRound :: "nat list \<Rightarrow> graph \<Rightarrow> graph \<times> nat" where
  "updateRound nodes g =
     foldl (\<lambda>(g, c) n. case updateIndirectDepends n g of (g', d) \<Rightarrow> (g', c + d)) (g, 0) nodes"

partial_function (option) computeIndirectDependencies :: "nat list \<Rightarrow> graph \<Rightarrow> graph option" where
  "computeIndirectDependencies nodes g =
     (if snd (updateRound nodes g) > 0
      then computeIndirectDependencies nodes (fst (updateRound nodes g))
      else Some (fst (updateRound nodes g)))"

declare computeIndirectDependencies.simps [code]

definition setEachTo :: "remapping \<Rightarrow> nat list \<Rightarrow> nat \<Rightarrow> remapping" where
  "setEachTo mapping s p = foldl (\<lambda>m e. oset e p m) mapping s"

record mergeState =
  mDone :: "nat list"
  mMapping :: remapping
  mMeta :: "nat list"
  mGraph :: graph
  mAllocated :: nat

definition newMeta :: "(nat \<Rightarrow> nat) \<Rightarrow> nodeKind \<Rightarrow> nat list \<Rightarrow> mergeState \<Rightarrow> mergeState" where
  "newMeta addr kind s st =
     (let p = addr (mAllocated st) in
      st\<lparr>mDone := ounion (mDone st) s, mMapping := setEachTo (mMapping st) s p,
         mMeta := mMeta st @ [p], mGraph := (mGraph st)(p := metaNode kind s (mGraph st)),
         mAllocated := Suc (mAllocated st)\<rparr>)"

definition mergeNode :: "(nat \<Rightarrow> nat) \<Rightarrow> nat \<Rightarrow> mergeState \<Rightarrow> mergeState res" where
  "mergeNode addr i st =
     (if List.member (mDone st) i then Inr st
      else let multi = getMultioutputComponent i (mGraph st);
               scc = getStronglyConnectedComponent i (mGraph st) in
        if length multi > 1 then
          (if set_overlaps multi (mDone st) \<or> multi \<noteq> scc then Inl CantSchedule
           else Inr (newMeta addr MultiOutputNode multi st))
        else if length scc > 1 then Inr (newMeta addr SlicedNode scc st)
        else Inr (st\<lparr>mDone := ounion (mDone st) scc\<rparr>))"

definition remapNodes :: "remapping \<Rightarrow> nat list \<Rightarrow> graph \<Rightarrow> graph" where
  "remapNodes mapping nodes g = foldl (\<lambda>g n. g(n := node_applyRemapping mapping (g n))) g nodes"

definition checkMeta :: "assignment \<Rightarrow> nat \<Rightarrow> graph \<Rightarrow> graph res" where
  "checkMeta choice i g =
     rbind (findValidSchedule choice i g) (\<lambda>(ok, g). if ok then Inr g else Inl CantSchedule)"

text \<open>The remapped inputs, intermediates and outputs are in the result; the new meta nodes are kept.\<close>

definition mergeCoscheduledNodes :: "(nat \<Rightarrow> nat) \<Rightarrow> assignment \<Rightarrow> scheduler \<Rightarrow>
    (scheduler \<times> nat list \<times> nat list \<times> nat list) res" where
  "mergeCoscheduledNodes addr choice s =
     rbind (foldR (mergeNode addr) (sAllNodes s)
        \<lparr>mDone = [], mMapping = [], mMeta = [], mGraph = sGraph s, mAllocated = sAllocated s\<rparr>) (\<lambda>st.
     rbind (foldR (checkMeta choice) (mMeta st)
        (remapNodes (mMapping st) (mMeta st) (remapNodes (mMapping st) (sAllNodes s) (mGraph st)))) (\<lambda>g.
     Inr (s\<lparr>sGraph := g, sAllocated := mAllocated st, sMetaNodes := sMetaNodes s @ mMeta st\<rparr>,
       set_applyRemapping (mMapping st) (sInputs s),
       set_applyRemapping (mMapping st) (sIntermediates s),
       set_applyRemapping (mMapping st) (sOutputs s))))"

section \<open>Schedules\<close>

record scheduleEntry =
  seNode :: nat
  seDeps :: deps

text \<open>\<open>ScheduleEntry::filterDeps\<close> drops the inputs and the node itself.\<close>

definition newEntry :: "graph \<Rightarrow> nat \<Rightarrow> scheduleEntry" where
  "newEntry g n =
     \<lparr>seNode = n, seDeps = filter (\<lambda>(k, d). \<not> nIsInput (g k) \<and> k \<noteq> n) (nRemapped (g n))\<rparr>"

record schedulingState =
  ssGenerated :: "nat list"
  ssPending :: "nat list"
  ssSchedule :: "scheduleEntry list"

text \<open>The first argument bounds the depth of the recursion.\<close>

fun depthFirst :: "nat \<Rightarrow> graph \<Rightarrow> nat \<Rightarrow> schedulingState \<Rightarrow> schedulingState res" where
  "depthFirst 0 g n st = Inl Diverges"
| "depthFirst (Suc f) g n st =
     (if List.member (ssGenerated st) n then Inr st
      else rassert (\<not> List.member (ssPending st) n)
       (rmap (\<lambda>st. st\<lparr>ssSchedule := ssSchedule st @ [newEntry g n],
                      ssGenerated := oinsert n (ssGenerated st)\<rparr>)
         (foldR (\<lambda>k st. if k \<noteq> n then depthFirst f g k st else Inr st)
           (map fst (directDepends (g n))) (st\<lparr>ssPending := oinsert n (ssPending st)\<rparr>))))"

text \<open>An unused intermediate node must have the first of its rules; comparing with the first rule of
  a node without rules reads past the end of an empty set.\<close>

definition checkUnused :: "graph \<Rightarrow> assignment \<Rightarrow> nat list \<Rightarrow> nat \<Rightarrow> unit res" where
  "checkUnused g choice generated i =
     (if List.member generated i then Inr ()
      else if nChoices (g i) = [] then Inl OutOfBounds
      else if oat None i choice \<noteq> Some (hd (nChoices (g i))) then Inl CantSchedule
      else Inr ())"

definition newSchedule :: "nat \<Rightarrow> graph \<Rightarrow> assignment \<Rightarrow> nat list \<Rightarrow> nat list \<Rightarrow> nat list \<Rightarrow>
    scheduleEntry list res" where
  "newSchedule fuel g choice inputs intermediates outputs =
     rbind (foldR (\<lambda>i st. rassert (nIsOutput (g i)) (depthFirst fuel g i st)) outputs
        \<lparr>ssGenerated = inputs, ssPending = [], ssSchedule = []\<rparr>) (\<lambda>st.
     rmap (\<lambda>_. ssSchedule st)
       (foldR (\<lambda>i _. checkUnused g choice (ssGenerated st) i) intermediates ()))"

section \<open>All choices\<close>

text \<open>One round of the loop of \<open>generateSchedule\<close>: first the dependencies of a choice, then its
  schedule.  A recursion of the depth-first search visits a node only once, so the number of nodes
  bounds its depth.\<close>

definition chooseDependencies :: "(graph \<Rightarrow> graph) \<Rightarrow> (ruleT \<Rightarrow> nat option) \<Rightarrow> assignment \<Rightarrow>
    scheduler \<Rightarrow> scheduler res" where
  "chooseDependencies regionsPass toSize choice s =
     rbind (foldR (applyChoiceRemapping toSize choice) (sAllNodes s)
       (foldl (\<lambda>g n. g(n := resetRemapping (g n))) (sGraph s) (sAllNodes s))) (\<lambda>g.
     rbind (case computeIndirectDependencies (sAllNodes s) g of None \<Rightarrow> Inl Diverges | Some g \<Rightarrow> Inr g) (\<lambda>g.
     Inr (s\<lparr>sGraph := regionsPass g\<rparr>)))"

definition scheduleChoice :: "(nat \<Rightarrow> nat) \<Rightarrow> assignment \<Rightarrow> scheduler \<Rightarrow>
    (scheduler \<times> scheduleEntry list) res" where
  "scheduleChoice addr choice s =
     rbind (mergeCoscheduledNodes addr choice s) (\<lambda>(s, inputs, intermediates, outputs).
       rmap (\<lambda>sched. (s, sched))
        (newSchedule (Suc (length (sAllNodes s) + length (sMetaNodes s))) (sGraph s) choice
          inputs intermediates outputs))"

text \<open>A choice that cannot be scheduled is marked invalid, any other failure ends the compiler.  What
  the failed attempt left in the nodes is cleared at the start of the next round.\<close>

definition tryChoice :: "(nat \<Rightarrow> nat) \<Rightarrow> (graph \<Rightarrow> graph) \<Rightarrow> (ruleT \<Rightarrow> nat option) \<Rightarrow> nat \<Rightarrow>
    scheduler \<times> choiceCollection \<times> scheduleEntry list list \<Rightarrow>
    (scheduler \<times> choiceCollection \<times> scheduleEntry list list) res" where
  "tryChoice addr regionsPass toSize i = (\<lambda>(s, rc, schedules).
     rbind (getAssignment (\<lambda>n. nChoices (sGraph s n)) rc i) (\<lambda>choice.
     rbind (chooseDependencies regionsPass toSize choice s) (\<lambda>s.
       case scheduleChoice addr choice s of
         Inl e \<Rightarrow> (if e = CantSchedule then Inr (s, markInvalid i rc, schedules) else Inl e)
       | Inr (s', sched) \<Rightarrow> Inr (s', rc, schedules @ [sched]))))"

definition generateSchedule :: "(nat \<Rightarrow> nat) \<Rightarrow> (graph \<Rightarrow> graph) \<Rightarrow> (ruleT \<Rightarrow> nat option) \<Rightarrow> scheduler \<Rightarrow>
    (scheduler \<times> choiceCollection \<times> scheduleEntry list list) res" where
  "generateSchedule addr regionsPass toSize s =
     (let s = s\<lparr>sIntermediates := foldl (\<lambda>m n. if \<not> nIsInput (sGraph s n) \<and> \<not> nIsOutput (sGraph s n)
            then oinsert n m else m) (sIntermediates s) (sAllNodes s)\<rparr>;
          choices = (\<lambda>n. nChoices (sGraph s n));
          rc = pruneChoiceSpace choices (foldl (\<lambda>rc n. addConsumer n rc) rcEmpty (sAllNodes s)) in
      rassert (rc_size choices rc < 1000)
       (rbind (foldR (tryChoice addr regionsPass toSize) [0..<rc_size choices rc] (s, rc, [])) (\<lambda>(s, rc, schedules).
          rassert (schedules \<noteq> []) (Inr (s, rc, schedules)))))"

end
