(* ===== verification/DepClosure.thy ===== *)
theory DepClosure
  imports StaticScheduler
begin

text \<open>
  The transitive dependencies that \<open>computeIndirectDependencies\<close> finds.  What a set of dependencies
  says is a set of atoms: which nodes, by which rules, in how many dimensions and in which directions.
  A merge is then a union, and the loop adds to each node the atoms of the nodes it depends on.
\<close>

section \<open>What dependencies say\<close>

datatype atom = AKey nat | ARule nat ruleT | ADim nat nat | ABit nat nat nat

definition infoAtoms :: "nat \<Rightarrow> depInfo \<Rightarrow> atom set" where
  "infoAtoms k d = {AKey k} \<union> ARule k ` set (diRules d) \<union> ADim k ` {..<length (diDirection d)} \<union>
     {ABit k i b | i b. bit (maskAt (diDirection d) i) b}"

definition depsAtoms :: "deps \<Rightarrow> atom set" where
  "depsAtoms m = {x. \<exists>k d. map_of m k = Some d \<and> x \<in> infoAtoms k d}"

fun atomKey :: "atom \<Rightarrow> nat" where
  "atomKey (AKey k) = k"
| "atomKey (ARule k r) = k"
| "atomKey (ADim k i) = k"
| "atomKey (ABit k i b) = k"

lemma infoAtoms_key: "x \<in> infoAtoms k d \<Longrightarrow> atomKey x = k"
  by (auto simp: infoAtoms_def)

lemma in_depsAtoms:
  "x \<in> depsAtoms m \<longleftrightarrow> (\<exists>d. map_of m (atomKey x) = Some d \<and> x \<in> infoAtoms (atomKey x) d)"
  by (auto simp: depsAtoms_def dest: infoAtoms_key)

definition dirOk :: "direction \<Rightarrow> bool" where
  "dirOk d = (\<forall>m \<in> set d. 0 \<le> m)"

definition infoOk :: "depInfo \<Rightarrow> bool" where
  "infoOk d = (osorted (diRules d) \<and> diRules d \<noteq> [] \<and> dirOk (diDirection d))"

definition depsOk :: "deps \<Rightarrow> bool" where
  "depsOk m = (omap m \<and> (\<forall>(k, d) \<in> set m. infoOk d))"

lemma depsOk_Nil [simp]: "depsOk []"
  by (simp add: depsOk_def)

lemma depsOk_info: "depsOk m \<Longrightarrow> map_of m k = Some d \<Longrightarrow> infoOk d"
  by (auto simp: depsOk_def dest: map_of_SomeD)

lemma set_oset: "x \<in> set (oset k v m) \<Longrightarrow> x = (k, v) \<or> x \<in> set m"
  by (induction m) (auto split: if_splits)

lemma depsOk_oset [intro]: "depsOk m \<Longrightarrow> infoOk d \<Longrightarrow> depsOk (oset k d m)"
  by (auto simp: depsOk_def dest: set_oset)

lemma depsOk_atoms: "depsOk m \<Longrightarrow> depsAtoms m = (\<Union>(k, d) \<in> set m. infoAtoms k d)"
proof -
  assume "depsOk m"
  then have *: "map_of m k = Some d \<longleftrightarrow> (k, d) \<in> set m" for k d by (simp add: depsOk_def omap_map_of)
  show ?thesis
  proof (rule set_eqI, rule iffI)
    fix x assume "x \<in> depsAtoms m"
    then obtain k d where "(k, d) \<in> set m" "x \<in> infoAtoms k d" using * by (auto simp: depsAtoms_def)
    then show "x \<in> (\<Union>(k, d) \<in> set m. infoAtoms k d)" by (intro UN_I[of "(k, d)"]) simp_all
  next
    fix x assume "x \<in> (\<Union>(k, d) \<in> set m. infoAtoms k d)"
    then obtain k d where "(k, d) \<in> set m" "x \<in> infoAtoms k d" by blast
    then show "x \<in> depsAtoms m" using *[of k d] by (auto simp: depsAtoms_def)
  qed
qed

lemma AKey_infoAtoms [simp]: "AKey k \<in> infoAtoms l d \<longleftrightarrow> k = l"
  by (auto simp: infoAtoms_def)

lemma atom_infoAtoms [simp]:
  "ARule k r \<in> infoAtoms l d \<longleftrightarrow> k = l \<and> r \<in> set (diRules d)"
  "ADim k i \<in> infoAtoms l d \<longleftrightarrow> k = l \<and> i < length (diDirection d)"
  "ABit k i b \<in> infoAtoms l d \<longleftrightarrow> k = l \<and> bit (maskAt (diDirection d) i) b"
  by (auto simp: infoAtoms_def)

lemma AKey_depsAtoms [simp]: "AKey k \<in> depsAtoms m \<longleftrightarrow> k \<in> keys m"
  by (auto simp: depsAtoms_def map_of_keys(1)[symmetric])

lemma depsAtoms_empty [simp]: "depsAtoms m = {} \<longleftrightarrow> m = []"
proof
  assume e: "depsAtoms m = {}"
  show "m = []"
  proof (cases m)
    case (Cons x xs)
    then have "AKey (fst x) \<in> depsAtoms m" by simp
    then show ?thesis using e by blast
  qed simp
qed (simp add: depsAtoms_def)

section \<open>Merging\<close>

lemma dirOk_merge: "dirOk a \<Longrightarrow> dirOk b \<Longrightarrow> dirOk (dd_merge a b)"
  by (auto simp: dirOk_def dd_merge_def D_NONE_def maskAt_def)

lemma dirOk_Nil [simp]: "dirOk []"
  by (simp add: dirOk_def)

lemma infoAtoms_merge [simp]:
  "infoAtoms k (snd (info_merge a b)) = infoAtoms k a \<union> infoAtoms k b"
proof -
  have "{..<max p q} = {..<p} \<union> {..<q}" for p q :: nat by auto
  then show ?thesis by (auto simp: infoAtoms_def info_merge_def Let_def dd_merge_bit)
qed

lemma infoOk_merge: "infoOk a \<or> a = emptyInfo \<Longrightarrow> infoOk b \<Longrightarrow> infoOk (snd (info_merge a b))"
proof -
  assume a: "infoOk a \<or> a = emptyInfo" and b: "infoOk b"
  have "set (ounion (diRules a) (diRules b)) \<noteq> {}" using b by (simp add: infoOk_def)
  then have "ounion (diRules a) (diRules b) \<noteq> []" by fastforce
  then show ?thesis using a b
    by (auto simp: infoOk_def info_merge_def Let_def emptyInfo_def dirOk_merge)
qed

lemma info_merge_changed:
  assumes "osorted (diRules a)"
  shows "fst (info_merge a b) \<longleftrightarrow> \<not> infoAtoms k b \<subseteq> infoAtoms k a"
proof -
  have r: "length (ounion (diRules a) (diRules b)) = length (diRules a) \<longleftrightarrow> set (diRules b) \<subseteq> set (diRules a)"
    by (rule length_ounion[OF assms])
  have d: "diDirection a = dd_merge (diDirection a) (diDirection b) \<longleftrightarrow>
      length (diDirection b) \<le> length (diDirection a) \<and>
      (\<forall>i n. bit (maskAt (diDirection b) i) n \<longrightarrow> bit (maskAt (diDirection a) i) n)" (is "?L \<longleftrightarrow> ?R")
  proof
    assume ?L
    then have "length (diDirection a) = length (dd_merge (diDirection a) (diDirection b))"
      and "\<And>i n. bit (maskAt (diDirection a) i) n = bit (maskAt (dd_merge (diDirection a) (diDirection b)) i) n"
      by simp_all
    then show ?R by (auto simp: dd_merge_bit)
  next
    assume ?R
    then show ?L by (intro direction_eqI) (auto simp: dd_merge_bit)
  qed
  have "fst (info_merge a b) \<longleftrightarrow> \<not> (set (diRules b) \<subseteq> set (diRules a) \<and>
      length (diDirection b) \<le> length (diDirection a) \<and>
      (\<forall>i n. bit (maskAt (diDirection b) i) n \<longrightarrow> bit (maskAt (diDirection a) i) n))"
    using r d by (simp add: info_merge_def Let_def) blast
  moreover have "infoAtoms k b \<subseteq> infoAtoms k a \<longleftrightarrow> set (diRules b) \<subseteq> set (diRules a) \<and>
      length (diDirection b) \<le> length (diDirection a) \<and>
      (\<forall>i n. bit (maskAt (diDirection b) i) n \<longrightarrow> bit (maskAt (diDirection a) i) n)"
  proof
    assume sub: "infoAtoms k b \<subseteq> infoAtoms k a"
    have "r \<in> set (diRules a)" if "r \<in> set (diRules b)" for r
      using subsetD[OF sub, of "ARule k r"] that by simp
    moreover have "i < length (diDirection a)" if "i < length (diDirection b)" for i
      using subsetD[OF sub, of "ADim k i"] that by simp
    then have "length (diDirection b) \<le> length (diDirection a)" by (meson not_le order_less_irrefl)
    moreover have "bit (maskAt (diDirection a) i) n" if "bit (maskAt (diDirection b) i) n" for i n
      using subsetD[OF sub, of "ABit k i n"] that by simp
    ultimately show "set (diRules b) \<subseteq> set (diRules a) \<and>
        length (diDirection b) \<le> length (diDirection a) \<and>
        (\<forall>i n. bit (maskAt (diDirection b) i) n \<longrightarrow> bit (maskAt (diDirection a) i) n)" by blast
  qed (auto simp: infoAtoms_def)
  ultimately show ?thesis by argo
qed

lemma depsAtoms_put:
  "depsAtoms (oset k (snd (info_merge (oat emptyInfo k m) v)) m) = depsAtoms m \<union> infoAtoms k v"
proof (rule set_eqI)
  fix x
  have e: "infoAtoms k emptyInfo = {AKey k}"
    by (auto simp: infoAtoms_def emptyInfo_def maskAt_def D_NONE_def)
  have k: "AKey k \<in> infoAtoms k v" by simp
  show "x \<in> depsAtoms (oset k (snd (info_merge (oat emptyInfo k m) v)) m) \<longleftrightarrow>
      x \<in> depsAtoms m \<union> infoAtoms k v"
  proof (cases "atomKey x = k")
    case True
    have "{AKey k} \<union> infoAtoms k v = infoAtoms k v" using k by blast
    then show ?thesis using True by (cases "map_of m k") (auto simp: in_depsAtoms oat_def e)
  next
    case False
    then show ?thesis using infoAtoms_key by (auto simp: in_depsAtoms)
  qed
qed

lemma depsOk_put:
  "depsOk m \<Longrightarrow> infoOk v \<Longrightarrow> depsOk (oset k (snd (info_merge (oat emptyInfo k m) v)) m)"
  by (intro depsOk_oset infoOk_merge) (auto simp: oat_def dest: depsOk_info split: option.split)

text \<open>One entry of a remote set of dependencies counts as a change exactly when it adds an atom.\<close>

lemma put_changed:
  assumes "depsOk m" "infoOk v"
  shows "fst (info_merge (oat emptyInfo k m) v) \<longleftrightarrow> \<not> infoAtoms k v \<subseteq> depsAtoms m"
proof (cases "map_of m k")
  case None
  have "set (diRules v) \<noteq> {}" using assms(2) by (simp add: infoOk_def)
  then have "set (ounion [] (diRules v)) \<noteq> {}" by simp
  then have "ounion [] (diRules v) \<noteq> []" by fastforce
  then have "fst (info_merge emptyInfo v)"
    by (simp add: info_merge_def Let_def emptyInfo_def)
  moreover have "AKey k \<notin> depsAtoms m" using None by (simp add: map_of_keys)
  ultimately show ?thesis using None by (auto simp: oat_def infoAtoms_def)
next
  case (Some d)
  then have "osorted (diRules d)" using depsOk_info[OF assms(1)] by (simp add: infoOk_def)
  note ch = info_merge_changed[OF this, of v k]
  have "infoAtoms k v \<subseteq> depsAtoms m \<longleftrightarrow> infoAtoms k v \<subseteq> infoAtoms k d"
  proof
    assume sub: "infoAtoms k v \<subseteq> depsAtoms m"
    show "infoAtoms k v \<subseteq> infoAtoms k d"
    proof
      fix x assume x: "x \<in> infoAtoms k v"
      then obtain l e where le: "map_of m l = Some e" "x \<in> infoAtoms l e"
        using sub by (auto simp: depsAtoms_def)
      then have "l = k" using x by (auto simp: infoAtoms_def)
      then show "x \<in> infoAtoms k d" using le Some by simp
    qed
  qed (use Some in \<open>auto simp: depsAtoms_def\<close>)
  then show ?thesis using ch Some by (simp add: oat_def)
qed

lemma mergeRemote_spec:
  assumes "depsOk m" "\<forall>(k, v) \<in> set r. infoOk v"
  shows "depsOk (fst (mergeRemote r (m, c))) \<and>
    depsAtoms (fst (mergeRemote r (m, c))) = depsAtoms m \<union> (\<Union>(k, v) \<in> set r. infoAtoms k v) \<and>
    c \<le> snd (mergeRemote r (m, c)) \<and>
    (snd (mergeRemote r (m, c)) = c \<longleftrightarrow> (\<Union>(k, v) \<in> set r. infoAtoms k v) \<subseteq> depsAtoms m)"
  using assms
proof (induction r arbitrary: m c)
  case Nil
  then show ?case by (simp add: mergeRemote_def)
next
  case (Cons e r)
  obtain k v where e: "e = (k, v)" by (cases e) auto
  let ?i = "info_merge (oat emptyInfo k m) v"
  let ?m = "oset k (snd ?i) m" and ?c = "if fst ?i then c + 1 else c"
  have v: "infoOk v" using Cons.prems(2) e by auto
  obtain m' c' where mc: "mergeRemote r (?m, ?c) = (m', c')" by (cases "mergeRemote r (?m, ?c)")
  have step: "mergeRemote (e # r) (m, c) = (m', c')"
    using mc by (simp add: mergeRemote_def e case_prod_beta)
  define B where "B = (\<Union>(k, v) \<in> set r. infoAtoms k v)"
  have eB: "(\<Union>(k, v) \<in> set (e # r). infoAtoms k v) = infoAtoms k v \<union> B" by (simp add: e B_def)
  have m: "depsOk ?m" by (rule depsOk_put[OF Cons.prems(1) v])
  note at = depsAtoms_put[of k m v]
  have ih: "depsOk m'" "depsAtoms m' = depsAtoms m \<union> infoAtoms k v \<union> B" "?c \<le> c'"
    "c' = ?c \<longleftrightarrow> B \<subseteq> depsAtoms m \<union> infoAtoms k v"
    using Cons.IH[OF m, of ?c] Cons.prems(2) by (simp_all add: mc B_def at)
  have "c' = c \<longleftrightarrow> infoAtoms k v \<union> B \<subseteq> depsAtoms m"
  proof (cases "fst ?i")
    case True
    then have "\<not> infoAtoms k v \<subseteq> depsAtoms m" using put_changed[OF Cons.prems(1) v, of k] by simp
    then show ?thesis using True ih(3) by auto
  next
    case False
    then have "infoAtoms k v \<subseteq> depsAtoms m" using put_changed[OF Cons.prems(1) v, of k] by simp
    then show ?thesis using False ih(4) by auto
  qed
  moreover have "c \<le> c'" using ih(3) by (auto split: if_splits)
  moreover have "depsAtoms m' = depsAtoms m \<union> (infoAtoms k v \<union> B)" using ih(2) by blast
  ultimately show ?case unfolding step eB fst_conv snd_conv using ih(1) by blast
qed

section \<open>One update\<close>

definition indirectAtoms :: "graph \<Rightarrow> nat \<Rightarrow> atom set" where
  "indirectAtoms g n = depsAtoms (nIndirect (g n))"

definition directAtoms :: "graph \<Rightarrow> nat \<Rightarrow> atom set" where
  "directAtoms g n = depsAtoms (directDepends (g n))"

definition graphOk :: "nat set \<Rightarrow> graph \<Rightarrow> bool" where
  "graphOk N g = (\<forall>n \<in> N. depsOk (nOriginal (g n)) \<and> depsOk (nRemapped (g n)) \<and> depsOk (nIndirect (g n)))"

definition atomKeys :: "atom set \<Rightarrow> nat set" where
  "atomKeys A = {k. AKey k \<in> A}"

lemma depsOk_direct: "graphOk N g \<Longrightarrow> n \<in> N \<Longrightarrow> depsOk (directDepends (g n))"
  by (simp add: graphOk_def directDepends_def)

lemma atomKeys_deps [simp]: "atomKeys (depsAtoms m) = keys m"
  by (simp add: atomKeys_def)

text \<open>The dependencies from which an update starts: the direct ones the first time.\<close>

definition seeded :: "graph \<Rightarrow> nat \<Rightarrow> deps" where
  "seeded g n = (if nIndirect (g n) = [] then directDepends (g n) else nIndirect (g n))"

lemma mergeAll_spec:
  fixes n :: nat
  assumes "depsOk m" "\<forall>i \<in> keys is. depsOk (nIndirect (g i))"
  defines "step \<equiv> \<lambda>(m, c) (i, _). mergeRemote (if i = n then m else nIndirect (g i)) (m, c)"
  defines "new \<equiv> \<lambda>is. \<Union>i \<in> keys is - {n}. indirectAtoms g i"
  shows "depsOk (fst (foldl step (m, c) is)) \<and>
    depsAtoms (fst (foldl step (m, c) is)) = depsAtoms m \<union> new is \<and> c \<le> snd (foldl step (m, c) is) \<and>
    (snd (foldl step (m, c) is) = c \<longleftrightarrow> new is \<subseteq> depsAtoms m)"
  using assms(1,2)
proof (induction "is" arbitrary: m c)
  case Nil
  then show ?case by (simp add: new_def)
next
  case (Cons e "is")
  obtain i d where e: "e = (i, d)" by (cases e) auto
  let ?r = "if i = n then m else nIndirect (g i)"
  have r: "depsOk ?r" using Cons.prems by (simp add: e)
  then have info: "\<forall>(k, v) \<in> set ?r. infoOk v" by (simp add: depsOk_def)
  obtain m' c' where mc: "mergeRemote ?r (m, c) = (m', c')" by (cases "mergeRemote ?r (m, c)")
  have sp: "depsOk m'" "depsAtoms m' = depsAtoms m \<union> depsAtoms ?r" "c \<le> c'"
      "c' = c \<longleftrightarrow> depsAtoms ?r \<subseteq> depsAtoms m"
    using mergeRemote_spec[OF Cons.prems(1) info, of c] depsOk_atoms[OF r] by (simp_all add: mc)
  have step: "foldl step (m, c) (e # is) = foldl step (m', c') is"
    by (simp add: step_def e mc)
  have ih: "depsOk (fst (foldl step (m', c') is))"
      "depsAtoms (fst (foldl step (m', c') is)) = depsAtoms m' \<union> new is"
      "c' \<le> snd (foldl step (m', c') is)"
      "snd (foldl step (m', c') is) = c' \<longleftrightarrow> new is \<subseteq> depsAtoms m'"
    using Cons.IH[OF sp(1), of c'] Cons.prems(2) by simp_all
  have new: "depsAtoms m \<union> new (e # is) = depsAtoms m \<union> depsAtoms ?r \<union> new is"
    by (auto simp: new_def e indirectAtoms_def)
  then have sub: "new (e # is) \<subseteq> depsAtoms m \<longleftrightarrow> depsAtoms ?r \<subseteq> depsAtoms m \<and> new is \<subseteq> depsAtoms m"
    by blast
  have "snd (foldl step (m', c') is) = c \<longleftrightarrow> c' = c \<and> snd (foldl step (m', c') is) = c'"
    using sp(3) ih(3) by linarith
  also have "\<dots> \<longleftrightarrow> depsAtoms ?r \<subseteq> depsAtoms m \<and> new is \<subseteq> depsAtoms m"
    using sp ih(4) by blast
  finally have cnt: "snd (foldl step (m', c') is) = c \<longleftrightarrow> new (e # is) \<subseteq> depsAtoms m"
    using sub by blast
  moreover have "depsAtoms (fst (foldl step (m', c') is)) = depsAtoms m \<union> new (e # is)"
    using ih(2) sp(2) new by blast
  moreover have "c \<le> snd (foldl step (m', c') is)" using sp(3) ih(3) by linarith
  ultimately show ?case unfolding step using ih(1) by blast
qed

lemma updateIndirectDepends_spec:
  fixes n :: nat
  assumes "graphOk N g" "n \<in> N" "keys (seeded g n) \<subseteq> N"
  defines "A \<equiv> depsAtoms (seeded g n) \<union> (\<Union>k \<in> keys (seeded g n) - {n}. indirectAtoms g k)"
  shows "\<exists>m. fst (updateIndirectDepends n g) = g(n := (g n)\<lparr>nIndirect := m\<rparr>) \<and> depsOk m \<and> depsAtoms m = A \<and>
    (snd (updateIndirectDepends n g) = 0 \<longleftrightarrow> A = indirectAtoms g n)"
proof -
  let ?s = "seeded g n"
  let ?c = "if nIndirect (g n) = [] then length ?s else 0"
  have s: "depsOk ?s" using assms(1,2) depsOk_direct[OF assms(1,2)] by (simp add: seeded_def graphOk_def)
  have r: "\<forall>i \<in> keys ?s. depsOk (nIndirect (g i))" using assms(1,3) unfolding graphOk_def by blast
  let ?f = "foldl (\<lambda>(m, c) (i, _). mergeRemote (if i = n then m else nIndirect (g i)) (m, c)) (?s, ?c) ?s"
  obtain m c where mc: "?f = (m, c)" by (cases ?f) blast
  have sp: "depsOk m" "depsAtoms m = A" "?c \<le> c"
    "c = ?c \<longleftrightarrow> (\<Union>k \<in> keys ?s - {n}. indirectAtoms g k) \<subseteq> depsAtoms ?s"
    using mergeAll_spec[OF s r, where n = n and c = ?c] by (simp_all add: mc A_def)
  have up: "updateIndirectDepends n g = (g(n := (g n)\<lparr>nIndirect := m\<rparr>), c)"
    using mc by (simp add: updateIndirectDepends_def Let_def seeded_def split: if_splits)
  have "c = 0 \<longleftrightarrow> A = indirectAtoms g n"
  proof (cases "nIndirect (g n) = []")
    case True
    have "c = 0 \<longleftrightarrow> ?s = []"
    proof
      assume "?s = []"
      then show "c = 0" using sp(3,4) by simp
    qed (use sp(3) True in auto)
    moreover have "A = {} \<longleftrightarrow> ?s = []" by (auto simp: A_def)
    ultimately show ?thesis using True by (simp add: indirectAtoms_def depsAtoms_def)
  next
    case False
    then show ?thesis using sp(4) by (auto simp: A_def seeded_def indirectAtoms_def)
  qed
  then show ?thesis using up sp by auto
qed

section \<open>Dependencies of dependencies\<close>

definition depEdge :: "graph \<Rightarrow> (nat \<times> nat) set" where
  "depEdge g = {(n, k). k \<in> keys (directDepends (g n))}"

text \<open>What a node needs: its own dependencies and those of all the nodes that these lead to.\<close>

definition needs :: "graph \<Rightarrow> nat \<Rightarrow> atom set" where
  "needs g n = (\<Union>m \<in> {m. (n, m) \<in> (depEdge g)\<^sup>*}. directAtoms g m)"

definition closedIn :: "nat set \<Rightarrow> graph \<Rightarrow> bool" where
  "closedIn N g = (\<forall>n \<in> N. keys (directDepends (g n)) \<subseteq> N)"

lemma depEdge_iff: "(n, k) \<in> depEdge g \<longleftrightarrow> AKey k \<in> directAtoms g n"
  by (simp add: depEdge_def directAtoms_def)

lemma AKey_needs: "AKey k \<in> needs g n \<longleftrightarrow> (n, k) \<in> (depEdge g)\<^sup>+"
proof
  assume "AKey k \<in> needs g n"
  then obtain m where "(n, m) \<in> (depEdge g)\<^sup>*" "(m, k) \<in> depEdge g"
    by (auto simp: needs_def depEdge_iff)
  then show "(n, k) \<in> (depEdge g)\<^sup>+" by (rule rtrancl_into_trancl1)
next
  assume "(n, k) \<in> (depEdge g)\<^sup>+"
  then obtain m where "(n, m) \<in> (depEdge g)\<^sup>*" "(m, k) \<in> depEdge g"
    by (meson tranclD2)
  then show "AKey k \<in> needs g n" by (auto simp: needs_def depEdge_iff)
qed

lemma needs_trans: "(n, k) \<in> (depEdge g)\<^sup>+ \<Longrightarrow> needs g k \<subseteq> needs g n"
  unfolding needs_def by (auto dest: trancl_into_rtrancl intro: rtrancl_trans)

lemma direct_needs: "directAtoms g n \<subseteq> needs g n"
  by (auto simp: needs_def)

lemma reach_closed:
  assumes "closedIn N g" "n \<in> N" and "(n, m) \<in> (depEdge g)\<^sup>*"
  shows "m \<in> N"
  using assms(3) by (induction rule: rtrancl_induct) (use assms(1,2) in \<open>auto simp: closedIn_def depEdge_def\<close>)

lemma finite_bits: "0 \<le> (m::int) \<Longrightarrow> finite {b. bit m b}"
proof -
  assume m: "0 \<le> m"
  have "{b. bit m b} \<subseteq> {..nat m}"
  proof
    fix b assume "b \<in> {b. bit m b}"
    then have "2 ^ b \<le> m" using m by (metis bit_iff_odd div_pos_pos_trivial even_zero linorder_not_le mem_Collect_eq)
    moreover have "int b < 2 ^ b" by (metis less_exp of_nat_less_iff of_nat_numeral of_nat_power)
    ultimately have "int b \<le> m" by linarith
    then show "b \<in> {..nat m}" by simp
  qed
  then show ?thesis by (rule finite_subset) simp
qed

lemma finite_infoAtoms: "infoOk d \<Longrightarrow> finite (infoAtoms k d)"
proof -
  assume d: "infoOk d"
  have "{ABit k i b | i b. bit (maskAt (diDirection d) i) b} =
      (\<Union>i \<in> {..<length (diDirection d)}. ABit k i ` {b. bit (maskAt (diDirection d) i) b})"
    by (auto simp: maskAt_def D_NONE_def split: if_splits)
  moreover have "finite {b. bit (maskAt (diDirection d) i) b}" for i
    using d by (intro finite_bits) (auto simp: maskAt_def infoOk_def dirOk_def D_NONE_def)
  ultimately show ?thesis by (simp add: infoAtoms_def)
qed

lemma finite_depsAtoms: "depsOk m \<Longrightarrow> finite (depsAtoms m)"
  by (auto simp: depsOk_atoms depsOk_def intro: finite_infoAtoms)

lemma finite_needs: "graphOk N g \<Longrightarrow> closedIn N g \<Longrightarrow> finite N \<Longrightarrow> n \<in> N \<Longrightarrow> finite (needs g n)"
  unfolding needs_def directAtoms_def
  by (intro finite_UN_I finite_depsAtoms depsOk_direct[of N]) (auto intro: finite_subset[of _ N] reach_closed)

section \<open>Repeated updates\<close>

text \<open>\<open>g\<close> has the direct dependencies of \<open>g0\<close>, and what it has found so far is correct.\<close>

definition towards :: "nat set \<Rightarrow> graph \<Rightarrow> graph \<Rightarrow> bool" where
  "towards N g0 g = (graphOk N g \<and> (\<forall>n. g n = (g0 n)\<lparr>nIndirect := nIndirect (g n)\<rparr>) \<and>
     (\<forall>n \<in> N. indirectAtoms g n \<subseteq> needs g0 n \<and> (indirectAtoms g n = {} \<or> directAtoms g0 n \<subseteq> indirectAtoms g n)))"

lemma towards_direct:
  assumes "towards N g0 g"
  shows "directDepends (g n) = directDepends (g0 n)" "directAtoms g n = directAtoms g0 n"
proof -
  have "nRemapped (g n) = nRemapped (g0 n)" "nOriginal (g n) = nOriginal (g0 n)"
    using assms unfolding towards_def by (metis node.select_convs(7,8) node.surjective node.update_convs(9))+
  then show "directDepends (g n) = directDepends (g0 n)" by (simp add: directDepends_def)
  then show "directAtoms g n = directAtoms g0 n" by (simp add: directAtoms_def)
qed

definition updated :: "graph \<Rightarrow> graph \<Rightarrow> nat \<Rightarrow> atom set" where
  "updated g0 g n = (let S = (if indirectAtoms g n = {} then directAtoms g0 n else indirectAtoms g n) in
     S \<union> (\<Union>k \<in> atomKeys S - {n}. indirectAtoms g k))"

lemma update_step:
  assumes "towards N g0 g" and n: "n \<in> N" and cl: "closedIn N g0"
  shows "\<exists>g' c. updateIndirectDepends n g = (g', c) \<and> towards N g0 g' \<and>
    (\<forall>k. indirectAtoms g' k = (if k = n then updated g0 g n else indirectAtoms g k)) \<and>
    (c = 0 \<longleftrightarrow> updated g0 g n = indirectAtoms g n) \<and> indirectAtoms g n \<subseteq> updated g0 g n"
proof -
  have ok: "graphOk N g" using assms by (simp add: towards_def)
  have "nIndirect (g n) = [] \<longleftrightarrow> indirectAtoms g n = {}" by (simp add: indirectAtoms_def)
  then have seed: "depsAtoms (seeded g n) = (if indirectAtoms g n = {} then directAtoms g0 n else indirectAtoms g n)"
    using towards_direct[OF assms(1), of n] by (simp add: seeded_def indirectAtoms_def directAtoms_def)
  have inN: "k \<in> N" if "AKey k \<in> needs g0 n" for k
    using reach_closed[OF cl n trancl_into_rtrancl] that by (simp add: AKey_needs)
  have "depsAtoms (seeded g n) \<subseteq> needs g0 n"
    using assms direct_needs unfolding seed by (auto simp: towards_def)
  then have inN': "keys (seeded g n) \<subseteq> N" using inN unfolding atomKeys_deps[symmetric] atomKeys_def by blast
  have A: "depsAtoms (seeded g n) \<union> (\<Union>k \<in> keys (seeded g n) - {n}. indirectAtoms g k) = updated g0 g n"
    unfolding updated_def Let_def seed[symmetric] atomKeys_deps ..
  obtain m where m: "fst (updateIndirectDepends n g) = g(n := (g n)\<lparr>nIndirect := m\<rparr>)" "depsOk m"
      "depsAtoms m = updated g0 g n" "snd (updateIndirectDepends n g) = 0 \<longleftrightarrow> updated g0 g n = indirectAtoms g n"
    using updateIndirectDepends_spec[OF ok n inN'] unfolding A by (elim exE conjE) (rule that)
  let ?g = "g(n := (g n)\<lparr>nIndirect := m\<rparr>)"
  have ind: "indirectAtoms ?g k = (if k = n then updated g0 g n else indirectAtoms g k)" for k
    using m(3) by (simp add: indirectAtoms_def)
  have sub: "indirectAtoms g n \<subseteq> updated g0 g n" by (auto simp: updated_def Let_def)
  have dir: "directAtoms g0 n \<subseteq> updated g0 g n"
    using assms by (auto simp: updated_def Let_def towards_def)
  have "updated g0 g n \<subseteq> needs g0 n"
  proof -
    let ?S = "if indirectAtoms g n = {} then directAtoms g0 n else indirectAtoms g n"
    have S: "?S \<subseteq> needs g0 n" using assms direct_needs by (auto simp: towards_def)
    moreover have "indirectAtoms g k \<subseteq> needs g0 n" if "k \<in> atomKeys ?S" for k
    proof -
      have "AKey k \<in> needs g0 n" using that S by (auto simp: atomKeys_def)
      then have "k \<in> N" "needs g0 k \<subseteq> needs g0 n" by (rule inN) (use \<open>AKey k \<in> needs g0 n\<close> in \<open>intro needs_trans, simp add: AKey_needs\<close>)
      moreover have "indirectAtoms g k \<subseteq> needs g0 k" using assms(1) \<open>k \<in> N\<close> by (simp add: towards_def)
      ultimately show ?thesis by blast
    qed
    ultimately show ?thesis unfolding updated_def Let_def by blast
  qed
  moreover have "(g n)\<lparr>nIndirect := m\<rparr> = (g0 n)\<lparr>nIndirect := m\<rparr>"
  proof -
    have "g n = (g0 n)\<lparr>nIndirect := nIndirect (g n)\<rparr>" using assms by (simp add: towards_def)
    from arg_cong[OF this, of "nIndirect_update (\<lambda>_. m)"] show ?thesis by simp
  qed
  moreover have "graphOk N ?g" using ok m(2) by (simp add: graphOk_def)
  ultimately have "towards N g0 ?g"
    using assms dir unfolding towards_def ind by (intro conjI allI) (simp_all del: fun_upd_apply, simp_all)
  then show ?thesis using m ind sub by (intro exI[of _ ?g] exI[of _ "snd (updateIndirectDepends n g)"]) (auto simp: prod_eq_iff)
qed

lemma update_round:
  assumes "towards N g0 g" "set nodes \<subseteq> N" and cl: "closedIn N g0"
  shows "\<exists>g' c. updateRound nodes g = (g', c) \<and> towards N g0 g' \<and>
    (\<forall>k. indirectAtoms g k \<subseteq> indirectAtoms g' k) \<and>
    (c = 0 \<longrightarrow> (\<forall>k. indirectAtoms g' k = indirectAtoms g k) \<and>
      (\<forall>n \<in> set nodes. updated g0 g n = indirectAtoms g n)) \<and>
    (0 < c \<longrightarrow> (\<exists>n \<in> set nodes. indirectAtoms g n \<noteq> indirectAtoms g' n))"
proof -
  let ?f = "\<lambda>(g, c) n. case updateIndirectDepends n g of (g', d) \<Rightarrow> (g', c + d)"
  have "\<exists>g' c'. foldl ?f (g, c) nodes = (g', c + c') \<and> towards N g0 g' \<and>
    (\<forall>k. indirectAtoms g k \<subseteq> indirectAtoms g' k) \<and>
    (c' = 0 \<longrightarrow> (\<forall>k. indirectAtoms g' k = indirectAtoms g k) \<and>
      (\<forall>n \<in> set nodes. updated g0 g n = indirectAtoms g n)) \<and>
    (0 < c' \<longrightarrow> (\<exists>n \<in> set nodes. indirectAtoms g n \<noteq> indirectAtoms g' n))" for c
    using assms(1,2)
  proof (induction nodes arbitrary: g c)
    case Nil
    then show ?case by simp
  next
    case (Cons n nodes)
    obtain g1 d where g1: "updateIndirectDepends n g = (g1, d)" "towards N g0 g1"
      "\<forall>k. indirectAtoms g1 k = (if k = n then updated g0 g n else indirectAtoms g k)"
      "d = 0 \<longleftrightarrow> updated g0 g n = indirectAtoms g n" "indirectAtoms g n \<subseteq> updated g0 g n"
      using update_step[OF Cons.prems(1) _ cl, of n] Cons.prems(2) by auto
    obtain g' c' where g': "foldl ?f (g1, c + d) nodes = (g', (c + d) + c')" "towards N g0 g'"
      "\<forall>k. indirectAtoms g1 k \<subseteq> indirectAtoms g' k"
      "c' = 0 \<longrightarrow> (\<forall>k. indirectAtoms g' k = indirectAtoms g1 k) \<and>
        (\<forall>n \<in> set nodes. updated g0 g1 n = indirectAtoms g1 n)"
      "0 < c' \<longrightarrow> (\<exists>n \<in> set nodes. indirectAtoms g1 n \<noteq> indirectAtoms g' n)"
      using Cons.IH[OF g1(2), of "c + d"] Cons.prems(2) by auto
    have fold: "foldl ?f (g, c) (n # nodes) = (g', c + (d + c'))" using g1(1) g'(1) by (simp add: add.assoc)
    have mono: "indirectAtoms g k \<subseteq> indirectAtoms g1 k" for k using g1(3,5) by auto
    have le: "\<forall>k. indirectAtoms g k \<subseteq> indirectAtoms g' k" using mono g'(3) by blast
    show ?case
    proof (cases "d = 0")
      case True
      then have same: "indirectAtoms g1 k = indirectAtoms g k" for k using g1(3,4) by simp
      then have up: "updated g0 g1 = updated g0 g" by (intro ext) (simp add: updated_def)
      show ?thesis
        using fold g'(2,4,5) le True g1(4) unfolding same up
        by (intro exI[of _ g'] exI[of _ "d + c'"]) auto
    next
      case False
      then have "indirectAtoms g n \<noteq> indirectAtoms g1 n" using g1(3,4) by simp
      then have "indirectAtoms g n \<noteq> indirectAtoms g' n" using mono[of n] g'(3) by blast
      then show ?thesis
        using fold g'(2) le False by (intro exI[of _ g'] exI[of _ "d + c'"]) auto
    qed
  qed
  from this[of 0] show ?thesis unfolding updateRound_def by (simp add: add_0)
qed

text \<open>When a round changes nothing, each node has all that it needs.\<close>

lemma fixpoint_needs:
  assumes t: "towards N g0 g" and fx: "\<forall>n \<in> N. updated g0 g n = indirectAtoms g n"
    and cl: "closedIn N g0" and n: "n \<in> N"
  shows "indirectAtoms g n = needs g0 n"
proof
  show "indirectAtoms g n \<subseteq> needs g0 n" using t n by (simp add: towards_def)
  have dir: "directAtoms g0 k \<subseteq> indirectAtoms g k" if "k \<in> N" for k
  proof -
    have "updated g0 g k = indirectAtoms g k" using fx that by blast
    moreover have "indirectAtoms g k = {} \<longrightarrow> directAtoms g0 k \<subseteq> updated g0 g k"
      by (auto simp: updated_def Let_def)
    ultimately show ?thesis using t that by (auto simp: towards_def)
  qed
  have step: "indirectAtoms g j \<subseteq> indirectAtoms g k" if "k \<in> N" "AKey j \<in> indirectAtoms g k" for j k
  proof (cases "j = k")
    case False
    have "indirectAtoms g k \<noteq> {}" using that by blast
    then have "indirectAtoms g j \<subseteq> updated g0 g k"
      using that False by (auto simp: updated_def Let_def atomKeys_def)
    then show ?thesis using fx that by simp
  qed simp
  have "directAtoms g0 m \<subseteq> indirectAtoms g n" if "(n, m) \<in> (depEdge g0)\<^sup>*" for m
    using that n
  proof (induction rule: converse_rtrancl_induct)
    case base
    then show ?case by (rule dir)
  next
    case (step k j)
    have "j \<in> N" using step.hyps(1) step.prems cl by (auto simp: closedIn_def depEdge_def)
    moreover have "AKey j \<in> indirectAtoms g k"
      using step.hyps(1) dir[OF step.prems] by (auto simp: depEdge_iff)
    ultimately show ?case
      using step.IH \<open>\<And>j k. \<lbrakk>k \<in> N; AKey j \<in> indirectAtoms g k\<rbrakk> \<Longrightarrow> indirectAtoms g j \<subseteq> indirectAtoms g k\<close>
        step.prems by blast
  qed
  then show "needs g0 n \<subseteq> indirectAtoms g n" by (auto simp: needs_def)
qed

text \<open>Each round that changes something finds an atom that was missing, so the rounds end.\<close>

lemma rounds_end:
  assumes "towards (set nodes) g0 g" and cl: "closedIn (set nodes) g0" and ok: "graphOk (set nodes) g0"
  shows "\<exists>g'. computeIndirectDependencies nodes g = Some g' \<and> towards (set nodes) g0 g' \<and>
    (\<forall>n \<in> set nodes. indirectAtoms g' n = needs g0 n)"
  using assms(1)
proof (induction "\<Sum>n \<in> set nodes. card (needs g0 n - indirectAtoms g n)" arbitrary: g rule: less_induct)
  case less
  obtain g1 c where g1: "updateRound nodes g = (g1, c)" "towards (set nodes) g0 g1"
    "\<forall>k. indirectAtoms g k \<subseteq> indirectAtoms g1 k"
    "c = 0 \<longrightarrow> (\<forall>k. indirectAtoms g1 k = indirectAtoms g k) \<and>
      (\<forall>n \<in> set nodes. updated g0 g n = indirectAtoms g n)"
    "0 < c \<longrightarrow> (\<exists>n \<in> set nodes. indirectAtoms g n \<noteq> indirectAtoms g1 n)"
    using update_round[OF less.prems subset_refl cl] by blast
  show ?case
  proof (cases "c = 0")
    case True
    then have "computeIndirectDependencies nodes g = Some g1"
      using g1(1) by (simp add: computeIndirectDependencies.simps[of nodes g])
    moreover have "\<forall>n \<in> set nodes. indirectAtoms g1 n = needs g0 n"
      using fixpoint_needs[OF less.prems _ cl] g1(4) True by simp
    ultimately show ?thesis using g1(2) by blast
  next
    case False
    have fin: "finite (needs g0 n)" if "n \<in> set nodes" for n
      by (rule finite_needs[OF ok cl _ that]) simp
    obtain n where n: "n \<in> set nodes" "indirectAtoms g n \<noteq> indirectAtoms g1 n"
      using g1(5) False by blast
    have "(\<Sum>n \<in> set nodes. card (needs g0 n - indirectAtoms g1 n)) <
        (\<Sum>n \<in> set nodes. card (needs g0 n - indirectAtoms g n))"
    proof (rule sum_strict_mono_ex1)
      show "\<forall>n \<in> set nodes. card (needs g0 n - indirectAtoms g1 n) \<le> card (needs g0 n - indirectAtoms g n)"
        using g1(3) fin by (intro ballI card_mono) auto
      have "indirectAtoms g n \<subset> indirectAtoms g1 n" "indirectAtoms g1 n \<subseteq> needs g0 n"
        using n g1(2,3) by (auto simp: towards_def)
      then have "needs g0 n - indirectAtoms g1 n \<subset> needs g0 n - indirectAtoms g n" by blast
      then show "\<exists>n \<in> set nodes. card (needs g0 n - indirectAtoms g1 n) < card (needs g0 n - indirectAtoms g n)"
        using n(1) fin[OF n(1)] by (intro bexI[of _ n] psubset_card_mono) auto
    qed simp
    then have "\<exists>g'. computeIndirectDependencies nodes g1 = Some g' \<and> towards (set nodes) g0 g' \<and>
        (\<forall>n \<in> set nodes. indirectAtoms g' n = needs g0 n)"
      using less.hyps g1(2) by blast
    moreover have "computeIndirectDependencies nodes g = computeIndirectDependencies nodes g1"
      using g1(1) False by (simp add: computeIndirectDependencies.simps[of nodes g])
    ultimately show ?thesis by simp
  qed
qed

end
