(* ===== verification/MergeProofs.thy ===== *)
theory MergeProofs
  imports DepClosure
begin

text \<open>
  The components that are scheduled together, and what is left of the graph when they are merged.
  \<open>together\<close> is mutual dependence; the final dependencies of a node are those of the nodes it stands
  for, in terms of the nodes that stand for these.
\<close>

section \<open>Strongly connected components\<close>

definition together :: "graph \<Rightarrow> nat \<Rightarrow> nat \<Rightarrow> bool" where
  "together g n k = (n = k \<or> (n, k) \<in> (depEdge g)\<^sup>+ \<and> (k, n) \<in> (depEdge g)\<^sup>+)"

definition complete :: "nat set \<Rightarrow> graph \<Rightarrow> bool" where
  "complete N g = (graphOk N g \<and> closedIn N g \<and> (\<forall>n \<in> N. indirectAtoms g n = needs g n))"

lemma together_refl [simp]: "together g n n"
  by (simp add: together_def)

lemma together_sym: "together g n k \<Longrightarrow> together g k n"
  by (auto simp: together_def)

lemma together_trans: "together g n k \<Longrightarrow> together g k m \<Longrightarrow> together g n m"
  unfolding together_def by (blast intro: trancl_trans)

lemma together_closed: "closedIn N g \<Longrightarrow> n \<in> N \<Longrightarrow> together g n k \<Longrightarrow> k \<in> N"
  by (auto simp: together_def dest: reach_closed[OF _ _ trancl_into_rtrancl])

lemma towards_needs: "towards N g0 g \<Longrightarrow> depEdge g = depEdge g0 \<and> needs g = needs g0"
  using towards_direct by (auto simp: depEdge_def needs_def fun_eq_iff)

lemma closure_complete:
  assumes "graphOk (set nodes) g" "closedIn (set nodes) g" "\<forall>n \<in> set nodes. nIndirect (g n) = []"
  shows "\<exists>g'. computeIndirectDependencies nodes g = Some g' \<and> towards (set nodes) g g' \<and>
    complete (set nodes) g'"
proof -
  have "towards (set nodes) g g"
    using assms by (simp add: towards_def indirectAtoms_def depsAtoms_def)
  then obtain g' where g': "computeIndirectDependencies nodes g = Some g'" "towards (set nodes) g g'"
    "\<forall>n \<in> set nodes. indirectAtoms g' n = needs g n"
    using rounds_end[OF _ assms(2,1)] by blast
  have "closedIn (set nodes) g'" using assms(2) towards_direct[OF g'(2)] by (simp add: closedIn_def)
  then show ?thesis using g' towards_needs[OF g'(2)] by (auto simp: complete_def towards_def)
qed

lemma complete_keys:
  assumes "complete N g" "n \<in> N"
  shows "map_of (nIndirect (g n)) k \<noteq> None \<longleftrightarrow> (n, k) \<in> (depEdge g)\<^sup>+"
proof -
  have "k \<in> keys (nIndirect (g n)) \<longleftrightarrow> AKey k \<in> needs g n"
    using assms by (simp add: complete_def indirectAtoms_def flip: AKey_depsAtoms)
  then show ?thesis by (simp add: map_of_keys AKey_needs)
qed

lemma scc_foldl:
  "set (foldl (\<lambda>s (i, _). if P i then oinsert i s else s) s0 is) = set s0 \<union> {i \<in> keys is. P i} \<and>
   (osorted s0 \<longrightarrow> osorted (foldl (\<lambda>s (i, _). if P i then oinsert i s else s) s0 is))"
  by (induction "is" arbitrary: s0) (auto simp: case_prod_beta)

lemma scc_together:
  assumes c: "complete N g" and n: "n \<in> N"
  shows "set (getStronglyConnectedComponent n g) = {k. together g n k}"
    and "osorted (getStronglyConnectedComponent n g)"
proof -
  let ?s = "foldl (\<lambda>s (i, _). if map_of (nIndirect (g i)) n \<noteq> None then oinsert i s else s) [n] (nIndirect (g n))"
  have s: "set ?s = {n} \<union> {i \<in> keys (nIndirect (g n)). map_of (nIndirect (g i)) n \<noteq> None}" "osorted ?s"
    using scc_foldl[of "\<lambda>i. map_of (nIndirect (g i)) n \<noteq> None" "[n]" "nIndirect (g n)"] by simp_all
  have k: "k \<in> keys (nIndirect (g n)) \<longleftrightarrow> (n, k) \<in> (depEdge g)\<^sup>+" for k
    using complete_keys[OF c n, of k] by (simp add: map_of_keys)
  have kN: "k \<in> N" if "(n, k) \<in> (depEdge g)\<^sup>+" for k
    using c n that reach_closed[OF _ n trancl_into_rtrancl] by (auto simp: complete_def)
  have set: "set ?s = {k. together g n k}"
    unfolding s(1) together_def using k complete_keys[OF c kN] by (auto simp: map_of_keys)
  show "osorted (getStronglyConnectedComponent n g)"
    using s(2) by (simp add: getStronglyConnectedComponent_def)
  show "set (getStronglyConnectedComponent n g) = {k. together g n k}"
  proof (cases "map_of (nIndirect (g n)) n = None")
    case True
    then have "(n, n) \<notin> (depEdge g)\<^sup>+" using complete_keys[OF c n, of n] by simp
    then have "{k. together g n k} = {n}" unfolding together_def by (blast intro: trancl_trans)
    then show ?thesis using True by (simp add: getStronglyConnectedComponent_def)
  next
    case False
    then show ?thesis unfolding getStronglyConnectedComponent_def set[symmetric] by (simp only: if_False)
  qed
qed

section \<open>Grouping the nodes\<close>

text \<open>The node that stands for a node after merging.\<close>

definition standFor :: "remapping \<Rightarrow> nat \<Rightarrow> nat" where
  "standFor mp x = (case map_of mp x of None \<Rightarrow> x | Some t \<Rightarrow> t)"

lemma setEachTo_map [simp]:
  "map_of (setEachTo mp s p) = (\<lambda>x. if x \<in> set s then Some p else map_of mp x)"
  unfolding setEachTo_def by (induction s arbitrary: mp) (auto simp: fun_eq_iff)

lemma keys_setEachTo: "keys (setEachTo mp s p) = keys mp \<union> set s"
  by (auto simp flip: dom_map_of_conv_image_fst split: if_splits)

lemma omap_setEachTo: "omap mp \<Longrightarrow> omap (setEachTo mp s p)"
  unfolding setEachTo_def by (induction s arbitrary: mp) auto

lemma ounion_Nil [simp]: "ounion xs [] = xs"
  by (simp add: ounion_def)

lemma metaNode_cong:
  assumes "\<forall>i \<in> set c. g i = h i"
  shows "metaNode kind c g = metaNode kind c h"
proof -
  have "list_ex (\<lambda>i. P (g i)) c = list_ex (\<lambda>i. P (h i)) c" for P
    using assms by (auto simp: list_ex_iff)
  moreover have "foldl (\<lambda>m i. deps_merge m (f (g i))) [] c = foldl (\<lambda>m i. deps_merge m (f (h i))) [] c" for f
    using assms by (intro foldl_cong) simp_all
  ultimately show ?thesis by (simp add: metaNode_def)
qed

text \<open>\<open>N\<close> are the nodes, \<open>D\<close> those that are processed, \<open>a0\<close> the number of nodes allocated before.\<close>

definition grouped :: "(nat \<Rightarrow> nat) \<Rightarrow> nat \<Rightarrow> nat set \<Rightarrow> graph \<Rightarrow> mergeState \<Rightarrow> bool" where
  "grouped addr a0 N g st =
     (set (mDone st) \<subseteq> N \<and> (\<forall>x \<in> set (mDone st). \<forall>y. together g x y \<longrightarrow> y \<in> set (mDone st)) \<and>
      keys (mMapping st) \<subseteq> set (mDone st) \<and> omap (mMapping st) \<and>
      (\<forall>x \<in> set (mDone st). map_of (mMapping st) x = None \<longrightarrow> (\<forall>y. together g x y \<longrightarrow> y = x)) \<and>
      (\<forall>x p. map_of (mMapping st) x = Some p \<longrightarrow> p \<in> set (mMeta st) \<and>
         (\<forall>y. map_of (mMapping st) y = Some p \<longleftrightarrow> together g x y)) \<and>
      a0 \<le> mAllocated st \<and> mMeta st = map addr [a0..<mAllocated st] \<and>
      (\<forall>n. n \<notin> set (mMeta st) \<longrightarrow> mGraph st n = g n) \<and>
      (\<forall>p \<in> set (mMeta st). \<exists>kind c. kind \<noteq> BasicNode \<and> c \<noteq> [] \<and> mGraph st p = metaNode kind c g \<and>
         set c = {x. map_of (mMapping st) x = Some p}))"

lemma groupedD:
  assumes "grouped addr a0 N g st"
  shows "set (mDone st) \<subseteq> N" "\<forall>x \<in> set (mDone st). \<forall>y. together g x y \<longrightarrow> y \<in> set (mDone st)"
    "keys (mMapping st) \<subseteq> set (mDone st)" "omap (mMapping st)"
    "\<forall>x \<in> set (mDone st). map_of (mMapping st) x = None \<longrightarrow> (\<forall>y. together g x y \<longrightarrow> y = x)"
    "\<And>x p. map_of (mMapping st) x = Some p \<Longrightarrow> p \<in> set (mMeta st)"
    "\<And>x p y. map_of (mMapping st) x = Some p \<Longrightarrow> map_of (mMapping st) y = Some p \<longleftrightarrow> together g x y"
    "a0 \<le> mAllocated st" "mMeta st = map addr [a0..<mAllocated st]"
    "\<And>n. n \<notin> set (mMeta st) \<Longrightarrow> mGraph st n = g n"
    "\<And>p. p \<in> set (mMeta st) \<Longrightarrow> \<exists>kind c. kind \<noteq> BasicNode \<and> c \<noteq> [] \<and> mGraph st p = metaNode kind c g \<and>
       set c = {x. map_of (mMapping st) x = Some p}"
proof -
  note a = assms[unfolded grouped_def]
  note c1 = a[THEN conjunct1] and b2 = a[THEN conjunct2]
  note c2 = b2[THEN conjunct1] and b3 = b2[THEN conjunct2]
  note c3 = b3[THEN conjunct1] and b4 = b3[THEN conjunct2]
  note c4 = b4[THEN conjunct1] and b5 = b4[THEN conjunct2]
  note c5 = b5[THEN conjunct1] and b6 = b5[THEN conjunct2]
  note c6 = b6[THEN conjunct1] and b7 = b6[THEN conjunct2]
  note c8 = b7[THEN conjunct1] and b9 = b7[THEN conjunct2]
  note c9 = b9[THEN conjunct1] and b10 = b9[THEN conjunct2]
  note c10 = b10[THEN conjunct1] and c11 = b10[THEN conjunct2]
  show "set (mDone st) \<subseteq> N" "\<forall>x \<in> set (mDone st). \<forall>y. together g x y \<longrightarrow> y \<in> set (mDone st)"
    "keys (mMapping st) \<subseteq> set (mDone st)" "omap (mMapping st)"
    "\<forall>x \<in> set (mDone st). map_of (mMapping st) x = None \<longrightarrow> (\<forall>y. together g x y \<longrightarrow> y = x)"
    "a0 \<le> mAllocated st" "mMeta st = map addr [a0..<mAllocated st]"
    by (rule c1 c2 c3 c4 c5 c8 c9)+
  show "\<And>x p. map_of (mMapping st) x = Some p \<Longrightarrow> p \<in> set (mMeta st)"
    "\<And>x p y. map_of (mMapping st) x = Some p \<Longrightarrow> map_of (mMapping st) y = Some p \<longleftrightarrow> together g x y"
    using c6 by blast+
  show "\<And>n. n \<notin> set (mMeta st) \<Longrightarrow> mGraph st n = g n" using c10 by blast
  show "\<And>p. p \<in> set (mMeta st) \<Longrightarrow> \<exists>kind c. kind \<noteq> BasicNode \<and> c \<noteq> [] \<and> mGraph st p = metaNode kind c g \<and>
       set c = {x. map_of (mMapping st) x = Some p}" using c11 by (rule bspec)
qed

lemma fresh_addr:
  fixes a0 k :: nat
  shows "inj addr \<Longrightarrow> N \<subseteq> addr ` {..<a0} \<Longrightarrow> a0 \<le> k \<Longrightarrow> addr k \<notin> N"
proof
  assume *: "inj addr" "N \<subseteq> addr ` {..<a0}" "a0 \<le> k" "addr k \<in> N"
  then have "addr k \<in> addr ` {..<a0}" by blast
  then show False using inj_image_mem_iff[OF *(1)] *(3) by simp
qed

lemma fresh_meta:
  assumes "grouped addr a0 N g st" "inj addr" "N \<subseteq> addr ` {..<a0}" "k \<in> N"
  shows "k \<notin> set (mMeta st)"
proof -
  have "mMeta st = map addr [a0..<mAllocated st]" by (rule groupedD(9)[OF assms(1)])
  then show ?thesis using fresh_addr[OF assms(2,3)] assms(4) by auto
qed

lemma multi_osorted: "osorted (getMultioutputComponent n g)" "n \<in> set (getMultioutputComponent n g)"
proof -
  have "osorted s0 \<and> n \<in> set s0 \<Longrightarrow>
      osorted (foldl (\<lambda>s (i, d). if isMultioutput (diDirection d) then oinsert i s else s) s0 m) \<and>
      n \<in> set (foldl (\<lambda>s (i, d). if isMultioutput (diDirection d) then oinsert i s else s) s0 m)" for s0 m
    by (induction m arbitrary: s0) (auto simp: case_prod_beta)
  from this[of "[n]" "directDepends (g n)"]
  show "osorted (getMultioutputComponent n g)" "n \<in> set (getMultioutputComponent n g)"
    by (simp_all add: getMultioutputComponent_def)
qed

lemma newMeta_grouped:
  assumes g: "grouped addr a0 N g st" and c: "set c = {k. together g i k}" and i: "i \<in> N" "i \<notin> set (mDone st)"
    and N: "closedIn N g" and addr: "inj addr" "N \<subseteq> addr ` {..<a0}" and kind: "kind \<noteq> BasicNode"
  shows "grouped addr a0 N g (newMeta addr kind c st)"
proof -
  let ?p = "addr (mAllocated st)"
  let ?st = "newMeta addr kind c st"
  have a0: "a0 \<le> mAllocated st" and meta: "mMeta st = map addr [a0..<mAllocated st]"
    using groupedD(8,9)[OF g] by simp_all
  note out = fresh_addr[OF addr]
  have "addr k \<noteq> ?p" if "k < mAllocated st" for k
    using injD[OF addr(1), of k "mAllocated st"] that by auto
  then have "?p \<notin> set (mMeta st)" unfolding meta by fastforce
  then have fresh: "?p \<notin> set (mMeta st)" "?p \<notin> N"
    using out[OF a0] by blast+
  have cN: "set c \<subseteq> N" using together_closed[OF N i(1)] c by blast
  have cdone: "set c \<inter> set (mDone st) = {}"
  proof (rule ccontr)
    assume "set c \<inter> set (mDone st) \<noteq> {}"
    then obtain x where "together g x i" "x \<in> set (mDone st)" using c together_sym by blast
    then show False using groupedD(2)[OF g] i(2) by blast
  qed
  have ci: "i \<in> set c" using c by simp
  have same: "x \<in> set c \<Longrightarrow> y \<in> set c \<longleftrightarrow> together g x y" for x y
    unfolding c by (auto intro: together_trans dest: together_sym)
  note gd = groupedD[OF g]
  have old: "p \<in> set (mMeta st) \<and> x \<notin> set c \<and> x \<in> set (mDone st)" if "map_of (mMapping st) x = Some p" for x p
  proof -
    have "x \<in> set (mDone st)" using map_of_keys(1)[of "mMapping st" x] that gd(3) by auto
    then show ?thesis using gd(6)[OF that] cdone by blast
  qed
  have other: "x \<in> set (mDone st) \<Longrightarrow> y \<in> set c \<Longrightarrow> \<not> together g x y" for x y
    using gd(2) cdone by blast
  have notMetaN: "x \<in> N \<Longrightarrow> x \<notin> set (mMeta st)" for x
    using out unfolding meta by auto
  have mg: "metaNode kind c (mGraph st) = metaNode kind c g"
  proof (rule metaNode_cong, rule ballI)
    fix x assume "x \<in> set c"
    then have "x \<notin> set (mMeta st)" using cN notMetaN by blast
    then show "mGraph st x = g x" by (rule gd(10))
  qed
  have st: "set (mDone ?st) = set (mDone st) \<union> set c" "keys (mMapping ?st) = keys (mMapping st) \<union> set c"
      "omap (mMapping ?st)" "mMeta ?st = mMeta st @ [?p]" "mAllocated ?st = Suc (mAllocated st)"
      "mGraph ?st = (mGraph st)(?p := metaNode kind c g)"
      "map_of (mMapping ?st) = (\<lambda>x. if x \<in> set c then Some ?p else map_of (mMapping st) x)"
    using mg gd(4) by (simp_all add: newMeta_def Let_def keys_setEachTo omap_setEachTo)
  have one: "\<forall>x \<in> set (mDone ?st). \<forall>y. together g x y \<longrightarrow> y \<in> set (mDone ?st)"
    using gd(2) same unfolding st by blast
  have two: "\<forall>x \<in> set (mDone ?st). map_of (mMapping ?st) x = None \<longrightarrow> (\<forall>y. together g x y \<longrightarrow> y = x)"
    using gd(5) unfolding st by (auto split: if_splits)
  have three: "p \<in> set (mMeta ?st) \<and> (\<forall>y. map_of (mMapping ?st) y = Some p \<longleftrightarrow> together g x y)"
    if x: "map_of (mMapping ?st) x = Some p" for x p
  proof (cases "x \<in> set c")
    case True
    then have "p = ?p" using x unfolding st by simp
    moreover have "map_of (mMapping st) y \<noteq> Some ?p" for y using old fresh(1) by blast
    ultimately show ?thesis using same[OF True] unfolding st by auto
  next
    case False
    then have x': "map_of (mMapping st) x = Some p" using x unfolding st by simp
    then have "p \<in> set (mMeta st)" "x \<in> set (mDone st)" using old by blast+
    then have "p \<noteq> ?p" using fresh by blast
    then show ?thesis
      using gd(7)[OF x'] other[OF \<open>x \<in> set (mDone st)\<close>] \<open>p \<in> set (mMeta st)\<close> unfolding st by auto
  qed
  have four: "\<exists>kind c. kind \<noteq> BasicNode \<and> c \<noteq> [] \<and> mGraph ?st p = metaNode kind c g \<and>
      set c = {x. map_of (mMapping ?st) x = Some p}" if p: "p \<in> set (mMeta ?st)" for p
  proof (cases "p = ?p")
    case True
    have "{x. map_of (mMapping ?st) x = Some p} = set c"
      using old fresh(1) True unfolding st by auto
    then show ?thesis using True kind ci unfolding st by (intro exI[of _ kind] exI[of _ c]) auto
  next
    case False
    then have p': "p \<in> set (mMeta st)" using p unfolding st by simp
    then obtain kind' c' where c': "kind' \<noteq> BasicNode" "c' \<noteq> []" "mGraph st p = metaNode kind' c' g"
      "set c' = {x. map_of (mMapping st) x = Some p}" using gd(11)[OF p'] by blast
    have "{x. map_of (mMapping ?st) x = Some p} = {x. map_of (mMapping st) x = Some p}"
      using False old unfolding st by auto
    then show ?thesis using c' False unfolding st by (intro exI[of _ kind'] exI[of _ c']) auto
  qed
  show ?thesis
    unfolding grouped_def
  proof (intro conjI)
    show "set (mDone ?st) \<subseteq> N" using gd(1) cN st(1) by blast
    show "keys (mMapping ?st) \<subseteq> set (mDone ?st)" using gd(3) st(1,2) by blast
    show "a0 \<le> mAllocated ?st" "mMeta ?st = map addr [a0..<mAllocated ?st]"
      using a0 meta unfolding st by simp_all
    show "\<forall>n. n \<notin> set (mMeta ?st) \<longrightarrow> mGraph ?st n = g n" using gd(10) unfolding st by simp
  qed (use one two st(3) three four in blast)+
qed

lemma single_grouped:
  assumes g: "grouped addr a0 N g st" and i: "i \<in> N" "i \<notin> set (mDone st)"
    and c: "set c = {i}" "\<And>y. together g i y \<longleftrightarrow> y = i"
  shows "grouped addr a0 N g (st\<lparr>mDone := ounion (mDone st) c\<rparr>)"
proof -
  let ?st = "st\<lparr>mDone := ounion (mDone st) c\<rparr>"
  have st: "set (mDone ?st) = insert i (set (mDone st))" "mMapping ?st = mMapping st" "mMeta ?st = mMeta st"
    "mAllocated ?st = mAllocated st" "mGraph ?st = mGraph st" by (simp_all add: c(1))
  have d: "set (mDone st) \<subseteq> N" "\<forall>x \<in> set (mDone st). \<forall>y. together g x y \<longrightarrow> y \<in> set (mDone st)"
    "keys (mMapping st) \<subseteq> set (mDone st)"
    "\<forall>x \<in> set (mDone st). map_of (mMapping st) x = None \<longrightarrow> (\<forall>y. together g x y \<longrightarrow> y = x)"
    by (rule groupedD(1,2,3,5)[OF g])+
  have "insert i (set (mDone st)) \<subseteq> N" using d(1) i(1) by blast
  moreover have "\<forall>x \<in> insert i (set (mDone st)). \<forall>y. together g x y \<longrightarrow> y \<in> insert i (set (mDone st))"
    using d(2) c(2) by blast
  moreover have "keys (mMapping st) \<subseteq> insert i (set (mDone st))" using d(3) by blast
  moreover have "\<forall>x \<in> insert i (set (mDone st)). map_of (mMapping st) x = None \<longrightarrow> (\<forall>y. together g x y \<longrightarrow> y = x)"
    using d(4) c(2) by blast
  ultimately show ?thesis
    using g unfolding grouped_def st by (elim conjE) (intro conjI; assumption)
qed

text \<open>Merging one node either gives up or keeps the groups and processes the component of the node.\<close>

lemma mergeNode_grouped:
  assumes g: "grouped addr a0 N g st" and i: "i \<in> N" and c: "complete N g"
    and addr: "inj addr" "N \<subseteq> addr ` {..<a0}"
    and r: "mergeNode addr i st = Inr st'"
  shows "grouped addr a0 N g st' \<and> insert i (set (mDone st)) \<subseteq> set (mDone st')"
proof (cases "List.member (mDone st) i")
  case True
  then show ?thesis using r g by (auto simp: mergeNode_def List.member_iff)
next
  case False
  have N: "closedIn N g" using c by (simp add: complete_def)
  have same: "mGraph st k = g k" if "k \<in> N" for k
    by (rule groupedD(10)[OF g fresh_meta[OF g addr that]])
  have keys: "keys (nIndirect (g i)) \<subseteq> N"
  proof
    fix k assume "k \<in> keys (nIndirect (g i))"
    then have "(i, k) \<in> (depEdge g)\<^sup>+" using complete_keys[OF c i, of k] by (simp add: map_of_keys)
    then show "k \<in> N" using reach_closed[OF N i trancl_into_rtrancl] by blast
  qed
  have "foldl (\<lambda>s (k, _). if map_of (nIndirect (mGraph st k)) i \<noteq> None then oinsert k s else s) s (nIndirect (g i)) =
      foldl (\<lambda>s (k, _). if map_of (nIndirect (g k)) i \<noteq> None then oinsert k s else s) s (nIndirect (g i))" for s
    using same keys by (intro foldl_cong) (auto simp: case_prod_beta)
  then have scc: "getStronglyConnectedComponent i (mGraph st) = getStronglyConnectedComponent i g"
    by (simp add: getStronglyConnectedComponent_def same[OF i])
  let ?scc = "getStronglyConnectedComponent i g" and ?multi = "getMultioutputComponent i (mGraph st)"
  note sc = scc_together[OF c i]
  have nd: "i \<notin> set (mDone st)" using False by (simp add: List.member_iff)
  have small: "set ?scc = {i}" if "\<not> 1 < length ?scc"
  proof -
    have "i \<in> set ?scc" using sc(1) by simp
    moreover have "card (set ?scc) \<le> 1" using that card_length[of ?scc] by simp
    ultimately show ?thesis using card_le_Suc0_iff_eq[of "set ?scc"] by auto
  qed
  have sub: "insert i (set (mDone st)) \<subseteq> set (ounion (mDone st) ?scc)" using sc(1) by auto
  consider (multi) "?multi = ?scc" "st' = newMeta addr MultiOutputNode ?scc st"
    | (sliced) "st' = newMeta addr SlicedNode ?scc st"
    | (single) "set ?scc = {i}" "st' = st\<lparr>mDone := ounion (mDone st) ?scc\<rparr>"
  proof (cases "1 < length ?multi")
    case True
    then show ?thesis
      using r False unfolding mergeNode_def scc Let_def by (intro multi) (simp_all split: if_splits)
  next
    case F: False
    show ?thesis
    proof (cases "1 < length ?scc")
      case True
      then show ?thesis using r False F unfolding mergeNode_def scc Let_def by (intro sliced) simp
    next
      case False
      then show ?thesis using r \<open>\<not> List.member (mDone st) i\<close> F small[OF False]
        unfolding mergeNode_def scc Let_def by (intro single) simp_all
    qed
  qed
  then show ?thesis
  proof cases
    case multi
    then show ?thesis
      using newMeta_grouped[OF g sc(1) i nd N addr, of MultiOutputNode] sub by (simp add: newMeta_def Let_def)
  next
    case sliced
    then show ?thesis
      using newMeta_grouped[OF g sc(1) i nd N addr, of SlicedNode] sub by (simp add: newMeta_def Let_def)
  next
    case single
    then show ?thesis using single_grouped[OF g i nd single(1)] sc(1) sub by auto
  qed
qed

lemma mergeNodes_grouped:
  assumes "foldR (mergeNode addr) ns st = Inr st'" and "grouped addr a0 N g st" "set ns \<subseteq> N"
    and c: "complete N g" and addr: "inj addr" "N \<subseteq> addr ` {..<a0}"
  shows "grouped addr a0 N g st' \<and> set (mDone st) \<union> set ns \<subseteq> set (mDone st')"
  using assms(1-3)
proof (induction ns arbitrary: st)
  case (Cons n ns)
  obtain st1 where st1: "mergeNode addr n st = Inr st1" "foldR (mergeNode addr) ns st1 = Inr st'"
    using Cons.prems(1) by (auto simp: rbind_Inr_iff)
  have "grouped addr a0 N g st1 \<and> insert n (set (mDone st)) \<subseteq> set (mDone st1)"
    using mergeNode_grouped[OF Cons.prems(2) _ c addr st1(1)] Cons.prems(3) by simp
  then show ?case using Cons.IH[OF st1(2)] Cons.prems(3) by auto
qed simp

section \<open>The merged graph\<close>

lemma oset_not_Nil [simp]: "oset k v m \<noteq> []"
  by (cases m) (auto split: if_splits)

lemma keys_applyRemapping: "keys (deps_applyRemapping mp d) = standFor mp ` keys d"
proof -
  have "keys (foldl (\<lambda>m (k, v). oset (case map_of mp k of None \<Rightarrow> k | Some t \<Rightarrow> t) v m) m0 d) =
      keys m0 \<union> standFor mp ` keys d" for m0
    by (induction d arbitrary: m0) (auto simp: standFor_def case_prod_beta)
  moreover have "standFor [] = (\<lambda>x. x)" by (simp add: standFor_def fun_eq_iff)
  ultimately show ?thesis by (simp add: deps_applyRemapping_def)
qed

lemma keys_empty: "keys d = {} \<longleftrightarrow> d = []"
  by simp

lemma applyRemapping_Nil: "deps_applyRemapping mp d = [] \<longleftrightarrow> d = []"
  unfolding keys_empty[symmetric] keys_applyRemapping by simp

lemma keys_deps_merge: "keys (deps_merge a b) = keys a \<union> keys b"
  unfolding deps_merge_def by (induction b arbitrary: a) (auto simp: case_prod_beta)

lemma keys_merged: "keys (foldl (\<lambda>m i. deps_merge m (f i)) [] c) = (\<Union>i \<in> set c. keys (f i))"
proof -
  have "keys (foldl (\<lambda>m i. deps_merge m (f i)) m0 c) = keys m0 \<union> (\<Union>i \<in> set c. keys (f i))" for m0
    by (induction c arbitrary: m0) (auto simp: keys_deps_merge)
  from this[of "[]"] show ?thesis by simp
qed

text \<open>What merging and scheduling look at; looking for a valid schedule of a group keeps it.\<close>

definition shape :: "node \<Rightarrow> nodeKind \<times> nat list \<times> bool \<times> bool \<times> deps \<times> deps" where
  "shape n = (nKind n, nOriginals n, nIsInput n, nIsOutput n, nOriginal n, nRemapped n)"

lemma checkMeta_shape: "checkMeta choice i g = Inr g' \<Longrightarrow> shape (g' n) = shape (g n)"
  by (auto simp: checkMeta_def findValidSchedule_def rbind_Inr_iff rmap_Inr_iff shape_def Let_def
      split: nodeKind.splits if_splits option.splits prod.splits)

lemma checkMetas_shape: "foldR (checkMeta choice) is g = Inr g' \<Longrightarrow> shape (g' n) = shape (g n)"
  by (induction "is" arbitrary: g) (auto simp: rbind_Inr_iff dest: checkMeta_shape)

lemma remapNodes_at:
  "distinct ns \<Longrightarrow> remapNodes mp ns g n = (if n \<in> set ns then node_applyRemapping mp (g n) else g n)"
  unfolding remapNodes_def by (induction ns arbitrary: g) auto

text \<open>The set \<open>N\<close> of nodes of \<open>g\<close> has become the graph \<open>h\<close>, in which \<open>rep\<close> stands for each node.\<close>

definition mergedInto :: "nat set \<Rightarrow> graph \<Rightarrow> (nat \<Rightarrow> nat) \<Rightarrow> graph \<Rightarrow> bool" where
  "mergedInto N g rep h =
     ((\<forall>x \<in> N. \<forall>y \<in> N. rep x = rep y \<longleftrightarrow> together g x y) \<and>
      (\<forall>x \<in> N. nRemapped (h (rep x)) = directDepends (h (rep x)) \<and>
         rep ` keys (nRemapped (g x)) \<subseteq> keys (nRemapped (h (rep x))) \<and>
         keys (nRemapped (h (rep x))) \<subseteq> rep ` (\<Union>y \<in> {y \<in> N. rep y = rep x}. keys (directDepends (g y))) \<and>
         nIsInput (h (rep x)) = (\<exists>y \<in> N. rep y = rep x \<and> nIsInput (g y)) \<and>
         nIsOutput (h (rep x)) = (\<exists>y \<in> N. rep y = rep x \<and> nIsOutput (g y)) \<and>
         (if nKind (h (rep x)) = BasicNode then rep x = x
          else set (nOriginals (h (rep x))) = {y \<in> N. rep y = rep x})))"

lemma mergedInto_rep:
  assumes "mergedInto N g rep h" "x \<in> N" "y \<in> N"
  shows "rep x = rep y \<longleftrightarrow> together g x y"
  using assms unfolding mergedInto_def by (elim conjE) (drule (1) bspec, drule (1) bspec)

lemma mergedIntoD:
  assumes "mergedInto N g rep h" and x: "x \<in> N"
  shows "nRemapped (h (rep x)) = directDepends (h (rep x))"
    "rep ` keys (nRemapped (g x)) \<subseteq> keys (nRemapped (h (rep x)))"
    "keys (nRemapped (h (rep x))) \<subseteq> rep ` (\<Union>y \<in> {y \<in> N. rep y = rep x}. keys (directDepends (g y)))"
    "nIsInput (h (rep x)) = (\<exists>y \<in> N. rep y = rep x \<and> nIsInput (g y))"
    "nIsOutput (h (rep x)) = (\<exists>y \<in> N. rep y = rep x \<and> nIsOutput (g y))"
    "if nKind (h (rep x)) = BasicNode then rep x = x
      else set (nOriginals (h (rep x))) = {y \<in> N. rep y = rep x}"
proof -
  note a1 = assms(1)[unfolded mergedInto_def, THEN conjunct2, THEN bspec, OF x]
  note a2 = a1[THEN conjunct2] note a3 = a2[THEN conjunct2] note a4 = a3[THEN conjunct2]
  note a5 = a4[THEN conjunct2]
  note all = a1[THEN conjunct1] a2[THEN conjunct1] a3[THEN conjunct1] a4[THEN conjunct1]
    a5[THEN conjunct1] a5[THEN conjunct2]
  show "nRemapped (h (rep x)) = directDepends (h (rep x))"
    "rep ` keys (nRemapped (g x)) \<subseteq> keys (nRemapped (h (rep x)))"
    "keys (nRemapped (h (rep x))) \<subseteq> rep ` (\<Union>y \<in> {y \<in> N. rep y = rep x}. keys (directDepends (g y)))"
    "nIsInput (h (rep x)) = (\<exists>y \<in> N. rep y = rep x \<and> nIsInput (g y))"
    "nIsOutput (h (rep x)) = (\<exists>y \<in> N. rep y = rep x \<and> nIsOutput (g y))"
    "if nKind (h (rep x)) = BasicNode then rep x = x
      else set (nOriginals (h (rep x))) = {y \<in> N. rep y = rep x}" by (rule all)+
qed

lemma remapped_direct:
  assumes "shape n = shape (node_applyRemapping mp m)"
  shows "nRemapped n = directDepends n" "keys (nRemapped n) = standFor mp ` keys (directDepends m)"
proof -
  have "nRemapped n = deps_applyRemapping mp (directDepends m)" "nOriginal n = nOriginal m"
    using assms by (simp_all add: shape_def node_applyRemapping_def directDepends_def)
  then show "nRemapped n = directDepends n" "keys (nRemapped n) = standFor mp ` keys (directDepends m)"
    by (auto simp: directDepends_def applyRemapping_Nil keys_applyRemapping)
qed

lemma remapped_sub: "keys (nRemapped n) \<subseteq> keys (directDepends n)"
  by (simp add: directDepends_def)

lemma meta_direct:
  shows "(\<Union>i \<in> set c. keys (nRemapped (g i))) \<subseteq> keys (directDepends (metaNode kind c g))"
    "keys (directDepends (metaNode kind c g)) \<subseteq> (\<Union>i \<in> set c. keys (directDepends (g i)))"
proof -
  let ?m = "metaNode kind c g"
  have r: "keys (nRemapped ?m) = (\<Union>i \<in> set c. keys (nRemapped (g i)))"
    and o: "keys (nOriginal ?m) = (\<Union>i \<in> set c. keys (nOriginal (g i)))"
    by (simp_all add: metaNode_def keys_merged)
  show "(\<Union>i \<in> set c. keys (nRemapped (g i))) \<subseteq> keys (directDepends ?m)"
    unfolding r[symmetric] by (simp add: directDepends_def)
  show "keys (directDepends ?m) \<subseteq> (\<Union>i \<in> set c. keys (directDepends (g i)))"
  proof (cases "nRemapped ?m = []")
    case True
    then have "\<forall>i \<in> set c. nRemapped (g i) = []" using r by auto
    then show ?thesis using True o by (auto simp: directDepends_def)
  next
    case False
    then have "keys (directDepends ?m) = (\<Union>i \<in> set c. keys (nRemapped (g i)))"
      using r by (simp add: directDepends_def)
    also have "\<dots> \<subseteq> (\<Union>i \<in> set c. keys (directDepends (g i)))" by (intro UN_mono) (simp_all add: remapped_sub)
    finally show ?thesis .
  qed
qed

lemma list_ex_iff': "list_ex P c \<longleftrightarrow> (\<exists>i \<in> set c. P i)"
  by (simp add: list_ex_iff)

lemma merged_single:
  assumes h: "shape (h x) = shape (node_applyRemapping mp (g x))" and x: "map_of mp x = None"
    and alone: "\<forall>y \<in> N. standFor mp y = x \<longleftrightarrow> y = x" and N: "x \<in> N" "nKind (g x) = BasicNode"
  shows "nRemapped (h x) = directDepends (h x) \<and>
    standFor mp ` keys (nRemapped (g x)) \<subseteq> keys (nRemapped (h x)) \<and>
    keys (nRemapped (h x)) \<subseteq> standFor mp ` (\<Union>y \<in> {y \<in> N. standFor mp y = x}. keys (directDepends (g y))) \<and>
    nIsInput (h x) = (\<exists>y \<in> N. standFor mp y = x \<and> nIsInput (g y)) \<and>
    nIsOutput (h x) = (\<exists>y \<in> N. standFor mp y = x \<and> nIsOutput (g y)) \<and> nKind (h x) = BasicNode"
proof -
  note d = remapped_direct[OF h]
  have Y: "{y \<in> N. standFor mp y = x} = {x}" using alone N(1) by blast
  have io: "nIsInput (h x) = nIsInput (g x)" "nIsOutput (h x) = nIsOutput (g x)" "nKind (h x) = BasicNode"
    using h N(2) by (simp_all add: shape_def node_applyRemapping_def)
  have "standFor mp ` keys (nRemapped (g x)) \<subseteq> keys (nRemapped (h x))"
    unfolding d(2) by (intro image_mono remapped_sub)
  then show ?thesis using d io alone N(1) unfolding Y d(2) by auto
qed

lemma merged_group:
  assumes h: "shape (h p) = shape (node_applyRemapping mp (metaNode kind c g))" and kind: "kind \<noteq> BasicNode"
    and c: "set c = {y \<in> N. standFor mp y = p}" and x: "x \<in> set c"
  shows "nRemapped (h p) = directDepends (h p) \<and>
    standFor mp ` keys (nRemapped (g x)) \<subseteq> keys (nRemapped (h p)) \<and>
    keys (nRemapped (h p)) \<subseteq> standFor mp ` (\<Union>y \<in> {y \<in> N. standFor mp y = p}. keys (directDepends (g y))) \<and>
    nIsInput (h p) = (\<exists>y \<in> N. standFor mp y = p \<and> nIsInput (g y)) \<and>
    nIsOutput (h p) = (\<exists>y \<in> N. standFor mp y = p \<and> nIsOutput (g y)) \<and>
    nKind (h p) \<noteq> BasicNode \<and> set (nOriginals (h p)) = {y \<in> N. standFor mp y = p}"
proof -
  note d = remapped_direct[OF h]
  have io: "nIsInput (h p) = (\<exists>i \<in> set c. nIsInput (g i))" "nIsOutput (h p) = (\<exists>i \<in> set c. nIsOutput (g i))"
    "nKind (h p) = kind" "nOriginals (h p) = c"
    using h by (simp_all add: shape_def node_applyRemapping_def metaNode_def list_ex_iff')
  have "keys (nRemapped (g x)) \<subseteq> keys (directDepends (metaNode kind c g))"
    using meta_direct(1)[where c = c and g = g and kind = kind] x by blast
  then have "standFor mp ` keys (nRemapped (g x)) \<subseteq> keys (nRemapped (h p))"
    unfolding d(2) by (rule image_mono)
  moreover have "keys (nRemapped (h p)) \<subseteq> standFor mp ` (\<Union>y \<in> set c. keys (directDepends (g y)))"
    unfolding d(2) by (intro image_mono meta_direct(2))
  moreover have "nIsInput (h p) = (\<exists>y \<in> N. standFor mp y = p \<and> nIsInput (g y))"
      "nIsOutput (h p) = (\<exists>y \<in> N. standFor mp y = p \<and> nIsOutput (g y))"
    unfolding io(1,2) c by blast+
  ultimately show ?thesis using d(1) io(3,4) kind unfolding c[symmetric] by blast
qed

text \<open>Replacing the members of a set.\<close>

lemma set_remapped:
  assumes "\<forall>t \<in> snd ` set mp. t \<notin> keys mp" "distinct (map fst mp)"
  shows "set (set_applyRemapping mp s) = standFor mp ` set s"
  using assms
proof (induction mp arbitrary: s)
  case Nil
  then show ?case by (simp add: set_applyRemapping_def standFor_def)
next
  case (Cons e mp)
  obtain k t where e: "e = (k, t)" by (cases e) auto
  let ?s = "if List.member s k then oinsert t (oerase k s) else s"
  have step: "set_applyRemapping (e # mp) s = set_applyRemapping mp ?s"
    by (simp add: set_applyRemapping_def e)
  have t: "t \<notin> keys mp" "t \<noteq> k" and k: "k \<notin> keys mp" using Cons.prems by (auto simp: e)
  have other: "standFor (e # mp) x = standFor mp x" if "x \<noteq> k" for x
    using that by (simp add: standFor_def e)
  have "map_of mp t = None" using t(1) by (simp only: map_of_keys(2) not_False_eq_True)
  then have "standFor mp t = t" "standFor (e # mp) k = t"
    using t(2) by (simp_all add: standFor_def e)
  then have "standFor mp ` set ?s = standFor (e # mp) ` set s"
  proof (cases "k \<in> set s")
    case True
    then have "set s = insert k (set s - {k})" by blast
    then have "standFor (e # mp) ` set s = insert t (standFor (e # mp) ` (set s - {k}))"
      using \<open>standFor (e # mp) k = t\<close> by (metis image_insert)
    also have "standFor (e # mp) ` (set s - {k}) = standFor mp ` (set s - {k})"
      using other by (intro image_cong) auto
    finally show ?thesis using True \<open>standFor mp t = t\<close> by (simp add: List.member_iff)
  next
    case False
    then have "standFor mp x = standFor (e # mp) x" if "x \<in> set s" for x
      using other[of x] that by metis
    then show ?thesis using False by (simp add: List.member_iff)
  qed
  then show ?case unfolding step using Cons.IH[of ?s] Cons.prems by (auto simp: e)
qed

text \<open>After all nodes are processed, the mapping is the quotient by mutual dependence.\<close>

lemma grouped_standFor:
  assumes g: "grouped addr a0 N g st" and all: "N \<subseteq> set (mDone st)"
    and addr: "inj addr" "N \<subseteq> addr ` {..<a0}" and x: "x \<in> N" and y: "y \<in> N"
  shows "standFor (mMapping st) x = standFor (mMapping st) y \<longleftrightarrow> together g x y"
proof -
  note gd = groupedD[OF g]
  have fresh: "p \<notin> N" if "map_of (mMapping st) z = Some p" for z p
    using gd(6)[OF that] fresh_meta[OF g addr] by blast
  show ?thesis
  proof (cases "map_of (mMapping st) x")
    case x0: None
    then have one: "\<forall>z. together g x z \<longrightarrow> z = x" using gd(5) all x by blast
    then have "together g x y \<longleftrightarrow> x = y" by auto
    then show ?thesis
      using x0 fresh[of y] x by (auto simp: standFor_def split: option.split)
  next
    case xp: (Some p)
    show ?thesis
    proof (cases "map_of (mMapping st) y")
      case None
      then have "\<not> together g x y" using gd(7)[OF xp, of y] by simp
      then show ?thesis using xp None fresh[OF xp] y by (auto simp: standFor_def)
    next
      case (Some q)
      then show ?thesis using xp gd(7)[OF xp, of y] by (auto simp: standFor_def)
    qed
  qed
qed

lemma grouped_mapped:
  assumes g: "grouped addr a0 N g st"
    and addr: "inj addr" "N \<subseteq> addr ` {..<a0}"
  shows "\<forall>t \<in> snd ` set (mMapping st). t \<notin> keys (mMapping st)" "distinct (map fst (mMapping st))"
proof -
  note gd = groupedD[OF g]
  show d: "distinct (map fst (mMapping st))" using gd(4) by (rule omap_distinct)
  show "\<forall>t \<in> snd ` set (mMapping st). t \<notin> keys (mMapping st)"
  proof
    fix t assume "t \<in> snd ` set (mMapping st)"
    then obtain k where "map_of (mMapping st) k = Some t" using d by (auto simp: map_of_eq_Some_iff)
    then have "t \<in> set (mMeta st)" by (rule gd(6))
    then show "t \<notin> keys (mMapping st)" using fresh_meta[OF g addr] gd(1,3) by blast
  qed
qed

text \<open>When merging succeeds, every node is merged into its component.\<close>

lemma merge_spec:
  fixes s :: scheduler
  defines "N \<equiv> set (sAllNodes s)" and "g \<equiv> sGraph s"
  assumes r: "mergeCoscheduledNodes addr choice s = Inr (s', ins, mids, outs)"
    and c: "complete N g" and d: "distinct (sAllNodes s)"
    and addr: "inj addr" "N \<subseteq> addr ` {..<sAllocated s}" and basic: "\<forall>x \<in> N. nKind (g x) = BasicNode"
  shows "\<exists>rep. mergedInto N g rep (sGraph s') \<and> rep ` N \<subseteq> set (sAllNodes s') \<union> set (sMetaNodes s') \<and>
    set ins = rep ` set (sInputs s) \<and> set mids = rep ` set (sIntermediates s) \<and> set outs = rep ` set (sOutputs s) \<and>
    (\<exists>h a ms. s' = s\<lparr>sGraph := h, sAllocated := a, sMetaNodes := ms\<rparr> \<and> sAllocated s \<le> a \<and>
       (\<forall>x \<in> N. \<exists>d. shape (h x) = shape ((g x)\<lparr>nRemapped := d\<rparr>)))"
proof -
  let ?st0 = "\<lparr>mDone = [], mMapping = [], mMeta = [], mGraph = sGraph s, mAllocated = sAllocated s\<rparr>"
  obtain st where st: "foldR (mergeNode addr) (sAllNodes s) ?st0 = Inr st"
    using r by (auto simp: mergeCoscheduledNodes_def rbind_Inr_iff)
  let ?mp = "mMapping st"
  let ?h = "remapNodes ?mp (mMeta st) (remapNodes ?mp (sAllNodes s) (mGraph st))"
  obtain h where h: "foldR (checkMeta choice) (mMeta st) ?h = Inr h"
    and s': "s' = s\<lparr>sGraph := h, sAllocated := mAllocated st, sMetaNodes := sMetaNodes s @ mMeta st\<rparr>"
    and sets: "ins = set_applyRemapping ?mp (sInputs s)" "mids = set_applyRemapping ?mp (sIntermediates s)"
      "outs = set_applyRemapping ?mp (sOutputs s)"
    using r st by (auto simp: mergeCoscheduledNodes_def rbind_Inr_iff)
  have "grouped addr (sAllocated s) N g ?st0" by (simp add: grouped_def g_def)
  then have gr: "grouped addr (sAllocated s) N g st" and all: "N \<subseteq> set (mDone st)"
    using mergeNodes_grouped[OF st _ _ c addr] by (auto simp: N_def)
  note gd = groupedD[OF gr] and fm = fresh_meta[OF gr addr]
  let ?rep = "standFor ?mp"
  have dm: "distinct (mMeta st)" unfolding gd(9) using addr(1) by (simp add: distinct_map inj_on_subset[of addr UNIV])
  have hx: "shape (h x) = shape (node_applyRemapping ?mp (g x))" if "x \<in> N" for x
    using checkMetas_shape[OF h, of x] that fm[OF that] gd(10)[OF fm[OF that]]
    by (simp add: remapNodes_at dm d N_def)
  have hp: "shape (h p) = shape (node_applyRemapping ?mp (mGraph st p))" if "p \<in> set (mMeta st)" for p
    using checkMetas_shape[OF h, of p] that fm[of p] by (auto simp: remapNodes_at dm d N_def)
  have quot: "?rep x = ?rep y \<longleftrightarrow> together g x y" if "x \<in> N" "y \<in> N" for x y
    by (rule grouped_standFor[OF gr all addr that])
  have "mergedInto N g ?rep h"
    unfolding mergedInto_def
  proof (intro conjI ballI)
    fix x assume x: "x \<in> N"
    have "nRemapped (h (?rep x)) = directDepends (h (?rep x)) \<and>
       ?rep ` keys (nRemapped (g x)) \<subseteq> keys (nRemapped (h (?rep x))) \<and>
       keys (nRemapped (h (?rep x))) \<subseteq> ?rep ` (\<Union>y \<in> {y \<in> N. ?rep y = ?rep x}. keys (directDepends (g y))) \<and>
       nIsInput (h (?rep x)) = (\<exists>y \<in> N. ?rep y = ?rep x \<and> nIsInput (g y)) \<and>
       nIsOutput (h (?rep x)) = (\<exists>y \<in> N. ?rep y = ?rep x \<and> nIsOutput (g y)) \<and>
       (if nKind (h (?rep x)) = BasicNode then ?rep x = x
        else set (nOriginals (h (?rep x))) = {y \<in> N. ?rep y = ?rep x})" (is ?ALL)
    proof (cases "map_of ?mp x")
      case None
      then have rx: "?rep x = x" by (simp add: standFor_def)
      have alone: "\<forall>y \<in> N. ?rep y = x \<longleftrightarrow> y = x"
      proof
        fix y assume "y \<in> N"
        then show "?rep y = x \<longleftrightarrow> y = x"
          using quot[OF x, of y] gd(5) all x None unfolding rx by (metis rx subsetD)
      qed
      have "nKind (g x) = BasicNode" using basic x by blast
      from merged_single[where N = N and x = x and h = h and g = g and mp = ?mp,
          OF hx[OF x] None alone x this]
      show ?thesis unfolding rx by (elim conjE) (intro conjI; (assumption | simp))
    next
      case (Some p)
      then have rx: "?rep x = p" by (simp add: standFor_def)
      have p: "p \<in> set (mMeta st)" by (rule gd(6)[OF Some])
      obtain kind cs where k: "kind \<noteq> BasicNode" "mGraph st p = metaNode kind cs g"
        "set cs = {y. map_of ?mp y = Some p}" using gd(11)[OF p] by blast
      have "map_of ?mp y = Some p \<longleftrightarrow> y \<in> N \<and> ?rep y = p" for y
      proof
        assume y: "map_of ?mp y = Some p"
        then have "y \<in> keys ?mp" using map_of_keys(1)[of ?mp y] by simp
        then show "y \<in> N \<and> ?rep y = p" using y gd(1,3) by (auto simp: standFor_def)
      next
        assume y: "y \<in> N \<and> ?rep y = p"
        then show "map_of ?mp y = Some p" using fm[of y] p by (auto simp: standFor_def split: option.splits)
      qed
      then have cs: "set cs = {y \<in> N. ?rep y = p}" using k(3) by blast
      have xc: "x \<in> set cs" using x rx cs by blast
      from merged_group[where p = p and h = h and g = g and mp = ?mp,
          OF hp[OF p, unfolded k(2)] k(1) cs xc]
      show ?thesis unfolding rx by (elim conjE) (intro conjI; (assumption | simp))
    qed
    then show "nRemapped (h (?rep x)) = directDepends (h (?rep x))"
      "?rep ` keys (nRemapped (g x)) \<subseteq> keys (nRemapped (h (?rep x)))"
      "keys (nRemapped (h (?rep x))) \<subseteq> ?rep ` (\<Union>y \<in> {y \<in> N. ?rep y = ?rep x}. keys (directDepends (g y)))"
      "nIsInput (h (?rep x)) = (\<exists>y \<in> N. ?rep y = ?rep x \<and> nIsInput (g y))"
      "nIsOutput (h (?rep x)) = (\<exists>y \<in> N. ?rep y = ?rep x \<and> nIsOutput (g y))"
      "if nKind (h (?rep x)) = BasicNode then ?rep x = x
        else set (nOriginals (h (?rep x))) = {y \<in> N. ?rep y = ?rep x}" by blast+
  qed (use quot in blast)
  moreover have "?rep ` N \<subseteq> N \<union> set (mMeta st)"
    using gd(6) by (auto simp: standFor_def split: option.split)
  moreover note set_remapped[OF grouped_mapped[OF gr addr]]
  moreover have "\<exists>d. shape (h x) = shape ((g x)\<lparr>nRemapped := d\<rparr>)" if "x \<in> N" for x
    using hx[OF that]
    by (intro exI[of _ "nRemapped (node_applyRemapping ?mp (g x))"]) (simp add: shape_def node_applyRemapping_def)
  then have "\<exists>h a ms. s' = s\<lparr>sGraph := h, sAllocated := a, sMetaNodes := ms\<rparr> \<and> sAllocated s \<le> a \<and>
       (\<forall>x \<in> N. \<exists>d. shape (h x) = shape ((g x)\<lparr>nRemapped := d\<rparr>))"
    using s' gd(8) by blast
  ultimately show ?thesis
    unfolding sets by (intro exI[of _ ?rep]) (auto simp: N_def s')
qed

end
