(* ===== verification/ScheduleProofs.thy ===== *)
theory ScheduleProofs
  imports MergeProofs
begin

text \<open>
  The schedules that the depth-first search finds in a merged graph: the search ends, meets no cycle,
  and each node comes after the nodes it depends on.
\<close>

section \<open>Merged graphs have no cycles\<close>

definition steps :: "nat set \<Rightarrow> graph \<Rightarrow> (nat \<times> nat) set" where
  "steps L h = {(n, k). n \<in> L \<and> k \<in> keys (directDepends (h n)) \<and> k \<noteq> n}"

lemma together_rtrancl: "together g x y \<Longrightarrow> (x, y) \<in> (depEdge g)\<^sup>*"
  by (auto simp: together_def)

lemma merged_step:
  assumes m: "mergedInto N g rep h" and cl: "closedIn N g" and x: "x \<in> N"
    and k: "k \<in> keys (directDepends (h (rep x)))"
  shows "\<exists>y \<in> N. k = rep y \<and> (x, y) \<in> (depEdge g)\<^sup>+"
proof -
  have "k \<in> rep ` (\<Union>y \<in> {y \<in> N. rep y = rep x}. keys (directDepends (g y)))"
    using mergedIntoD(1,3)[OF m x] k by auto
  then obtain x' y where xy: "k = rep y" "x' \<in> N" "rep x' = rep x" "y \<in> keys (directDepends (g x'))"
    by blast
  then have "(x', y) \<in> depEdge g" "y \<in> N" using cl by (auto simp: depEdge_def closedIn_def)
  moreover have "together g x x'" using mergedInto_rep[OF m x xy(2)] xy(3) by simp
  ultimately show ?thesis using xy(1) rtrancl_into_trancl1[OF together_rtrancl] by blast
qed

lemma merged_path:
  assumes m: "mergedInto N g rep h" and cl: "closedIn N g" and x: "x \<in> N"
    and p: "(rep x, k) \<in> (steps (rep ` N) h)\<^sup>+"
  shows "\<exists>y \<in> N. k = rep y \<and> (x, y) \<in> (depEdge g)\<^sup>+"
  using p
proof (induction rule: trancl_induct)
  case (base k)
  then show ?case using merged_step[OF m cl x] by (simp add: steps_def)
next
  case (step k l)
  then obtain y where y: "y \<in> N" "k = rep y" "(x, y) \<in> (depEdge g)\<^sup>+" by blast
  then obtain z where "z \<in> N" "l = rep z" "(y, z) \<in> (depEdge g)\<^sup>+"
    using merged_step[OF m cl y(1), of l] step.hyps(2) by (auto simp: steps_def)
  then show ?case using y(3) by (blast intro: trancl_trans)
qed

lemma merged_acyclic:
  assumes m: "mergedInto N g rep h" and cl: "closedIn N g"
  shows "acyclic (steps (rep ` N) h)"
proof (rule acyclicI, rule allI, rule notI)
  fix n assume "(n, n) \<in> (steps (rep ` N) h)\<^sup>+"
  then obtain k where k: "(n, k) \<in> steps (rep ` N) h" "(k, n) \<in> (steps (rep ` N) h)\<^sup>*"
    by (meson tranclD)
  then obtain x where x: "x \<in> N" "n = rep x" and ne: "k \<noteq> n" by (auto simp: steps_def)
  then obtain y where y: "y \<in> N" "k = rep y" "(x, y) \<in> (depEdge g)\<^sup>+"
    using merged_path[OF m cl x(1), of k] k(1) by blast
  have "(k, n) \<in> (steps (rep ` N) h)\<^sup>+" using k(2) ne by (simp add: rtrancl_eq_or_trancl)
  then obtain z where z: "z \<in> N" "n = rep z" "(y, z) \<in> (depEdge g)\<^sup>+"
    using merged_path[OF m cl y(1), of n] y(2) by blast
  have "together g z x" using mergedInto_rep[OF m z(1) x(1)] z(2) x(2) by simp
  then have "(y, x) \<in> (depEdge g)\<^sup>+" using z(3) together_rtrancl by (meson trancl_rtrancl_trancl)
  then have "together g x y" using y(3) by (simp add: together_def)
  then have "rep x = rep y" using mergedInto_rep[OF m x(1) y(1)] by simp
  then show False using ne x(2) y(2) by simp
qed

lemma merged_closed:
  assumes "mergedInto N g rep h" "closedIn N g" "n \<in> rep ` N"
  shows "keys (directDepends (h n)) \<subseteq> rep ` N"
  using merged_step[OF assms(1,2)] assms(3) by blast

section \<open>Depth-first search\<close>

text \<open>Entries that come after what they depend on; \<open>D\<close> is available at the start.\<close>

fun inOrder :: "graph \<Rightarrow> nat set \<Rightarrow> scheduleEntry list \<Rightarrow> bool" where
  "inOrder h D [] = True"
| "inOrder h D (e # es) =
     (e = newEntry h (seNode e) \<and> seNode e \<notin> D \<and>
      keys (directDepends (h (seNode e))) \<subseteq> insert (seNode e) D \<and> inOrder h (insert (seNode e) D) es)"

lemma seNode_newEntry [simp]: "seNode (newEntry h n) = n"
  by (simp add: newEntry_def)

lemma inOrder_append:
  "inOrder h D (es @ fs) \<longleftrightarrow> inOrder h D es \<and> inOrder h (D \<union> seNode ` set es) fs"
  by (induction es arbitrary: D) auto

definition searchOk :: "graph \<Rightarrow> nat set \<Rightarrow> schedulingState \<Rightarrow> bool" where
  "searchOk h I st = (inOrder h I (ssSchedule st) \<and> set (ssGenerated st) = I \<union> seNode ` set (ssSchedule st))"

definition active :: "schedulingState \<Rightarrow> nat set" where
  "active st = set (ssPending st) - set (ssGenerated st)"

text \<open>What a search from \<open>n\<close> achieves.\<close>

definition searched :: "graph \<Rightarrow> nat set \<Rightarrow> nat set \<Rightarrow> schedulingState \<Rightarrow> schedulingState \<Rightarrow> bool" where
  "searched h I L st st' = (searchOk h I st' \<and> active st' = active st \<and>
     set (ssGenerated st) \<subseteq> set (ssGenerated st') \<and> set (ssGenerated st') \<subseteq> set (ssGenerated st) \<union> L)"

lemma searched_trans: "searched h I L a b \<Longrightarrow> searched h I L b c \<Longrightarrow> searched h I L a c"
  by (auto simp: searched_def)

lemma search_all:
  assumes "\<forall>k \<in> set ks. \<forall>st. searchOk h I st \<and> active st = A \<longrightarrow>
      (\<exists>st'. f k st = Inr st' \<and> searched h I L st st' \<and> k \<in> G st')"
    and "searchOk h I st" "active st = A"
    and mono: "\<forall>k a b. searched h I L a b \<longrightarrow> k \<in> G a \<longrightarrow> k \<in> G b"
  shows "\<exists>st'. foldR f ks st = Inr st' \<and> searched h I L st st' \<and> set ks \<subseteq> G st'"
  using assms(1-3)
proof (induction ks arbitrary: st)
  case Nil
  then show ?case by (simp add: searched_def)
next
  case (Cons k ks)
  obtain st1 where st1: "f k st = Inr st1" "searched h I L st st1" "k \<in> G st1"
    using Cons.prems(1)[rule_format, of k st] Cons.prems(2,3) by auto
  have "searchOk h I st1" "active st1 = A" using st1(2) Cons.prems(3) by (simp_all add: searched_def)
  then obtain st' where st': "foldR f ks st1 = Inr st'" "searched h I L st1 st'" "set ks \<subseteq> G st'"
    using Cons.IH[of st1] Cons.prems(1) by (meson list.set_intros(2))
  moreover have "k \<in> G st'" using mono st'(2) st1(3) by blast
  ultimately show ?case using st1(1) searched_trans[OF st1(2) st'(2)] by simp
qed

lemma depthFirst_search:
  assumes fin: "finite L" and closed: "\<forall>n \<in> L. keys (directDepends (h n)) \<subseteq> L" and ac: "acyclic (steps L h)"
  shows "n \<in> L \<Longrightarrow> searchOk h I st \<Longrightarrow> active st \<subseteq> L \<Longrightarrow> (\<forall>a \<in> active st. (a, n) \<in> (steps L h)\<^sup>+) \<Longrightarrow>
    card (L - active st) < f \<Longrightarrow>
    \<exists>st'. depthFirst f h n st = Inr st' \<and> searched h I L st st' \<and> n \<in> set (ssGenerated st')"
proof (induction f arbitrary: n st)
  case (Suc f)
  show ?case
  proof (cases "n \<in> set (ssGenerated st)")
    case True
    then show ?thesis using Suc.prems(2) by (simp add: searched_def List.member_iff)
  next
    case False
    have "n \<notin> active st" using Suc.prems(4) ac by (auto simp: acyclic_def)
    then have np: "n \<notin> set (ssPending st)" using False by (simp add: active_def)
    let ?st = "st\<lparr>ssPending := oinsert n (ssPending st)\<rparr>"
    let ?f = "\<lambda>k st. if k \<noteq> n then depthFirst f h k st else Inr st"
    have act: "active ?st = insert n (active st)" using False by (auto simp: active_def)
    have ok: "searchOk h I ?st" using Suc.prems(2) by (simp add: searchOk_def)
    have "card (L - insert n (active st)) < card (L - active st)"
      using fin Suc.prems(1) \<open>n \<notin> active st\<close> by (intro psubset_card_mono) auto
    then have fuel: "card (L - insert n (active st)) < f" using Suc.prems(5) by linarith
    have each: "\<exists>st'. ?f k st1 = Inr st' \<and> searched h I L st1 st' \<and> k \<in> insert n (set (ssGenerated st'))"
      if k: "k \<in> set (map fst (directDepends (h n)))" and st1: "searchOk h I st1" "active st1 = insert n (active st)"
      for k st1
    proof (cases "k = n")
      case True
      then show ?thesis using st1 by (simp add: searched_def)
    next
      case ne: False
      have "(n, k) \<in> steps L h" using k ne Suc.prems(1) by (auto simp: steps_def)
      then have "\<forall>a \<in> active st1. (a, k) \<in> (steps L h)\<^sup>+"
        using Suc.prems(4) unfolding st1(2) by (auto intro: trancl_into_trancl)
      moreover have "k \<in> L" using closed Suc.prems(1) k by auto
      ultimately show ?thesis
        using Suc.IH[of k st1] st1 Suc.prems(1,3) fuel ne by auto
    qed
    have mono: "\<forall>k a b. searched h I L a b \<longrightarrow> k \<in> insert n (set (ssGenerated a)) \<longrightarrow>
        k \<in> insert n (set (ssGenerated b))" by (auto simp: searched_def)
    have each': "\<forall>k \<in> set (map fst (directDepends (h n))). \<forall>st1.
        searchOk h I st1 \<and> active st1 = insert n (active st) \<longrightarrow>
        (\<exists>st'. ?f k st1 = Inr st' \<and> searched h I L st1 st' \<and> k \<in> insert n (set (ssGenerated st')))"
      using each by blast
    obtain st2 where st2: "foldR ?f (map fst (directDepends (h n))) ?st = Inr st2" "searched h I L ?st st2"
      "keys (directDepends (h n)) \<subseteq> insert n (set (ssGenerated st2))"
      using search_all[where f = ?f and A = "insert n (active st)" and st = ?st and h = h and I = I and L = L
          and ks = "map fst (directDepends (h n))" and G = "\<lambda>st. insert n (set (ssGenerated st))",
          OF each' ok act mono, unfolded set_map] by blast
    let ?st3 = "st2\<lparr>ssSchedule := ssSchedule st2 @ [newEntry h n], ssGenerated := oinsert n (ssGenerated st2)\<rparr>"
    have run: "depthFirst (Suc f) h n st = Inr ?st3"
      using False np st2(1) by (simp add: List.member_iff cong: if_cong)
    have n2: "n \<in> active st2" using st2(2) act by (simp add: searched_def)
    have "inOrder h I (ssSchedule st2)" and gen: "set (ssGenerated st2) = I \<union> seNode ` set (ssSchedule st2)"
      and "n \<notin> set (ssGenerated st2)"
      using st2(2) n2 by (simp_all add: searched_def searchOk_def active_def)
    then have "inOrder h I (ssSchedule ?st3)" using st2(3) by (simp add: inOrder_append flip: gen)
    then have "searchOk h I ?st3" using gen by (simp add: searchOk_def)
    moreover have "active ?st3 = active st"
    proof -
      have "active ?st3 = active st2 - {n}" by (auto simp: active_def)
      then show ?thesis using st2(2) act \<open>n \<notin> active st\<close> by (simp add: searched_def)
    qed
    ultimately have "searched h I L st ?st3"
      using st2(2) Suc.prems(1) by (auto simp: searched_def)
    then show ?thesis using run by simp
  qed
qed simp

section \<open>Schedules of a merged graph\<close>

text \<open>The nodes of the dependency graph that a scheduled node computes.\<close>

definition stands :: "graph \<Rightarrow> nat \<Rightarrow> nat set" where
  "stands h p = (if nKind (h p) = BasicNode then {p} else set (nOriginals (h p)))"

text \<open>The task of each entry only waits for tasks of earlier entries, and it waits for all nodes that
  the rules of its nodes read, unless these are inputs or computed by the same task.\<close>

definition waitsForAll :: "graph \<Rightarrow> graph \<Rightarrow> scheduleEntry list \<Rightarrow> bool" where
  "waitsForAll g h sched = (distinct (map seNode sched) \<and>
     (\<forall>i < length sched.
        keys (seDeps (sched ! i)) \<subseteq> (\<lambda>j. seNode (sched ! j)) ` {..<i} \<and>
        (\<forall>x \<in> stands h (seNode (sched ! i)). \<forall>y \<in> keys (nRemapped (g x)).
           y \<in> stands h (seNode (sched ! i)) \<or> (\<exists>k. nIsInput (h k) \<and> y \<in> stands h k) \<or>
           (\<exists>k \<in> keys (seDeps (sched ! i)). y \<in> stands h k))))"

lemma merged_stands:
  "mergedInto N g rep h \<Longrightarrow> x \<in> N \<Longrightarrow> stands h (rep x) = {y \<in> N. rep y = rep x}"
proof -
  assume m: "mergedInto N g rep h" and x: "x \<in> N"
  have k: "if nKind (h (rep x)) = BasicNode then rep x = x
      else set (nOriginals (h (rep x))) = {y \<in> N. rep y = rep x}" if "x \<in> N" for x
    by (rule mergedIntoD(6)[OF m that])
  show ?thesis
  proof (cases "nKind (h (rep x)) = BasicNode")
    case True
    have "y = rep x" if "y \<in> N" "rep y = rep x" for y using k[OF that(1)] that True by simp
    then show ?thesis using k[OF x] True x by (auto simp: stands_def)
  next
    case False
    then show ?thesis using k[OF x] by (simp add: stands_def)
  qed
qed

lemma inOrder_distinct: "inOrder h D es \<Longrightarrow> distinct (map seNode es) \<and> D \<inter> seNode ` set es = {}"
  by (induction h D es rule: inOrder.induct) auto

lemma inOrder_nth:
  "inOrder h D es \<Longrightarrow> i < length es \<Longrightarrow> es ! i = newEntry h (seNode (es ! i)) \<and>
    keys (directDepends (h (seNode (es ! i)))) \<subseteq> insert (seNode (es ! i)) (D \<union> (\<lambda>j. seNode (es ! j)) ` {..<i})"
proof (induction h D es arbitrary: i rule: inOrder.induct)
  case (2 h D e es)
  then have e: "e = newEntry h (seNode e)" "keys (directDepends (h (seNode e))) \<subseteq> insert (seNode e) D"
    and es: "inOrder h (insert (seNode e) D) es" by simp_all
  show ?case
  proof (cases i)
    case (Suc k)
    have "insert (seNode e) D \<union> (\<lambda>j. seNode (es ! j)) ` {..<k} = D \<union> (\<lambda>j. seNode ((e # es) ! j)) ` {..<Suc k}"
      by (simp add: lessThan_Suc_eq_insert_0 image_image)
    moreover have "es ! k = newEntry h (seNode (es ! k)) \<and> keys (directDepends (h (seNode (es ! k)))) \<subseteq>
        insert (seNode (es ! k)) (insert (seNode e) D \<union> (\<lambda>j. seNode (es ! j)) ` {..<k})"
      using 2(1)[OF es] 2(3) Suc by (simp only: length_Cons Suc_less_eq)
    ultimately show ?thesis using Suc by simp
  qed (use e in auto)
qed simp

lemma keys_newEntry: "keys (seDeps (newEntry h n)) = {k \<in> keys (nRemapped (h n)). \<not> nIsInput (h k) \<and> k \<noteq> n}"
  by (force simp: newEntry_def)

lemma inOrder_waits:
  assumes m: "mergedInto N g rep h" and cl: "closedIn N g" and D: "\<forall>k \<in> D. nIsInput (h k)"
    and o: "inOrder h D sched" and N: "seNode ` set sched \<subseteq> rep ` N"
  shows "waitsForAll g h sched"
  unfolding waitsForAll_def
proof (intro conjI allI impI)
  show "distinct (map seNode sched)" using inOrder_distinct[OF o] by simp
  fix i assume i: "i < length sched"
  let ?n = "seNode (sched ! i)"
  obtain x0 where x0: "x0 \<in> N" "?n = rep x0" using subsetD[OF N imageI[OF nth_mem[OF i]]] by blast
  have e: "sched ! i = newEntry h ?n" and
    before: "keys (directDepends (h ?n)) \<subseteq> insert ?n (D \<union> (\<lambda>j. seNode (sched ! j)) ` {..<i})"
    using inOrder_nth[OF o i] by blast+
  have r: "nRemapped (h ?n) = directDepends (h ?n)" "rep ` keys (nRemapped (g x)) \<subseteq> keys (nRemapped (h ?n))"
    if "x \<in> N" "rep x = ?n" for x
    using mergedIntoD(1,2)[OF m that(1)] unfolding that(2) by simp_all
  have deps: "keys (seDeps (sched ! i)) = {k \<in> keys (directDepends (h ?n)). \<not> nIsInput (h k) \<and> k \<noteq> ?n}"
    using keys_newEntry[of h ?n] r(1)[OF x0(1) x0(2)[symmetric]] unfolding e[symmetric] by simp
  show "keys (seDeps (sched ! i)) \<subseteq> (\<lambda>j. seNode (sched ! j)) ` {..<i}"
    unfolding deps using before D by blast
  show "\<forall>x \<in> stands h ?n. \<forall>y \<in> keys (nRemapped (g x)).
      y \<in> stands h ?n \<or> (\<exists>k. nIsInput (h k) \<and> y \<in> stands h k) \<or>
      (\<exists>k \<in> keys (seDeps (sched ! i)). y \<in> stands h k)"
  proof (intro ballI)
    fix x y assume x: "x \<in> stands h ?n" and y: "y \<in> keys (nRemapped (g x))"
    have xN: "x \<in> N" "rep x = ?n" using x merged_stands[OF m x0(1)] x0(2) by auto
    have yN: "y \<in> N" using cl xN(1) y remapped_sub unfolding closedIn_def by blast
    have ky: "rep y \<in> keys (directDepends (h ?n))" using r[OF xN] y by auto
    have sy: "y \<in> stands h (rep y)" using merged_stands[OF m yN] yN by simp
    show "y \<in> stands h ?n \<or> (\<exists>k. nIsInput (h k) \<and> y \<in> stands h k) \<or>
        (\<exists>k \<in> keys (seDeps (sched ! i)). y \<in> stands h k)"
    proof (cases "nIsInput (h (rep y)) \<or> rep y = ?n")
      case True
      then show ?thesis using sy by auto
    next
      case False
      then have "rep y \<in> keys (seDeps (sched ! i))" unfolding deps using ky by simp
      then show ?thesis using sy by blast
    qed
  qed
qed

lemma checkUnused_error: "checkUnused h choice gen i = Inl e \<Longrightarrow> e = OutOfBounds \<or> e = CantSchedule"
  by (auto simp: checkUnused_def split: if_splits)

lemma unused_error:
  "foldR (\<lambda>i _. checkUnused h choice gen i) mids u = Inl e \<Longrightarrow> e = OutOfBounds \<or> e = CantSchedule"
proof (induction mids arbitrary: u)
  case (Cons i mids)
  then show ?case using checkUnused_error[of h choice gen i]
    by (cases "checkUnused h choice gen i") auto
qed simp

text \<open>The search over a merged graph returns; it fails only when an unused node has another rule
  than its first, or no rule.\<close>

lemma newSchedule_waits:
  assumes m: "mergedInto N g rep h" and cl: "closedIn N g" and fin: "finite N"
    and ins: "set ins = rep ` I" "I \<subseteq> N" "\<forall>x \<in> I. nIsInput (g x)"
    and outs: "set outs = rep ` Out" "Out \<subseteq> N" "\<forall>x \<in> Out. nIsOutput (g x)"
    and fuel: "card (rep ` N) < f"
  shows "case newSchedule f h choice ins mids outs of
      Inl e \<Rightarrow> e = OutOfBounds \<or> e = CantSchedule
    | Inr sched \<Rightarrow> waitsForAll g h sched \<and>
        (\<forall>y \<in> Out. \<exists>p. y \<in> stands h p \<and> (p \<in> seNode ` set sched \<or> nIsInput (h p)))"
proof -
  let ?L = "rep ` N" and ?st = "\<lparr>ssGenerated = ins, ssPending = [], ssSchedule = []\<rparr>"
  let ?f = "\<lambda>i st. rassert (nIsOutput (h i)) (depthFirst f h i st)"
  have finL: "finite ?L" using fin by simp
  have cls: "\<forall>n \<in> ?L. keys (directDepends (h n)) \<subseteq> ?L" using merged_closed[OF m cl] by blast
  have out: "i \<in> ?L \<and> nIsOutput (h i)" if i: "i \<in> set outs" for i
  proof -
    obtain x where x: "x \<in> Out" "i = rep x" using i outs(1) by blast
    then have "x \<in> N" "nIsOutput (g x)" using outs by blast+
    moreover have "nIsOutput (h (rep x)) = (\<exists>y \<in> N. rep y = rep x \<and> nIsOutput (g y))"
      by (rule mergedIntoD(5)[OF m \<open>x \<in> N\<close>])
    ultimately show ?thesis using x by blast
  qed
  have each: "\<forall>k \<in> set outs. \<forall>st. searchOk h (set ins) st \<and> active st = {} \<longrightarrow>
      (\<exists>st'. ?f k st = Inr st' \<and> searched h (set ins) ?L st st' \<and> k \<in> set (ssGenerated st'))"
  proof (intro ballI allI impI)
    fix k st assume "k \<in> set outs" "searchOk h (set ins) st \<and> active st = {}"
    then show "\<exists>st'. ?f k st = Inr st' \<and> searched h (set ins) ?L st st' \<and> k \<in> set (ssGenerated st')"
      using depthFirst_search[OF finL cls merged_acyclic[OF m cl], of k "set ins" st f] out fuel by simp
  qed
  have "\<forall>k a b. searched h (set ins) ?L a b \<longrightarrow> k \<in> set (ssGenerated a) \<longrightarrow> k \<in> set (ssGenerated b)"
    by (auto simp: searched_def)
  from search_all[OF each _ _ this, of ?st]
  obtain st where st: "foldR ?f outs ?st = Inr st" "searched h (set ins) ?L ?st st" "set outs \<subseteq> set (ssGenerated st)"
    by (auto simp: searchOk_def active_def)
  have insIn: "nIsInput (h k)" if k: "k \<in> set ins" for k
  proof -
    obtain x where x: "x \<in> I" "k = rep x" using k ins(1) by blast
    then have "x \<in> N" "nIsInput (g x)" using ins by blast+
    moreover have "nIsInput (h (rep x)) = (\<exists>y \<in> N. rep y = rep x \<and> nIsInput (g y))"
      by (rule mergedIntoD(4)[OF m \<open>x \<in> N\<close>])
    ultimately show ?thesis using x by blast
  qed
  have o: "inOrder h (set ins) (ssSchedule st)" and gen: "set (ssGenerated st) = set ins \<union> seNode ` set (ssSchedule st)"
    and L: "set (ssGenerated st) \<subseteq> set ins \<union> ?L"
    using st(2) by (auto simp: searched_def searchOk_def)
  have "seNode ` set (ssSchedule st) \<subseteq> ?L" using L gen inOrder_distinct[OF o] by blast
  then have w: "waitsForAll g h (ssSchedule st)"
    using inOrder_waits[OF m cl _ o] insIn by blast
  have cover: "\<exists>p. y \<in> stands h p \<and> (p \<in> seNode ` set (ssSchedule st) \<or> nIsInput (h p))" if y: "y \<in> Out" for y
  proof -
    have "y \<in> N" using y outs(2) by blast
    then have "y \<in> stands h (rep y)" using merged_stands[OF m] by simp
    moreover have "rep y \<in> set (ssGenerated st)" using y outs(1) st(3) by blast
    ultimately show ?thesis using gen insIn by blast
  qed
  show ?thesis
  proof (cases "foldR (\<lambda>i _. checkUnused h choice (ssGenerated st) i) mids ()")
    case (Inl e)
    then show ?thesis using st(1) unused_error[OF Inl] by (simp add: newSchedule_def)
  next
    case (Inr u)
    then show ?thesis using st(1) w cover by (simp add: newSchedule_def)
  qed
qed

end
