(* ===== verification/SchedulerProofs.thy ===== *)
theory SchedulerProofs
  imports ScheduleProofs
begin

text \<open>
  The scheduler as a whole: the operations that build the dependency graph and the rounds of
  \<open>generateSchedule\<close> keep it well formed, and each round that finds a schedule finds one whose tasks
  wait for what the chosen rules read.
\<close>

section \<open>Well-formed schedulers\<close>

text \<open>What the dependencies of a node say before a choice is applied.\<close>

definition originalOk :: "nat set \<Rightarrow> node \<Rightarrow> bool" where
  "originalOk N n = (depsOk (nOriginal n) \<and> keys (nOriginal n) \<subseteq> N \<and> nKind n = BasicNode)"

definition schedulerOk :: "(nat \<Rightarrow> nat) \<Rightarrow> scheduler \<Rightarrow> bool" where
  "schedulerOk addr s =
     (distinct (sAllNodes s) \<and> set (sAllNodes s) \<subseteq> addr ` {..<sAllocated s} \<and>
      (\<forall>e \<in> set (sMatrixToNodes s). set (snd e) \<subseteq> set (sAllNodes s)) \<and>
      (\<forall>n \<in> set (sAllNodes s). originalOk (set (sAllNodes s)) (sGraph s n)) \<and>
      (\<forall>n \<in> set (sInputs s). n \<in> set (sAllNodes s) \<and> nIsInput (sGraph s n)) \<and>
      (\<forall>n \<in> set (sOutputs s). n \<in> set (sAllNodes s) \<and> nIsOutput (sGraph s n)))"

lemma foldR_keeps:
  assumes "foldR f xs s = Inr s'" "P s" "\<And>x s s'. x \<in> set xs \<Longrightarrow> P s \<Longrightarrow> f x s = Inr s' \<Longrightarrow> P s'"
  shows "P s'"
  using assms
proof (induction xs arbitrary: s)
  case (Cons x xs)
  then obtain s1 where "f x s = Inr s1" "foldR f xs s1 = Inr s'" by (auto simp: rbind_Inr_iff)
  then show ?case using Cons.IH[of s1] Cons.prems(2,3) by (metis list.set_intros)
qed simp

lemma rassert_Inr_iff: "rassert b r = Inr y \<longleftrightarrow> b \<and> r = Inr y"
  by (simp add: rassert_def)

lemma oat_nodes:
  assumes "\<forall>e \<in> set xs. set (snd e) \<subseteq> N"
  shows "set (oat [] m xs) \<subseteq> N"
proof (cases "map_of xs m")
  case (Some ps)
  then have "(m, ps) \<in> set xs" by (rule map_of_SomeD)
  then have "set ps \<subseteq> N" using assms by (metis snd_conv)
  then show ?thesis using Some by (simp add: oat_def)
qed (simp add: oat_def)

subsection \<open>Building the graph\<close>

lemma originalOk_mono: "originalOk N n \<Longrightarrow> N \<subseteq> M \<Longrightarrow> originalOk M n"
  by (auto simp: originalOk_def)

lemma originalOk_basicNode [simp]: "originalOk N (basicNode r c)" "originalOk N ((basicNode r c)\<lparr>nIsInput := b\<rparr>)"
  by (simp_all add: originalOk_def basicNode_def)

lemma originalOk_output [simp]: "originalOk N (n\<lparr>nIsOutput := b\<rparr>) = originalOk N n"
  by (simp add: originalOk_def)

lemma newNode_ok:
  assumes s: "schedulerOk addr s" and addr: "inj addr" and nd: "\<And>N. originalOk N nd"
  shows "schedulerOk addr (newNode addr m nd s)"
proof -
  let ?p = "addr (sAllocated s)" and ?N = "set (sAllNodes s)" and ?s = "newNode addr m nd s"
  have p: "?p \<notin> ?N" using s fresh_addr[OF addr _ order_refl, of ?N] by (simp add: schedulerOk_def)
  have all: "sAllNodes ?s = sAllNodes s @ [?p]" and g: "sGraph ?s = (sGraph s)(?p := nd)"
    and other: "sInputs ?s = sInputs s" "sOutputs ?s = sOutputs s" "sAllocated ?s = Suc (sAllocated s)"
    by (simp_all add: newNode_def Let_def)
  have "set (snd e) \<subseteq> set (sAllNodes ?s)" if "e \<in> set (sMatrixToNodes ?s)" for e
  proof -
    have o: "set (oat [] m (sMatrixToNodes s)) \<subseteq> ?N"
      by (rule oat_nodes) (use s in \<open>simp add: schedulerOk_def\<close>)
    have "e = (m, oat [] m (sMatrixToNodes s) @ [?p]) \<or> e \<in> set (sMatrixToNodes s)"
      using that set_oset[of e m _ "sMatrixToNodes s"] by (simp add: newNode_def Let_def)
    then show ?thesis using s o unfolding all by (auto simp: schedulerOk_def)
  qed
  moreover have "originalOk (set (sAllNodes ?s)) (sGraph ?s n)" if "n \<in> set (sAllNodes ?s)" for n
  proof (cases "n = ?p")
    case False
    then have "originalOk ?N (sGraph s n)" using s that unfolding all by (auto simp: schedulerOk_def)
    then show ?thesis using False unfolding all g by (auto intro: originalOk_mono)
  qed (simp add: g nd)
  moreover have "distinct (sAllNodes ?s)" "set (sAllNodes ?s) \<subseteq> addr ` {..<sAllocated ?s}"
    using s p unfolding all other by (auto simp: schedulerOk_def)
  moreover have "\<forall>n \<in> set (sInputs ?s). n \<in> set (sAllNodes ?s) \<and> nIsInput (sGraph ?s n)"
    "\<forall>n \<in> set (sOutputs ?s). n \<in> set (sAllNodes ?s) \<and> nIsOutput (sGraph ?s n)"
    using s p unfolding all other g by (auto simp: schedulerOk_def)
  ultimately show ?thesis unfolding schedulerOk_def by blast
qed

lemma touch_matrix_ok:
  assumes "schedulerOk addr s"
  shows "schedulerOk addr (s\<lparr>sMatrixToNodes := oset m (oat [] m (sMatrixToNodes s)) (sMatrixToNodes s)\<rparr>)"
proof -
  have m: "\<forall>e \<in> set (sMatrixToNodes s). set (snd e) \<subseteq> set (sAllNodes s)"
    using assms by (simp add: schedulerOk_def)
  have "set (snd e) \<subseteq> set (sAllNodes s)"
    if "e \<in> set (oset m (oat [] m (sMatrixToNodes s)) (sMatrixToNodes s))" for e
    using set_oset[OF that] oat_nodes[OF m, of m] m by auto
  then show ?thesis using assms unfolding schedulerOk_def by simp
qed

lemma foldl_keeps:
  assumes "P s" "\<And>s x. x \<in> set xs \<Longrightarrow> P s \<Longrightarrow> P (f s x)"
  shows "P (foldl f s xs)"
  using assms by (induction xs arbitrary: s) auto

lemma newScheduler_ok: "inj addr \<Longrightarrow> schedulerOk addr (newScheduler addr cg)"
  unfolding newScheduler_def
proof (rule foldl_keeps, goal_cases)
  case 1
  then show ?case by (simp add: schedulerOk_def)
next
  case (2 s x)
  obtain m idx where x: "x = (m, idx)" by (cases x)
  show ?case unfolding x prod.case
    using 2 by (intro foldl_keeps[where P = "schedulerOk addr"] touch_matrix_ok) (auto intro: newNode_ok)
qed

lemma markInputMatrix_ok:
  assumes "schedulerOk addr s" "inj addr" "markInputMatrix addr m whole s = Inr s'"
  shows "schedulerOk addr s'"
proof -
  let ?s = "newNode addr m ((basicNode whole [])\<lparr>nIsInput := True\<rparr>) s"
  have ok: "schedulerOk addr ?s" by (rule newNode_ok[OF assms(1,2)]) simp
  have s': "s' = ?s\<lparr>sInputs := oinsert (addr (sAllocated s)) (sInputs ?s)\<rparr>"
    using assms(3) by (simp add: markInputMatrix_def Let_def rassert_Inr_iff)
  have "addr (sAllocated s) \<in> set (sAllNodes ?s)" "nIsInput (sGraph ?s (addr (sAllocated s)))"
    by (simp_all add: newNode_def Let_def)
  then show ?thesis using ok unfolding s' schedulerOk_def by simp
qed

lemma markOutputMatrix_ok:
  assumes "schedulerOk addr s" "markOutputMatrix m s = Inr s'"
  shows "schedulerOk addr s'"
proof -
  let ?f = "\<lambda>s p. s\<lparr>sOutputs := oinsert p (sOutputs s),
      sGraph := (sGraph s)(p := (sGraph s p)\<lparr>nIsOutput := True\<rparr>)\<rparr>"
  have s': "s' = foldl ?f s (oat [] m (sMatrixToNodes s))"
    using assms(2) by (simp add: markOutputMatrix_def Let_def rassert_Inr_iff)
  have nodes: "set (oat [] m (sMatrixToNodes s)) \<subseteq> set (sAllNodes s)"
    by (rule oat_nodes) (use assms(1) in \<open>simp add: schedulerOk_def\<close>)
  have "schedulerOk addr s' \<and> sAllNodes s' = sAllNodes s"
    unfolding s'
  proof (rule foldl_keeps, goal_cases)
    case (2 t p)
    then have "p \<in> set (sAllNodes s)" and eq: "sAllNodes t = sAllNodes s" using nodes by auto
    then show ?case using 2 unfolding schedulerOk_def by (simp add: eq)
  qed (use assms(1) in simp)
  then show ?thesis by simp
qed

subsection \<open>Collecting dependencies\<close>

lemma lookupLoop_sub: "lookupLoop maxima g r ps rv = Inr ns \<Longrightarrow> set ns \<subseteq> set rv \<union> set ps"
proof (induction ps arbitrary: rv)
  case (Cons p ps)
  show ?case
  proof (cases "r = nRegion (g p)")
    case True
    then show ?thesis using Cons.prems by auto
  next
    case False
    then obtain b where "lookupLoop maxima g r ps (if b then oinsert p rv else rv) = Inr ns"
      using Cons.prems by (auto simp: rbind_Inr_iff)
    from Cons.IH[OF this] show ?thesis by (auto split: if_splits)
  qed
qed simp

lemma lookupNode_sub:
  assumes "schedulerOk addr s" "lookupNode maxima nd s m r = Inr ns"
  shows "set ns \<subseteq> set (sAllNodes s)"
proof -
  have "set (oat [] m (sMatrixToNodes s)) \<subseteq> set (sAllNodes s)"
    by (rule oat_nodes) (use assms(1) in \<open>simp add: schedulerOk_def\<close>)
  moreover have "set ns \<subseteq> set (oat [] m (sMatrixToNodes s))"
  proof (cases "nd m = 0")
    case True
    then show ?thesis using assms(2)
      by (cases "oat [] m (sMatrixToNodes s)") (auto simp: lookupNode_def Let_def rassert_Inr_iff rbind_Inr_iff)
  next
    case False
    then show ?thesis using assms(2) lookupLoop_sub[of maxima "sGraph s" r _ "[]" ns]
      by (auto simp: lookupNode_def Let_def rbind_Inr_iff rassert_Inr_iff)
  qed
  ultimately show ?thesis by blast
qed

lemma infoOk_add:
  assumes "infoOk d \<or> d = emptyInfo" "dirOk dir"
  shows "infoOk \<lparr>diRules = oinsert r (diRules d), diDirection = dd_merge (diDirection d) dir\<rparr>"
proof -
  have "set (oinsert r (diRules d)) \<noteq> {}" by simp
  then have "oinsert r (diRules d) \<noteq> []" by fastforce
  moreover have "osorted (oinsert r (diRules d))" "dirOk (dd_merge (diDirection d) dir)"
    using assms by (auto simp: infoOk_def emptyInfo_def dirOk_merge)
  ultimately show ?thesis by (simp add: infoOk_def)
qed

text \<open>The graph of a well-formed scheduler with other dependencies.\<close>

definition graphFor :: "scheduler \<Rightarrow> graph \<Rightarrow> bool" where
  "graphFor s g = (\<forall>n \<in> set (sAllNodes s). originalOk (set (sAllNodes s)) (g n) \<and>
     nIsInput (g n) = nIsInput (sGraph s n) \<and> nIsOutput (g n) = nIsOutput (sGraph s n))"

lemma graphFor_self: "schedulerOk addr s \<Longrightarrow> graphFor s (sGraph s)"
  by (simp add: graphFor_def schedulerOk_def)

lemma graphFor_ok: "schedulerOk addr s \<Longrightarrow> graphFor s g \<Longrightarrow> schedulerOk addr (s\<lparr>sGraph := g\<rparr>)"
  unfolding graphFor_def schedulerOk_def by simp

lemma addDependency_for:
  assumes "graphFor s g" "addDependency a b r dir g = Inr g'" "dirOk dir"
    and "a \<in> set (sAllNodes s)" "b \<in> set (sAllNodes s)"
  shows "graphFor s g'"
proof -
  let ?d = "oat emptyInfo b (nOriginal (g a))"
  let ?new = "\<lparr>diRules = oinsert r (diRules ?d), diDirection = dd_merge (diDirection ?d) dir\<rparr>"
  have o: "depsOk (nOriginal (g a))" "keys (nOriginal (g a)) \<subseteq> set (sAllNodes s)"
    using assms(1,4) by (auto simp: graphFor_def originalOk_def)
  have "infoOk ?d \<or> ?d = emptyInfo"
    using depsOk_info[OF o(1)] by (auto simp: oat_def split: option.split)
  then have new: "infoOk ?new" using assms(3) by (rule infoOk_add)
  have g': "g' = g(a := (g a)\<lparr>nOriginal := oset b ?new (nOriginal (g a))\<rparr>)"
    using assms(2) by (simp add: addDependency_def rassert_Inr_iff Let_def)
  have "originalOk (set (sAllNodes s)) (g' a)"
    using assms(1,4,5) o new unfolding g' by (auto simp: originalOk_def graphFor_def)
  then show ?thesis using assms(1) unfolding g' by (auto simp: graphFor_def)
qed

lemma addDependencies_for:
  assumes "graphFor s g" "foldR (\<lambda>a. foldR (f a) bs) as g = Inr g'" "set as \<subseteq> set (sAllNodes s)"
    "set bs \<subseteq> set (sAllNodes s)"
    and f: "\<And>a b g g'. f a b g = Inr g' \<Longrightarrow> g' = g \<or> (\<exists>r dir. dirOk dir \<and> addDependency a b r dir g = Inr g')"
  shows "graphFor s g'"
proof (rule foldR_keeps[where P = "graphFor s", OF assms(2,1)])
  fix a g g' assume a: "a \<in> set as" "graphFor s g" "foldR (f a) bs g = Inr g'"
  show "graphFor s g'"
  proof (rule foldR_keeps[where P = "graphFor s", OF a(3,2)])
    fix b g g' assume b: "b \<in> set bs" "graphFor s g" "f a b g = Inr g'"
    from f[OF b(3)] show "graphFor s g'"
      using b(1,2) a(1) assms(3,4) addDependency_for[of s g a b _ _ g'] by blast
  qed
qed

lemma collectStep_ok:
  assumes s: "schedulerOk addr s" and as: "set as \<subseteq> set (sAllNodes s)"
    and r: "rbind (lookupNode maxima nd s m r) (\<lambda>bs. rmap (\<lambda>g. s\<lparr>sGraph := g\<rparr>)
        (foldR (\<lambda>a. foldR (f a) bs) as (sGraph s))) = Inr s'"
    and f: "\<And>a b g g'. f a b g = Inr g' \<Longrightarrow> g' = g \<or> (\<exists>r dir. dirOk dir \<and> addDependency a b r dir g = Inr g')"
  shows "schedulerOk addr s' \<and> sAllNodes s' = sAllNodes s"
proof -
  obtain bs g where bs: "lookupNode maxima nd s m r = Inr bs"
    and g: "foldR (\<lambda>a. foldR (f a) bs) as (sGraph s) = Inr g" and s': "s' = s\<lparr>sGraph := g\<rparr>"
    using r by (auto simp: rbind_Inr_iff rmap_Inr_iff)
  have "graphFor s g"
    by (rule addDependencies_for[OF graphFor_self[OF s] g as lookupNode_sub[OF s bs] f])
  then show ?thesis unfolding s' using graphFor_ok[OF s] by simp
qed

lemma dirOk_multi: "dirOk (dd_new k D_MULTIOUTPUT)"
  by (auto simp: dirOk_def dd_new_def direction_defs)

lemma collectDependencies_ok:
  assumes s: "schedulerOk addr s" and d: "\<forall>(m, dir, r) \<in> set (urDepends ur). dirOk dir"
    and r: "collectDependencies maxima nd ur s = Inr s'"
  shows "schedulerOk addr s'"
  using r unfolding collectDependencies_def
proof (rule foldR_keeps[where P = "schedulerOk addr"])
  fix i t t'
  assume t: "schedulerOk addr t"
    and run: "(case urProvides ur ! i of (m, dir, r) \<Rightarrow>
        rbind (lookupNode maxima nd t m r) (\<lambda>pNode.
        rbind (foldR (collectDepends maxima nd ur pNode) (urDepends ur) t)
          (foldR (collectOutputs maxima nd ur pNode)
            (map (\<lambda>j. urProvides ur ! j) (filter (\<lambda>j. j \<noteq> i) [0..<length (urProvides ur)]))))) = Inr t'"
  obtain m dir reg where p: "urProvides ur ! i = (m, dir, reg)" by (metis prod_cases3)
  let ?outs = "map (\<lambda>j. urProvides ur ! j) (filter (\<lambda>j. j \<noteq> i) [0..<length (urProvides ur)])"
  obtain pNode t1 where pn: "lookupNode maxima nd t m reg = Inr pNode"
    and t1: "foldR (collectDepends maxima nd ur pNode) (urDepends ur) t = Inr t1"
    and t2: "foldR (collectOutputs maxima nd ur pNode) ?outs t1 = Inr t'"
    using run unfolding p prod.case rbind_Inr_iff by blast
  have pN: "set pNode \<subseteq> set (sAllNodes t)" by (rule lookupNode_sub[OF t pn])
  have 1: "schedulerOk addr t1 \<and> sAllNodes t1 = sAllNodes t"
  proof (rule foldR_keeps[where P = "\<lambda>u. schedulerOk addr u \<and> sAllNodes u = sAllNodes t", OF t1])
    fix e u u' assume e: "e \<in> set (urDepends ur)" and u: "schedulerOk addr u \<and> sAllNodes u = sAllNodes t"
      and step: "collectDepends maxima nd ur pNode e u = Inr u'"
    obtain k kd kr where ek: "e = (k, kd, kr)" by (cases e)
    have kd: "dirOk kd" using d e ek by auto
    have "g' = g \<or> (\<exists>r dir. dirOk dir \<and> addDependency a b r dir g = Inr g')"
      if "addPossible maxima (urRule ur) kd a b g = Inr g'" for a b g g'
      using that kd by (auto simp: addPossible_def rbind_Inr_iff split: if_splits)
    then have "schedulerOk addr u' \<and> sAllNodes u' = sAllNodes u"
      using step u pN unfolding collectDepends_def ek prod.case
      by (intro collectStep_ok[where as = pNode and f = "addPossible maxima (urRule ur) kd"]) auto
    then show "schedulerOk addr u' \<and> sAllNodes u' = sAllNodes t" using u by simp
  qed (use t in simp)
  have "schedulerOk addr t' \<and> sAllNodes t' = sAllNodes t"
  proof (rule foldR_keeps[where P = "\<lambda>u. schedulerOk addr u \<and> sAllNodes u = sAllNodes t", OF t2])
    fix e u u' assume e: "e \<in> set ?outs" and u: "schedulerOk addr u \<and> sAllNodes u = sAllNodes t"
      and step: "collectOutputs maxima nd ur pNode e u = Inr u'"
    obtain k kd kr where ek: "e = (k, kd, kr)" by (cases e)
    have "schedulerOk addr u' \<and> sAllNodes u' = sAllNodes u"
      using step u pN unfolding collectOutputs_def ek prod.case
      by (intro collectStep_ok[where as = pNode and f = "\<lambda>a b. addDependency a b (urRule ur)
            (dd_new (max 1 (urDimensions ur)) D_MULTIOUTPUT)"]) (auto intro: dirOk_multi)
    then show "schedulerOk addr u' \<and> sAllNodes u' = sAllNodes t" using u by simp
  qed (use 1 in simp)
  then show "schedulerOk addr t'" by simp
qed (rule s)

section \<open>A round of the scheduler\<close>

text \<open>What the passes over the regions must leave alone.\<close>

definition keepsDeps :: "(graph \<Rightarrow> graph) \<Rightarrow> bool" where
  "keepsDeps pass = (\<forall>g n. shape (pass g n) = shape (g n) \<and> nIndirect (pass g n) = nIndirect (g n))"

lemma shape_indirect: "shape (n\<lparr>nIndirect := m\<rparr>) = shape n"
  by (simp add: shape_def)

lemma dirOk_trim: "dirOk d \<Longrightarrow> dirOk (trimDependency toSize r d)"
  by (auto simp: trimDependency_def removeMultioutput_def dirOk_def split: option.split)

lemma chosen_deps:
  assumes "\<forall>(k, d) \<in> set xs. infoOk d" "depsOk m"
  shows "depsOk (foldl (\<lambda>m (k, d). if info_contains d r
      then oset k (d\<lparr>diDirection := trimDependency toSize r (diDirection d)\<rparr>) m else m) m xs) \<and>
    keys (foldl (\<lambda>m (k, d). if info_contains d r
      then oset k (d\<lparr>diDirection := trimDependency toSize r (diDirection d)\<rparr>) m else m) m xs) \<subseteq> keys m \<union> keys xs"
  using assms
proof (induction xs arbitrary: m)
  case (Cons x xs)
  obtain k d where x: "x = (k, d)" by (cases x)
  let ?m = "if info_contains d r
      then oset k (d\<lparr>diDirection := trimDependency toSize r (diDirection d)\<rparr>) m else m"
  have "infoOk (d\<lparr>diDirection := trimDependency toSize r (diDirection d)\<rparr>)"
    using Cons.prems(1) x by (simp add: infoOk_def dirOk_trim)
  then have "depsOk ?m" using Cons.prems(2) by auto
  note ih = Cons.IH[OF _ this]
  have "keys ?m \<subseteq> insert k (keys m)" by auto
  then have "keys ?m \<union> keys xs \<subseteq> keys m \<union> keys (x # xs)" unfolding x by auto
  moreover have "\<forall>(k, d) \<in> set xs. infoOk d" using Cons.prems(1) by simp
  ultimately show ?case using ih unfolding foldl_Cons x prod.case by (meson subset_trans)
qed simp

text \<open>A graph whose dependencies are those of a choice, before the transitive ones are computed.\<close>

definition chosen :: "scheduler \<Rightarrow> graph \<Rightarrow> bool" where
  "chosen s g = (graphFor s g \<and> (\<forall>n \<in> set (sAllNodes s). nIndirect (g n) = [] \<and>
     depsOk (nRemapped (g n)) \<and> keys (nRemapped (g n)) \<subseteq> set (sAllNodes s)))"

lemma reset_at:
  "distinct ns \<Longrightarrow> foldl (\<lambda>g n. g(n := resetRemapping (g n))) g ns n =
     (if n \<in> set ns then resetRemapping (g n) else g n)"
  by (induction ns arbitrary: g) auto

lemma chosen_reset:
  assumes "schedulerOk addr s"
  shows "chosen s (foldl (\<lambda>g n. g(n := resetRemapping (g n))) (sGraph s) (sAllNodes s))"
proof -
  have "foldl (\<lambda>g n. g(n := resetRemapping (g n))) (sGraph s) (sAllNodes s) n = resetRemapping (sGraph s n)"
    if "n \<in> set (sAllNodes s)" for n using assms that by (simp add: reset_at schedulerOk_def)
  then show ?thesis using graphFor_self[OF assms]
    unfolding chosen_def graphFor_def by (simp add: resetRemapping_def originalOk_def)
qed

lemma applyChoice_chosen:
  assumes c: "chosen s g" and n: "n \<in> set (sAllNodes s)"
    and r: "applyChoiceRemapping toSize choice n g = Inr g'"
  shows "chosen s g'"
proof (cases "g' = g")
  case False
  then obtain ru where "map_of choice n = Some (Some ru)" and
    g': "g' = g(n := (g n)\<lparr>nRemapped := foldl (\<lambda>m (k, d). if info_contains d ru
         then oset k (d\<lparr>diDirection := trimDependency toSize ru (diDirection d)\<rparr>) m else m)
       [] (nOriginal (g n))\<rparr>)"
    using r by (auto simp: applyChoiceRemapping_def rassert_Inr_iff split: option.splits if_splits)
  have o: "originalOk (set (sAllNodes s)) (g n)" using c n by (simp add: chosen_def graphFor_def)
  then have "\<forall>(k, d) \<in> set (nOriginal (g n)). infoOk d" by (simp add: originalOk_def depsOk_def)
  note new = chosen_deps[OF this depsOk_Nil, of ru toSize]
  have "nIndirect (g' n) = []" using c n unfolding g' by (simp add: chosen_def)
  moreover have "depsOk (nRemapped (g' n))" using new unfolding g' by simp
  moreover have "keys (nRemapped (g' n)) \<subseteq> set (sAllNodes s)"
    using subset_trans[OF conjunct2[OF new]] o unfolding g' by (simp add: originalOk_def)
  moreover have "originalOk (set (sAllNodes s)) (g' n)" using o unfolding g' by (simp add: originalOk_def)
  moreover have "g' k = g k" if "k \<noteq> n" for k using that unfolding g' by simp
  moreover have "nIsInput (g' n) = nIsInput (g n)" "nIsOutput (g' n) = nIsOutput (g n)" unfolding g' by simp_all
  ultimately show ?thesis using c unfolding chosen_def graphFor_def by metis
qed (use c in simp)

lemma complete_cong:
  assumes "\<And>n. nOriginal (h n) = nOriginal (g n)" "\<And>n. nRemapped (h n) = nRemapped (g n)"
    "\<And>n. nIndirect (h n) = nIndirect (g n)"
  shows "complete N h = complete N g"
proof -
  have d: "directDepends (h n) = directDepends (g n)" for n by (simp add: directDepends_def assms)
  then have "depEdge h = depEdge g" by (simp add: depEdge_def)
  then have "needs h = needs g" by (simp add: needs_def directAtoms_def d fun_eq_iff)
  then show ?thesis by (simp add: complete_def graphOk_def closedIn_def indirectAtoms_def assms d)
qed

lemma chooseDependencies_complete:
  assumes s: "schedulerOk addr s" and pass: "keepsDeps pass"
  shows "case chooseDependencies pass toSize choice s of
      Inl e \<Rightarrow> e \<noteq> Diverges
    | Inr s' \<Rightarrow> (\<exists>g. s' = s\<lparr>sGraph := g\<rparr>) \<and> schedulerOk addr s' \<and>
        complete (set (sAllNodes s)) (sGraph s')"
proof -
  let ?N = "set (sAllNodes s)"
  let ?g0 = "foldl (\<lambda>g n. g(n := resetRemapping (g n))) (sGraph s) (sAllNodes s)"
  show ?thesis
  proof (cases "foldR (applyChoiceRemapping toSize choice) (sAllNodes s) ?g0")
    case (Inl e)
    have "foldR (applyChoiceRemapping toSize choice) ns g \<noteq> Inl Diverges" for ns g
    proof (induction ns arbitrary: g)
      case (Cons n ns)
      have "applyChoiceRemapping toSize choice n g \<noteq> Inl Diverges"
        by (auto simp: applyChoiceRemapping_def rassert_def split: option.split)
      then show ?case using Cons.IH by (auto simp: rbind_def split: sum.split)
    qed simp
    then have "e \<noteq> Diverges" using Inl by metis
    then show ?thesis using Inl by (simp add: chooseDependencies_def)
  next
    case (Inr g1)
    have c: "chosen s g1"
      by (rule foldR_keeps[where P = "chosen s", OF Inr chosen_reset[OF s]]) (rule applyChoice_chosen)
    then have "graphOk ?N g1" "closedIn ?N g1" "\<forall>n \<in> ?N. nIndirect (g1 n) = []"
      by (auto simp: chosen_def graphFor_def originalOk_def graphOk_def closedIn_def directDepends_def)
    from closure_complete[OF this] obtain g2 where g2: "computeIndirectDependencies (sAllNodes s) g1 = Some g2"
      "towards ?N g1 g2" "complete ?N g2" by blast
    have run: "chooseDependencies pass toSize choice s = Inr (s\<lparr>sGraph := pass g2\<rparr>)"
      using Inr g2(1) by (simp add: chooseDependencies_def)
    have sh: "shape (pass g2 n) = shape (g2 n)" "nIndirect (pass g2 n) = nIndirect (g2 n)" for n
      using pass by (simp_all add: keepsDeps_def)
    have "complete ?N (pass g2)" using complete_cong[of "pass g2" g2] sh g2(3) by (simp add: shape_def)
    moreover have "graphFor s (pass g2)"
    proof -
      have "\<exists>m. g2 n = (g1 n)\<lparr>nIndirect := m\<rparr>" for n
        using g2(2) unfolding towards_def by blast
      then have "shape (g2 n) = shape (g1 n)" for n by (metis shape_indirect)
      then have "shape (pass g2 n) = shape (g1 n)" for n using sh(1) by simp
      then show ?thesis using c by (auto simp: chosen_def graphFor_def originalOk_def shape_def)
    qed
    ultimately show ?thesis using run graphFor_ok[OF s] by auto
  qed
qed

lemma mergedRound:
  assumes s: "schedulerOk addr s" and addr: "inj addr" and c: "complete (set (sAllNodes s)) (sGraph s)"
    and r: "mergeCoscheduledNodes addr choice s = Inr (s', ins, mids, outs)"
  shows "schedulerOk addr s' \<and>
    (case newSchedule (Suc (length (sAllNodes s') + length (sMetaNodes s'))) (sGraph s') choice ins mids outs of
      Inl e \<Rightarrow> e = OutOfBounds \<or> e = CantSchedule
    | Inr sched \<Rightarrow> waitsForAll (sGraph s) (sGraph s') sched \<and>
        (\<forall>y \<in> set (sOutputs s). \<exists>p. y \<in> stands (sGraph s') p \<and>
           (p \<in> seNode ` set sched \<or> nIsInput (sGraph s' p))))"
proof -
  let ?N = "set (sAllNodes s)"
  have d: "distinct (sAllNodes s)" "?N \<subseteq> addr ` {..<sAllocated s}" "\<forall>x \<in> ?N. nKind (sGraph s x) = BasicNode"
    and io: "set (sInputs s) \<subseteq> ?N" "\<forall>x \<in> set (sInputs s). nIsInput (sGraph s x)"
      "set (sOutputs s) \<subseteq> ?N" "\<forall>x \<in> set (sOutputs s). nIsOutput (sGraph s x)"
    using s by (auto simp: schedulerOk_def originalOk_def)
  from merge_spec[OF r c d(1) addr d(2,3)] obtain rep h a ms where
    m: "mergedInto ?N (sGraph s) rep h" and nodes: "rep ` ?N \<subseteq> ?N \<union> set ms"
    and sets: "set ins = rep ` set (sInputs s)" "set outs = rep ` set (sOutputs s)"
    and s': "s' = s\<lparr>sGraph := h, sAllocated := a, sMetaNodes := ms\<rparr>" "sAllocated s \<le> a"
    and h: "\<forall>x \<in> ?N. \<exists>d. shape (h x) = shape ((sGraph s x)\<lparr>nRemapped := d\<rparr>)" by auto
  have cl: "closedIn ?N (sGraph s)" using c by (simp add: complete_def)
  have "card (rep ` ?N) \<le> card (?N \<union> set ms)" using nodes by (intro card_mono) auto
  also have "\<dots> \<le> card ?N + card (set ms)" by (rule card_Un_le)
  also have "\<dots> \<le> length (sAllNodes s) + length ms" by (intro add_mono card_length)
  finally have fuel: "card (rep ` ?N) < Suc (length (sAllNodes s') + length (sMetaNodes s'))"
    unfolding s' by simp
  have "graphFor s h"
    unfolding graphFor_def
  proof (intro ballI)
    fix n assume n: "n \<in> ?N"
    then obtain d where "shape (h n) = shape ((sGraph s n)\<lparr>nRemapped := d\<rparr>)" using h by blast
    moreover have "originalOk ?N (sGraph s n)" using s n by (simp add: schedulerOk_def)
    ultimately show "originalOk ?N (h n) \<and> nIsInput (h n) = nIsInput (sGraph s n) \<and>
        nIsOutput (h n) = nIsOutput (sGraph s n)"
      by (simp add: shape_def originalOk_def)
  qed
  then have "schedulerOk addr (s\<lparr>sGraph := h\<rparr>)" by (rule graphFor_ok[OF s])
  moreover have "addr ` {..<sAllocated s} \<subseteq> addr ` {..<a}" using s'(2) by (intro image_mono) simp
  ultimately have "schedulerOk addr s'" unfolding s' schedulerOk_def by auto
  moreover have hh: "sGraph s' = h" unfolding s' by simp
  ultimately show ?thesis
    using newSchedule_waits[OF m cl finite_set sets(1) io(1,2) sets(2) io(3,4) fuel] unfolding hh by blast
qed

lemma tryChoice_ok:
  assumes s: "schedulerOk addr s" and addr: "inj addr" and pass: "keepsDeps pass"
    and r: "tryChoice addr pass toSize i (s, rc, scheds) = Inr (s', rc', scheds')"
  shows "schedulerOk addr s'"
proof -
  obtain choice s1 where s1: "chooseDependencies pass toSize choice s = Inr s1" and
    r1: "(case scheduleChoice addr choice s1 of
         Inl e \<Rightarrow> (if e = CantSchedule then Inr (s1, markInvalid i rc, scheds) else Inl e)
       | Inr (s', sched) \<Rightarrow> Inr (s', rc, scheds @ [sched])) = Inr (s', rc', scheds')"
    using r unfolding tryChoice_def prod.case rbind_Inr_iff by blast
  have ok: "schedulerOk addr s1" "complete (set (sAllNodes s1)) (sGraph s1)"
    using chooseDependencies_complete[OF s pass, of toSize choice] s1 by auto
  show ?thesis
  proof (cases "scheduleChoice addr choice s1")
    case (Inl e)
    then show ?thesis using r1 ok by (auto split: if_splits)
  next
    case (Inr p)
    obtain s2 sched where p: "p = (s2, sched)" by (cases p)
    then obtain ins mids outs where "mergeCoscheduledNodes addr choice s1 = Inr (s2, ins, mids, outs)"
      using Inr by (auto simp: scheduleChoice_def rbind_Inr_iff rmap_Inr_iff)
    from mergedRound[OF ok(1) addr ok(2) this] show ?thesis using r1 Inr p by simp
  qed
qed

section \<open>The life of a scheduler\<close>

text \<open>The schedulers that a transform builds: from the choice grid, by marking matrices and collecting
  the dependencies of its rules, and then by generating the schedules.\<close>

inductive built :: "(nat \<Rightarrow> nat) \<Rightarrow> maxima \<Rightarrow> (matrix \<Rightarrow> nat) \<Rightarrow> (graph \<Rightarrow> graph) \<Rightarrow>
    (ruleT \<Rightarrow> nat option) \<Rightarrow> scheduler \<Rightarrow> bool"
  for addr maxima numDimensions pass toSize where
  built_new: "built addr maxima numDimensions pass toSize (newScheduler addr cg)"
| built_input: "built addr maxima numDimensions pass toSize s \<Longrightarrow> markInputMatrix addr m whole s = Inr s' \<Longrightarrow>
    built addr maxima numDimensions pass toSize s'"
| built_output: "built addr maxima numDimensions pass toSize s \<Longrightarrow> markOutputMatrix m s = Inr s' \<Longrightarrow>
    built addr maxima numDimensions pass toSize s'"
| built_rule: "built addr maxima numDimensions pass toSize s \<Longrightarrow> \<forall>(m, dir, r) \<in> set (urDepends ur). dirOk dir \<Longrightarrow>
    collectDependencies maxima numDimensions ur s = Inr s' \<Longrightarrow>
    built addr maxima numDimensions pass toSize s'"
| built_schedule: "built addr maxima numDimensions pass toSize s \<Longrightarrow>
    generateSchedule addr pass toSize s = Inr (s', rc, scheds) \<Longrightarrow>
    built addr maxima numDimensions pass toSize s'"

lemma generateSchedule_ok:
  assumes s: "schedulerOk addr s" and addr: "inj addr" and pass: "keepsDeps pass"
    and r: "generateSchedule addr pass toSize s = Inr (s', rc, scheds)"
  shows "schedulerOk addr s'"
proof -
  define s1 where "s1 = s\<lparr>sIntermediates := foldl (\<lambda>m n. if \<not> nIsInput (sGraph s n) \<and> \<not> nIsOutput (sGraph s n)
            then oinsert n m else m) (sIntermediates s) (sAllNodes s)\<rparr>"
  have ok: "schedulerOk addr s1" using s by (simp add: s1_def schedulerOk_def)
  obtain idx rc0 where run: "foldR (tryChoice addr pass toSize) idx (s1, rc0, []) = Inr (s', rc, scheds)"
    using r unfolding generateSchedule_def Let_def s1_def[symmetric]
    by (auto simp: rassert_Inr_iff rbind_Inr_iff)
  have "schedulerOk addr (fst (s', rc, scheds))"
  proof (rule foldR_keeps[where P = "\<lambda>x. schedulerOk addr (fst x)", OF run])
    fix i x x' assume "schedulerOk addr (fst x)" "tryChoice addr pass toSize i x = Inr x'"
    then show "schedulerOk addr (fst x')"
      using tryChoice_ok[OF _ addr pass, of "fst x" toSize i "fst (snd x)" "snd (snd x)"] by (cases x'; cases x) auto
  qed (use ok in simp)
  then show ?thesis by simp
qed

lemma built_ok:
  assumes "inj addr" "keepsDeps pass" "built addr maxima numDimensions pass toSize s"
  shows "schedulerOk addr s"
  using assms(3)
proof (induction rule: built.induct)
  case (built_new cg)
  show ?case by (rule newScheduler_ok[OF assms(1)])
next
  case (built_input s m whole s')
  then show ?case using markInputMatrix_ok[OF _ assms(1)] by blast
next
  case (built_output s m s')
  then show ?case using markOutputMatrix_ok by blast
next
  case (built_rule s ur s')
  then show ?case using collectDependencies_ok by blast
next
  case (built_schedule s s' rc scheds)
  then show ?case using generateSchedule_ok[OF _ assms(1,2)] by blast
qed

text \<open>C38: Every scheduler that is built from a choice grid, by marking input and output matrices, by
  collecting the dependencies of rules and by generating schedules is well formed: its nodes are
  distinct and were allocated, the nodes of each matrix are among them, dependencies lead to nodes, each
  names at least one rule and has masks of directions, and inputs and outputs are marked.\<close>

theorem scheduler_wellformed:
  assumes "inj addr" "keepsDeps pass" "built addr maxima numDimensions pass toSize s"
  shows "schedulerOk addr s"
  by (rule built_ok[OF assms])

text \<open>C36: On a graph whose dependencies lead to nodes of the graph, the rounds of
  \<open>computeIndirectDependencies\<close> end, the direct dependencies stay as they are, and each node ends with
  exactly what it needs: the rules, the dimensions and the directions of all dependencies of the nodes
  that it can reach.\<close>

theorem indirect_dependencies_complete:
  assumes "graphOk (set nodes) g" "closedIn (set nodes) g" "\<forall>n \<in> set nodes. nIndirect (g n) = []"
  shows "\<exists>g'. computeIndirectDependencies nodes g = Some g' \<and>
    (\<forall>n. directDepends (g' n) = directDepends (g n)) \<and>
    (\<forall>n \<in> set nodes. depsAtoms (nIndirect (g' n)) =
       (\<Union>m \<in> {m. (n, m) \<in> (depEdge g)\<^sup>*}. depsAtoms (directDepends (g m))))"
proof -
  obtain g' where g': "computeIndirectDependencies nodes g = Some g'" "towards (set nodes) g g'"
    "complete (set nodes) g'" using closure_complete[OF assms] by blast
  then show ?thesis
    using towards_direct[OF g'(2)] towards_needs[OF g'(2)]
    by (auto simp: complete_def indirectAtoms_def needs_def directAtoms_def)
qed

text \<open>C37: In a well-formed scheduler whose transitive dependencies have been computed for a choice, the
  nodes that \<open>getStronglyConnectedComponent\<close> returns for a node are this node and those that it reaches
  and that reach it.\<close>

theorem component_is_mutual_reachability:
  assumes "schedulerOk addr s" "keepsDeps pass" "chooseDependencies pass toSize choice s = Inr s'"
    and "n \<in> set (sAllNodes s)"
  shows "set (getStronglyConnectedComponent n (sGraph s')) =
    {k. k = n \<or> (n, k) \<in> (depEdge (sGraph s'))\<^sup>+ \<and> (k, n) \<in> (depEdge (sGraph s'))\<^sup>+}"
proof -
  have "complete (set (sAllNodes s)) (sGraph s')"
    using chooseDependencies_complete[OF assms(1,2), of toSize choice] assms(3) by auto
  from scc_together(1)[OF this assms(4)] show ?thesis by (auto simp: together_def)
qed


end
