(* ===== verification/SchedulerExamples.thy ===== *)
theory SchedulerExamples
  imports SchedulerProofs
begin

text \<open>
  A transform with an output B and an intermediate C that are computed from each other; and a transform whose two matrices read each other in opposite directions.
\<close>

section \<open>Two matrices computed together\<close>

definition exWhole :: simpleRegion where
  "exWhole = [(''0'', ''n'')]"

definition exRule :: "nat \<Rightarrow> ruleT" where
  "exRule i = Rule 0 False i"

definition exMaxima :: maxima where
  "exMaxima a op b = UNKNOWN"

definition exB :: userRule where
  "exB = \<lparr>urRule = exRule 1, urDimensions = 1, urProvides = [(1, [D_EQ], exWhole)],
     urDepends = [(2, [D_LT], exWhole)]\<rparr>"

definition exC :: userRule where
  "exC = \<lparr>urRule = exRule 2, urDimensions = 1, urProvides = [(2, [D_EQ], exWhole)],
     urDepends = [(1, [D_LT], exWhole)]\<rparr>"

definition exNew :: scheduler where
  "exNew = newScheduler (\<lambda>i. i) [(1, [(exWhole, [exRule 1])]), (2, [(exWhole, [exRule 2])])]"

definition exBuild :: "scheduler res" where
  "exBuild = rbind (markOutputMatrix 1 exNew) (\<lambda>s. rbind (collectDependencies exMaxima (\<lambda>_. 1) exB s)
     (collectDependencies exMaxima (\<lambda>_. 1) exC))"

definition exChoice :: assignment where
  "exChoice = [(0, Some (exRule 1)), (1, Some (exRule 2))]"

text \<open>The stages of a round at this choice: B and C, the nodes 0 and 1, are merged into the node 2.\<close>

definition exS0 :: scheduler where
  "exS0 = projr exBuild"

definition exS1 :: scheduler where
  "exS1 = projr (chooseDependencies (\<lambda>g. g) (\<lambda>_. Some 1) exChoice exS0)"

definition exG :: graph where
  "exG = sGraph exS1"

lemma Inr_projr: "\<not> isl x \<Longrightarrow> x = Inr (projr x)"
  by simp

lemma exBuild: "exBuild = Inr exS0"
  unfolding exS0_def by (rule Inr_projr) code_simp

lemma exChosen: "chooseDependencies (\<lambda>g. g) (\<lambda>_. Some 1) exChoice exS0 = Inr exS1"
  unfolding exS1_def by (rule Inr_projr) code_simp

definition exFrom :: "nat \<Rightarrow> depInfo" where
  "exFrom i = \<lparr>diRules = [exRule i], diDirection = [D_LT]\<rparr>"


lemma exNodes:
  "exG 0 = \<lparr>nKind = BasicNode, nOriginals = [], nRegion = exWhole, nChoices = [exRule 1], nIsInput = False,
     nIsOutput = True, nOriginal = [(1, exFrom 1)], nRemapped = [(1, exFrom 1)],
     nIndirect = [(0, exFrom 2), (1, exFrom 1)], nDimension = -1, nForward = True, nBegin = [], nEnd = []\<rparr>"
  "exG 1 = \<lparr>nKind = BasicNode, nOriginals = [], nRegion = exWhole, nChoices = [exRule 2], nIsInput = False,
     nIsOutput = False, nOriginal = [(0, exFrom 2)], nRemapped = [(0, exFrom 2)],
     nIndirect = [(0, exFrom 2), (1, exFrom 1)], nDimension = -1, nForward = True, nBegin = [], nEnd = []\<rparr>"
  by code_simp+



lemma exComponents:
  "getMultioutputComponent 0 exG = [0]" "getStronglyConnectedComponent 0 exG = [0, 1]"
  by (simp_all add: getMultioutputComponent_def getStronglyConnectedComponent_def exNodes exFrom_def
      isMultioutput_def direction_defs directDepends_def del: One_nat_def)










lemma exS0_nodes: "sAllNodes exS0 = [0, 1]"
  by code_simp

section \<open>Witnesses\<close>

lemma ex_keeps: "keepsDeps (\<lambda>g. g)"
  by (simp add: keepsDeps_def)

lemma ex_inj: "inj (\<lambda>i::nat. i)"
  by (simp add: inj_def)

lemma ex_built: "built (\<lambda>i. i) exMaxima (\<lambda>_. 1) (\<lambda>g. g) (\<lambda>_. Some 1) exS0"
proof -
  obtain s1 s2 where m: "markOutputMatrix 1 exNew = Inr s1"
    and b: "collectDependencies exMaxima (\<lambda>_. 1) exB s1 = Inr s2"
    and c: "collectDependencies exMaxima (\<lambda>_. 1) exC s2 = Inr exS0"
    using exBuild unfolding exBuild_def rbind_Inr_iff by (elim exE conjE)
  have db: "\<forall>(m, dir, r) \<in> set (urDepends exB). dirOk dir" and dc: "\<forall>(m, dir, r) \<in> set (urDepends exC). dirOk dir"
    by (simp_all add: exB_def exC_def dirOk_def direction_defs)
  have n: "built (\<lambda>i. i) exMaxima (\<lambda>_. 1) (\<lambda>g. g) (\<lambda>_. Some 1) exNew"
    unfolding exNew_def by (rule built_new)
  show ?thesis by (rule built_rule[OF built_rule[OF built_output[OF n m] db b] dc c])
qed

theorem scheduler_wellformed_witness: "exBuild = Inr exS0 \<and> schedulerOk (\<lambda>i. i) exS0"
  using exBuild scheduler_wellformed[OF ex_inj ex_keeps ex_built] by blast

text \<open>The graph of the chosen dependencies of B and C, which lead to each other.\<close>

definition exChain :: graph where
  "exChain = (\<lambda>n. (basicNode exWhole [])\<lparr>nOriginal := (if n = 0 then [(1, exFrom 1)] else [(0, exFrom 2)])\<rparr>)"

theorem indirect_dependencies_complete_witness:
  "\<exists>g'. computeIndirectDependencies [0, 1] exChain = Some g' \<and>
    depsAtoms (nIndirect (g' 0)) = (\<Union>m \<in> {m. (0, m) \<in> (depEdge exChain)\<^sup>*}. depsAtoms (directDepends (exChain m)))"
proof -
  have "graphOk (set [0, 1]) exChain" "closedIn (set [0, 1]) exChain" "\<forall>n \<in> set [0, 1]. nIndirect (exChain n) = []"
    by (auto simp: graphOk_def closedIn_def exChain_def basicNode_def depsOk_def infoOk_def exFrom_def dirOk_def
        direction_defs directDepends_def)
  from indirect_dependencies_complete[OF this] show ?thesis by auto
qed

lemma ex_ok: "schedulerOk (\<lambda>i. i) exS0"
  by (rule built_ok[OF ex_inj ex_keeps ex_built])

theorem component_is_mutual_reachability_witness:
  "set (getStronglyConnectedComponent 0 exG) =
     {k. k = 0 \<or> (0, k) \<in> (depEdge exG)\<^sup>+ \<and> (k, 0) \<in> (depEdge exG)\<^sup>+} \<and>
   getStronglyConnectedComponent 0 exG = [0, 1]"
  using component_is_mutual_reachability[OF ex_ok ex_keeps exChosen, of 0] exComponents
  unfolding exG_def by (simp add: exS0_nodes)


section \<open>Directions that a merged node loses\<close>

text \<open>B reads C to the left and C reads B to the right.  The meta node of both keeps the direction of the
  last remapped entry only, and is sliced forward, although C then reads slices of B that follow.\<close>

definition exToward :: "nat \<Rightarrow> int \<Rightarrow> depInfo" where
  "exToward i m = \<lparr>diRules = [exRule i], diDirection = [m]\<rparr>"

definition exCross :: graph where
  "exCross = (\<lambda>n. (basicNode exWhole [])\<lparr>
     nRemapped := (if n = 0 then [(1, exToward 1 D_LT)] else [(0, exToward 2 D_GT)]),
     nIndirect := [(0, exToward 2 D_GT), (1, exToward 1 D_LT)]\<rparr>)"

lemma sliced_direction_lost:
  defines "g \<equiv> remapNodes [(0, 2), (1, 2)] [2] (exCross(2 := metaNode SlicedNode [0, 1] exCross))"
  shows "\<exists>nd. findValidSchedule [] 2 g = Inr (True, g(2 := nd)) \<and> nDimension nd = 0 \<and> nForward nd"
    and "nRemapped (exCross 1) = [(0, exToward 2 D_GT)] \<and> mayDepend (diDirection (exToward 2 D_GT)) [x] [x + 2]"
proof -
  have g: "nKind (g 2) = SlicedNode" "nOriginals (g 2) = [0, 1]" "nIndirect (g 2) = [(2, exToward 1 D_LT)]"
    "nRegion (g 0) = exWhole" "nRegion (g 1) = exWhole"
    by (simp_all add: g_def remapNodes_def node_applyRemapping_def metaNode_def basicNode_def exCross_def
        deps_merge_def deps_applyRemapping_def exToward_def info_merge_def oat_def emptyInfo_def dd_merge_def
        maskAt_def direction_defs ounion_def exRule_def Let_def less_ruleT_def RulePriCmp_def rulePri_def
        del: One_nat_def)
  show "\<exists>nd. findValidSchedule [] 2 g = Inr (True, g(2 := nd)) \<and> nDimension nd = 0 \<and> nForward nd"
    by (simp add: findValidSchedule_def g oat_def exToward_def exWhole_def only_bit direction_defs
        Let_def del: One_nat_def, intro exI conjI, rule refl, simp_all)
  show "nRemapped (exCross 1) = [(0, exToward 2 D_GT)] \<and> mayDepend (diDirection (exToward 2 D_GT)) [x] [x + 2]"
    by (simp add: exCross_def basicNode_def exToward_def dirBit_def direction_defs)
qed

end
