(* ===== verification/Links.thy ===== *)
theory Links
  imports Prelude
begin

text \<open>
  One direction of the link between two hosts (\<open>runtime/remotehost.h\<close>, \<open>runtime/remotehost.cpp\<close>).

  A \<open>RemoteHost\<close> is a control socket, which carries fixed size headers (\<open>GeneralMessage\<close>), and
  \<open>REMOTEHOST_DATACHANS\<close> data sockets, which carry the bytes that the headers announce.  Any number
  of threads call \<open>sendMsg\<close> and \<open>recv\<close> at the same time; four kinds of mutexes keep them apart.  A
  step of the model is one thread passing one mutex operation or one socket call; a value of
  \<open>sendPc\<close> or \<open>recvPc\<close> is the place in the code where the thread is.  A read or write of the body
  moves any positive number of bytes, as a socket may; a header is moved in one step, because
  \<open>writeAll\<close> and \<open>readAll\<close> move it under a mutex of the control socket.  Sockets hold a bounded number
  of headers or bytes, and a write waits for room.

  What the messages do to the objects they are for is in theory \<open>RemoteObjects\<close>.
\<close>

section \<open>Messages\<close>

type_synonym byte = "8 word"
type_synonym encPtr = "64 word"

datatype linkMsgType =
    HELLO_CONTROL
  | HELLO_DATA
  | SETUP_MASTER
  | SETUP_CONNECT
  | SETUP_ACCEPT
  | SETUP_ACK
  | SETUP_END
  | REMOTEOBJECT_CREATE
  | REMOTEOBJECT_CREATE_ACK
  | REMOTEOBJECT_DATA
  | REMOTEOBJECT_SIGNAL
  | REMOTEOBJECT_BROADCAST
  | REMOTEOBJECT_NOTIFY
  | REMOTEOBJECT_MARKCOMPLETE
  | SHUTDOWN_BEGIN
  | SHUTDOWN_ACK
  | SHUTDOWN_END

definition messageTypes :: "linkMsgType list" where
  "messageTypes = [HELLO_CONTROL, HELLO_DATA, SETUP_MASTER, SETUP_CONNECT, SETUP_ACCEPT, SETUP_ACK,
     SETUP_END, REMOTEOBJECT_CREATE, REMOTEOBJECT_CREATE_ACK, REMOTEOBJECT_DATA, REMOTEOBJECT_SIGNAL,
     REMOTEOBJECT_BROADCAST, REMOTEOBJECT_NOTIFY, REMOTEOBJECT_MARKCOMPLETE, SHUTDOWN_BEGIN,
     SHUTDOWN_ACK, SHUTDOWN_END]"

text \<open>The enumeration starts at \<open>0xf0c0\<close> and is stored in the \<open>uint16_t\<close> field \<open>type\<close>.\<close>

fun msgIndex :: "linkMsgType \<Rightarrow> linkMsgType list \<Rightarrow> nat" where
  "msgIndex m [] = 0"
| "msgIndex m (x # xs) = (if m = x then 0 else Suc (msgIndex m xs))"

definition msgCode :: "linkMsgType \<Rightarrow> 16 word" where
  "msgCode m = 0xf0c0 + of_nat (msgIndex m messageTypes)"

text \<open>The \<open>switch\<close> over \<open>msg.type\<close>: the case that a code selects.\<close>

definition msgCase :: "16 word \<Rightarrow> linkMsgType option" where
  "msgCase w = find (\<lambda>m. msgCode m = w) messageTypes"

record generalMessage =
  mtype :: "16 word"
  mchan :: "16 word"
  mlen :: "32 word"
  marg :: "64 word"
  srcptr :: encPtr
  dstptr :: encPtr

definition mkMsg :: "linkMsgType \<Rightarrow> 64 word \<Rightarrow> encPtr \<Rightarrow> encPtr \<Rightarrow> generalMessage" where
  "mkMsg ty arg src dst =
     \<lparr>mtype = msgCode ty, mchan = 0, mlen = 0, marg = arg, srcptr = src, dstptr = dst\<rparr>"

section \<open>The state\<close>

definition REMOTEHOST_DATACHANS :: nat where
  "REMOTEHOST_DATACHANS = 4"

datatype sendPc =
    SIdle
  | SLock generalMessage "byte list" "byte list" \<comment> \<open>waits for \<open>_controlWritemu\<close>\<close>
  | SHeader generalMessage "byte list" "byte list" \<comment> \<open>writes the header\<close>
  | SData nat "byte list" "byte list" \<comment> \<open>waits for \<open>_dataWritemu[chan]\<close>\<close>
  | SWrite nat "byte list" "byte list" \<comment> \<open>has these bytes left to write to the channel\<close>
  | SUnlock

text \<open>The argument of \<open>recv\<close>: \<open>None\<close> in a listener thread, an object in a worker thread that waits
  for a message to it.\<close>

datatype recvPc =
    RIdle
  | RCheck "encPtr option" \<comment> \<open>has \<open>_controlReadmu\<close>\<close>
  | RRead "encPtr option" \<comment> \<open>reads a header\<close>
  | RLock generalMessage \<comment> \<open>waits for \<open>_dataReadmu[chan]\<close>\<close>
  | RBody generalMessage "byte list" \<comment> \<open>has received these bytes\<close>
  | RHandle generalMessage "byte list" \<comment> \<open>runs the handler of the object\<close>
  | RAbort \<comment> \<open>a \<open>JASSERT\<close> has failed\<close>

record link =
  ctlWriteLock :: "nat option"
  ctlReadLock :: "nat option"
  datWriteLock :: "nat \<Rightarrow> nat option"
  datReadLock :: "nat \<Rightarrow> nat option"
  lastchan :: int
  control :: "generalMessage list"
  chans :: "nat \<Rightarrow> byte list"
  pend :: "encPtr \<Rightarrow> int"
  senders :: "nat \<Rightarrow> sendPc"
  receivers :: "nat \<Rightarrow> recvPc"

text \<open>The side that called \<open>connect\<close> starts with \<open>_lastchan = 0\<close>, the one that called \<open>accept\<close>
  with 1.\<close>

definition newLink :: "bool \<Rightarrow> link" where
  "newLink connected =
     \<lparr>ctlWriteLock = None, ctlReadLock = None, datWriteLock = \<lambda>_. None, datReadLock = \<lambda>_. None,
      lastchan = (if connected then 0 else 1), control = [], chans = \<lambda>_. [], pend = \<lambda>_. 0,
      senders = \<lambda>_. SIdle, receivers = \<lambda>_. RIdle\<rparr>"

definition pickChannel :: "int \<Rightarrow> int" where
  "pickChannel c = cmod (c + 2) (int REMOTEHOST_DATACHANS)"

text \<open>What a step shows of itself: a header has been written (with the bytes that belong to it), a
  header has been read, a body has been received.\<close>

datatype linkEvent =
    Tau
  | Sent generalMessage "byte list"
  | Popped nat generalMessage
  | Received nat generalMessage "byte list"

section \<open>Sending\<close>

text \<open>\<open>sendMsg(msg, data, len, data2, len2)\<close>; the version with one part of data is the case
  \<open>len2 = 0\<close>.\<close>

definition announce :: "generalMessage \<Rightarrow> byte list \<Rightarrow> byte list \<Rightarrow> nat \<Rightarrow> generalMessage" where
  "announce m a b c = m\<lparr>mchan := of_nat c, mlen := of_nat (length a + length b)\<rparr>"

definition sendChan :: "int \<Rightarrow> byte list \<Rightarrow> int" where
  "sendChan lc a = (if a \<noteq> [] then pickChannel lc else 0)"

definition setSender :: "nat \<Rightarrow> sendPc \<Rightarrow> link \<Rightarrow> link" where
  "setSender t pc l = l\<lparr>senders := (senders l)(t := pc)\<rparr>"

definition setReceiver :: "nat \<Rightarrow> recvPc \<Rightarrow> link \<Rightarrow> link" where
  "setReceiver t pc l = l\<lparr>receivers := (receivers l)(t := pc)\<rparr>"

definition writeHeader :: "nat \<Rightarrow> generalMessage \<Rightarrow> byte list \<Rightarrow> byte list \<Rightarrow> link \<Rightarrow> linkEvent \<times> link" where
  "writeHeader t m a b l =
     (let c = sendChan (lastchan l) a; m' = announce m a b (nat c)
      in (Sent m' (if a \<noteq> [] then a @ b else []),
          setSender t (if a \<noteq> [] then SData (nat c) a b else SUnlock)
            (l\<lparr>lastchan := (if a \<noteq> [] then c else lastchan l), control := control l @ [m']\<rparr>)))"

text \<open>\<open>n\<close> bytes are written to the channel by one call of the system.\<close>

definition writeBody :: "nat \<Rightarrow> nat \<Rightarrow> nat \<Rightarrow> nat \<Rightarrow> byte list \<Rightarrow> byte list \<Rightarrow> link \<Rightarrow> (linkEvent \<times> link) option" where
  "writeBody room t n c a b l =
     (if a = [] \<and> b = [] then
        Some (Tau, setSender t SIdle (l\<lparr>datWriteLock := (datWriteLock l)(c := None)\<rparr>))
      else if n = 0 \<or> room < length (chans l c) + n then None
      else if a \<noteq> [] then
        if n \<le> length a then
          Some (Tau, setSender t (SWrite c (drop n a) b)
            (l\<lparr>chans := (chans l)(c := chans l c @ take n a)\<rparr>))
        else None
      else if n \<le> length b then
        Some (Tau, setSender t (SWrite c a (drop n b))
          (l\<lparr>chans := (chans l)(c := chans l c @ take n b)\<rparr>))
      else None)"

text \<open>The next step of the \<open>sendMsg\<close> that thread \<open>t\<close> is in; \<open>None\<close> when the thread waits.\<close>

definition sendStep :: "nat \<Rightarrow> nat \<Rightarrow> nat \<Rightarrow> nat \<Rightarrow> link \<Rightarrow> (linkEvent \<times> link) option" where
  "sendStep headers room t n l =
     (case senders l t of
        SIdle \<Rightarrow> None
      | SLock m a b \<Rightarrow>
          if ctlWriteLock l = None
          then Some (Tau, setSender t (SHeader m a b) (l\<lparr>ctlWriteLock := Some t\<rparr>)) else None
      | SHeader m a b \<Rightarrow>
          if length (control l) < headers then Some (writeHeader t m a b l) else None
      | SData c a b \<Rightarrow>
          if datWriteLock l c = None
          then Some (Tau, setSender t (SWrite c a b)
                 (l\<lparr>datWriteLock := (datWriteLock l)(c := Some t), ctlWriteLock := None\<rparr>)) else None
      | SWrite c a b \<Rightarrow> writeBody room t n c a b l
      | SUnlock \<Rightarrow> Some (Tau, setSender t SIdle (l\<lparr>ctlWriteLock := None\<rparr>)))"

section \<open>Receiving\<close>

text \<open>The types of messages whose case of the \<open>switch\<close> reads a body; the others assert that there is
  none.  A type outside the enumeration, and \<open>SHUTDOWN_END\<close>, assert \<open>false\<close>.\<close>

definition readsBody :: "generalMessage \<Rightarrow> bool" where
  "readsBody m = (msgCase (mtype m) \<in> {Some REMOTEOBJECT_CREATE, Some REMOTEOBJECT_DATA})"

definition knownType :: "generalMessage \<Rightarrow> bool" where
  "knownType m = (msgCase (mtype m) \<in> Some ` {REMOTEOBJECT_CREATE, REMOTEOBJECT_CREATE_ACK,
     REMOTEOBJECT_DATA, REMOTEOBJECT_SIGNAL, REMOTEOBJECT_BROADCAST, REMOTEOBJECT_NOTIFY,
     REMOTEOBJECT_MARKCOMPLETE, SHUTDOWN_BEGIN, SHUTDOWN_ACK})"

definition startRecv :: "nat \<Rightarrow> encPtr option \<Rightarrow> link \<Rightarrow> (linkEvent \<times> link) option" where
  "startRecv t caller l =
     (if receivers l t \<noteq> RIdle then None
      else if ctlReadLock l \<noteq> None then Some (Tau, l)
      else Some (Tau, setReceiver t (RCheck caller) (l\<lparr>ctlReadLock := Some t\<rparr>)))"

definition checkCaller :: "nat \<Rightarrow> encPtr option \<Rightarrow> link \<Rightarrow> link" where
  "checkCaller t caller l =
     (case caller of
        Some p \<Rightarrow> if pend l p > 0 then setReceiver t RIdle (l\<lparr>ctlReadLock := None\<rparr>)
                  else setReceiver t (RRead caller) l
      | None \<Rightarrow> setReceiver t (RRead caller) l)"

text \<open>A listener gives up when no header is there (\<open>tryReadAll\<close>), a worker waits (\<open>readAll\<close>).\<close>

definition readHeader :: "nat \<Rightarrow> encPtr option \<Rightarrow> link \<Rightarrow> (linkEvent \<times> link) option" where
  "readHeader t caller l =
     (case control l of
        m # ms \<Rightarrow> Some (Popped t m, setReceiver t (RLock m) (l\<lparr>control := ms\<rparr>))
      | [] \<Rightarrow> if caller = None then Some (Tau, setReceiver t RIdle (l\<lparr>ctlReadLock := None\<rparr>)) else None)"

definition addPend :: "encPtr \<Rightarrow> int \<Rightarrow> link \<Rightarrow> link" where
  "addPend p d l = (if p \<noteq> 0 then l\<lparr>pend := (pend l)(p := pend l p + d)\<rparr> else l)"

definition lockData :: "nat \<Rightarrow> generalMessage \<Rightarrow> link \<Rightarrow> (linkEvent \<times> link) option" where
  "lockData t m l =
     (let c = unat (mchan m); l' = addPend (dstptr m) 1 (l\<lparr>ctlReadLock := None\<rparr>)
      in if mlen m > 0 then
           if c \<ge> REMOTEHOST_DATACHANS then Some (Tau, setReceiver t RAbort l)
           else if datReadLock l c \<noteq> None then None
           else Some (Tau, setReceiver t (RBody m []) (l'\<lparr>datReadLock := (datReadLock l)(c := Some t)\<rparr>))
         else Some (Tau, setReceiver t (RBody m []) l'))"

text \<open>The body of the message: \<open>readAll\<close> has received \<open>got\<close>, and one more call of the system returns
  \<open>n\<close> bytes of the channel; the last one releases the channel.\<close>

definition readBody :: "nat \<Rightarrow> nat \<Rightarrow> generalMessage \<Rightarrow> byte list \<Rightarrow> link \<Rightarrow> (linkEvent \<times> link) option" where
  "readBody t n m got l =
     (let c = unat (mchan m)
      in if \<not> knownType m \<or> \<not> readsBody m \<and> mlen m > 0 then Some (Tau, setReceiver t RAbort l)
         else if length got = unat (mlen m) then
           Some (Received t m got, setReceiver t (RHandle m got)
             (if mlen m > 0 then l\<lparr>datReadLock := (datReadLock l)(c := None)\<rparr> else l))
         else if n = 0 \<or> length (chans l c) < n \<or> unat (mlen m) < length got + n then None
         else Some (Tau, setReceiver t (RBody m (got @ take n (chans l c)))
                (l\<lparr>chans := (chans l)(c := drop n (chans l c))\<rparr>)))"

definition recvStep :: "nat \<Rightarrow> nat \<Rightarrow> link \<Rightarrow> (linkEvent \<times> link) option" where
  "recvStep t n l =
     (case receivers l t of
        RIdle \<Rightarrow> None
      | RCheck caller \<Rightarrow> Some (Tau, checkCaller t caller l)
      | RRead caller \<Rightarrow> readHeader t caller l
      | RLock m \<Rightarrow> lockData t m l
      | RBody m got \<Rightarrow> readBody t n m got l
      | RHandle m buf \<Rightarrow> Some (Tau, setReceiver t RIdle (addPend (dstptr m) (- 1) l))
      | RAbort \<Rightarrow> None)"

section \<open>Runs\<close>

datatype linkAction =
    Send nat generalMessage "byte list" "byte list" \<comment> \<open>thread calls \<open>sendMsg\<close>\<close>
  | SendStep nat nat
  | Recv nat "encPtr option" \<comment> \<open>thread calls \<open>recv\<close>\<close>
  | RecvStep nat nat

definition linkStep :: "nat \<Rightarrow> nat \<Rightarrow> linkAction \<Rightarrow> link \<Rightarrow> (linkEvent \<times> link) option" where
  "linkStep headers room act l =
     (case act of
        Send t m a b \<Rightarrow> if senders l t = SIdle then Some (Tau, setSender t (SLock m a b) l) else None
      | SendStep t n \<Rightarrow> sendStep headers room t n l
      | Recv t caller \<Rightarrow> startRecv t caller l
      | RecvStep t n \<Rightarrow> recvStep t n l)"

fun linkRun :: "nat \<Rightarrow> nat \<Rightarrow> linkAction list \<Rightarrow> link \<Rightarrow> (linkEvent list \<times> link) option" where
  "linkRun headers room [] l = Some ([], l)"
| "linkRun headers room (act # acts) l =
     (case linkStep headers room act l of
        None \<Rightarrow> None
      | Some (e, l1) \<Rightarrow>
          (case linkRun headers room acts l1 of
             None \<Rightarrow> None
           | Some (es, l2) \<Rightarrow> Some (e # es, l2)))"

end
