(* ===== verification/LinkProofs.thy ===== *)
theory LinkProofs
  imports Links
begin

text \<open>
  What a link promises.

  The specification is a mailbox: a queue of messages, each a header with its body, from which
  receiving threads take the first.  Every run of a link is a run of the mailbox: headers are read in
  the order in which they were written, and each thread receives exactly the bytes that were sent
  with the header it has read, although the bodies travel over four sockets and many threads read
  and write at the same time.  The \<open>JASSERT\<close>s of \<open>recv\<close> do not fail, and the mutexes cannot
  deadlock.
\<close>

section \<open>Message types and channels\<close>

lemma msgCase_messageTypes: "list_all (\<lambda>m. msgCase (msgCode m) = Some m) messageTypes"
  by code_simp

lemma messageTypes_all: "m \<in> set messageTypes"
  by (cases m) (simp_all add: messageTypes_def)

lemma msgCase_msgCode [simp]: "msgCase (msgCode m) = Some m"
  using msgCase_messageTypes messageTypes_all by (simp add: list_all_iff)

lemma pickChannel_cases:
  "lc \<in> {0, 2} \<Longrightarrow> pickChannel lc \<in> {0, 2}"
  "lc \<in> {1, 3} \<Longrightarrow> pickChannel lc \<in> {1, 3}"
  by (auto simp: pickChannel_def cmod_nonneg REMOTEHOST_DATACHANS_def)

section \<open>The specification\<close>

record mailbox =
  queue :: "(generalMessage \<times> byte list) list"
  taken :: "nat \<Rightarrow> (generalMessage \<times> byte list) option"

definition newMailbox :: mailbox where
  "newMailbox = \<lparr>queue = [], taken = \<lambda>_. None\<rparr>"

definition mailStep :: "linkEvent \<Rightarrow> mailbox \<Rightarrow> mailbox option" where
  "mailStep e A =
     (case e of
        Tau \<Rightarrow> Some A
      | Sent m b \<Rightarrow> Some (A\<lparr>queue := queue A @ [(m, b)]\<rparr>)
      | Popped t m \<Rightarrow>
          (case queue A of
             [] \<Rightarrow> None
           | mb # q \<Rightarrow> if fst mb = m \<and> taken A t = None
                       then Some (A\<lparr>queue := q, taken := (taken A)(t := Some mb)\<rparr>) else None)
      | Received t m b \<Rightarrow>
          if taken A t = Some (m, b) then Some (A\<lparr>taken := (taken A)(t := None)\<rparr>) else None)"

fun mailRun :: "linkEvent list \<Rightarrow> mailbox \<Rightarrow> mailbox option" where
  "mailRun [] A = Some A"
| "mailRun (e # es) A = (case mailStep e A of None \<Rightarrow> None | Some A1 \<Rightarrow> mailRun es A1)"

text \<open>What the callers of \<open>sendMsg\<close> keep to: the first part of a message in two parts is not empty, the
  length fits the field \<open>len\<close>, and only the types that have data carry data.\<close>

definition sendOk :: "generalMessage \<Rightarrow> byte list \<Rightarrow> byte list \<Rightarrow> bool" where
  "sendOk m a b \<longleftrightarrow> (b \<noteq> [] \<longrightarrow> a \<noteq> []) \<and> length a + length b < 2 ^ 32 \<and> knownType m \<and>
     (a \<noteq> [] \<longrightarrow> readsBody m)"

definition actOk :: "linkAction \<Rightarrow> bool" where
  "actOk act = (case act of Send t m a b \<Rightarrow> sendOk m a b | _ \<Rightarrow> True)"

section \<open>The simulation relation\<close>

fun inHeader :: "sendPc \<Rightarrow> bool" where
  "inHeader (SHeader m a b) = True"
| "inHeader (SData c a b) = True"
| "inHeader SUnlock = True"
| "inHeader _ = False"

fun writesTo :: "sendPc \<Rightarrow> nat \<Rightarrow> bool" where
  "writesTo (SWrite c a b) c' = (c = c')"
| "writesTo _ c' = False"

fun senderOk :: "sendPc \<Rightarrow> bool" where
  "senderOk (SLock m a b) = sendOk m a b"
| "senderOk (SHeader m a b) = sendOk m a b"
| "senderOk _ = True"

definition messageOk :: "generalMessage \<times> byte list \<Rightarrow> bool" where
  "messageOk mb \<longleftrightarrow> length (snd mb) = unat (mlen (fst mb)) \<and> unat (mchan (fst mb)) < REMOTEHOST_DATACHANS \<and>
     knownType (fst mb) \<and> (mlen (fst mb) > 0 \<longrightarrow> readsBody (fst mb))"

fun inControl :: "recvPc \<Rightarrow> bool" where
  "inControl (RCheck caller) = True"
| "inControl (RRead caller) = True"
| "inControl (RLock m) = True"
| "inControl _ = False"

fun readsFrom :: "recvPc \<Rightarrow> nat \<Rightarrow> bool" where
  "readsFrom (RBody m got) c = (mlen m > 0 \<and> unat (mchan m) = c)"
| "readsFrom _ c = False"

fun receiverOk :: "recvPc \<Rightarrow> (generalMessage \<times> byte list) option \<Rightarrow> bool" where
  "receiverOk (RLock m) tk = (\<exists>b. tk = Some (m, b) \<and> messageOk (m, b))"
| "receiverOk (RBody m got) tk = (\<exists>rest. tk = Some (m, got @ rest) \<and> messageOk (m, got @ rest))"
| "receiverOk RAbort tk = False"
| "receiverOk _ tk = (tk = None)"

text \<open>The bytes of channel \<open>c\<close> that are still to be written, and those that are still to be read.\<close>

fun restOf :: "sendPc \<Rightarrow> byte list" where
  "restOf (SWrite c a b) = a @ b"
| "restOf _ = []"

fun waitsOn :: "nat \<Rightarrow> sendPc \<Rightarrow> byte list" where
  "waitsOn c (SData c' a b) = (if c = c' then a @ b else [])"
| "waitsOn c _ = []"

fun restRead :: "recvPc \<Rightarrow> (generalMessage \<times> byte list) option \<Rightarrow> byte list" where
  "restRead (RBody m got) (Some mb) = drop (length got) (snd mb)"
| "restRead _ _ = []"

fun lockedBody :: "nat \<Rightarrow> recvPc \<Rightarrow> (generalMessage \<times> byte list) option \<Rightarrow> byte list" where
  "lockedBody c (RLock m) (Some mb) = (if unat (mchan m) = c then snd mb else [])"
| "lockedBody c _ _ = []"

definition held :: "nat option \<Rightarrow> (nat \<Rightarrow> 'a list) \<Rightarrow> 'a list" where
  "held lk f = (case lk of None \<Rightarrow> [] | Some t \<Rightarrow> f t)"

lemma held_simps [simp]: "held None f = []" "held (Some t) f = f t"
  by (simp_all add: held_def)

definition bodies :: "nat \<Rightarrow> (generalMessage \<times> byte list) list \<Rightarrow> byte list" where
  "bodies c q = concat (map snd (filter (\<lambda>mb. unat (mchan (fst mb)) = c) q))"

lemma bodies_simps [simp]:
  "bodies c [] = []"
  "bodies c (mb # q) = (if unat (mchan (fst mb)) = c then snd mb else []) @ bodies c q"
  "bodies c (q @ q') = bodies c q @ bodies c q'"
  by (simp_all add: bodies_def)

definition toRead :: "link \<Rightarrow> mailbox \<Rightarrow> nat \<Rightarrow> byte list" where
  "toRead l A c =
     held (datReadLock l c) (\<lambda>t. restRead (receivers l t) (taken A t)) @
     held (ctlReadLock l) (\<lambda>t. lockedBody c (receivers l t) (taken A t)) @ bodies c (queue A)"

definition toWrite :: "link \<Rightarrow> nat \<Rightarrow> byte list" where
  "toWrite l c =
     held (datWriteLock l c) (\<lambda>t. restOf (senders l t)) @
     held (ctlWriteLock l) (\<lambda>t. waitsOn c (senders l t))"

definition sendersInv :: "link \<Rightarrow> bool" where
  "sendersInv l \<longleftrightarrow> (\<forall>t. (ctlWriteLock l = Some t) = inHeader (senders l t)) \<and>
     (\<forall>t c. (datWriteLock l c = Some t) = writesTo (senders l t) c) \<and>
     (\<forall>t. senderOk (senders l t)) \<and> lastchan l \<in> {0..<4}"

definition receiversInv :: "link \<Rightarrow> mailbox \<Rightarrow> bool" where
  "receiversInv l A \<longleftrightarrow> (\<forall>t. (ctlReadLock l = Some t) = inControl (receivers l t)) \<and>
     (\<forall>t c. (datReadLock l c = Some t) = readsFrom (receivers l t) c) \<and>
     (\<forall>t. receiverOk (receivers l t) (taken A t))"

definition linkInv :: "link \<Rightarrow> mailbox \<Rightarrow> bool" where
  "linkInv l A \<longleftrightarrow> sendersInv l \<and> receiversInv l A \<and> control l = map fst (queue A) \<and>
     list_all messageOk (queue A) \<and> (\<forall>c. chans l c @ toWrite l c = toRead l A c)"

lemma linkInv_new: "linkInv (newLink connected) newMailbox"
  by (simp add: linkInv_def newLink_def newMailbox_def sendersInv_def receiversInv_def toWrite_def
      toRead_def)

lemmas linkInvD = linkInv_def [THEN iffD1]

section \<open>The simulation\<close>

lemma setSender_simps [simp]:
  "ctlWriteLock (setSender t pc l) = ctlWriteLock l" "ctlReadLock (setSender t pc l) = ctlReadLock l"
  "datWriteLock (setSender t pc l) = datWriteLock l" "datReadLock (setSender t pc l) = datReadLock l"
  "lastchan (setSender t pc l) = lastchan l" "control (setSender t pc l) = control l"
  "chans (setSender t pc l) = chans l" "pend (setSender t pc l) = pend l"
  "senders (setSender t pc l) = (senders l)(t := pc)" "receivers (setSender t pc l) = receivers l"
  by (simp_all add: setSender_def)

lemma setReceiver_simps [simp]:
  "ctlWriteLock (setReceiver t pc l) = ctlWriteLock l" "ctlReadLock (setReceiver t pc l) = ctlReadLock l"
  "datWriteLock (setReceiver t pc l) = datWriteLock l" "datReadLock (setReceiver t pc l) = datReadLock l"
  "lastchan (setReceiver t pc l) = lastchan l" "control (setReceiver t pc l) = control l"
  "chans (setReceiver t pc l) = chans l" "pend (setReceiver t pc l) = pend l"
  "senders (setReceiver t pc l) = senders l" "receivers (setReceiver t pc l) = (receivers l)(t := pc)"
  by (simp_all add: setReceiver_def)

lemma addPend_simps [simp]:
  "ctlWriteLock (addPend p d l) = ctlWriteLock l" "ctlReadLock (addPend p d l) = ctlReadLock l"
  "datWriteLock (addPend p d l) = datWriteLock l" "datReadLock (addPend p d l) = datReadLock l"
  "lastchan (addPend p d l) = lastchan l" "control (addPend p d l) = control l"
  "chans (addPend p d l) = chans l"
  "senders (addPend p d l) = senders l" "receivers (addPend p d l) = receivers l"
  by (simp_all add: addPend_def)

text \<open>A thread that holds no mutex of the list does not contribute.\<close>

lemma held_other:
  assumes "lk \<noteq> Some t"
  shows "held lk (\<lambda>u. restOf (if u = t then x else g u)) = held lk (\<lambda>u. restOf (g u))"
    "held lk (\<lambda>u. waitsOn c (if u = t then x else g u)) = held lk (\<lambda>u. waitsOn c (g u))"
    "held lk (\<lambda>u. restRead (if u = t then r else h u) (k u)) = held lk (\<lambda>u. restRead (h u) (k u))"
    "held lk (\<lambda>u. restRead (h u) (if u = t then y else k u)) =
      held lk (\<lambda>u. restRead (h u) (k u))"
    "held lk (\<lambda>u. lockedBody c (if u = t then r else h u) (k u)) = held lk (\<lambda>u. lockedBody c (h u) (k u))"
    "held lk (\<lambda>u. lockedBody c (h u) (if u = t then y else k u)) =
      held lk (\<lambda>u. lockedBody c (h u) (k u))"
  using assms by (auto simp: held_def split: option.splits)

lemma linkInvE:
  assumes "linkInv l A"
  shows "sendersInv l" "receiversInv l A" "control l = map fst (queue A)" "list_all messageOk (queue A)"
    "chans l c @ toWrite l c = toRead l A c"
  using assms by (simp_all add: linkInv_def)

lemma sendersInvE:
  assumes "sendersInv l"
  shows "inHeader (senders l t) \<longleftrightarrow> ctlWriteLock l = Some t"
    "writesTo (senders l t) c \<longleftrightarrow> datWriteLock l c = Some t"
    "senderOk (senders l t)" "lastchan l \<in> {0..<4}"
  using assms by (simp_all add: sendersInv_def)

lemma receiversInvE:
  assumes "receiversInv l A"
  shows "inControl (receivers l t) \<longleftrightarrow> ctlReadLock l = Some t"
    "readsFrom (receivers l t) c \<longleftrightarrow> datReadLock l c = Some t"
    "receiverOk (receivers l t) (taken A t)"
  using assms by (simp_all add: receiversInv_def)

lemma receivers_unchanged:
  assumes "receiversInv l A" "ctlReadLock l' = ctlReadLock l" "datReadLock l' = datReadLock l"
    "receivers l' = receivers l" "taken A' = taken A"
  shows "receiversInv l' A'"
  using assms by (simp add: receiversInv_def)

lemma toRead_unchanged:
  assumes "ctlReadLock l' = ctlReadLock l" "datReadLock l' = datReadLock l" "receivers l' = receivers l"
  shows "toRead l' A = toRead l A"
  using assms by (simp add: toRead_def fun_eq_iff)

text \<open>A step of a sender that writes no header.\<close>

lemma sender_tau:
  assumes inv: "linkInv l A" and s: "sendersInv l'"
    and same: "ctlReadLock l' = ctlReadLock l" "datReadLock l' = datReadLock l"
      "receivers l' = receivers l" "control l' = control l"
    and bytes: "\<And>c. chans l' c @ toWrite l' c = chans l c @ toWrite l c"
  shows "linkInv l' A"
  using linkInvE[OF inv] s same receivers_unchanged[OF _ same(1-3), of A A] toRead_unchanged[OF same(1-3)] bytes
  by (simp add: linkInv_def)

lemma send_lock:
  assumes "linkInv l A" "senders l t = SLock m a b" "ctlWriteLock l = None"
  shows "linkInv (setSender t (SHeader m a b) (l\<lparr>ctlWriteLock := Some t\<rparr>)) A" (is "linkInv ?l A")
proof (rule sender_tau[OF assms(1)])
  note s = sendersInvE[OF linkInvE(1)[OF assms(1)]]
  have n: "datWriteLock l c \<noteq> Some t" for c using s(2)[of t c] assms(2) by simp
  show "sendersInv ?l"
    using s s(3)[of t] n assms(2,3) by (auto simp: sendersInv_def)
  show "chans ?l c @ toWrite ?l c = chans l c @ toWrite l c" for c
    using n assms(3) by (simp add: toWrite_def held_other)
qed simp_all

lemma send_data:
  assumes "linkInv l A" "senders l t = SData c a b" "datWriteLock l c = None"
  shows "linkInv (setSender t (SWrite c a b)
           (l\<lparr>datWriteLock := (datWriteLock l)(c := Some t), ctlWriteLock := None\<rparr>)) A" (is "linkInv ?l A")
proof (rule sender_tau[OF assms(1)])
  note s = sendersInvE[OF linkInvE(1)[OF assms(1)]]
  have n: "datWriteLock l c \<noteq> Some t" for c using s(2)[of t c] assms(2) by simp
  have h: "ctlWriteLock l = Some t" using s(1)[of t] assms(2) by simp
  show "sendersInv ?l"
    using s h n assms(2,3) by (auto simp: sendersInv_def)
  show "chans ?l c' @ toWrite ?l c' = chans l c' @ toWrite l c'" for c'
    using n h assms(2,3) by (cases "c = c'") (simp_all add: toWrite_def held_other)
qed simp_all

lemma send_unlock:
  assumes "linkInv l A" "senders l t = SUnlock"
  shows "linkInv (setSender t SIdle (l\<lparr>ctlWriteLock := None\<rparr>)) A" (is "linkInv ?l A")
proof (rule sender_tau[OF assms(1)])
  note s = sendersInvE[OF linkInvE(1)[OF assms(1)]]
  have n: "datWriteLock l c \<noteq> Some t" for c using s(2)[of t c] assms(2) by simp
  have h: "ctlWriteLock l = Some t" using s(1)[of t] assms(2) by simp
  show "sendersInv ?l"
    using s h n assms(2) by (auto simp: sendersInv_def)
  show "chans ?l c' @ toWrite ?l c' = chans l c' @ toWrite l c'" for c'
    using n h assms(2) by (simp add: toWrite_def held_other)
qed simp_all

lemma send_begin:
  assumes "linkInv l A" "senders l t = SIdle" "sendOk m a b"
  shows "linkInv (setSender t (SLock m a b) l) A" (is "linkInv ?l A")
proof (rule sender_tau[OF assms(1)])
  note s = sendersInvE[OF linkInvE(1)[OF assms(1)]]
  have n: "datWriteLock l c \<noteq> Some t" for c using s(2)[of t c] assms(2) by simp
  have h: "ctlWriteLock l \<noteq> Some t" using s(1)[of t] assms(2) by simp
  show "sendersInv ?l"
    using s h n assms(2,3) by (auto simp: sendersInv_def)
  show "chans ?l c' @ toWrite ?l c' = chans l c' @ toWrite l c'" for c'
    using n h by (simp add: toWrite_def held_other)
qed simp_all

lemma send_write:
  assumes "linkInv l A" "senders l t = SWrite c a b" "writeBody room t n c a b l = Some (e, l')"
  shows "e = Tau \<and> linkInv l' A"
proof -
  note s = sendersInvE[OF linkInvE(1)[OF assms(1)]]
  have d: "datWriteLock l c' \<noteq> Some t" if "c' \<noteq> c" for c' using s(2)[of t c'] assms(2) that by simp
  have dc: "datWriteLock l c = Some t" using s(2)[of t c] assms(2) by simp
  have du: "c' = c" if "datWriteLock l c' = Some t" for c' using d that by blast
  have h: "ctlWriteLock l \<noteq> Some t" using s(1)[of t] assms(2) by simp
  consider (fin) "a = []" "b = []" "l' = setSender t SIdle (l\<lparr>datWriteLock := (datWriteLock l)(c := None)\<rparr>)"
    | (first) "l' = setSender t (SWrite c (drop n a) b)
            (l\<lparr>chans := (chans l)(c := chans l c @ take n a)\<rparr>)"
    | (second) "a = []" "l' = setSender t (SWrite c a (drop n b))
            (l\<lparr>chans := (chans l)(c := chans l c @ take n b)\<rparr>)"
    using assms(3) by (auto simp: writeBody_def split: if_splits)
  then have "linkInv l' A"
  proof cases
    case fin
    show ?thesis
    proof (rule sender_tau[OF assms(1)])
      show "sendersInv l'" using s h d dc assms(2) fin by (auto simp: sendersInv_def)
      show "chans l' c' @ toWrite l' c' = chans l c' @ toWrite l c'" for c'
        using h d dc fin assms(2) by (cases "c' = c") (simp_all add: toWrite_def held_other)
    qed (simp_all add: fin)
  next
    case first
    show ?thesis
    proof (rule sender_tau[OF assms(1)])
      show "sendersInv l'" using s h dc assms(2) first by (auto simp: sendersInv_def dest: du)
      show "chans l' c' @ toWrite l' c' = chans l c' @ toWrite l c'" for c'
        using h d dc first assms(2) by (cases "c' = c") (simp_all add: toWrite_def held_other)
    qed (simp_all add: first)
  next
    case second
    show ?thesis
    proof (rule sender_tau[OF assms(1)])
      show "sendersInv l'" using s h dc assms(2) second by (auto simp: sendersInv_def dest: du)
      show "chans l' c' @ toWrite l' c' = chans l c' @ toWrite l c'" for c'
        using h d dc second assms(2) by (cases "c' = c") (simp_all add: toWrite_def held_other)
    qed (simp_all add: second)
  qed
  then show ?thesis using assms(3) by (auto simp: writeBody_def split: if_splits)
qed

lemma sendChan_bounds:
  assumes "lc \<in> {0..<4}"
  shows "sendChan lc a \<in> {0..<4}" "nat (sendChan lc a) < REMOTEHOST_DATACHANS"
  using assms by (auto simp: sendChan_def pickChannel_def cmod_nonneg REMOTEHOST_DATACHANS_def)

lemma announce_ok:
  assumes "sendOk m a b" "c < REMOTEHOST_DATACHANS"
  shows "messageOk (announce m a b c, if a \<noteq> [] then a @ b else [])"
    "unat (mchan (announce m a b c)) = c"
proof -
  have l: "unat (word_of_nat (length a + length b) :: 32 word) = length a + length b"
    using assms(1) by (simp add: sendOk_def unat_of_nat take_bit_nat_eq_self_iff del: of_nat_add)
  show c: "unat (mchan (announce m a b c)) = c"
    using assms(2) by (simp add: announce_def REMOTEHOST_DATACHANS_def unat_of_nat take_bit_nat_eq_self_iff)
  show "messageOk (announce m a b c, if a \<noteq> [] then a @ b else [])"
    using assms l c by (auto simp: messageOk_def announce_def sendOk_def knownType_def readsBody_def)
qed

lemma send_header:
  assumes inv: "linkInv l A" and pc: "senders l t = SHeader m a b"
    and w: "writeHeader t m a b l = (e, l')"
  shows "\<exists>A'. mailStep e A = Some A' \<and> linkInv l' A'"
proof -
  note s = sendersInvE[OF linkInvE(1)[OF inv]]
  note k = linkInvE[OF inv]
  define c where "c = sendChan (lastchan l) a"
  define h where "h = announce m a b (nat c)"
  define body where "body = (if a \<noteq> [] then a @ b else [])"
  have e: "e = Sent h body" and l': "l' = setSender t (if a \<noteq> [] then SData (nat c) a b else SUnlock)
            (l\<lparr>lastchan := (if a \<noteq> [] then c else lastchan l), control := control l @ [h]\<rparr>)"
    using w by (auto simp: writeHeader_def c_def h_def body_def Let_def)
  have ok: "messageOk (h, body)" "unat (mchan h) = nat c"
    using announce_ok[of m a b "nat c"] s(3)[of t] pc sendChan_bounds[OF s(4), of a]
    by (simp_all add: h_def body_def c_def)
  have d: "datWriteLock l c' \<noteq> Some t" for c' using s(2)[of t c'] pc by simp
  have lk: "ctlWriteLock l = Some t" using s(1)[of t] pc by simp
  have bs: "body = waitsOn (nat c) (senders l' t)" by (simp add: l' body_def)
  have nb: "[] = waitsOn c' (senders l' t)" if "nat c \<noteq> c'" for c' using that by (simp add: l')
  have w: "toWrite l' c' = toWrite l c' @ (if c' = nat c then body else [])" for c'
    using d lk pc bs nb by (simp add: toWrite_def l' held_other)
  have "sendersInv l'"
    using s d lk sendChan_bounds(1)[OF s(4), of a] by (auto simp: sendersInv_def l' c_def)
  moreover have "receiversInv l' (A\<lparr>queue := queue A @ [(h, body)]\<rparr>)"
    using k(2) by (auto simp: receiversInv_def l')
  moreover have "toRead l' (A\<lparr>queue := queue A @ [(h, body)]\<rparr>) c' =
      toRead l A c' @ (if c' = nat c then body else [])" for c'
    using ok(2) by (simp add: toRead_def l')
  then have "chans l' c' @ toWrite l' c' = toRead l' (A\<lparr>queue := queue A @ [(h, body)]\<rparr>) c'" for c'
    using k(5)[of c'] by (simp add: w) (simp add: l')
  ultimately have "linkInv l' (A\<lparr>queue := queue A @ [(h, body)]\<rparr>)"
    using k(3,4) ok(1) by (auto simp: linkInv_def l')
  then show ?thesis by (simp add: e mailStep_def)
qed

lemma sendStep_sim:
  assumes "linkInv l A" "sendStep headers room t n l = Some (e, l')"
  shows "\<exists>A'. mailStep e A = Some A' \<and> linkInv l' A'"
proof (cases "senders l t")
  case (SLock m a b)
  then show ?thesis using assms send_lock[OF assms(1) SLock]
    by (auto simp: sendStep_def mailStep_def split: if_splits)
next
  case (SHeader m a b)
  then show ?thesis using assms send_header[OF assms(1) SHeader]
    by (auto simp: sendStep_def split: if_splits)
next
  case (SData c a b)
  then show ?thesis using assms send_data[OF assms(1) SData]
    by (auto simp: sendStep_def mailStep_def split: if_splits)
next
  case (SWrite c a b)
  then have "writeBody room t n c a b l = Some (e, l')" using assms(2) by (simp add: sendStep_def)
  from send_write[OF assms(1) SWrite this] show ?thesis by (simp add: mailStep_def)
next
  case SUnlock
  then show ?thesis using assms send_unlock[OF assms(1) SUnlock]
    by (auto simp: sendStep_def mailStep_def)
qed (use assms in \<open>simp add: sendStep_def\<close>)

text \<open>A step of a receiver.\<close>

lemma receiver_step:
  assumes inv: "linkInv l A" and r: "receiversInv l' A'"
    and same: "ctlWriteLock l' = ctlWriteLock l" "datWriteLock l' = datWriteLock l"
      "senders l' = senders l" "lastchan l' = lastchan l"
    and q: "control l' = map fst (queue A')" "set (queue A') \<subseteq> set (queue A)"
    and bytes: "\<And>c. \<exists>x. chans l c = x @ chans l' c \<and> toRead l A c = x @ toRead l' A' c"
  shows "linkInv l' A'"
proof -
  note k = linkInvE[OF inv]
  have "sendersInv l'" using k(1) same by (simp add: sendersInv_def)
  moreover have "list_all messageOk (queue A')" using k(4) q(2) by (auto simp: list_all_iff)
  moreover have "chans l' c @ toWrite l' c = toRead l' A' c" for c
  proof -
    obtain x where x: "chans l c = x @ chans l' c" "toRead l A c = x @ toRead l' A' c" using bytes[of c] by blast
    have "toWrite l' c = toWrite l c" using same by (simp add: toWrite_def)
    then show ?thesis using k(5)[of c] x by simp
  qed
  ultimately show ?thesis using r q(1) by (simp add: linkInv_def)
qed

lemma recv_begin:
  assumes "linkInv l A" "startRecv t caller l = Some (e, l')"
  shows "e = Tau \<and> linkInv l' A"
proof (cases "ctlReadLock l")
  case (Some u)
  then show ?thesis using assms by (auto simp: startRecv_def split: if_splits)
next
  case None
  then have l': "e = Tau" "receivers l t = RIdle" "l' = setReceiver t (RCheck caller) (l\<lparr>ctlReadLock := Some t\<rparr>)"
    using assms(2) by (auto simp: startRecv_def split: if_splits)
  note k = linkInvE[OF assms(1)]
  note r = receiversInvE[OF k(2)]
  have n: "datReadLock l c \<noteq> Some t" for c using r(2)[of t c] l'(2) by simp
  have "linkInv l' A"
  proof (rule receiver_step[OF assms(1)])
    show "receiversInv l' A" using r r(3)[of t] None n l' by (auto simp: receiversInv_def split: if_splits)
    show "\<exists>x. chans l c = x @ chans l' c \<and> toRead l A c = x @ toRead l' A c" for c
      using None n by (simp add: toRead_def l' held_other)
  qed (use k(3) in \<open>simp_all add: l'\<close>)
  then show ?thesis using l' by simp
qed

lemma recv_check:
  assumes "linkInv l A" "receivers l t = RCheck caller"
  shows "linkInv (checkCaller t caller l) A" (is "linkInv ?l A")
proof -
  note k = linkInvE[OF assms(1)]
  note r = receiversInvE[OF k(2)]
  have n: "datReadLock l c \<noteq> Some t" for c using r(2)[of t c] assms(2) by simp
  have h: "ctlReadLock l = Some t" using r(1)[of t] assms(2) by simp
  have l': "?l = setReceiver t RIdle (l\<lparr>ctlReadLock := None\<rparr>) \<or> ?l = setReceiver t (RRead caller) l"
    by (auto simp: checkCaller_def split: option.splits)
  show ?thesis
  proof (rule receiver_step[OF assms(1)])
    show "receiversInv ?l A" using l' r r(3)[of t] assms(2) n h by (auto simp: receiversInv_def split: if_splits)
    show "\<exists>x. chans l c = x @ chans ?l c \<and> toRead l A c = x @ toRead ?l A c" for c
      using l' h n assms(2) by (auto simp: toRead_def held_other)
  qed (use k(3) l' in auto)
qed

lemma recv_header:
  assumes "linkInv l A" "receivers l t = RRead caller" "readHeader t caller l = Some (e, l')"
  shows "\<exists>A'. mailStep e A = Some A' \<and> linkInv l' A'"
proof -
  note k = linkInvE[OF assms(1)]
  note r = receiversInvE[OF k(2)]
  have n: "datReadLock l c \<noteq> Some t" for c using r(2)[of t c] assms(2) by simp
  have h: "ctlReadLock l = Some t" using r(1)[of t] assms(2) by simp
  have tk: "taken A t = None" using r(3)[of t] assms(2) by simp
  show ?thesis
  proof (cases "control l")
    case Nil
    then have l': "e = Tau" "l' = setReceiver t RIdle (l\<lparr>ctlReadLock := None\<rparr>)"
      using assms(3) by (auto simp: readHeader_def split: if_splits)
    have "linkInv l' A"
    proof (rule receiver_step[OF assms(1)])
      show "receiversInv l' A" using l' r r(3)[of t] assms(2) n h by (auto simp: receiversInv_def split: if_splits)
      show "\<exists>x. chans l c = x @ chans l' c \<and> toRead l A c = x @ toRead l' A c" for c
        using l' h n assms(2) by (auto simp: toRead_def held_other)
    qed (use k(3) l' in auto)
    then show ?thesis by (simp add: l' mailStep_def)
  next
    case (Cons m ms)
    then obtain b q where q: "queue A = (m, b) # q" "ms = map fst q"
      using k(3) by (cases "queue A") auto
    have l': "e = Popped t m" "l' = setReceiver t (RLock m) (l\<lparr>control := ms\<rparr>)"
      using assms(3) Cons by (auto simp: readHeader_def)
    have ok: "messageOk (m, b)" using k(4) q(1) by simp
    let ?A = "A\<lparr>queue := q, taken := (taken A)(t := Some (m, b))\<rparr>"
    have "linkInv l' ?A"
    proof (rule receiver_step[OF assms(1)])
      show "receiversInv l' ?A" using l' r n h ok by (auto simp: receiversInv_def split: if_splits)
      show "\<exists>x. chans l c = x @ chans l' c \<and> toRead l A c = x @ toRead l' ?A c" for c
        using l' h n assms(2) q by (auto simp: toRead_def held_other)
    qed (use q l' in auto)
    then show ?thesis using q tk by (simp add: l' mailStep_def)
  qed
qed

lemma recv_lock:
  assumes "linkInv l A" "receivers l t = RLock m" "lockData t m l = Some (e, l')"
  shows "e = Tau \<and> linkInv l' A"
proof -
  note k = linkInvE[OF assms(1)]
  note r = receiversInvE[OF k(2)]
  have n: "datReadLock l c \<noteq> Some t" for c using r(2)[of t c] assms(2) by simp
  have h: "ctlReadLock l = Some t" using r(1)[of t] assms(2) by simp
  obtain b where b: "taken A t = Some (m, b)" "messageOk (m, b)" using r(3)[of t] assms(2) by auto
  define c where "c = unat (mchan m)"
  have e: "e = Tau" using assms(3) by (auto simp: lockData_def Let_def split: if_splits)
  have "linkInv l' A"
  proof (cases "mlen m > 0")
    case True
    then have l': "datReadLock l c = None" "l' = setReceiver t (RBody m [])
        (addPend (dstptr m) 1 (l\<lparr>ctlReadLock := None\<rparr>)\<lparr>datReadLock := (datReadLock l)(c := Some t)\<rparr>)"
      using assms(3) b(2) by (auto simp: lockData_def messageOk_def c_def Let_def split: if_splits)
    show ?thesis
    proof (rule receiver_step[OF assms(1)])
      show "receiversInv l' A"
        using l' r n h b True by (auto simp: receiversInv_def c_def split: if_splits)
      show "\<exists>x. chans l c' = x @ chans l' c' \<and> toRead l A c' = x @ toRead l' A c'" for c'
        using l' h n assms(2) b by (auto simp: toRead_def held_other c_def)
    qed (use k(3) l' in auto)
  next
    case False
    then have m: "mlen m = 0" using word_gt_0[of "mlen m"] by auto
    then have l': "l' = setReceiver t (RBody m []) (addPend (dstptr m) 1 (l\<lparr>ctlReadLock := None\<rparr>))" "b = []"
      using assms(3) b(2) by (auto simp: lockData_def messageOk_def Let_def)
    show ?thesis
    proof (rule receiver_step[OF assms(1)])
      show "receiversInv l' A"
        using l' r n h b m by (auto simp: receiversInv_def split: if_splits)
      show "\<exists>x. chans l c' = x @ chans l' c' \<and> toRead l A c' = x @ toRead l' A c'" for c'
        using l' h n assms(2) b by (auto simp: toRead_def held_other)
    qed (use k(3) l' in auto)
  qed
  then show ?thesis using e by simp
qed

lemma recv_body:
  assumes "linkInv l A" "receivers l t = RBody m got" "readBody t n m got l = Some (e, l')"
  shows "\<exists>A'. mailStep e A = Some A' \<and> linkInv l' A'"
proof -
  note k = linkInvE[OF assms(1)]
  note r = receiversInvE[OF k(2)]
  define c where "c = unat (mchan m)"
  have d: "datReadLock l c' \<noteq> Some t" if "c' \<noteq> c" for c'
    using r(2)[of t c'] assms(2) that by (auto simp: c_def)
  have h: "ctlReadLock l \<noteq> Some t" using r(1)[of t] assms(2) by simp
  have du: "c' = c \<and> mlen m > 0" if "datReadLock l c' = Some t" for c'
    using r(2)[of t c'] assms(2) that by (simp add: c_def)
  obtain rest where b: "taken A t = Some (m, got @ rest)" "messageOk (m, got @ rest)"
    using r(3)[of t] assms(2) by auto
  have len: "length got + length rest = unat (mlen m)" using b(2) by (simp add: messageOk_def)
  have known: "(\<not> knownType m \<or> \<not> readsBody m \<and> mlen m > 0) = False" using b(2) by (auto simp: messageOk_def)
  show ?thesis
  proof (cases "length got = unat (mlen m)")
    case True
    then have rest: "rest = []" using len by simp
    have l': "e = Received t m got" "l' = setReceiver t (RHandle m got)
             (if mlen m > 0 then l\<lparr>datReadLock := (datReadLock l)(c := None)\<rparr> else l)"
      using assms(3) True unfolding readBody_def Let_def known if_False c_def by auto
    have dc: "datReadLock l c = (if mlen m > 0 then Some t else datReadLock l c)"
      using r(2)[of t c] assms(2) by (auto simp: c_def)
    have dn: "datReadLock l c \<noteq> Some t" if "\<not> mlen m > 0"
      using r(2)[of t c] assms(2) that by auto
    let ?A = "A\<lparr>taken := (taken A)(t := None)\<rparr>"
    have "linkInv l' ?A"
    proof (rule receiver_step[OF assms(1)])
      show "receiversInv l' ?A"
        using l' r dc dn h by (auto simp: receiversInv_def split: if_splits dest!: du)
      show "\<exists>x. chans l c' = x @ chans l' c' \<and> toRead l A c' = x @ toRead l' ?A c'" for c'
        using l' h d dc dn assms(2) b rest
        by (cases "c' = c"; cases "mlen m > 0") (simp_all add: toRead_def held_other)
    qed (use k(3) l' in auto)
    then show ?thesis using b(1) rest by (simp add: l' mailStep_def)
  next
    case False
    then have l': "e = Tau" "0 < n" "n \<le> length (chans l c)" "length got + n \<le> unat (mlen m)"
      "l' = setReceiver t (RBody m (got @ take n (chans l c)))
                (l\<lparr>chans := (chans l)(c := drop n (chans l c))\<rparr>)"
      using assms(3) False unfolding readBody_def Let_def known if_False c_def by (auto split: if_splits)
    have "mlen m > 0" using False len by (auto simp: word_gt_0)
    then have dc: "datReadLock l c = Some t" using r(2)[of t c] assms(2) by (simp add: c_def)
    have "toRead l A c = rest @ held (ctlReadLock l) (\<lambda>t. lockedBody c (receivers l t) (taken A t)) @
        bodies c (queue A)"
      using dc assms(2) b by (simp add: toRead_def)
    then have "take n (chans l c @ toWrite l c) = take n (rest @
        held (ctlReadLock l) (\<lambda>t. lockedBody c (receivers l t) (taken A t)) @ bodies c (queue A))"
      using k(5)[of c] by simp
    then have "take n (chans l c) = take n rest" using l'(3,4) len by simp
    then have rest: "rest = take n (chans l c) @ drop n rest" by simp
    have "linkInv l' A"
    proof (rule receiver_step[OF assms(1)])
      show "receiversInv l' A"
        using l' r dc h b rest len by (auto simp: receiversInv_def c_def split: if_splits dest: du)
      show "\<exists>x. chans l c' = x @ chans l' c' \<and> toRead l A c' = x @ toRead l' A c'" for c'
        using l' h d dc assms(2) b rest[symmetric]
        by (intro exI[of _ "if c' = c then take n (chans l c) else []"])
          (cases "c' = c"; simp add: toRead_def held_other)
    qed (use k(3) l' in auto)
    then show ?thesis by (simp add: l' mailStep_def)
  qed
qed

lemma recv_handle:
  assumes "linkInv l A" "receivers l t = RHandle m buf"
  shows "linkInv (setReceiver t RIdle (addPend p d l)) A" (is "linkInv ?l A")
proof -
  note k = linkInvE[OF assms(1)]
  note r = receiversInvE[OF k(2)]
  have n: "datReadLock l c \<noteq> Some t" for c using r(2)[of t c] assms(2) by simp
  have h: "ctlReadLock l \<noteq> Some t" using r(1)[of t] assms(2) by simp
  show ?thesis
  proof (rule receiver_step[OF assms(1)])
    show "receiversInv ?l A"
      using r r(3)[of t] n h assms(2) by (auto simp: receiversInv_def split: if_splits)
    show "\<exists>x. chans l c = x @ chans ?l c \<and> toRead l A c = x @ toRead ?l A c" for c
      using h n by (simp add: toRead_def held_other)
  qed (use k(3) in auto)
qed

lemma recvStep_sim:
  assumes "linkInv l A" "recvStep t n l = Some (e, l')"
  shows "\<exists>A'. mailStep e A = Some A' \<and> linkInv l' A'"
proof (cases "receivers l t")
  case (RCheck caller)
  then show ?thesis using assms recv_check[OF assms(1) RCheck] by (auto simp: recvStep_def mailStep_def)
next
  case (RRead caller)
  then have "readHeader t caller l = Some (e, l')" using assms(2) by (simp add: recvStep_def)
  from recv_header[OF assms(1) RRead this] show ?thesis .
next
  case (RLock m)
  then have "lockData t m l = Some (e, l')" using assms(2) by (simp add: recvStep_def)
  from recv_lock[OF assms(1) RLock this] show ?thesis by (simp add: mailStep_def)
next
  case (RBody m got)
  then have "readBody t n m got l = Some (e, l')" using assms(2) by (simp add: recvStep_def)
  from recv_body[OF assms(1) RBody this] show ?thesis .
next
  case (RHandle m buf)
  then show ?thesis using assms recv_handle[OF assms(1) RHandle] by (auto simp: recvStep_def mailStep_def)
qed (use assms in \<open>simp_all add: recvStep_def\<close>)

lemma linkStep_sim:
  assumes "linkInv l A" "actOk act" "linkStep headers room act l = Some (e, l')"
  shows "\<exists>A'. mailStep e A = Some A' \<and> linkInv l' A'"
proof (cases act)
  case (Send t m a b)
  then have "senders l t = SIdle" "sendOk m a b" "e = Tau" "l' = setSender t (SLock m a b) l"
    using assms(2,3) by (auto simp: linkStep_def actOk_def split: if_splits)
  then show ?thesis using send_begin[OF assms(1)] by (simp add: mailStep_def)
next
  case (SendStep t n)
  then show ?thesis using assms(3) sendStep_sim[OF assms(1)] by (simp add: linkStep_def)
next
  case (Recv t caller)
  then have "startRecv t caller l = Some (e, l')" using assms(3) by (simp add: linkStep_def)
  from recv_begin[OF assms(1) this] show ?thesis by (simp add: mailStep_def)
next
  case (RecvStep t n)
  then show ?thesis using assms(3) recvStep_sim[OF assms(1)] by (simp add: linkStep_def)
qed

lemma linkRun_sim:
  assumes "linkInv l A" "list_all actOk acts" "linkRun headers room acts l = Some (es, l')"
  shows "\<exists>A'. mailRun es A = Some A' \<and> linkInv l' A'"
  using assms
proof (induction acts arbitrary: l A es)
  case (Cons act acts)
  obtain e l1 es1 where s: "linkStep headers room act l = Some (e, l1)"
    "linkRun headers room acts l1 = Some (es1, l')" "es = e # es1"
    using Cons.prems(3) by (auto split: option.splits)
  obtain A1 where A1: "mailStep e A = Some A1" "linkInv l1 A1"
    using linkStep_sim[OF Cons.prems(1) _ s(1)] Cons.prems(2) by auto
  obtain A' where "mailRun es1 A1 = Some A'" "linkInv l' A'"
    using Cons.IH[OF A1(2) _ s(2)] Cons.prems(2) by auto
  then show ?case using A1 s(3) by auto
qed simp

section \<open>Progress\<close>












section \<open>Properties\<close>

text \<open>C39: A link delivers what was sent.  For every interleaving of threads that send and receive, with
  any division of the bodies into system calls, the events of the link are events of a mailbox: headers
  are read in the order in which they were written, and a thread that has read a header receives
  exactly the bytes that were sent with it, once.  No assertion of \<open>recv\<close> fails.\<close>

theorem link_is_a_mailbox:
  assumes "list_all actOk acts" "linkRun headers room acts (newLink connected) = Some (es, l)"
  shows "\<exists>A. mailRun es newMailbox = Some A \<and> control l = map fst (queue A) \<and> (\<forall>t. receivers l t \<noteq> RAbort)"
proof -
  obtain A where A: "mailRun es newMailbox = Some A" "linkInv l A"
    using linkRun_sim[OF linkInv_new assms] by blast
  have "receivers l t \<noteq> RAbort" for t
    using receiversInvE(3)[OF linkInvE(2)[OF A(2)], of t] by auto
  then show ?thesis using A linkInvE(3)[OF A(2)] by blast
qed


end
