(* ===== verification/LinkExamples.thy ===== *)
theory LinkExamples
  imports LinkProofs
begin

text \<open>
  Runs of a link: two threads send at the same time to two threads that receive, and a message in two
  parts whose first part is empty.
\<close>

definition exData :: generalMessage where
  "exData = mkMsg REMOTEOBJECT_DATA 7 0x10 0x20"

definition exNotify :: generalMessage where
  "exNotify = mkMsg REMOTEOBJECT_NOTIFY 1 0 0x30"

text \<open>Thread 0 sends three bytes in two parts; while it writes them, thread 1 sends a notification.
  Receiver 0 reads the first header and then waits for bytes; receiver 1 reads and handles the
  notification before the data is complete.\<close>

definition exActions :: "linkAction list" where
  "exActions =
     [Send 0 exData [1, 2] [3], Send 1 exNotify [] [],
      SendStep 0 0, SendStep 0 0, SendStep 0 0, SendStep 0 1,
      Recv 0 None, RecvStep 0 0, RecvStep 0 0, RecvStep 0 0, RecvStep 0 1,
      SendStep 1 0, SendStep 1 0, SendStep 1 0,
      Recv 1 None, RecvStep 1 0, RecvStep 1 0, RecvStep 1 0, RecvStep 1 0, RecvStep 1 0,
      SendStep 0 1, SendStep 0 1, RecvStep 0 2, SendStep 0 0, RecvStep 0 0, RecvStep 0 0]"

definition exEvents :: "linkEvent list" where
  "exEvents = (case linkRun 1 2 exActions (newLink True) of None \<Rightarrow> [] | Some r \<Rightarrow> fst r)"

definition exEnd :: link where
  "exEnd = (case linkRun 1 2 exActions (newLink True) of None \<Rightarrow> newLink True | Some r \<Rightarrow> snd r)"

lemma exLinkRun: "linkRun 1 2 exActions (newLink True) = Some (exEvents, exEnd)"
proof -
  have "linkRun 1 2 exActions (newLink True) \<noteq> None" by code_simp
  then show ?thesis by (auto simp: exEvents_def exEnd_def)
qed

lemma exEvents_eq: "filter (\<lambda>e. e \<noteq> Tau) exEvents =
   [Sent (exData\<lparr>mchan := 2, mlen := 3\<rparr>) [1, 2, 3], Popped 0 (exData\<lparr>mchan := 2, mlen := 3\<rparr>),
    Sent exNotify [], Popped 1 exNotify, Received 1 exNotify [],
    Received 0 (exData\<lparr>mchan := 2, mlen := 3\<rparr>) [1, 2, 3]]"
  by code_simp

lemma exActions_ok: "list_all actOk exActions"
  by (simp add: exActions_def actOk_def sendOk_def exData_def exNotify_def mkMsg_def knownType_def readsBody_def)

theorem link_is_a_mailbox_witness:
  "\<exists>A. mailRun exEvents newMailbox = Some A \<and> control exEnd = map fst (queue A) \<and>
     (\<forall>t. receivers exEnd t \<noteq> RAbort)"
  using link_is_a_mailbox[OF exActions_ok exLinkRun] .


text \<open>A message in two parts whose first part is empty announces the bytes of the second part and writes
  none of them: the send has ended, and the receiver waits for a byte that nobody will write.\<close>

definition exEmptyFirst :: "linkAction list" where
  "exEmptyFirst = [Send 0 exData [] [9], SendStep 0 0, SendStep 0 0, SendStep 0 0,
     Recv 0 None, RecvStep 0 0, RecvStep 0 0, RecvStep 0 0]"

lemma empty_first_part_is_lost:
  "map_option (\<lambda>r. (filter (\<lambda>e. e \<noteq> Tau) (fst r), chans (snd r) 0, senders (snd r) 0, receivers (snd r) 0,
      recvStep 0 1 (snd r) = None)) (linkRun 1 2 exEmptyFirst (newLink True)) =
   Some ([Sent (exData\<lparr>mlen := 1\<rparr>) [], Popped 0 (exData\<lparr>mlen := 1\<rparr>)], [], SIdle,
      RBody (exData\<lparr>mlen := 1\<rparr>) [], True)"
  by code_simp

end
