(* ===== verification/RemoteObjects.thy ===== *)
theory RemoteObjects
  imports LinkProofs
begin

text \<open>
  Remote objects and their garbage collection (\<open>runtime/remoteobject.*\<close>, the part of
  \<open>runtime/remotehost.cpp\<close> above the sockets, \<open>runtime/distributedgc.*\<close>).

  Two hosts, \<open>SideA\<close> and \<open>SideB\<close>, hold objects in pairs: an object created by
  \<open>createRemoteObject\<close> and its partner, which the other host makes when it handles the
  \<open>REMOTEOBJECT_CREATE\<close> message.  Each direction between the hosts is a mailbox (theory
  \<open>LinkProofs\<close>): \<open>inbox\<close> holds the messages whose header has not been read, \<open>popped\<close> those that some
  thread has read and not yet handled, in any order, because the threads that handle them run at the
  same time.  An action of the model is one handler, or one call of the program; a handler is split
  where it gives up the mutex of its object (the reply of the collector).  What the program does with
  its objects is arbitrary, but it only uses an object to which it holds a \<open>JRef\<close> or which is handling
  a message.

  \<open>oId\<close>, \<open>gSentFlush\<close>, \<open>gSentScan\<close>, \<open>gDidScan\<close>, \<open>gGotAnswer\<close> and \<open>nextId\<close> are history variables: no
  operation reads them.
\<close>

section \<open>Messages\<close>

datatype message =
    Create encPtr "64 word" "byte list" \<comment> \<open>\<open>srcptr\<close>, generator, initial data\<close>
  | CreateAck encPtr encPtr \<comment> \<open>\<open>srcptr\<close>, \<open>dstptr\<close>\<close>
  | Data encPtr encPtr "64 word" "byte list"
  | Signal encPtr encPtr
  | Broadcast encPtr encPtr
  | MarkComplete encPtr encPtr
  | Notify encPtr "64 word" \<comment> \<open>\<open>dstptr\<close>, argument; \<open>srcptr\<close> is 0\<close>

fun srcOf :: "message \<Rightarrow> encPtr" where
  "srcOf (Create s g b) = s"
| "srcOf (CreateAck s d) = s"
| "srcOf (Data s d a b) = s"
| "srcOf (Signal s d) = s"
| "srcOf (Broadcast s d) = s"
| "srcOf (MarkComplete s d) = s"
| "srcOf (Notify d a) = 0"

fun dstOf :: "message \<Rightarrow> encPtr" where
  "dstOf (Create s g b) = 0"
| "dstOf (CreateAck s d) = d"
| "dstOf (Data s d a b) = d"
| "dstOf (Signal s d) = d"
| "dstOf (Broadcast s d) = d"
| "dstOf (MarkComplete s d) = d"
| "dstOf (Notify d a) = d"

text \<open>The header and the body that the link carries.\<close>

fun header :: "message \<Rightarrow> generalMessage" where
  "header (Create s g b) = mkMsg REMOTEOBJECT_CREATE g s 0"
| "header (CreateAck s d) = mkMsg REMOTEOBJECT_CREATE_ACK 0 s d"
| "header (Data s d a b) = mkMsg REMOTEOBJECT_DATA a s d"
| "header (Signal s d) = mkMsg REMOTEOBJECT_SIGNAL 0 s d"
| "header (Broadcast s d) = mkMsg REMOTEOBJECT_BROADCAST 0 s d"
| "header (MarkComplete s d) = mkMsg REMOTEOBJECT_MARKCOMPLETE 0 s d"
| "header (Notify d a) = mkMsg REMOTEOBJECT_NOTIFY a 0 d"

fun payload :: "message \<Rightarrow> byte list" where
  "payload (Create s g b) = b"
| "payload (Data s d a b) = b"
| "payload _ = []"

text \<open>The \<open>switch\<close> of \<open>recv\<close> over the type of a header.\<close>

definition messageOf :: "generalMessage \<Rightarrow> byte list \<Rightarrow> message option" where
  "messageOf m b =
     (case msgCase (mtype m) of
        Some REMOTEOBJECT_CREATE \<Rightarrow> Some (Create (srcptr m) (marg m) b)
      | Some REMOTEOBJECT_CREATE_ACK \<Rightarrow> Some (CreateAck (srcptr m) (dstptr m))
      | Some REMOTEOBJECT_DATA \<Rightarrow> Some (Data (srcptr m) (dstptr m) (marg m) b)
      | Some REMOTEOBJECT_SIGNAL \<Rightarrow> Some (Signal (srcptr m) (dstptr m))
      | Some REMOTEOBJECT_BROADCAST \<Rightarrow> Some (Broadcast (srcptr m) (dstptr m))
      | Some REMOTEOBJECT_MARKCOMPLETE \<Rightarrow> Some (MarkComplete (srcptr m) (dstptr m))
      | Some REMOTEOBJECT_NOTIFY \<Rightarrow> Some (Notify (dstptr m) (marg m))
      | _ \<Rightarrow> None)"

text \<open>An array of pointers as bytes, lowest byte first.\<close>

fun ptrBytes :: "nat \<Rightarrow> encPtr \<Rightarrow> byte list" where
  "ptrBytes 0 p = []"
| "ptrBytes (Suc n) p = ucast p # ptrBytes n (drop_bit 8 p)"

definition encodePtrs :: "encPtr list \<Rightarrow> byte list" where
  "encodePtrs ps = concat (map (ptrBytes 8) ps)"

fun bytesPtr :: "byte list \<Rightarrow> encPtr" where
  "bytesPtr [] = 0"
| "bytesPtr (b # bs) = or (ucast b) (push_bit 8 (bytesPtr bs))"

fun decodePtrs :: "byte list \<Rightarrow> encPtr list" where
  "decodePtrs (b0 # b1 # b2 # b3 # b4 # b5 # b6 # b7 # bs) =
     bytesPtr [b0, b1, b2, b3, b4, b5, b6, b7] # decodePtrs bs"
| "decodePtrs _ = []"

section \<open>The state\<close>

datatype side = SideA | SideB

fun other :: "side \<Rightarrow> side" where
  "other SideA = SideB"
| "other SideB = SideA"

text \<open>The members of \<open>DistributedGC\<close>.\<close>

record gcData =
  gGen :: nat
  gObjects :: "encPtr list"
  gMaybe :: "encPtr list"
  gSentFlush :: bool
  gSentScan :: bool
  gDidScan :: bool
  gGotAnswer :: bool

text \<open>\<open>oRefs\<close> counts the \<open>JRef\<close>s of the program, \<open>oListed\<close> is the one in a list of the host or of a
  collector; a thread that handles a message holds one more for as long as \<open>_pendingMessages\<close> counts
  the message.\<close>

record robj =
  oInitiator :: bool
  oCreated :: bool
  oComplete :: bool
  oSkipAck :: bool
  oRemote :: encPtr
  oGen :: nat
  oPending :: nat
  oRefs :: nat
  oListed :: bool
  oGc :: "gcData option"
  oId :: nat

record world =
  objs :: "side \<Rightarrow> encPtr \<Rightarrow> robj option"
  curGen :: "side \<Rightarrow> nat"
  olist :: "side \<Rightarrow> encPtr list"
  lastLive :: "side \<Rightarrow> nat"
  shouldGc :: "side \<Rightarrow> bool"
  inbox :: "side \<Rightarrow> message list"
  popped :: "side \<Rightarrow> message list"
  replies :: "side \<Rightarrow> (encPtr \<times> encPtr list) list"
  nextId :: nat
  gcText :: "64 word" \<comment> \<open>\<open>EncodeTextPtr(&DistributedGC::gen)\<close>\<close>
  gcFreq :: int \<comment> \<open>\<open>DISTRIBUTED_GC_FREQ\<close>, chosen when the program is built\<close>

definition newWorld :: "(side \<Rightarrow> bool) \<Rightarrow> 64 word \<Rightarrow> int \<Rightarrow> world" where
  "newWorld should text freq =
     \<lparr>objs = \<lambda>_ _. None, curGen = \<lambda>_. 0, olist = \<lambda>_. [], lastLive = \<lambda>_. 0, shouldGc = should,
      inbox = \<lambda>_. [], popped = \<lambda>_. [], replies = \<lambda>_. [], nextId = 0, gcText = text, gcFreq = freq\<rparr>"

definition newObj :: "nat \<Rightarrow> gcData option \<Rightarrow> robj" where
  "newObj i gc =
     \<lparr>oInitiator = False, oCreated = False, oComplete = False, oSkipAck = False, oRemote = 0, oGen = 0,
      oPending = 0, oRefs = 0, oListed = False, oGc = gc, oId = i\<rparr>"

definition newGc :: gcData where
  "newGc = \<lparr>gGen = 0, gObjects = [], gMaybe = [], gSentFlush = False, gSentScan = False, gDidScan = False, gGotAnswer = False\<rparr>"

definition FLUSH_MSGS :: "64 word" where "FLUSH_MSGS = 0"
definition DO_SCAN :: "64 word" where "DO_SCAN = 1"
definition ABORT_GC :: "64 word" where "ABORT_GC = 2"

section \<open>Access to objects\<close>

definition deref :: "side \<Rightarrow> encPtr \<Rightarrow> world \<Rightarrow> robj res" where
  "deref h p w = (if p = 0 then Inl NullDeref
     else case objs w h p of None \<Rightarrow> Inl NullDeref | Some x \<Rightarrow> Inr x)"

definition setObj :: "side \<Rightarrow> encPtr \<Rightarrow> robj option \<Rightarrow> world \<Rightarrow> world" where
  "setObj h p x w = w\<lparr>objs := (objs w)(h := (objs w h)(p := x))\<rparr>"

definition updObj :: "side \<Rightarrow> encPtr \<Rightarrow> (robj \<Rightarrow> robj) \<Rightarrow> world \<Rightarrow> world" where
  "updObj h p f w = setObj h p (map_option f (objs w h p)) w"

definition updGc :: "side \<Rightarrow> encPtr \<Rightarrow> (gcData \<Rightarrow> gcData) \<Rightarrow> world \<Rightarrow> world" where
  "updGc h p f w = updObj h p (\<lambda>x. x\<lparr>oGc := map_option f (oGc x)\<rparr>) w"

text \<open>The last \<open>JRef\<close> has gone: the object is deleted.\<close>

definition settle :: "side \<Rightarrow> encPtr \<Rightarrow> world \<Rightarrow> world" where
  "settle h p w =
     (case objs w h p of
        None \<Rightarrow> w
      | Some x \<Rightarrow> if \<not> oListed x \<and> oRefs x = 0 \<and> oPending x = 0 then setObj h p None w else w)"

definition refCount :: "robj \<Rightarrow> nat" where
  "refCount x = (if oListed x then 1 else 0) + oRefs x + oPending x"

definition maybeDeletable :: "nat \<Rightarrow> robj \<Rightarrow> bool" where
  "maybeDeletable gen x \<longleftrightarrow> oCreated x \<and> refCount x = 1 \<and> oGen x < gen \<and> oPending x = 0"

section \<open>Sending\<close>

definition post :: "side \<Rightarrow> message \<Rightarrow> world \<Rightarrow> world res" where
  "post h m w =
     (let w1 = w\<lparr>inbox := (inbox w)(other h := inbox w (other h) @ [m])\<rparr>
      in if srcOf m = 0 then Inr w1
         else rbind (deref h (srcOf m) w1)
           (\<lambda>x. Inr (updObj h (srcOf m) (\<lambda>x. x\<lparr>oGen := curGen w h\<rparr>) w1)))"

definition remoteNotify :: "side \<Rightarrow> encPtr \<Rightarrow> 64 word \<Rightarrow> world \<Rightarrow> world res" where
  "remoteNotify h p arg w = rbind (deref h p w) (\<lambda>x. post h (Notify (oRemote x) arg) w)"

definition allocObj :: "side \<Rightarrow> encPtr \<Rightarrow> robj \<Rightarrow> world \<Rightarrow> world" where
  "allocObj h p x w = setObj h p (Some x) w"

definition newCollector :: "side \<Rightarrow> encPtr \<Rightarrow> world \<Rightarrow> world" where
  "newCollector h q w = (allocObj h q (newObj (nextId w) (Some newGc)) w)\<lparr>nextId := nextId w + 1\<rparr>"

text \<open>\<open>_objects.size() - _gcLastLiveObjCount\<close> is computed in \<open>size_t\<close>.\<close>

definition overFreq :: "nat \<Rightarrow> nat \<Rightarrow> int \<Rightarrow> bool" where
  "overFreq n live freq = ((int n - int live) mod 2 ^ 64 > freq)"

definition pushObject :: "side \<Rightarrow> encPtr \<Rightarrow> world \<Rightarrow> world" where
  "pushObject h p w =
     updObj h p (\<lambda>x. x\<lparr>oListed := True\<rparr>) (w\<lparr>olist := (olist w)(h := olist w h @ [p])\<rparr>)"

text \<open>\<open>addObject\<close> may spawn a collector, whose \<open>createRemoteObject\<close> calls \<open>addObject\<close> again; the list
  holds the addresses that the allocator returns for the collectors.\<close>

fun addObject :: "side \<Rightarrow> encPtr \<Rightarrow> encPtr list \<Rightarrow> world \<Rightarrow> world res" where
  "addObject h p qs w =
     (let w1 = pushObject h p w
      in if shouldGc w h \<and> overFreq (length (olist w1 h)) (lastLive w h) (gcFreq w)
         then (case qs of
                 [] \<Rightarrow> Inl Diverges
               | q # qs' \<Rightarrow>
                   rbind (post h (Create q (gcText w) [])
                      (updObj h q (\<lambda>x. x\<lparr>oInitiator := True\<rparr>)
                        (newCollector h q (w1\<lparr>lastLive := (lastLive w1)(h := length (olist w1 h))\<rparr>))))
                     (\<lambda>w2. addObject h q qs' w2))
         else Inr w1)"

declare addObject.simps [simp del]

definition createRemoteObject :: "side \<Rightarrow> encPtr \<Rightarrow> 64 word \<Rightarrow> byte list \<Rightarrow> encPtr list \<Rightarrow> world \<Rightarrow> world res" where
  "createRemoteObject h p gen data qs w =
     rbind (post h (Create p gen data) (updObj h p (\<lambda>x. x\<lparr>oInitiator := True\<rparr>) w)) (addObject h p qs)"

datatype sendKind = SendData "64 word" "byte list" | SendSignal | SendBroadcast | SendMarkComplete

fun sendMessage :: "sendKind \<Rightarrow> encPtr \<Rightarrow> encPtr \<Rightarrow> message" where
  "sendMessage (SendData arg b) s d = Data s d arg b"
| "sendMessage SendSignal s d = Signal s d"
| "sendMessage SendBroadcast s d = Broadcast s d"
| "sendMessage SendMarkComplete s d = MarkComplete s d"

text \<open>\<open>send\<close>, \<open>remoteSignal\<close>, \<open>remoteBroadcast\<close>, \<open>markComplete\<close>; \<open>waitUntilCreated\<close> is a condition of the
  action.\<close>

definition sendObj :: "side \<Rightarrow> encPtr \<Rightarrow> sendKind \<Rightarrow> world \<Rightarrow> world res" where
  "sendObj h p k w =
     rbind (deref h p w) (\<lambda>x. rbind (post h (sendMessage k p (oRemote x)) w)
       (\<lambda>w1. Inr (if k = SendMarkComplete then updObj h p (\<lambda>x. x\<lparr>oComplete := True\<rparr>) w1 else w1)))"

section \<open>The collector\<close>

definition gcOf :: "side \<Rightarrow> encPtr \<Rightarrow> world \<Rightarrow> gcData option" where
  "gcOf h p w = (case objs w h p of None \<Rightarrow> None | Some x \<Rightarrow> oGc x)"

definition swapObjects :: "side \<Rightarrow> encPtr \<Rightarrow> gcData \<Rightarrow> world \<Rightarrow> world" where
  "swapObjects h g d w =
     updGc h g (\<lambda>d. d\<lparr>gGen := curGen w h + 1, gObjects := olist w h, gSentFlush := True\<rparr>)
       (w\<lparr>curGen := (curGen w)(h := curGen w h + 1), olist := (olist w)(h := gObjects d),
          lastLive := (lastLive w)(h := length (gObjects d))\<rparr>)"

text \<open>When the list of the host is empty the two vectors are swapped, so that \<open>obj.size()\<close> is 0 when it
  is added to \<open>_gcLastLiveObjCount\<close>.\<close>

definition readdObjects :: "side \<Rightarrow> encPtr list \<Rightarrow> world \<Rightarrow> world" where
  "readdObjects h ps w =
     (if ps = [] then w
      else if olist w h = [] then w\<lparr>olist := (olist w)(h := ps), lastLive := (lastLive w)(h := lastLive w h + 0)\<rparr>
      else w\<lparr>olist := (olist w)(h := olist w h @ ps), lastLive := (lastLive w)(h := lastLive w h + length ps)\<rparr>)"

definition gcOnCreated :: "side \<Rightarrow> encPtr \<Rightarrow> gcData \<Rightarrow> world \<Rightarrow> world res" where
  "gcOnCreated h g d w = remoteNotify h g FLUSH_MSGS (swapObjects h g d w)"

definition finishup :: "side \<Rightarrow> encPtr \<Rightarrow> gcData \<Rightarrow> world \<Rightarrow> world" where
  "finishup h g d w =
     updObj h g (\<lambda>x. x\<lparr>oComplete := True, oGc := map_option (\<lambda>d. d\<lparr>gObjects := [], gMaybe := []\<rparr>) (oGc x)\<rparr>)
       (readdObjects h (gMaybe d) (readdObjects h (gObjects d) w))"

definition canDeleteLocal :: "side \<Rightarrow> gcData \<Rightarrow> world \<Rightarrow> encPtr \<Rightarrow> bool" where
  "canDeleteLocal h d w p = (case objs w h p of None \<Rightarrow> False | Some x \<Rightarrow> maybeDeletable (gGen d) x)"

definition remoteOf :: "side \<Rightarrow> world \<Rightarrow> encPtr \<Rightarrow> encPtr" where
  "remoteOf h w p = (case objs w h p of None \<Rightarrow> 0 | Some x \<Rightarrow> oRemote x)"

definition gcScan :: "side \<Rightarrow> gcData \<Rightarrow> world \<Rightarrow> gcData" where
  "gcScan h d w = d\<lparr>gMaybe := gMaybe d @ filter (canDeleteLocal h d w) (gObjects d),
     gObjects := filter (\<lambda>p. \<not> canDeleteLocal h d w p) (gObjects d), gDidScan := True\<rparr>"

definition scanResponse :: "side \<Rightarrow> gcData \<Rightarrow> world \<Rightarrow> encPtr list" where
  "scanResponse h d w = map (remoteOf h w) (filter (canDeleteLocal h d w) (gObjects d))"

text \<open>The handler either ends (and the message is no longer pending) or goes on to send the response.\<close>

definition gcOnNotify :: "side \<Rightarrow> encPtr \<Rightarrow> gcData \<Rightarrow> 64 word \<Rightarrow> world \<Rightarrow> (bool \<times> world) res" where
  "gcOnNotify h g d stage w =
     (if stage = FLUSH_MSGS then
        rmap (\<lambda>w1. (True, w1)) (remoteNotify h g DO_SCAN (updGc h g (\<lambda>d. d\<lparr>gSentScan := True\<rparr>) w))
      else if stage = DO_SCAN then
        (let d1 = gcScan h d w; w1 = updGc h g (\<lambda>_. d1) w; response = scanResponse h d w
         in if response \<noteq> []
            then Inr (False, w1\<lparr>replies := (replies w1)(h := replies w1 h @ [(g, response)])\<rparr>)
            else rmap (\<lambda>w2. (True, finishup h g d1 w2)) (remoteNotify h g ABORT_GC w1))
      else if stage = ABORT_GC then
        Inr (True, finishup h g d (updGc h g (\<lambda>d. d\<lparr>gGotAnswer := True\<rparr>) w))
      else Inl NotImplemented)"

definition dropObj :: "side \<Rightarrow> encPtr \<Rightarrow> world \<Rightarrow> world" where
  "dropObj h p w = settle h p (updObj h p (\<lambda>x. x\<lparr>oListed := False\<rparr>) w)"

definition gcOnRecv :: "side \<Rightarrow> encPtr \<Rightarrow> gcData \<Rightarrow> byte list \<Rightarrow> world \<Rightarrow> world" where
  "gcOnRecv h g d b w =
     (let remoteDead = set (decodePtrs b);
          d1 = d\<lparr>gObjects := gObjects d @ filter (\<lambda>p. p \<notin> remoteDead) (gMaybe d), gMaybe := [], gGotAnswer := True\<rparr>;
          w1 = fold (dropObj h) (filter (\<lambda>p. p \<in> remoteDead) (gMaybe d)) w
      in finishup h g d1 (updGc h g (\<lambda>_. d1) w1))"

section \<open>Receiving\<close>

definition pop :: "side \<Rightarrow> world \<Rightarrow> world res" where
  "pop h w =
     (let m = hd (inbox w h);
          w1 = w\<lparr>inbox := (inbox w)(h := tl (inbox w h)), popped := (popped w)(h := popped w h @ [m])\<rparr>
      in if dstOf m = 0 then Inr w1
         else rbind (deref h (dstOf m) w1)
           (\<lambda>x. Inr (updObj h (dstOf m) (\<lambda>x. x\<lparr>oPending := oPending x + 1, oGen := curGen w h\<rparr>) w1)))"

definition unpend :: "side \<Rightarrow> encPtr \<Rightarrow> world \<Rightarrow> world" where
  "unpend h p w = settle h p (updObj h p (\<lambda>x. x\<lparr>oPending := oPending x - 1\<rparr>) w)"

text \<open>\<open>if(!obj->isCreated()) ...\<close>\<close>

definition markCreated :: "side \<Rightarrow> encPtr \<Rightarrow> encPtr \<Rightarrow> robj \<Rightarrow> world \<Rightarrow> world res" where
  "markCreated h p src x w =
     (if oCreated x then Inr w
      else (let w1 = updObj h p (\<lambda>x. x\<lparr>oRemote := src, oCreated := True\<rparr>) w
            in case oGc x of None \<Rightarrow> Inr w1 | Some d \<Rightarrow> gcOnCreated h p d w1))"

definition onCreate :: "side \<Rightarrow> encPtr \<Rightarrow> 64 word \<Rightarrow> encPtr \<Rightarrow> bool \<Rightarrow> nat \<Rightarrow> encPtr list \<Rightarrow> world \<Rightarrow> world res" where
  "onCreate h src gen p skip keep qs w =
     (let gc = (if gen = gcText w then Some newGc else None);
          i = (case objs w (other h) src of None \<Rightarrow> 0 | Some y \<Rightarrow> oId y);
          x = (newObj i gc)\<lparr>oPending := 1, oGen := curGen w h, oRemote := src, oCreated := True,
            oSkipAck := skip, oRefs := (if gc = None then keep else 0)\<rparr>
      in rbind (if skip then Inr (allocObj h p x w) else post h (CreateAck p src) (allocObj h p x w))
        (\<lambda>w1. rbind (case gc of None \<Rightarrow> Inr w1 | Some d \<Rightarrow> gcOnCreated h p d w1)
          (\<lambda>w2. rmap (unpend h p) (addObject h p qs w2))))"

text \<open>The message at position \<open>i\<close> of those that were read is handled.  For a \<open>Create\<close>, \<open>p\<close> is the address
  of the new object, \<open>skip\<close> says that its class skips the acknowledgement and \<open>keep\<close> how many \<open>JRef\<close>s its
  \<open>onRecvInitial\<close> keeps.\<close>

definition handle :: "side \<Rightarrow> nat \<Rightarrow> encPtr \<Rightarrow> bool \<Rightarrow> nat \<Rightarrow> encPtr list \<Rightarrow> world \<Rightarrow> world res" where
  "handle h i p skip keep qs w =
     (let m = popped w h ! i;
          w0 = w\<lparr>popped := (popped w)(h := take i (popped w h) @ drop (Suc i) (popped w h))\<rparr>
      in case m of
           Create src gen b \<Rightarrow> onCreate h src gen p skip keep qs w0
         | _ \<Rightarrow>
           rbind (deref h (dstOf m) w0) (\<lambda>x0.
           rbind (markCreated h (dstOf m) (srcOf m) x0 w0) (\<lambda>w1.
           rbind (case (m, gcOf h (dstOf m) w1) of
                    (Data s d a b, Some gd) \<Rightarrow> Inr (True, gcOnRecv h d gd b w1)
                  | (Notify d a, Some gd) \<Rightarrow> gcOnNotify h d gd a w1
                  | (MarkComplete s d, _) \<Rightarrow> Inr (True, updObj h d (\<lambda>x. x\<lparr>oComplete := True\<rparr>) w1)
                  | _ \<Rightarrow> Inr (True, w1)) (\<lambda>r.
           Inr (if fst r then unpend h (dstOf m) (snd r) else snd r)))))"

definition reply :: "side \<Rightarrow> nat \<Rightarrow> world \<Rightarrow> world res" where
  "reply h j w =
     (let r = replies w h ! j;
          w0 = w\<lparr>replies := (replies w)(h := take j (replies w h) @ drop (Suc j) (replies w h))\<rparr>
      in rbind (deref h (fst r) w0) (\<lambda>x.
         rmap (unpend h (fst r)) (post h (Data (fst r) (oRemote x) 0 (encodePtrs (snd r))) w0)))"

section \<open>Actions\<close>

datatype action =
    New side encPtr "64 word" "byte list" "encPtr list" \<comment> \<open>the program creates an object\<close>
  | SendMsg side encPtr sendKind
  | TakeRef side encPtr
  | DropRef side encPtr
  | Pop side
  | Handle side nat encPtr bool nat "encPtr list"
  | Reply side nat

fun act :: "action \<Rightarrow> world \<Rightarrow> world res" where
  "act (New h p gen b qs) w =
     createRemoteObject h p gen b qs
       ((allocObj h p ((newObj (nextId w) None)\<lparr>oRefs := 1\<rparr>) w)\<lparr>nextId := nextId w + 1\<rparr>)"
| "act (SendMsg h p k) w = sendObj h p k w"
| "act (TakeRef h p) w = Inr (updObj h p (\<lambda>x. x\<lparr>oRefs := oRefs x + 1\<rparr>) w)"
| "act (DropRef h p) w = Inr (settle h p (updObj h p (\<lambda>x. x\<lparr>oRefs := oRefs x - 1\<rparr>) w))"
| "act (Pop h) w = pop h w"
| "act (Handle h i p skip keep qs) w = handle h i p skip keep qs w"
| "act (Reply h j) w = reply h j w"

definition fresh :: "side \<Rightarrow> encPtr \<Rightarrow> world \<Rightarrow> bool" where
  "fresh h p w \<longleftrightarrow> p \<noteq> 0 \<and> objs w h p = None"

definition allocOk :: "side \<Rightarrow> encPtr list \<Rightarrow> world \<Rightarrow> bool" where
  "allocOk h ps w \<longleftrightarrow> distinct ps \<and> list_all (\<lambda>p. fresh h p w) ps"

text \<open>The program has this object, and is not the collector.\<close>

definition inUse :: "side \<Rightarrow> encPtr \<Rightarrow> world \<Rightarrow> bool" where
  "inUse h p w = (case objs w h p of None \<Rightarrow> False
     | Some x \<Rightarrow> p \<noteq> 0 \<and> oGc x = None \<and> (oRefs x > 0 \<or> oPending x > 0))"

definition isCreatedAt :: "side \<Rightarrow> encPtr \<Rightarrow> world \<Rightarrow> bool" where
  "isCreatedAt h p w = (case objs w h p of None \<Rightarrow> False | Some x \<Rightarrow> oCreated x)"

fun enabled :: "action \<Rightarrow> world \<Rightarrow> bool" where
  "enabled (New h p gen b qs) w = (allocOk h (p # qs) w \<and> qs \<noteq> [] \<and> gen \<noteq> gcText w)"
| "enabled (SendMsg h p k) w = (inUse h p w \<and> isCreatedAt h p w)"
| "enabled (TakeRef h p) w = inUse h p w"
| "enabled (DropRef h p) w = (case objs w h p of None \<Rightarrow> False | Some x \<Rightarrow> oRefs x > 0)"
| "enabled (Pop h) w = (inbox w h \<noteq> [])"
| "enabled (Handle h i p skip keep qs) w = (i < length (popped w h) \<and> allocOk h (p # qs) w \<and> qs \<noteq> [])"
| "enabled (Reply h j) w = (j < length (replies w h))"

end
