(* ===== verification/GcView.thy ===== *)
theory GcView
  imports RemoteObjects
begin

text \<open>
  The collector, seen from its correctness argument.

  \<open>view K w\<close> lists for every object the facts that the argument is about, one function for each, together
  with the messages; \<open>K\<close> holds the messages that are being handled.  The operations of theory
  \<open>RemoteObjects\<close> change a view by a few updates.  The invariant is stated on views, one definition for
  each concern.

  \<open>orderly\<close> is what the argument asks of a run beyond what the code ensures: a notification does not
  overtake the acknowledgement of the creation, and a collector that a later collector finds dead has ended
  its protocol.  Both fail only when a handling thread is delayed for long; see the findings of the
  manifest.
\<close>

section \<open>Orderly runs\<close>

definition noMessages :: "side \<Rightarrow> encPtr \<Rightarrow> world \<Rightarrow> bool" where
  "noMessages h p w \<longleftrightarrow> list_all (\<lambda>m. dstOf m \<noteq> p) (inbox w h @ popped w h) \<and>
     list_all (\<lambda>r. fst r \<noteq> p) (replies w h)"

definition protocolOver :: "side \<Rightarrow> encPtr \<Rightarrow> world \<Rightarrow> bool" where
  "protocolOver h p w \<longleftrightarrow> noMessages h p w \<and>
     (case objs w h p of None \<Rightarrow> True | Some x \<Rightarrow> oComplete x)"

definition overForBoth :: "side \<Rightarrow> encPtr \<Rightarrow> world \<Rightarrow> bool" where
  "overForBoth h p w \<longleftrightarrow> protocolOver h p w \<and> protocolOver (other h) (remoteOf h w p) w"

definition orderlyNotify :: "side \<Rightarrow> encPtr \<Rightarrow> 64 word \<Rightarrow> world \<Rightarrow> bool" where
  "orderlyNotify h d a w \<longleftrightarrow> isCreatedAt h d w \<and>
     (a = DO_SCAN \<longrightarrow>
       (case gcOf h d w of
          None \<Rightarrow> True
        | Some gd \<Rightarrow> list_all (\<lambda>q. canDeleteLocal h gd w q \<and> gcOf h q w \<noteq> None \<longrightarrow> overForBoth h q w) (gObjects gd)))"

fun orderly :: "action \<Rightarrow> world \<Rightarrow> bool" where
  "orderly (Handle h i p skip keep qs) w =
     (case popped w h ! i of Notify d a \<Rightarrow> orderlyNotify h d a w | _ \<Rightarrow> True)"
| "orderly _ w = True"

section \<open>Views\<close>

lemma other_simps [simp]: "other (other h) = h" "other h \<noteq> h" "h \<noteq> other h"
  by (cases h; simp)+

lemma side_cases: "h' = h \<or> h' = other h"
  by (cases h; cases h') simp_all

definition upd2 :: "('a \<Rightarrow> 'b \<Rightarrow> 'c) \<Rightarrow> 'a \<Rightarrow> 'b \<Rightarrow> 'c \<Rightarrow> 'a \<Rightarrow> 'b \<Rightarrow> 'c" where
  "upd2 f a b x = f(a := (f a)(b := x))"

lemma upd2_apply [simp]: "upd2 f a b x a' b' = (if a' = a \<and> b' = b then x else f a' b')"
  by (simp add: upd2_def)

lemma upd2_same [simp]: "upd2 f a b (f a b) = f"
  by (simp add: upd2_def)

record gview =
  vId :: "side \<Rightarrow> encPtr \<Rightarrow> nat option"
  vCreated :: "side \<Rightarrow> encPtr \<Rightarrow> bool"
  vRemote :: "side \<Rightarrow> encPtr \<Rightarrow> encPtr"
  vGen :: "side \<Rightarrow> encPtr \<Rightarrow> nat"
  vPend :: "side \<Rightarrow> encPtr \<Rightarrow> nat"
  vRefs :: "side \<Rightarrow> encPtr \<Rightarrow> nat"
  vGc :: "side \<Rightarrow> encPtr \<Rightarrow> gcData option"
  vComplete :: "side \<Rightarrow> encPtr \<Rightarrow> bool"
  vCur :: "side \<Rightarrow> nat"
  vList :: "side \<Rightarrow> encPtr list"
  vInbox :: "side \<Rightarrow> message list"
  vPopped :: "side \<Rightarrow> message list"
  vReplies :: "side \<Rightarrow> (encPtr \<times> encPtr list) list"
  vNext :: nat
  vText :: "64 word"

definition fld :: "(robj \<Rightarrow> 'a) \<Rightarrow> 'a \<Rightarrow> world \<Rightarrow> side \<Rightarrow> encPtr \<Rightarrow> 'a" where
  "fld f z w h p = (case objs w h p of None \<Rightarrow> z | Some x \<Rightarrow> f x)"

text \<open>The messages being handled count as read.\<close>

definition view :: "(side \<Rightarrow> message list) \<Rightarrow> world \<Rightarrow> gview" where
  "view K w =
     \<lparr>vId = fld (\<lambda>x. Some (oId x)) None w, vCreated = fld oCreated False w, vRemote = fld oRemote 0 w,
      vGen = fld oGen 0 w, vPend = fld oPending 0 w, vRefs = fld oRefs 0 w, vGc = fld oGc None w,
      vComplete = fld oComplete False w, vCur = curGen w, vList = olist w, vInbox = inbox w,
      vPopped = (\<lambda>h. popped w h @ K h), vReplies = replies w, vNext = nextId w, vText = gcText w\<rparr>"

section \<open>The invariant\<close>

definition vMsgs :: "gview \<Rightarrow> side \<Rightarrow> message list" where
  "vMsgs v h = vInbox v h @ vPopped v h"

definition cnt :: "('m \<Rightarrow> bool) \<Rightarrow> 'm list \<Rightarrow> nat" where
  "cnt P xs = length (filter P xs)"

lemma cnt_simps [simp]:
  "cnt P [] = 0" "cnt P (x # xs) = of_bool (P x) + cnt P xs" "cnt P (xs @ ys) = cnt P xs + cnt P ys"
  by (simp_all add: cnt_def)

lemma cnt_0_iff: "cnt P xs = 0 \<longleftrightarrow> (\<forall>x \<in> set xs. \<not> P x)"
  by (simp add: cnt_def filter_empty_conv)

text \<open>Two objects that were made for each other.\<close>

definition partner :: "gview \<Rightarrow> side \<Rightarrow> encPtr \<Rightarrow> encPtr \<Rightarrow> bool" where
  "partner v h X Y \<longleftrightarrow> vId v h X \<noteq> None \<and> vId v (other h) Y = vId v h X"

definition idsInv :: "gview \<Rightarrow> bool" where
  "idsInv v \<longleftrightarrow> (\<forall>h. vId v h 0 = None) \<and> (\<forall>h X i. vId v h X = Some i \<longrightarrow> i < vNext v) \<and>
     (\<forall>h X X'. vId v h X = vId v h X' \<longrightarrow> vId v h X \<noteq> None \<longrightarrow> X = X') \<and>
     (\<forall>h X. vId v h X = None \<longrightarrow> vGc v h X = None \<and> \<not> vCreated v h X) \<and>
     (\<forall>h X Y. partner v h X Y \<longrightarrow> (vGc v h X = None) = (vGc v (other h) Y = None))"

definition pairInv :: "gview \<Rightarrow> bool" where
  "pairInv v \<longleftrightarrow> (\<forall>h X Y. partner v h X Y \<longrightarrow> vCreated v h X \<longrightarrow> vRemote v h X = Y)"

fun createOf :: "encPtr \<Rightarrow> message \<Rightarrow> bool" where
  "createOf X (Create s g b) = (s = X)"
| "createOf X _ = False"

definition createInv :: "gview \<Rightarrow> bool" where
  "createInv v \<longleftrightarrow>
     (\<forall>h X g b. Create X g b \<in> set (vMsgs v h) \<longrightarrow> vId v (other h) X \<noteq> None \<and> \<not> vCreated v (other h) X \<and>
        (\<forall>Y. \<not> partner v h Y X) \<and> (vGc v (other h) X \<noteq> None \<longleftrightarrow> g = vText v)) \<and>
     (\<forall>h X. cnt (createOf X) (vMsgs v h) \<le> 1)"

text \<open>A message to an object comes from its partner.\<close>

fun kindOk :: "gview \<Rightarrow> side \<Rightarrow> message \<Rightarrow> bool" where
  "kindOk v h (Create s g b) = True"
| "kindOk v h (Notify d a) = (vGc v h d \<noteq> None \<and> a \<in> {FLUSH_MSGS, DO_SCAN, ABORT_GC} \<and> (\<exists>Y. partner v h d Y))"
| "kindOk v h (MarkComplete s d) = (vGc v h d = None \<and> partner v h d s)"
| "kindOk v h m = partner v h (dstOf m) (srcOf m)"

definition messageInv :: "gview \<Rightarrow> bool" where
  "messageInv v \<longleftrightarrow> (\<forall>h. \<forall>m \<in> set (vMsgs v h). kindOk v h m)"

definition pendInv :: "gview \<Rightarrow> bool" where
  "pendInv v \<longleftrightarrow>
     (\<forall>h X. vId v h X \<noteq> None \<longrightarrow> vPend v h X = cnt (\<lambda>m. dstOf m = X) (vPopped v h) + cnt (\<lambda>r. fst r = X) (vReplies v h)) \<and>
     (\<forall>h. \<forall>r \<in> set (vReplies v h). vGc v h (fst r) \<noteq> None \<and> vCreated v h (fst r) \<and> (\<exists>Y. partner v h (fst r) Y))"

text \<open>The list of the host (\<open>None\<close>) and the two lists of each collector hold different objects.\<close>

definition members :: "gview \<Rightarrow> side \<Rightarrow> encPtr option \<Rightarrow> encPtr list" where
  "members v h L =
     (case L of
        None \<Rightarrow> vList v h
      | Some g \<Rightarrow> (case vGc v h g of None \<Rightarrow> [] | Some d \<Rightarrow> gObjects d @ gMaybe d))"

definition listInv :: "gview \<Rightarrow> bool" where
  "listInv v \<longleftrightarrow> (\<forall>h L. distinct (members v h L)) \<and>
     (\<forall>h L X. X \<in> set (members v h L) \<longrightarrow> vId v h X \<noteq> None) \<and>
     (\<forall>h L L' X. X \<in> set (members v h L) \<longrightarrow> X \<in> set (members v h L') \<longrightarrow> L = L')"

definition genInv :: "gview \<Rightarrow> bool" where
  "genInv v \<longleftrightarrow> (\<forall>h X. vId v h X \<noteq> None \<longrightarrow> vGen v h X \<le> vCur v h) \<and>
     (\<forall>h g d. vGc v h g = Some d \<longrightarrow> gGen d \<le> vCur v h)"

definition flagInv :: "gview \<Rightarrow> bool" where
  "flagInv v \<longleftrightarrow> (\<forall>h g d. vGc v h g = Some d \<longrightarrow>
     (gSentFlush d \<longrightarrow> vCreated v h g) \<and>
     (\<not> gSentFlush d \<longrightarrow> gObjects d = [] \<and> gMaybe d = [] \<and> \<not> gSentScan d \<and> \<not> gDidScan d \<and> \<not> gGotAnswer d \<and>
       \<not> vComplete v h g) \<and>
     (\<not> gDidScan d \<longrightarrow> gMaybe d = []) \<and>
     (gGotAnswer d \<longrightarrow> gObjects d = [] \<and> gMaybe d = []) \<and>
     (vComplete v h g \<longrightarrow> gObjects d = [] \<and> gMaybe d = []))"

fun answerTo :: "encPtr \<Rightarrow> message \<Rightarrow> bool" where
  "answerTo g (Data s d a b) = (d = g)"
| "answerTo g (Notify d a) = (d = g \<and> a = ABORT_GC)"
| "answerTo g _ = False"

text \<open>Each stage of the protocol of two collectors happens once.\<close>

definition protoInv :: "gview \<Rightarrow> bool" where
  "protoInv v \<longleftrightarrow> (\<forall>h g g' d e. partner v h g g' \<longrightarrow> vGc v h g = Some d \<longrightarrow> vGc v (other h) g' = Some e \<longrightarrow>
     cnt ((=) (Notify g FLUSH_MSGS)) (vMsgs v h) + of_bool (gSentScan d) = of_bool (gSentFlush e) \<and>
     cnt ((=) (Notify g DO_SCAN)) (vMsgs v h) + of_bool (gDidScan d) = of_bool (gSentScan e) \<and>
     cnt (answerTo g) (vMsgs v h) + cnt (\<lambda>r. fst r = g') (vReplies v (other h)) + of_bool (gGotAnswer d) =
       of_bool (gDidScan e) \<and>
     (Notify g ABORT_GC \<in> set (vMsgs v h) \<longrightarrow> gMaybe e = []))"

text \<open>A message that follows the \<open>DO_SCAN\<close> of a collector marks its sender for that collector.\<close>

definition orderInv :: "gview \<Rightarrow> bool" where
  "orderInv v \<longleftrightarrow> (\<forall>h Y g g' e as m bs. vGc v (other h) Y = None \<longrightarrow> partner v h g g' \<longrightarrow>
     vGc v (other h) g' = Some e \<longrightarrow> gSentScan e \<longrightarrow> vInbox v h = as @ m # bs \<longrightarrow> srcOf m = Y \<longrightarrow>
     Y \<noteq> 0 \<longrightarrow> Notify g DO_SCAN \<in> set bs \<or> gGen e \<le> vGen v (other h) Y)"

text \<open>The objects that a collector has found dead.\<close>

definition still :: "gview \<Rightarrow> side \<Rightarrow> gcData \<Rightarrow> encPtr \<Rightarrow> bool" where
  "still v h d X \<longleftrightarrow> vRefs v h X = 0 \<and> vPend v h X = 0 \<and> vGen v h X < gGen d"

definition spared :: "gview \<Rightarrow> side \<Rightarrow> encPtr \<Rightarrow> encPtr \<Rightarrow> bool" where
  "spared v h g X \<longleftrightarrow> (\<exists>Y g' e. partner v h X Y \<and> partner v h g g' \<and> vGc v (other h) g' = Some e \<and>
     gGen e \<le> vGen v (other h) Y \<and> Y \<notin> set (gMaybe e))"

definition silent :: "gview \<Rightarrow> side \<Rightarrow> encPtr \<Rightarrow> bool" where
  "silent v h X \<longleftrightarrow> (\<forall>m \<in> set (vMsgs v h). dstOf m \<noteq> X) \<and> (\<forall>r \<in> set (vReplies v h). fst r \<noteq> X)"

definition idleGc :: "gview \<Rightarrow> side \<Rightarrow> encPtr \<Rightarrow> bool" where
  "idleGc v h X \<longleftrightarrow> silent v h X \<and> (\<forall>d. vGc v h X = Some d \<longrightarrow> gObjects d = [] \<and> gMaybe d = [])"

definition overGc :: "gview \<Rightarrow> side \<Rightarrow> encPtr \<Rightarrow> bool" where
  "overGc v h X \<longleftrightarrow> vRefs v h X = 0 \<and> idleGc v h X \<and> (\<forall>Y. partner v h X Y \<longrightarrow> idleGc v (other h) Y)"

definition quietInv :: "gview \<Rightarrow> bool" where
  "quietInv v \<longleftrightarrow> (\<forall>h g d X. vGc v h g = Some d \<longrightarrow> X \<in> set (gMaybe d) \<longrightarrow> vCreated v h X \<and>
     (if vGc v h X = None then still v h d X \<or> spared v h g X else overGc v h X))"

text \<open>\<open>C\<close> is the answer that \<open>g'\<close> owes to \<open>g\<close> or that is on its way.\<close>

definition answer :: "gview \<Rightarrow> side \<Rightarrow> encPtr \<Rightarrow> encPtr \<Rightarrow> encPtr list \<Rightarrow> bool" where
  "answer v h g g' C \<longleftrightarrow> (\<exists>s a b. Data s g a b \<in> set (vMsgs v h) \<and> C = decodePtrs b) \<or>
     (g', C) \<in> set (vReplies v (other h))"

definition answerInv :: "gview \<Rightarrow> bool" where
  "answerInv v \<longleftrightarrow> (\<forall>h g g' d e C. partner v h g g' \<longrightarrow> vGc v h g = Some d \<longrightarrow> vGc v (other h) g' = Some e \<longrightarrow>
     answer v h g g' C \<longrightarrow>
     (if gGotAnswer e then \<forall>X \<in> set (gMaybe d) \<inter> set C. \<forall>Y. \<not> partner v h X Y
      else set C = vRemote v (other h) ` set (gMaybe e)))"

text \<open>An object whose partner has been deleted waits for the answer that deletes it, too.\<close>

definition widow :: "gview \<Rightarrow> side \<Rightarrow> encPtr \<Rightarrow> bool" where
  "widow v h X \<longleftrightarrow> (\<exists>g d g' e C. vGc v h g = Some d \<and> X \<in> set (gMaybe d) \<and> partner v h g g' \<and>
     vGc v (other h) g' = Some e \<and> gGotAnswer e \<and> answer v h g g' C \<and> X \<in> set C)"

definition liveInv :: "gview \<Rightarrow> bool" where
  "liveInv v \<longleftrightarrow> (\<forall>h X. vCreated v h X \<longrightarrow> partner v h X (vRemote v h X) \<or> widow v h X)"

definition gcInv :: "gview \<Rightarrow> bool" where
  "gcInv v \<longleftrightarrow> idsInv v \<and> pairInv v \<and> createInv v \<and> messageInv v \<and> pendInv v \<and> listInv v \<and> genInv v \<and>
     flagInv v \<and> protoInv v \<and> orderInv v \<and> quietInv v \<and> answerInv v \<and> liveInv v"

end
