(* ===== verification/GcMoves.thy ===== *)
theory GcMoves
  imports GcView "HOL-Library.Multiset"
begin

text \<open>
  Consequences of the invariant of theory \<open>GcView\<close>, and the steps of the runtime as updates of a view:
  each step keeps the invariant.
\<close>

section \<open>Consequences\<close>

lemma gcInvD:
  assumes "gcInv v"
  shows "idsInv v" "pairInv v" "createInv v" "messageInv v" "pendInv v" "listInv v" "genInv v" "flagInv v"
    "protoInv v" "orderInv v" "quietInv v" "answerInv v" "liveInv v"
  using assms by (simp_all add: gcInv_def)

lemma idsInvD:
  assumes "idsInv v"
  shows "vId v h 0 = None" "vId v h X = Some i \<Longrightarrow> i < vNext v"
    "vId v h X = vId v h X' \<Longrightarrow> vId v h X \<noteq> None \<Longrightarrow> X = X'"
    "vId v h X = None \<Longrightarrow> vGc v h X = None" "vId v h X = None \<Longrightarrow> \<not> vCreated v h X"
    "partner v h X Y \<Longrightarrow> vGc v h X = None \<longleftrightarrow> vGc v (other h) Y = None"
  using assms unfolding idsInv_def by blast+

lemma partner_sym: "partner v (other h) Y X \<longleftrightarrow> partner v h X Y"
  by (auto simp: partner_def)

lemma partner_unique:
  assumes "idsInv v" "partner v h X Y" "partner v h X Y'"
  shows "Y = Y'"
  using assms(2,3) idsInvD(3)[OF assms(1), of "other h" Y Y'] by (auto simp: partner_def)

lemma partner_unique':
  assumes "idsInv v" "partner v h X Y" "partner v h X' Y"
  shows "X = X'"
  using partner_unique[OF assms(1), of "other h" Y X X'] assms(2,3) by (simp add: partner_sym)

lemma partner_alloc: "partner v h X Y \<Longrightarrow> vId v h X \<noteq> None \<and> vId v (other h) Y \<noteq> None"
  by (auto simp: partner_def)

lemma partner_nonzero:
  assumes "idsInv v" "partner v h X Y"
  shows "X \<noteq> 0 \<and> Y \<noteq> 0"
  using partner_alloc[OF assms(2)] idsInvD(1)[OF assms(1)] by metis

lemma pairInvD: "pairInv v \<Longrightarrow> partner v h X Y \<Longrightarrow> vCreated v h X \<Longrightarrow> vRemote v h X = Y"
  unfolding pairInv_def by blast

lemma createInvD:
  assumes "createInv v"
  shows "Create X g b \<in> set (vMsgs v h) \<Longrightarrow> vId v (other h) X \<noteq> None"
    "Create X g b \<in> set (vMsgs v h) \<Longrightarrow> \<not> vCreated v (other h) X"
    "Create X g b \<in> set (vMsgs v h) \<Longrightarrow> \<not> partner v h Y X"
    "Create X g b \<in> set (vMsgs v h) \<Longrightarrow> vGc v (other h) X \<noteq> None \<longleftrightarrow> g = vText v"
    "cnt (createOf X) (vMsgs v h) \<le> 1"
  using assms unfolding createInv_def by blast+

lemma messageInvD: "messageInv v \<Longrightarrow> m \<in> set (vMsgs v h) \<Longrightarrow> kindOk v h m"
  unfolding messageInv_def by blast

lemma kindOk_partner:
  assumes "kindOk v h m" "\<And>s g b. m \<noteq> Create s g b"
  shows "\<exists>Y. partner v h (dstOf m) Y"
  using assms by (cases m) auto

lemma kindOk_src:
  assumes "kindOk v h m" "\<And>s g b. m \<noteq> Create s g b" "vGc v h (dstOf m) = None"
  shows "partner v h (dstOf m) (srcOf m)"
  using assms by (cases m) auto

lemma pendInvD:
  assumes "pendInv v"
  shows "vId v h X \<noteq> None \<Longrightarrow>
      vPend v h X = cnt (\<lambda>m. dstOf m = X) (vPopped v h) + cnt (\<lambda>r. fst r = X) (vReplies v h)"
    "r \<in> set (vReplies v h) \<Longrightarrow> vGc v h (fst r) \<noteq> None"
    "r \<in> set (vReplies v h) \<Longrightarrow> vCreated v h (fst r)"
    "r \<in> set (vReplies v h) \<Longrightarrow> \<exists>Y. partner v h (fst r) Y"
  using assms unfolding pendInv_def by blast+

lemma listInvD:
  assumes "listInv v"
  shows "distinct (members v h L)" "X \<in> set (members v h L) \<Longrightarrow> vId v h X \<noteq> None"
    "X \<in> set (members v h L) \<Longrightarrow> X \<in> set (members v h L') \<Longrightarrow> L = L'"
  using assms unfolding listInv_def by blast+

lemma members_simps [simp]:
  "members v h None = vList v h"
  "vGc v h g = Some d \<Longrightarrow> members v h (Some g) = gObjects d @ gMaybe d"
  "vGc v h g = None \<Longrightarrow> members v h (Some g) = []"
  by (simp_all add: members_def)

lemma maybe_unique:
  assumes "listInv v" "vGc v h g = Some d" "X \<in> set (gMaybe d)" "vGc v h g2 = Some d2" "X \<in> set (gMaybe d2)"
  shows "g2 = g" "d2 = d"
proof -
  have "Some g2 = Some g"
    using assms by (intro listInvD(3)[OF assms(1), of X h "Some g2" "Some g"]) simp_all
  then show "g2 = g" by simp
  then show "d2 = d" using assms by simp
qed

lemma maybe_alloc:
  assumes "listInv v" "vGc v h g = Some d" "X \<in> set (gMaybe d)"
  shows "vId v h X \<noteq> None"
  using listInvD(2)[OF assms(1), of X h "Some g"] assms(2,3) by simp

lemma genInvD:
  assumes "genInv v"
  shows "vId v h X \<noteq> None \<Longrightarrow> vGen v h X \<le> vCur v h" "vGc v h g = Some d \<Longrightarrow> gGen d \<le> vCur v h"
  using assms unfolding genInv_def by blast+

lemma flagInvD:
  assumes "flagInv v" "vGc v h g = Some d"
  shows "gSentFlush d \<Longrightarrow> vCreated v h g"
    "\<not> gSentFlush d \<Longrightarrow> gObjects d = []" "\<not> gSentFlush d \<Longrightarrow> gMaybe d = []"
    "\<not> gSentFlush d \<Longrightarrow> \<not> gSentScan d" "\<not> gSentFlush d \<Longrightarrow> \<not> gDidScan d" "\<not> gSentFlush d \<Longrightarrow> \<not> gGotAnswer d"
    "\<not> gDidScan d \<Longrightarrow> gMaybe d = []"
    "gGotAnswer d \<Longrightarrow> gObjects d = []" "gGotAnswer d \<Longrightarrow> gMaybe d = []"
    "vComplete v h g \<Longrightarrow> gObjects d = []" "vComplete v h g \<Longrightarrow> gMaybe d = []"
    "\<not> gSentFlush d \<Longrightarrow> \<not> vComplete v h g"
  using assms unfolding flagInv_def by blast+

lemma protoInvD:
  assumes "protoInv v" "partner v h g g'" "vGc v h g = Some d" "vGc v (other h) g' = Some e"
  shows "cnt ((=) (Notify g FLUSH_MSGS)) (vMsgs v h) + of_bool (gSentScan d) = of_bool (gSentFlush e)"
    "cnt ((=) (Notify g DO_SCAN)) (vMsgs v h) + of_bool (gDidScan d) = of_bool (gSentScan e)"
    "cnt (answerTo g) (vMsgs v h) + cnt (\<lambda>r. fst r = g') (vReplies v (other h)) + of_bool (gGotAnswer d) =
       of_bool (gDidScan e)"
    "Notify g ABORT_GC \<in> set (vMsgs v h) \<Longrightarrow> gMaybe e = []"
  using assms unfolding protoInv_def by blast+

lemma orderInvD:
  assumes "orderInv v" "vGc v (other h) Y = None" "partner v h g g'" "vGc v (other h) g' = Some e" "gSentScan e"
    "vInbox v h = as @ m # bs" "srcOf m = Y" "Y \<noteq> 0"
  shows "Notify g DO_SCAN \<in> set bs \<or> gGen e \<le> vGen v (other h) Y"
  using assms unfolding orderInv_def by blast

lemma quietInvD:
  assumes "quietInv v" "vGc v h g = Some d" "X \<in> set (gMaybe d)"
  shows "vCreated v h X" "vGc v h X = None \<Longrightarrow> still v h d X \<or> spared v h g X" "vGc v h X \<noteq> None \<Longrightarrow> overGc v h X"
  using assms unfolding quietInv_def by (meson option.exhaust)+

lemma answerInvD:
  assumes "answerInv v" "partner v h g g'" "vGc v h g = Some d" "vGc v (other h) g' = Some e" "answer v h g g' C"
  shows "gGotAnswer e \<Longrightarrow> X \<in> set (gMaybe d) \<Longrightarrow> X \<in> set C \<Longrightarrow> \<not> partner v h X Y"
    "\<not> gGotAnswer e \<Longrightarrow> set C = vRemote v (other h) ` set (gMaybe e)"
  using assms unfolding answerInv_def by (metis (no_types, lifting) Int_iff)+

lemma liveInvD: "liveInv v \<Longrightarrow> vCreated v h X \<Longrightarrow> partner v h X (vRemote v h X) \<or> widow v h X"
  unfolding liveInv_def by blast

text \<open>A collector that has found dead objects has a partner.\<close>

lemma gc_partner:
  assumes inv: "gcInv v" and g: "vGc v h g = Some d" "vCreated v h g" and d: "gMaybe d \<noteq> [] \<or> gObjects d \<noteq> [] \<or> \<not> silent v h g"
  shows "\<exists>g' e. partner v h g g' \<and> vGc v (other h) g' = Some e"
proof -
  have "\<not> widow v h g"
  proof
    assume "widow v h g"
    then obtain g2 d2 where "vGc v h g2 = Some d2" "g \<in> set (gMaybe d2)" by (auto simp: widow_def)
    then have "overGc v h g" using quietInvD(3)[OF gcInvD(11)[OF inv]] g(1) by simp
    then show False using d g(1) by (auto simp: overGc_def idleGc_def)
  qed
  then have p: "partner v h g (vRemote v h g)" using liveInvD[OF gcInvD(13)[OF inv] g(2)] by blast
  then have "vGc v (other h) (vRemote v h g) \<noteq> None" using idsInvD(6)[OF gcInvD(1)[OF inv] p] g(1) by simp
  then show ?thesis using p by blast
qed

lemma maybe_partner:
  assumes inv: "gcInv v" and g: "vGc v h g = Some d" "X \<in> set (gMaybe d)"
  shows "\<exists>g' e. partner v h g g' \<and> vGc v (other h) g' = Some e \<and> gSentScan e \<and> Notify g DO_SCAN \<notin> set (vMsgs v h)"
proof -
  have s: "gDidScan d" "gSentFlush d"
    using flagInvD(7,5)[OF gcInvD(8)[OF inv] g(1)] g(2) by (cases "gDidScan d"; auto)+
  then have "vCreated v h g" using flagInvD(1)[OF gcInvD(8)[OF inv] g(1)] by simp
  then obtain g' e where e: "partner v h g g'" "vGc v (other h) g' = Some e"
    using gc_partner[OF inv g(1)] g(2) by (metis empty_iff empty_set)
  have "cnt ((=) (Notify g DO_SCAN)) (vMsgs v h) = 0 \<and> gSentScan e"
    using protoInvD(2)[OF gcInvD(9)[OF inv] e(1) g(1) e(2)] s(1) by (cases "gSentScan e") auto
  then show ?thesis using e by (auto simp: cnt_0_iff)
qed

text \<open>Two partners that have both been found dead are both still.\<close>

lemma not_spared:
  assumes inv: "gcInv v" and XY: "partner v h X Y" and g: "partner v h g g'" "vGc v (other h) g' = Some e"
    and Y: "Y \<in> set (gMaybe e)"
  shows "\<not> spared v h g X"
proof
  assume "spared v h g X"
  then obtain Y1 g1 e1 where s: "partner v h X Y1" "partner v h g g1" "vGc v (other h) g1 = Some e1"
    "Y1 \<notin> set (gMaybe e1)" by (auto simp: spared_def)
  note u = partner_unique[OF gcInvD(1)[OF inv]]
  have "Y1 = Y" "g1 = g'" using u[OF XY s(1)] u[OF g(1) s(2)] by simp_all
  then show False using s g Y by simp
qed

lemma both_still:
  assumes inv: "gcInv v" and XY: "partner v h X Y" and g: "partner v h g g'" "vGc v h g = Some d" "vGc v (other h) g' = Some e"
    and m: "X \<in> set (gMaybe d)" "Y \<in> set (gMaybe e)" and app: "vGc v h X = None"
  shows "still v h d X"
  using quietInvD(2)[OF gcInvD(11)[OF inv] g(2) m(1) app] not_spared[OF inv XY g(1,3) m(2)] by blast

text \<open>A message to a dead object shows that its partner was not.\<close>

lemma message_spares:
  assumes inv: "gcInv v" and g: "vGc v h g = Some d" "X \<in> set (gMaybe d)" and app: "vGc v h X = None"
    and m: "m \<in> set (vInbox v h)" "dstOf m = X"
  shows "spared v h g X"
proof -
  note i = gcInvD[OF inv]
  have X0: "X \<noteq> 0" using maybe_alloc[OF i(6) g] idsInvD(1)[OF i(1)] by metis
  have mm: "m \<in> set (vMsgs v h)" using m(1) by (simp add: vMsgs_def)
  have nc: "m \<noteq> Create s a b" for s a b using m(2) X0 by auto
  define Y where "Y = srcOf m"
  have XY: "partner v h X Y" using kindOk_src[OF messageInvD[OF i(4) mm] nc] app m(2) by (simp add: Y_def)
  have Y: "vGc v (other h) Y = None" "Y \<noteq> 0"
    using idsInvD(6)[OF i(1) XY] app partner_nonzero[OF i(1) XY] by simp_all
  obtain g' e where e: "partner v h g g'" "vGc v (other h) g' = Some e" "gSentScan e"
    "Notify g DO_SCAN \<notin> set (vMsgs v h)" using maybe_partner[OF inv g] by blast
  obtain as bs where ib: "vInbox v h = as @ m # bs" using m(1) split_list by metis
  have "gGen e \<le> vGen v (other h) Y"
    using orderInvD[OF i(10) Y(1) e(1,2,3) ib Y_def[symmetric] Y(2)] e(4) ib by (auto simp: vMsgs_def)
  moreover have "Y \<notin> set (gMaybe e)"
  proof
    assume Ym: "Y \<in> set (gMaybe e)"
    have "still v (other h) e Y"
      using both_still[OF inv _ _ e(2) _ Ym _ Y(1), of X g d] XY e(1) g by (simp add: partner_sym)
    then show False using \<open>gGen e \<le> vGen v (other h) Y\<close> by (simp add: still_def)
  qed
  ultimately show ?thesis using XY e(1,2) by (auto simp: spared_def)
qed

lemma reply_not_app:
  assumes "gcInv v" "vGc v h X = None" "r \<in> set (vReplies v h)"
  shows "fst r \<noteq> X"
  using pendInvD(2)[OF gcInvD(5)[OF assms(1)] assms(3)] assms(2) by blast

lemma both_silent:
  assumes inv: "gcInv v" and XY: "partner v h X Y" and g: "partner v h g g'" "vGc v h g = Some d" "vGc v (other h) g' = Some e"
    and m: "X \<in> set (gMaybe d)" "Y \<in> set (gMaybe e)"
  shows "silent v h X"
proof (cases "vGc v h X = None")
  case True
  have "still v h d X" by (rule both_still[OF inv XY g m True])
  then have "vPend v h X = 0" by (simp add: still_def)
  then have "\<forall>m \<in> set (vPopped v h). dstOf m \<noteq> X"
    using pendInvD(1)[OF gcInvD(5)[OF inv], of h X] partner_alloc[OF XY] by (simp add: cnt_0_iff)
  moreover have "\<forall>m \<in> set (vInbox v h). dstOf m \<noteq> X"
    using message_spares[OF inv g(2) m(1) True] not_spared[OF inv XY g(1,3) m(2)] by blast
  ultimately show ?thesis using reply_not_app[OF inv True] by (auto simp: silent_def vMsgs_def)
next
  case False
  then show ?thesis using quietInvD(3)[OF gcInvD(11)[OF inv] g(2) m(1)] by (simp add: overGc_def idleGc_def)
qed

text \<open>An object without a partner gets no message.\<close>

lemma no_partner_silent:
  assumes inv: "gcInv v" and X: "vId v h X \<noteq> None" and n: "\<And>Y. \<not> partner v h X Y"
  shows "silent v h X"
proof -
  note i = gcInvD[OF inv]
  have X0: "X \<noteq> 0" using X idsInvD(1)[OF i(1)] by metis
  have "dstOf m \<noteq> X" if "m \<in> set (vMsgs v h)" for m
  proof (cases "\<exists>s g b. m = Create s g b")
    case False
    then show ?thesis using kindOk_partner[OF messageInvD[OF i(4) that]] n by blast
  qed (use X0 in auto)
  moreover have "fst r \<noteq> X" if "r \<in> set (vReplies v h)" for r
    using pendInvD(4)[OF i(5) that] n by blast
  ultimately show ?thesis by (simp add: silent_def)
qed

text \<open>An object that the program can use has a partner once it is created, and is not dead.\<close>

lemma in_use:
  assumes inv: "gcInv v" and X: "vId v h X \<noteq> None" "vGc v h X = None" "vRefs v h X > 0 \<or> vPend v h X > 0"
    and g: "vGc v h g = Some d" "X \<in> set (gMaybe d)"
  shows "spared v h g X"
  using quietInvD(2)[OF gcInvD(11)[OF inv] g X(2)] X(3) by (auto simp: still_def)

lemma created_partner:
  assumes inv: "gcInv v" and X: "vCreated v h X" "vGc v h X = None \<Longrightarrow> vRefs v h X > 0 \<or> vPend v h X > 0"
    "vGc v h X \<noteq> None \<Longrightarrow> \<not> silent v h X"
  shows "partner v h X (vRemote v h X)"
proof -
  note i = gcInvD[OF inv]
  have "\<not> widow v h X"
  proof
    assume "widow v h X"
    then obtain g d g' e C where w: "vGc v h g = Some d" "X \<in> set (gMaybe d)" "partner v h g g'"
      "vGc v (other h) g' = Some e" "gGotAnswer e" "answer v h g g' C" "X \<in> set C" by (auto simp: widow_def)
    have np: "\<not> partner v h X Y" for Y using answerInvD(1)[OF i(12) w(3,1,4,6,5,2,7)] .
    have al: "vId v h X \<noteq> None" using idsInvD(5)[OF i(1)] X(1) by blast
    show False
    proof (cases "vGc v h X = None")
      case True
      then have "spared v h g X" using in_use[OF inv al True X(2) w(1,2)] by simp
      then show False using np by (auto simp: spared_def)
    next
      case False
      then show False using no_partner_silent[OF inv al np] X(3) by blast
    qed
  qed
  then show ?thesis using liveInvD[OF i(13) X(1)] by blast
qed

section \<open>What each part of the invariant depends on\<close>

lemma partner_frame: "vId v' = vId v \<Longrightarrow> partner v' = partner v"
  by (simp add: partner_def fun_eq_iff)

definition sameGc :: "gview \<Rightarrow> gview \<Rightarrow> bool" where
  "sameGc v v' \<longleftrightarrow> (\<forall>h X. vGc v' h X = None \<longleftrightarrow> vGc v h X = None)"

lemma sameGc_refl: "vGc v' = vGc v \<Longrightarrow> sameGc v v'"
  by (simp add: sameGc_def)

lemma ids_frame:
  assumes "idsInv v" "vId v' = vId v" "vNext v' = vNext v" "sameGc v v'"
    "\<forall>h X. vCreated v' h X \<longrightarrow> vCreated v h X \<or> vId v h X \<noteq> None"
  shows "idsInv v'"
  unfolding idsInv_def partner_frame[OF assms(2)] assms(2,3)
proof (intro conjI allI impI)
  note d = idsInvD[OF assms(1)]
  have n: "vGc v' h X = None \<longleftrightarrow> vGc v h X = None" for h X using assms(4) by (simp add: sameGc_def)
  fix h X Y i
  show "vId v h 0 = None" by (rule d(1))
  show "i < vNext v" if "vId v h X = Some i" by (rule d(2)[OF that])
  show "X = Y" if "vId v h X = vId v h Y" "vId v h X \<noteq> None" by (rule d(3)[OF that])
  show "vGc v' h X = None" "\<not> vCreated v' h X" if "vId v h X = None"
    using n d(4,5)[OF that] assms(5) that by blast+
  show "vGc v' h X = None \<longleftrightarrow> vGc v' (other h) Y = None" if "partner v h X Y"
    using n d(6)[OF that] by simp
qed

lemma pair_frame:
  assumes "pairInv v" "vId v' = vId v" "vCreated v' = vCreated v" "vRemote v' = vRemote v"
  shows "pairInv v'"
  using assms partner_frame[OF assms(2)] by (simp add: pairInv_def)

lemma create_frame:
  assumes "createInv v" "vId v' = vId v" "vText v' = vText v" "sameGc v v'"
    "\<forall>h X g b. Create X g b \<in> set (vMsgs v' h) \<longrightarrow> Create X g b \<in> set (vMsgs v h) \<and> \<not> vCreated v' (other h) X"
    "\<forall>h X. cnt (createOf X) (vMsgs v' h) \<le> cnt (createOf X) (vMsgs v h)"
  shows "createInv v'"
  unfolding createInv_def partner_frame[OF assms(2)] assms(2,3)
proof (intro conjI allI impI)
  fix h X g b Y assume "Create X g b \<in> set (vMsgs v' h)"
  then have c: "Create X g b \<in> set (vMsgs v h)" "\<not> vCreated v' (other h) X" using assms(5) by blast+
  note d = createInvD[OF assms(1)]
  show "vId v (other h) X \<noteq> None" "\<not> vCreated v' (other h) X" "\<not> partner v h Y X"
    using d(1,3)[OF c(1)] c(2) by blast+
  show "vGc v' (other h) X \<noteq> None \<longleftrightarrow> g = vText v"
    using d(4)[OF c(1)] assms(4) by (simp add: sameGc_def)
next
  fix h X show "cnt (createOf X) (vMsgs v' h) \<le> 1"
    using createInvD(5)[OF assms(1), of X h] assms(6)[rule_format, of X h] by linarith
qed

lemma kindOk_frame:
  assumes "partner v' = partner v" "sameGc v v'"
  shows "kindOk v' h m = kindOk v h m"
  using assms by (cases m) (simp_all add: sameGc_def)

lemma message_frame:
  assumes "messageInv v" "vId v' = vId v" "sameGc v v'"
    "\<forall>h m. m \<in> set (vMsgs v' h) \<longrightarrow> m \<in> set (vMsgs v h) \<or> kindOk v h m"
  shows "messageInv v'"
  unfolding messageInv_def kindOk_frame[OF partner_frame[OF assms(2)] assms(3)]
  using assms(4) messageInvD[OF assms(1)] by blast

lemma list_frame:
  assumes "listInv v" "vId v' = vId v" "vList v' = vList v" "vGc v' = vGc v"
  shows "listInv v'"
proof -
  have "members v' = members v" unfolding members_def assms(3,4) ..
  then show ?thesis using assms(1,2) by (simp add: listInv_def)
qed

lemma gen_frame:
  assumes "genInv v" "vId v' = vId v" "vGc v' = vGc v" "\<forall>h. vCur v h \<le> vCur v' h"
    "\<forall>h X. vGen v' h X \<noteq> vGen v h X \<longrightarrow> vGen v' h X \<le> vCur v' h"
  shows "genInv v'"
  unfolding genInv_def
proof (intro conjI allI impI)
  fix h X assume "vId v' h X \<noteq> None"
  then have "vGen v h X \<le> vCur v h" using genInvD(1)[OF assms(1)] assms(2) by simp
  then show "vGen v' h X \<le> vCur v' h"
    using assms(4,5)[rule_format, of h] by (metis order_trans)
next
  fix h g d assume "vGc v' h g = Some d"
  then show "gGen d \<le> vCur v' h"
    using genInvD(2)[OF assms(1)] assms(3) assms(4)[rule_format, of h] by (metis order_trans)
qed

lemma flag_frame:
  assumes "flagInv v" "vGc v' = vGc v" "\<forall>h X. vCreated v h X \<longrightarrow> vCreated v' h X"
    "\<forall>h X. vGc v h X \<noteq> None \<longrightarrow> vComplete v' h X = vComplete v h X"
  shows "flagInv v'"
  unfolding flagInv_def assms(2)
proof (intro allI impI)
  fix h g d assume g: "vGc v h g = Some d"
  then have "vComplete v' h g = vComplete v h g" using assms(4) by simp
  then show "(gSentFlush d \<longrightarrow> vCreated v' h g) \<and>
     (\<not> gSentFlush d \<longrightarrow> gObjects d = [] \<and> gMaybe d = [] \<and> \<not> gSentScan d \<and> \<not> gDidScan d \<and> \<not> gGotAnswer d \<and>
       \<not> vComplete v' h g) \<and>
     (\<not> gDidScan d \<longrightarrow> gMaybe d = []) \<and> (gGotAnswer d \<longrightarrow> gObjects d = [] \<and> gMaybe d = []) \<and>
     (vComplete v' h g \<longrightarrow> gObjects d = [] \<and> gMaybe d = [])"
    using flagInvD[OF assms(1) g] assms(3) by simp
qed

text \<open>What the protocol counts of the messages to a collector.\<close>

definition sameProto :: "gview \<Rightarrow> gview \<Rightarrow> bool" where
  "sameProto v v' \<longleftrightarrow> (\<forall>h g. vGc v h g \<noteq> None \<longrightarrow>
     cnt ((=) (Notify g FLUSH_MSGS)) (vMsgs v' h) = cnt ((=) (Notify g FLUSH_MSGS)) (vMsgs v h) \<and>
     cnt ((=) (Notify g DO_SCAN)) (vMsgs v' h) = cnt ((=) (Notify g DO_SCAN)) (vMsgs v h) \<and>
     cnt (answerTo g) (vMsgs v' h) = cnt (answerTo g) (vMsgs v h) \<and>
     (Notify g ABORT_GC \<in> set (vMsgs v' h) \<longrightarrow> Notify g ABORT_GC \<in> set (vMsgs v h)))"

lemma proto_frame:
  assumes "protoInv v" "vId v' = vId v" "vGc v' = vGc v" "vReplies v' = vReplies v" "sameProto v v'"
  shows "protoInv v'"
  unfolding protoInv_def partner_frame[OF assms(2)] assms(3,4)
proof (intro allI impI)
  fix h g g' d e assume a: "partner v h g g'" "vGc v h g = Some d" "vGc v (other h) g' = Some e"
  have s: "cnt ((=) (Notify g FLUSH_MSGS)) (vMsgs v' h) = cnt ((=) (Notify g FLUSH_MSGS)) (vMsgs v h) \<and>
     cnt ((=) (Notify g DO_SCAN)) (vMsgs v' h) = cnt ((=) (Notify g DO_SCAN)) (vMsgs v h) \<and>
     cnt (answerTo g) (vMsgs v' h) = cnt (answerTo g) (vMsgs v h) \<and>
     (Notify g ABORT_GC \<in> set (vMsgs v' h) \<longrightarrow> Notify g ABORT_GC \<in> set (vMsgs v h))"
    using assms(5) a(2) unfolding sameProto_def by blast
  show "cnt ((=) (Notify g FLUSH_MSGS)) (vMsgs v' h) + of_bool (gSentScan d) = of_bool (gSentFlush e) \<and>
     cnt ((=) (Notify g DO_SCAN)) (vMsgs v' h) + of_bool (gDidScan d) = of_bool (gSentScan e) \<and>
     cnt (answerTo g) (vMsgs v' h) + cnt (\<lambda>r. fst r = g') (vReplies v (other h)) + of_bool (gGotAnswer d) =
       of_bool (gDidScan e) \<and>
     (Notify g ABORT_GC \<in> set (vMsgs v' h) \<longrightarrow> gMaybe e = [])"
    using protoInvD[OF assms(1) a] s by simp
qed

text \<open>Collectors send \<open>DO_SCAN\<close> once, and keep their generation from then on.\<close>

definition keepsScan :: "gview \<Rightarrow> gview \<Rightarrow> bool" where
  "keepsScan v v' \<longleftrightarrow> (\<forall>h X. vGc v' h X = None \<longrightarrow> vGc v h X = None) \<and>
     (\<forall>h g e. vGc v' h g = Some e \<longrightarrow> gSentScan e \<longrightarrow>
       (\<exists>e0. vGc v h g = Some e0 \<and> gSentScan e0 \<and> gGen e0 = gGen e))"

lemma keepsScan_refl: "vGc v' = vGc v \<Longrightarrow> keepsScan v v'"
  by (simp add: keepsScan_def)

lemma keepsScanD:
  assumes "keepsScan v v'" "vGc v' h g = Some e" "gSentScan e"
  shows "\<exists>e0. vGc v h g = Some e0 \<and> gSentScan e0 \<and> gGen e0 = gGen e"
  using assms unfolding keepsScan_def by blast

lemma order_frame:
  assumes "orderInv v" "vId v' = vId v" "keepsScan v v'" "\<forall>h X. vGen v h X \<le> vGen v' h X"
    "\<forall>h. \<exists>xs. vInbox v h = xs @ vInbox v' h"
  shows "orderInv v'"
  unfolding orderInv_def partner_frame[OF assms(2)]
proof (intro allI impI)
  fix h Y g g' e as m bs
  assume a: "vGc v' (other h) Y = None" "partner v h g g'" "vGc v' (other h) g' = Some e" "gSentScan e"
    "vInbox v' h = as @ m # bs" "srcOf m = Y" "Y \<noteq> 0"
  obtain xs where x: "vInbox v h = (xs @ as) @ m # bs" using assms(5) a(5) by (metis append_assoc)
  obtain e0 where e0: "vGc v (other h) g' = Some e0" "gSentScan e0" "gGen e0 = gGen e"
    using keepsScanD[OF assms(3) a(3,4)] by blast
  have "vGc v (other h) Y = None" using assms(3) a(1) by (simp add: keepsScan_def)
  from orderInvD[OF assms(1) this a(2) e0(1,2) x a(6,7)] e0(3)
  show "Notify g DO_SCAN \<in> set bs \<or> gGen e \<le> vGen v' (other h) Y"
    using assms(4) order_trans by metis
qed

lemma snoc_split:
  "xs @ [x] = as @ m # bs \<longleftrightarrow> (bs = [] \<and> as = xs \<and> m = x) \<or> (\<exists>bs0. bs = bs0 @ [x] \<and> xs = as @ m # bs0)"
  by (cases bs rule: rev_cases) auto

text \<open>A message is written; its sender, when it is not a collector, is marked with the current generation.\<close>

lemma order_append:
  assumes "orderInv v" "genInv v" "vId v' = vId v" "keepsScan v v'" "\<forall>h X. vGen v h X \<le> vGen v' h X"
    "vInbox v' = (vInbox v)(h := vInbox v h @ [m])" "srcOf m \<noteq> 0 \<longrightarrow> vGen v' (other h) (srcOf m) = vCur v (other h)"
  shows "orderInv v'"
  unfolding orderInv_def partner_frame[OF assms(3)]
proof (intro allI impI)
  fix h' Y g g' e as m' bs
  assume a: "vGc v' (other h') Y = None" "partner v h' g g'" "vGc v' (other h') g' = Some e" "gSentScan e"
    "vInbox v' h' = as @ m' # bs" "srcOf m' = Y" "Y \<noteq> 0"
  obtain e0 where e0: "vGc v (other h') g' = Some e0" "gSentScan e0" "gGen e0 = gGen e"
    using keepsScanD[OF assms(4) a(3,4)] by blast
  have Y: "vGc v (other h') Y = None" using assms(4) a(1) by (simp add: keepsScan_def)
  consider (new) "h' = h" "m' = m" | (old) bs0 where "vInbox v h' = as @ m' # bs0" "set bs0 \<subseteq> set bs"
  proof (cases "h' = h")
    case True
    then have "vInbox v h @ [m] = as @ m' # bs" using a(5) assms(6) by simp
    then consider "m' = m" | bs0 where "bs = bs0 @ [m]" "vInbox v h = as @ m' # bs0"
      by (auto simp: snoc_split)
    then show ?thesis
    proof cases
      case 2
      then show ?thesis using old[of bs0] True by auto
    qed (use new True in blast)
  next
    case False
    then show ?thesis using a(5) assms(6) old by simp
  qed
  then show "Notify g DO_SCAN \<in> set bs \<or> gGen e \<le> vGen v' (other h') Y"
  proof cases
    case new
    then show ?thesis using genInvD(2)[OF assms(2) e0(1)] e0(3) assms(7) a(6,7) by simp
  next
    case old
    from orderInvD[OF assms(1) Y a(2) e0(1,2) old(1) a(6,7)] e0(3) show ?thesis
      using assms(5) old(2) order_trans by (metis subsetD)
  qed
qed

lemma spared_frame:
  assumes "spared v h g X" "vId v' = vId v" "vGc v' = vGc v" "\<forall>h X. vGen v h X \<le> vGen v' h X"
  shows "spared v' h g X"
  using assms(1) assms(4) order_trans unfolding spared_def partner_frame[OF assms(2)] assms(3) by meson

lemma quiet_frame:
  assumes "quietInv v" "vId v' = vId v" "vGc v' = vGc v" "\<forall>h X. vCreated v h X \<longrightarrow> vCreated v' h X"
    "\<forall>h X. vGen v h X \<le> vGen v' h X"
    "\<forall>h g d X. vGc v h g = Some d \<longrightarrow> X \<in> set (gMaybe d) \<longrightarrow> vGc v h X = None \<longrightarrow> still v h d X \<longrightarrow>
       still v' h d X \<or> spared v' h g X"
    "\<forall>h g d X. vGc v h g = Some d \<longrightarrow> X \<in> set (gMaybe d) \<longrightarrow> vGc v h X \<noteq> None \<longrightarrow> overGc v h X \<longrightarrow> overGc v' h X"
  shows "quietInv v'"
  unfolding quietInv_def assms(3)
proof (intro allI impI conjI)
  fix h g d X assume a: "vGc v h g = Some d" "X \<in> set (gMaybe d)"
  note q = quietInvD[OF assms(1) a]
  show "vCreated v' h X" using q(1) assms(4) by blast
  show "if vGc v h X = None then still v' h d X \<or> spared v' h g X else overGc v' h X"
  proof (cases "vGc v h X = None")
    case True
    from q(2)[OF True] have "still v' h d X \<or> spared v' h g X"
    proof
      assume "still v h d X"
      then show ?thesis using assms(6) a True by blast
    next
      assume "spared v h g X"
      then show ?thesis using spared_frame[OF _ assms(2,3,5)] by blast
    qed
    then show ?thesis using True by simp
  next
    case False
    then have "overGc v' h X" using q(3) assms(7) a by blast
    then show ?thesis using False by auto
  qed
qed

definition sameMaybe :: "gview \<Rightarrow> gview \<Rightarrow> bool" where
  "sameMaybe v v' \<longleftrightarrow> (\<forall>h g. map_option (\<lambda>d. (gMaybe d, gGotAnswer d)) (vGc v' h g) =
     map_option (\<lambda>d. (gMaybe d, gGotAnswer d)) (vGc v h g))"

lemma sameMaybe_refl: "vGc v' = vGc v \<Longrightarrow> sameMaybe v v'"
  by (simp add: sameMaybe_def)

lemma sameMaybeD:
  assumes "sameMaybe v v'"
  shows "vGc v' h g = Some d' \<Longrightarrow> \<exists>d. vGc v h g = Some d \<and> gMaybe d = gMaybe d' \<and> gGotAnswer d = gGotAnswer d'"
    "vGc v h g = Some d \<Longrightarrow> \<exists>d'. vGc v' h g = Some d' \<and> gMaybe d' = gMaybe d \<and> gGotAnswer d' = gGotAnswer d"
  using assms[unfolded sameMaybe_def, rule_format, of h g] by (cases "vGc v h g"; cases "vGc v' h g"; simp)+

lemma answer_frame:
  assumes "answerInv v" "vId v' = vId v" "sameMaybe v v'"
    "\<forall>h g d X. vGc v h g = Some d \<longrightarrow> X \<in> set (gMaybe d) \<longrightarrow> vRemote v' h X = vRemote v h X"
    "\<forall>h g g' C. vGc v h g \<noteq> None \<longrightarrow> partner v h g g' \<longrightarrow> answer v' h g g' C \<longrightarrow> answer v h g g' C"
  shows "answerInv v'"
  unfolding answerInv_def partner_frame[OF assms(2)]
proof (intro allI impI)
  fix h g g' d' e' C
  assume a: "partner v h g g'" "vGc v' h g = Some d'" "vGc v' (other h) g' = Some e'" "answer v' h g g' C"
  obtain d where d: "vGc v h g = Some d" "gMaybe d = gMaybe d'" using sameMaybeD(1)[OF assms(3) a(2)] by blast
  obtain e where e: "vGc v (other h) g' = Some e" "gMaybe e = gMaybe e'" "gGotAnswer e = gGotAnswer e'"
    using sameMaybeD(1)[OF assms(3) a(3)] by blast
  have an: "answer v h g g' C" using assms(5) d(1) a(1,4) by blast
  note A = answerInvD[OF assms(1) a(1) d(1) e(1) an]
  have "vRemote v' (other h) ` set (gMaybe e) = vRemote v (other h) ` set (gMaybe e)"
    using assms(4) e(1) by (intro image_cong) auto
  then show "if gGotAnswer e' then \<forall>X \<in> set (gMaybe d') \<inter> set C. \<forall>Y. \<not> partner v h X Y
      else set C = vRemote v' (other h) ` set (gMaybe e')"
    using A d(2) e(2,3) by auto
qed

lemma widow_frame:
  assumes "widow v h X" "vId v' = vId v" "sameMaybe v v'"
    "\<forall>h g g' C. vGc v h g \<noteq> None \<longrightarrow> partner v h g g' \<longrightarrow> answer v h g g' C \<longrightarrow> answer v' h g g' C"
  shows "widow v' h X"
proof -
  obtain g d g' e C where w: "vGc v h g = Some d" "X \<in> set (gMaybe d)" "partner v h g g'"
    "vGc v (other h) g' = Some e" "gGotAnswer e" "answer v h g g' C" "X \<in> set C"
    using assms(1) by (auto simp: widow_def)
  have "answer v' h g g' C" using assms(4) w(1,3,6) by blast
  moreover obtain d' where "vGc v' h g = Some d'" "gMaybe d' = gMaybe d"
    using sameMaybeD(2)[OF assms(3) w(1)] by blast
  moreover obtain e' where "vGc v' (other h) g' = Some e'" "gGotAnswer e'"
    using sameMaybeD(2)[OF assms(3) w(4)] w(5) by auto
  ultimately show ?thesis
    using w(2,3,7) unfolding widow_def partner_frame[OF assms(2)] by metis
qed

lemma live_frame:
  assumes "liveInv v" "vId v' = vId v" "sameMaybe v v'" "vCreated v' = vCreated v" "vRemote v' = vRemote v"
    "\<forall>h g g' C. vGc v h g \<noteq> None \<longrightarrow> partner v h g g' \<longrightarrow> answer v h g g' C \<longrightarrow> answer v' h g g' C"
  shows "liveInv v'"
  unfolding liveInv_def partner_frame[OF assms(2)] assms(4,5)
  using liveInvD[OF assms(1)] widow_frame[OF _ assms(2,3,6)] by blast

section \<open>Steps that keep the lists and the protocol\<close>

text \<open>A message that is not part of the protocol of collectors, for side \<open>h\<close>.\<close>

fun neutral :: "gview \<Rightarrow> side \<Rightarrow> message \<Rightarrow> bool" where
  "neutral v h (Create s g b) = False"
| "neutral v h (Notify d a) = False"
| "neutral v h (Data s d a b) = (vGc v h d = None)"
| "neutral v h m = True"

lemma neutral_counts:
  assumes "neutral v h m"
  shows "m \<noteq> Notify g a" "m \<noteq> Create s g2 b" "\<not> createOf X m"
    "vGc v h g \<noteq> None \<Longrightarrow> \<not> answerTo g m" "vGc v h g \<noteq> None \<Longrightarrow> m \<noteq> Data s g a2 b"
  using assms by (cases m; auto)+

lemma answer_set:
  assumes "\<forall>s a b. Data s g a b \<in> set (vMsgs v' h) \<longleftrightarrow> Data s g a b \<in> set (vMsgs v h)" "vReplies v' = vReplies v"
  shows "answer v' h g g' C \<longleftrightarrow> answer v h g g' C"
  using assms by (simp add: answer_def)

lemma overGc_frame:
  assumes "overGc v h X" "vId v' = vId v" "vGc v' = vGc v" "vRefs v' h X = vRefs v h X"
    "silent v h X \<Longrightarrow> silent v' h X" "\<And>Y. partner v h X Y \<Longrightarrow> silent v (other h) Y \<Longrightarrow> silent v' (other h) Y"
  shows "overGc v' h X"
  using assms(1,4-) unfolding overGc_def idleGc_def partner_frame[OF assms(2)] assms(3) by simp

text \<open>An object writes a neutral message to its partner.\<close>

lemma move_send:
  assumes inv: "gcInv v" and m: "neutral v (other h) m" "kindOk v (other h) m" "srcOf m = Y" "vId v h Y \<noteq> None"
    and app: "\<forall>g d. vGc v h g = Some d \<longrightarrow> Y \<in> set (gMaybe d) \<longrightarrow> vGc v h Y = None \<and> spared v h g Y"
    and dst: "vGc v h Y \<noteq> None \<longrightarrow> \<not> vCreated v (other h) (dstOf m)"
    and v': "v' = v\<lparr>vInbox := (vInbox v)(other h := vInbox v (other h) @ [m]), vGen := upd2 (vGen v) h Y (vCur v h)\<rparr>"
  shows "gcInv v'"
proof -
  note i = gcInvD[OF inv]
  have gen: "\<forall>h X. vGen v h X \<le> vGen v' h X" using genInvD(1)[OF i(7)] m(4) by (auto simp: v')
  have f: "vId v' = vId v" "vGc v' = vGc v" "vNext v' = vNext v" "vCreated v' = vCreated v" "vText v' = vText v"
    "vRemote v' = vRemote v" "vReplies v' = vReplies v" "vList v' = vList v" "vComplete v' = vComplete v"
    "vRefs v' = vRefs v" "vPend v' = vPend v" "vPopped v' = vPopped v" "vCur v' = vCur v"
    by (simp_all add: v')
  have ms: "set (vMsgs v' h') = set (vMsgs v h') \<union> (if h' = other h then {m} else {})" for h'
    by (auto simp: vMsgs_def v')
  have cn: "cnt P (vMsgs v' h') = cnt P (vMsgs v h') + (if h' = other h then of_bool (P m) else 0)" for P h'
    by (simp add: vMsgs_def v')
  note n = neutral_counts[OF m(1)]
  have p: "partner v h Y (dstOf m)"
    using m(2,3) n(1,2) by (cases m) (auto simp: partner_sym)
  have gcY: "vGc v (other h) (dstOf m) = None \<longleftrightarrow> vGc v h Y = None" using idsInvD(6)[OF i(1) p] by simp
  have an: "vGc v h' g \<noteq> None \<Longrightarrow> answer v' h' g g' C \<longleftrightarrow> answer v h' g g' C" for h' g g' C
    using n(5)[of g] by (intro answer_set) (auto simp: ms f)
  have sl: "silent v' h' X" if "silent v h' X" "h' = other h \<Longrightarrow> X \<noteq> dstOf m" for h' X
    using that by (auto simp: silent_def ms f)
  show ?thesis unfolding gcInv_def
  proof (intro conjI)
    show "idsInv v'" by (rule ids_frame[OF i(1)]) (simp_all add: f sameGc_def)
    show "pairInv v'" by (rule pair_frame[OF i(2)]) (simp_all add: f)
    show "createInv v'"
      by (rule create_frame[OF i(3)]) (auto simp: f sameGc_def ms cn n createInvD(2)[OF i(3)] split: if_splits)
    show "messageInv v'"
      by (rule message_frame[OF i(4)]) (use m(2) in \<open>auto simp: f sameGc_def ms split: if_splits\<close>)
    show "pendInv v'" using i(5) unfolding pendInv_def f partner_frame[OF f(1)] .
    show "listInv v'" by (rule list_frame[OF i(6)]) (simp_all add: f)
    show "genInv v'" by (rule gen_frame[OF i(7)]) (auto simp: f, auto simp: v')
    show "flagInv v'" by (rule flag_frame[OF i(8)]) (simp_all add: f)
    show "protoInv v'"
      by (rule proto_frame[OF i(9)]) (use n in \<open>auto simp: f sameProto_def cn ms split: if_splits\<close>)
    show "orderInv v'"
      by (rule order_append[OF i(10,7), where h = "other h" and m = m]) (use gen m(3) in \<open>simp_all add: keepsScan_refl f(1,2), simp_all add: v'\<close>)
    show "quietInv v'"
    proof (rule quiet_frame[OF i(11)])
      show "\<forall>h' g d X. vGc v h' g = Some d \<longrightarrow> X \<in> set (gMaybe d) \<longrightarrow> vGc v h' X = None \<longrightarrow> still v h' d X \<longrightarrow>
         still v' h' d X \<or> spared v' h' g X"
      proof (intro allI impI)
        fix h' g d X assume a: "vGc v h' g = Some d" "X \<in> set (gMaybe d)" "still v h' d X"
        show "still v' h' d X \<or> spared v' h' g X"
        proof (cases "h' = h \<and> X = Y")
          case True
          then have "spared v h g Y" using app a by blast
          then show ?thesis using True spared_frame[OF _ f(1,2) gen] by blast
        next
          case False
          then show ?thesis using a(3) by (auto simp: still_def v')
        qed
      qed
      show "\<forall>h' g d X. vGc v h' g = Some d \<longrightarrow> X \<in> set (gMaybe d) \<longrightarrow> vGc v h' X \<noteq> None \<longrightarrow> overGc v h' X \<longrightarrow> overGc v' h' X"
      proof (intro allI impI)
        fix h' g d X assume a: "vGc v h' g = Some d" "X \<in> set (gMaybe d)" "vGc v h' X \<noteq> None" "overGc v h' X"
        have cr: "vCreated v h' X" by (rule quietInvD(1)[OF i(11) a(1,2)])
        show "overGc v' h' X"
        proof (rule overGc_frame[OF a(4)])
          show "silent v' h' X" if "silent v h' X"
          proof (rule sl[OF that])
            assume "h' = other h"
            then show "X \<noteq> dstOf m" using dst cr gcY a(3) by auto
          qed
          show "silent v' (other h') Z" if Z: "partner v h' X Z" "silent v (other h') Z" for Z
          proof (rule sl[OF Z(2)])
            assume h': "other h' = other h"
            then have h'h: "h' = h" by (metis other_simps(1))
            show "Z \<noteq> dstOf m"
            proof
              assume "Z = dstOf m"
              then have "X = Y" using partner_unique'[OF i(1), of h X "dstOf m" Y] p Z(1) h'h by simp
              then show False using app a(1,2,3) h'h by auto
            qed
          qed
        qed (simp_all add: f)
      qed
    qed (use gen in \<open>simp_all add: f\<close>)
    show "answerInv v'" by (rule answer_frame[OF i(12)]) (auto simp: f an sameMaybe_refl)
    show "liveInv v'" by (rule live_frame[OF i(13)]) (auto simp: f an sameMaybe_refl)
  qed
qed

text \<open>A header is read.\<close>

lemma move_pop:
  assumes inv: "gcInv v" and ib: "vInbox v h = m # ms"
    and v': "v' = v\<lparr>vInbox := (vInbox v)(h := ms), vPopped := (vPopped v)(h := vPopped v h @ [m]),
      vPend := (if dstOf m = 0 then vPend v else upd2 (vPend v) h (dstOf m) (vPend v h (dstOf m) + 1)),
      vGen := (if dstOf m = 0 then vGen v else upd2 (vGen v) h (dstOf m) (vCur v h))\<rparr>"
  shows "gcInv v'"
proof -
  note i = gcInvD[OF inv]
  have f: "vId v' = vId v" "vGc v' = vGc v" "vNext v' = vNext v" "vCreated v' = vCreated v" "vText v' = vText v"
    "vRemote v' = vRemote v" "vReplies v' = vReplies v" "vList v' = vList v" "vComplete v' = vComplete v"
    "vRefs v' = vRefs v" "vCur v' = vCur v"
    by (simp_all add: v')
  have mm: "m \<in> set (vMsgs v h)" by (simp add: vMsgs_def ib)
  have dst: "vId v h (dstOf m) \<noteq> None" if "dstOf m \<noteq> 0"
  proof -
    have "\<exists>Y. partner v h (dstOf m) Y"
      by (rule kindOk_partner[OF messageInvD[OF i(4) mm]]) (use that in auto)
    then show ?thesis using partner_alloc by blast
  qed
  have gen: "\<forall>h X. vGen v h X \<le> vGen v' h X" using genInvD(1)[OF i(7)] dst by (auto simp: v')
  have ms: "set (vMsgs v' h') = set (vMsgs v h')" for h'
    by (auto simp: vMsgs_def v' ib)
  have cn: "cnt P (vMsgs v' h') = cnt P (vMsgs v h')" for P h'
    by (simp add: vMsgs_def v' ib)
  have an: "answer v' h' g g' C \<longleftrightarrow> answer v h' g g' C" for h' g g' C
    by (intro answer_set) (auto simp: ms f)
  have sl: "silent v' h' X \<longleftrightarrow> silent v h' X" for h' X
    by (auto simp: silent_def ms f)
  show ?thesis unfolding gcInv_def
  proof (intro conjI)
    show "idsInv v'" by (rule ids_frame[OF i(1)]) (simp_all add: f sameGc_def)
    show "pairInv v'" by (rule pair_frame[OF i(2)]) (simp_all add: f)
    show "createInv v'"
      by (rule create_frame[OF i(3)]) (auto simp: f sameGc_def ms cn createInvD(2)[OF i(3)])
    show "messageInv v'" by (rule message_frame[OF i(4)]) (auto simp: f sameGc_def ms)
    show "pendInv v'"
      unfolding pendInv_def f partner_frame[OF f(1)]
    proof (intro conjI allI impI ballI)
      fix h' X assume a: "vId v h' X \<noteq> None"
      have "X \<noteq> 0" using a idsInvD(1)[OF i(1)] by metis
      then show "vPend v' h' X = cnt (\<lambda>m. dstOf m = X) (vPopped v' h') + cnt (\<lambda>r. fst r = X) (vReplies v h')"
        using pendInvD(1)[OF i(5) a] by (auto simp: v')
    qed (use pendInvD(2-)[OF i(5)] in blast)+
    show "listInv v'" by (rule list_frame[OF i(6)]) (simp_all add: f)
    show "genInv v'" by (rule gen_frame[OF i(7)]) (auto simp: f, auto simp: v' split: if_splits)
    show "flagInv v'" by (rule flag_frame[OF i(8)]) (simp_all add: f)
    show "protoInv v'" by (rule proto_frame[OF i(9)]) (auto simp: f sameProto_def cn ms)
    show "orderInv v'"
    proof (rule order_frame[OF i(10)])
      show "\<forall>h'. \<exists>xs. vInbox v h' = xs @ vInbox v' h'"
      proof
        fix h' show "\<exists>xs. vInbox v h' = xs @ vInbox v' h'"
          by (rule exI[of _ "if h' = h then [m] else []"]) (simp add: v' ib)
      qed
    qed (use gen in \<open>simp_all add: f keepsScan_refl\<close>)
    show "quietInv v'"
    proof (rule quiet_frame[OF i(11)])
      show "\<forall>h' g d X. vGc v h' g = Some d \<longrightarrow> X \<in> set (gMaybe d) \<longrightarrow> vGc v h' X = None \<longrightarrow> still v h' d X \<longrightarrow>
         still v' h' d X \<or> spared v' h' g X"
      proof (intro allI impI)
        fix h' g d X assume a: "vGc v h' g = Some d" "X \<in> set (gMaybe d)" "vGc v h' X = None" "still v h' d X"
        show "still v' h' d X \<or> spared v' h' g X"
        proof (cases "h' = h \<and> X = dstOf m")
          case True
          have "m \<in> set (vInbox v h)" using ib by simp
          then have "spared v h g X" using message_spares[OF inv] a(1-3) True by blast
          then show ?thesis using True spared_frame[OF _ f(1,2) gen] by blast
        next
          case False
          then show ?thesis using a(4) by (auto simp: still_def v')
        qed
      qed
      show "\<forall>h' g d X. vGc v h' g = Some d \<longrightarrow> X \<in> set (gMaybe d) \<longrightarrow> vGc v h' X \<noteq> None \<longrightarrow> overGc v h' X \<longrightarrow> overGc v' h' X"
        using overGc_frame[where v = v and v' = v'] by (simp add: f sl)
    qed (use gen in \<open>simp_all add: f\<close>)
    show "answerInv v'" by (rule answer_frame[OF i(12)]) (auto simp: f an sameMaybe_refl)
    show "liveInv v'" by (rule live_frame[OF i(13)]) (auto simp: f an sameMaybe_refl)
  qed
qed

text \<open>The order of the messages that have been read does not matter.\<close>

lemma cnt_mset: "cnt P xs = size (filter_mset P (mset xs))"
  by (simp add: cnt_def flip: mset_filter)

lemma move_permute:
  assumes inv: "gcInv v" and perm: "\<forall>h. mset (vPopped v' h) = mset (vPopped v h)"
    and v': "v' = v\<lparr>vPopped := q\<rparr>"
  shows "gcInv v'"
proof -
  have f: "vId v' = vId v" "vGc v' = vGc v" "vNext v' = vNext v" "vCreated v' = vCreated v" "vText v' = vText v"
    "vRemote v' = vRemote v" "vReplies v' = vReplies v" "vList v' = vList v" "vComplete v' = vComplete v"
    "vRefs v' = vRefs v" "vCur v' = vCur v" "vInbox v' = vInbox v" "vGen v' = vGen v" "vPend v' = vPend v"
    by (simp_all add: v')
  have s: "set (vPopped v' h) = set (vPopped v h)" for h using perm mset_eq_setD by metis
  have c: "cnt P (vPopped v' h) = cnt P (vPopped v h)" for P h by (simp add: cnt_mset perm)
  have m: "set (vMsgs v' h) = set (vMsgs v h)" "cnt P (vMsgs v' h) = cnt P (vMsgs v h)" for P h
    by (simp_all add: vMsgs_def s c f)
  have p: "partner v' = partner v" by (rule partner_frame) (rule f)
  have k: "kindOk v' h x = kindOk v h x" for h x by (rule kindOk_frame[OF p]) (simp add: sameGc_def f)
  have sl: "silent v' = silent v" by (auto simp: silent_def m f fun_eq_iff)
  have an: "answer v' = answer v" by (auto simp: answer_def m f fun_eq_iff)
  have o: "overGc v' = overGc v" by (simp add: overGc_def idleGc_def sl p f fun_eq_iff)
  have me: "members v' = members v" unfolding members_def f ..
  have w: "widow v' = widow v" by (simp add: widow_def an p f fun_eq_iff)
  have st: "still v' = still v" "spared v' = spared v"
    by (simp_all add: still_def spared_def p f fun_eq_iff)
  have "idsInv v' = idsInv v" "pairInv v' = pairInv v" "createInv v' = createInv v" "messageInv v' = messageInv v"
    "pendInv v' = pendInv v" "listInv v' = listInv v" "genInv v' = genInv v" "flagInv v' = flagInv v"
    "protoInv v' = protoInv v" "orderInv v' = orderInv v" "quietInv v' = quietInv v" "answerInv v' = answerInv v"
    "liveInv v' = liveInv v"
    by (simp_all only: idsInv_def pairInv_def createInv_def messageInv_def pendInv_def listInv_def
      genInv_def flagInv_def protoInv_def orderInv_def quietInv_def answerInv_def liveInv_def p m k o me w st an c f)
  then show ?thesis using inv by (simp only: gcInv_def)
qed

text \<open>The handling of a neutral message has ended.\<close>

lemma move_done:
  assumes inv: "gcInv v" and po: "vPopped v h = ms @ [m]" and m: "neutral v h m"
    and v': "v' = v\<lparr>vPopped := (vPopped v)(h := ms), vPend := upd2 (vPend v) h (dstOf m) (vPend v h (dstOf m) - 1)\<rparr>"
  shows "gcInv v'"
proof -
  note i = gcInvD[OF inv]
  have f: "vId v' = vId v" "vGc v' = vGc v" "vNext v' = vNext v" "vCreated v' = vCreated v" "vText v' = vText v"
    "vRemote v' = vRemote v" "vReplies v' = vReplies v" "vList v' = vList v" "vComplete v' = vComplete v"
    "vRefs v' = vRefs v" "vCur v' = vCur v" "vInbox v' = vInbox v" "vGen v' = vGen v"
    by (simp_all add: v')
  note n = neutral_counts[OF m]
  have ms: "set (vMsgs v h') = set (vMsgs v' h') \<union> (if h' = h then {m} else {})" for h'
    using po by (auto simp: vMsgs_def v')
  have cn: "cnt P (vMsgs v h') = cnt P (vMsgs v' h') + (if h' = h then of_bool (P m) else 0)" for P h'
    using po by (simp add: vMsgs_def v')
  have an: "vGc v h' g \<noteq> None \<Longrightarrow> answer v' h' g g' C \<longleftrightarrow> answer v h' g g' C" for h' g g' C
    using n(5)[of g] by (intro answer_set) (auto simp: ms f)
  have sl: "silent v' h' X" if "silent v h' X" for h' X
    using that by (auto simp: silent_def ms f)
  have cr: "Create X g b \<in> set (vMsgs v' h') \<Longrightarrow> \<not> vCreated v (other h') X" for X g b h'
    using createInvD(2)[OF i(3)] ms by blast
  show ?thesis unfolding gcInv_def
  proof (intro conjI)
    show "idsInv v'" by (rule ids_frame[OF i(1)]) (simp_all add: f sameGc_def)
    show "pairInv v'" by (rule pair_frame[OF i(2)]) (simp_all add: f)
    show "createInv v'"
      by (rule create_frame[OF i(3)]) (auto simp: f sameGc_def ms cn cr)
    show "messageInv v'" by (rule message_frame[OF i(4)]) (auto simp: f sameGc_def ms)
    show "pendInv v'"
      unfolding pendInv_def f partner_frame[OF f(1)]
    proof (intro conjI allI impI ballI)
      fix h' X assume a: "vId v h' X \<noteq> None"
      then show "vPend v' h' X = cnt (\<lambda>m. dstOf m = X) (vPopped v' h') + cnt (\<lambda>r. fst r = X) (vReplies v h')"
        using pendInvD(1)[OF i(5) a] po by (auto simp: v')
    qed (use pendInvD(2-)[OF i(5)] in blast)+
    show "listInv v'" by (rule list_frame[OF i(6)]) (simp_all add: f)
    show "genInv v'" by (rule gen_frame[OF i(7)]) (auto simp: f)
    show "flagInv v'" by (rule flag_frame[OF i(8)]) (simp_all add: f)
    show "protoInv v'"
      by (rule proto_frame[OF i(9)]) (use n in \<open>auto simp: f sameProto_def cn ms\<close>)
    show "orderInv v'" by (rule order_frame[OF i(10)]) (auto simp: f keepsScan_refl)
    show "quietInv v'"
    proof (rule quiet_frame[OF i(11)])
      show "\<forall>h' g d X. vGc v h' g = Some d \<longrightarrow> X \<in> set (gMaybe d) \<longrightarrow> vGc v h' X = None \<longrightarrow> still v h' d X \<longrightarrow>
         still v' h' d X \<or> spared v' h' g X"
        by (auto simp: still_def v')
      show "\<forall>h' g d X. vGc v h' g = Some d \<longrightarrow> X \<in> set (gMaybe d) \<longrightarrow> vGc v h' X \<noteq> None \<longrightarrow> overGc v h' X \<longrightarrow> overGc v' h' X"
        using overGc_frame[where v = v and v' = v'] by (simp add: f sl)
    qed (simp_all add: f)
    show "answerInv v'" by (rule answer_frame[OF i(12)]) (auto simp: f an sameMaybe_refl)
    show "liveInv v'" by (rule live_frame[OF i(13)]) (auto simp: f an sameMaybe_refl)
  qed
qed

text \<open>The program takes or drops references; objects that are not collectors are completed.\<close>

lemma move_refs:
  assumes inv: "gcInv v"
    and ok: "n \<le> vRefs v h X \<or> vGc v h X = None \<and> (\<forall>g d. vGc v h g = Some d \<longrightarrow> X \<in> set (gMaybe d) \<longrightarrow> spared v h g X)"
    and c: "\<forall>h Y. vGc v h Y \<noteq> None \<longrightarrow> c h Y = vComplete v h Y"
    and v': "v' = v\<lparr>vRefs := upd2 (vRefs v) h X n, vComplete := c\<rparr>"
  shows "gcInv v'"
proof -
  note i = gcInvD[OF inv]
  have f: "vId v' = vId v" "vGc v' = vGc v" "vNext v' = vNext v" "vCreated v' = vCreated v" "vText v' = vText v"
    "vRemote v' = vRemote v" "vReplies v' = vReplies v" "vList v' = vList v" "vMsgs v' = vMsgs v"
    "vCur v' = vCur v" "vInbox v' = vInbox v" "vPopped v' = vPopped v" "vGen v' = vGen v" "vPend v' = vPend v"
    by (simp_all add: v' vMsgs_def fun_eq_iff)
  have sl: "silent v' h' X \<longleftrightarrow> silent v h' X" for h' X by (simp add: silent_def f)
  have an: "answer v' h' g g' C \<longleftrightarrow> answer v h' g g' C" for h' g g' C by (simp add: answer_def f)
  show ?thesis unfolding gcInv_def
  proof (intro conjI)
    show "idsInv v'" by (rule ids_frame[OF i(1)]) (simp_all add: f sameGc_def)
    show "pairInv v'" by (rule pair_frame[OF i(2)]) (simp_all add: f)
    show "createInv v'"
      by (rule create_frame[OF i(3)]) (auto simp: f sameGc_def createInvD(2)[OF i(3)])
    show "messageInv v'" by (rule message_frame[OF i(4)]) (auto simp: f sameGc_def)
    show "pendInv v'" using i(5) unfolding pendInv_def f partner_frame[OF f(1)] .
    show "listInv v'" by (rule list_frame[OF i(6)]) (simp_all add: f)
    show "genInv v'" by (rule gen_frame[OF i(7)]) (auto simp: f)
    show "flagInv v'" by (rule flag_frame[OF i(8)]) (use c in \<open>simp_all add: f v'\<close>)
    show "protoInv v'" by (rule proto_frame[OF i(9)]) (auto simp: f sameProto_def)
    show "orderInv v'" by (rule order_frame[OF i(10)]) (auto simp: f keepsScan_refl)
    show "quietInv v'"
    proof (rule quiet_frame[OF i(11)])
      show "\<forall>h' g d Z. vGc v h' g = Some d \<longrightarrow> Z \<in> set (gMaybe d) \<longrightarrow> vGc v h' Z = None \<longrightarrow> still v h' d Z \<longrightarrow>
         still v' h' d Z \<or> spared v' h' g Z"
      proof (intro allI impI)
        fix h' g d Z assume a: "vGc v h' g = Some d" "Z \<in> set (gMaybe d)" "vGc v h' Z = None" "still v h' d Z"
        show "still v' h' d Z \<or> spared v' h' g Z"
        proof (cases "n \<le> vRefs v h X \<or> \<not> (h' = h \<and> Z = X)")
          case True
          then show ?thesis using a(4) by (auto simp: still_def v')
        next
          case False
          then have "spared v h' g Z" using ok a by blast
          then show ?thesis using spared_frame[OF _ f(1,2)] by (simp add: f)
        qed
      qed
      show "\<forall>h' g d Z. vGc v h' g = Some d \<longrightarrow> Z \<in> set (gMaybe d) \<longrightarrow> vGc v h' Z \<noteq> None \<longrightarrow> overGc v h' Z \<longrightarrow> overGc v' h' Z"
      proof (intro allI impI)
        fix h' g d Z assume a: "vGc v h' Z \<noteq> None" "overGc v h' Z"
        have "vRefs v' h' Z = vRefs v h' Z" using ok a by (auto simp: v' overGc_def)
        then show "overGc v' h' Z" using overGc_frame[OF a(2)] by (simp add: f sl)
      qed
    qed (simp_all add: f)
    show "answerInv v'" by (rule answer_frame[OF i(12)]) (auto simp: f an sameMaybe_refl)
    show "liveInv v'" by (rule live_frame[OF i(13)]) (auto simp: f an sameMaybe_refl)
  qed
qed

end
