(* ===== verification/GcCreate.thy ===== *)
theory GcCreate
  imports GcMoves
begin

text \<open>
  The steps that create objects, as updates of a view.
\<close>

section \<open>Arrays of pointers\<close>

lemma bytesPtr_ptrBytes: "n \<le> 8 \<Longrightarrow> bytesPtr (ptrBytes n p) = take_bit (8 * n) p"
proof (induction n arbitrary: p)
  case (Suc n)
  have "bytesPtr (ptrBytes n (drop_bit 8 p)) = take_bit (8 * n) (drop_bit 8 p)" using Suc by simp
  then show ?case
    by simp (rule bit_word_eqI, auto simp: bit_simps)
qed simp

lemma bytesPtr_word: "bytesPtr (ptrBytes 8 p) = p"
  using bytesPtr_ptrBytes[of 8 p] by (simp add: take_bit_word_eq_self)

lemma ptrBytes_8:
  "ptrBytes 8 p = [ucast p, ucast (drop_bit 8 p), ucast (drop_bit 8 (drop_bit 8 p)),
     ucast (drop_bit 8 (drop_bit 8 (drop_bit 8 p))), ucast (drop_bit 8 (drop_bit 8 (drop_bit 8 (drop_bit 8 p)))),
     ucast (drop_bit 8 (drop_bit 8 (drop_bit 8 (drop_bit 8 (drop_bit 8 p))))),
     ucast (drop_bit 8 (drop_bit 8 (drop_bit 8 (drop_bit 8 (drop_bit 8 (drop_bit 8 p)))))),
     ucast (drop_bit 8 (drop_bit 8 (drop_bit 8 (drop_bit 8 (drop_bit 8 (drop_bit 8 (drop_bit 8 p))))))) ]"
  by (simp add: eval_nat_numeral)

lemma decode_ptrBytes: "decodePtrs (ptrBytes 8 p @ bs) = p # decodePtrs bs"
  using bytesPtr_word[of p] by (simp only: ptrBytes_8 append.simps decodePtrs.simps)

lemma decode_encode [simp]: "decodePtrs (encodePtrs ps) = ps"
  by (induction ps) (simp_all add: encodePtrs_def decode_ptrBytes)

lemma messageOf_header: "messageOf (header m) (payload m) = Some m"
  by (cases m) (simp_all add: messageOf_def mkMsg_def)

section \<open>Objects are created\<close>

text \<open>The first message to the object that asked for its partner.\<close>

lemma move_created:
  assumes inv: "gcInv v" and XY: "partner v h X Y" and X: "\<not> vCreated v h X"
    and v': "v' = v\<lparr>vRemote := upd2 (vRemote v) h X Y, vCreated := upd2 (vCreated v) h X True\<rparr>"
  shows "gcInv v'"
proof -
  note i = gcInvD[OF inv]
  have f: "vId v' = vId v" "vGc v' = vGc v" "vNext v' = vNext v" "vText v' = vText v"
    "vReplies v' = vReplies v" "vList v' = vList v" "vComplete v' = vComplete v"
    "vRefs v' = vRefs v" "vCur v' = vCur v" "vInbox v' = vInbox v" "vGen v' = vGen v" "vPopped v' = vPopped v"
    "vPend v' = vPend v" "vMsgs v' = vMsgs v"
    by (simp_all add: v' vMsgs_def fun_eq_iff)
  have cr: "vCreated v' h' Z \<longleftrightarrow> vCreated v h' Z \<or> h' = h \<and> Z = X" for h' Z by (auto simp: v')
  have rm: "vCreated v h' Z \<Longrightarrow> vRemote v' h' Z = vRemote v h' Z" for h' Z using X by (auto simp: v')
  have al: "vId v h X \<noteq> None" using partner_alloc[OF XY] by blast
  have sl: "silent v' h' X \<longleftrightarrow> silent v h' X" for h' X by (simp add: silent_def f)
  have an: "answer v' h' g g' C \<longleftrightarrow> answer v h' g g' C" for h' g g' C by (simp add: answer_def f)
  show ?thesis unfolding gcInv_def
  proof (intro conjI)
    show "idsInv v'" by (rule ids_frame[OF i(1)]) (use al in \<open>auto simp: f sameGc_def cr\<close>)
    show "pairInv v'"
      unfolding pairInv_def partner_frame[OF f(1)]
    proof (intro allI impI)
      fix h' A B assume p: "partner v h' A B" "vCreated v' h' A"
      show "vRemote v' h' A = B"
      proof (cases "h' = h \<and> A = X")
        case True
        then have "B = Y" using partner_unique[OF i(1), of h X Y B] p(1) XY by simp
        then show ?thesis using True by (simp add: v')
      next
        case False
        then have "vCreated v h' A" using p(2) cr by blast
        then show ?thesis using rm pairInvD[OF i(2) p(1)] by simp
      qed
    qed
    show "createInv v'"
    proof (rule create_frame[OF i(3)])
      show "\<forall>h' Z g b. Create Z g b \<in> set (vMsgs v' h') \<longrightarrow> Create Z g b \<in> set (vMsgs v h') \<and> \<not> vCreated v' (other h') Z"
      proof (intro allI impI)
        fix h' Z g b assume c: "Create Z g b \<in> set (vMsgs v' h')"
        then have c': "Create Z g b \<in> set (vMsgs v h')" by (simp add: f)
        have "\<not> (other h' = h \<and> Z = X)"
        proof
          assume z: "other h' = h \<and> Z = X"
          then have "h' = other h" by auto
          then show False using createInvD(3)[OF i(3) c'] XY z partner_sym by blast
        qed
        then show "Create Z g b \<in> set (vMsgs v h') \<and> \<not> vCreated v' (other h') Z"
          using createInvD(2)[OF i(3) c'] c' cr by blast
      qed
    qed (simp_all add: f sameGc_def)
    show "messageInv v'" by (rule message_frame[OF i(4)]) (auto simp: f sameGc_def)
    show "pendInv v'"
      using pendInvD[OF i(5)] unfolding pendInv_def f partner_frame[OF f(1)] cr by blast
    show "listInv v'" by (rule list_frame[OF i(6)]) (simp_all add: f)
    show "genInv v'" by (rule gen_frame[OF i(7)]) (auto simp: f)
    show "flagInv v'" by (rule flag_frame[OF i(8)]) (auto simp: f cr)
    show "protoInv v'" by (rule proto_frame[OF i(9)]) (auto simp: f sameProto_def)
    show "orderInv v'" by (rule order_frame[OF i(10)]) (auto simp: f keepsScan_refl)
    show "quietInv v'"
    proof (rule quiet_frame[OF i(11)])
      show "\<forall>h' g d X. vGc v h' g = Some d \<longrightarrow> X \<in> set (gMaybe d) \<longrightarrow> vGc v h' X \<noteq> None \<longrightarrow> overGc v h' X \<longrightarrow> overGc v' h' X"
        using overGc_frame[where v = v and v' = v'] by (simp add: f sl)
    qed (auto simp: f cr still_def)
    show "answerInv v'"
      by (rule answer_frame[OF i(12)]) (use rm quietInvD(1)[OF i(11)] in \<open>auto simp: f an sameMaybe_refl\<close>)
    show "liveInv v'"
      unfolding liveInv_def partner_frame[OF f(1)]
    proof (intro allI impI)
      fix h' Z assume c: "vCreated v' h' Z"
      show "partner v h' Z (vRemote v' h' Z) \<or> widow v' h' Z"
      proof (cases "h' = h \<and> Z = X")
        case True
        then show ?thesis using XY by (simp add: v')
      next
        case False
        then have cz: "vCreated v h' Z" using c cr by blast
        then show ?thesis
          using liveInvD[OF i(13) cz] rm[OF cz] widow_frame[OF _ f(1) sameMaybe_refl[OF f(2)]] an by metis
      qed
    qed
  qed
qed

text \<open>An object goes to the list of its host.\<close>

lemma move_push:
  assumes inv: "gcInv v" and X: "vId v h X \<noteq> None" "\<forall>L. X \<notin> set (members v h L)"
    and v': "v' = v\<lparr>vList := (vList v)(h := vList v h @ [X])\<rparr>"
  shows "gcInv v'"
proof -
  note i = gcInvD[OF inv]
  have f: "vId v' = vId v" "vGc v' = vGc v" "vNext v' = vNext v" "vText v' = vText v" "vRemote v' = vRemote v"
    "vReplies v' = vReplies v" "vComplete v' = vComplete v" "vCreated v' = vCreated v"
    "vRefs v' = vRefs v" "vCur v' = vCur v" "vInbox v' = vInbox v" "vGen v' = vGen v" "vPopped v' = vPopped v"
    "vPend v' = vPend v" "vMsgs v' = vMsgs v"
    by (simp_all add: v' vMsgs_def fun_eq_iff)
  have sl: "silent v' h' X \<longleftrightarrow> silent v h' X" for h' X by (simp add: silent_def f)
  have an: "answer v' h' g g' C \<longleftrightarrow> answer v h' g g' C" for h' g g' C by (simp add: answer_def f)
  have me: "members v' h' L = members v h' L @ (if h' = h \<and> L = None then [X] else [])" for h' L
    by (auto simp: members_def v' split: option.splits)
  show ?thesis unfolding gcInv_def
  proof (intro conjI)
    show "idsInv v'" by (rule ids_frame[OF i(1)]) (simp_all add: f sameGc_def)
    show "pairInv v'" by (rule pair_frame[OF i(2)]) (simp_all add: f)
    show "createInv v'"
      by (rule create_frame[OF i(3)]) (auto simp: f sameGc_def createInvD(2)[OF i(3)])
    show "messageInv v'" by (rule message_frame[OF i(4)]) (auto simp: f sameGc_def)
    show "pendInv v'" using i(5) unfolding pendInv_def f partner_frame[OF f(1)] .
    show "listInv v'"
      unfolding listInv_def f me
    proof (intro conjI allI impI)
      fix h' L show "distinct (members v h' L @ (if h' = h \<and> L = None then [X] else []))"
        using listInvD(1)[OF i(6), of h' L] X(2) X(2)[rule_format, of None] by auto
    next
      fix h' L Z assume "Z \<in> set (members v h' L @ (if h' = h \<and> L = None then [X] else []))"
      then show "vId v h' Z \<noteq> None" using listInvD(2)[OF i(6)] X(1) by (auto split: if_splits)
    next
      fix h' L L' Z
      assume "Z \<in> set (members v h' L @ (if h' = h \<and> L = None then [X] else []))"
        "Z \<in> set (members v h' L' @ (if h' = h \<and> L' = None then [X] else []))"
      then show "L = L'" using listInvD(3)[OF i(6)] X(2) by (auto split: if_splits)
    qed
    show "genInv v'" by (rule gen_frame[OF i(7)]) (auto simp: f)
    show "flagInv v'" by (rule flag_frame[OF i(8)]) (auto simp: f)
    show "protoInv v'" by (rule proto_frame[OF i(9)]) (auto simp: f sameProto_def)
    show "orderInv v'" by (rule order_frame[OF i(10)]) (auto simp: f keepsScan_refl)
    show "quietInv v'"
    proof (rule quiet_frame[OF i(11)])
      show "\<forall>h' g d X. vGc v h' g = Some d \<longrightarrow> X \<in> set (gMaybe d) \<longrightarrow> vGc v h' X \<noteq> None \<longrightarrow> overGc v h' X \<longrightarrow> overGc v' h' X"
        using overGc_frame[where v = v and v' = v'] by (simp add: f sl)
    qed (auto simp: f still_def)
    show "answerInv v'" by (rule answer_frame[OF i(12)]) (auto simp: f an sameMaybe_refl)
    show "liveInv v'" by (rule live_frame[OF i(13)]) (auto simp: f an sameMaybe_refl)
  qed
qed

text \<open>A new object that asks for its partner.\<close>

lemma newGc_simps [simp]:
  "gGen newGc = 0" "gObjects newGc = []" "gMaybe newGc = []" "\<not> gSentFlush newGc" "\<not> gSentScan newGc"
  "\<not> gDidScan newGc" "\<not> gGotAnswer newGc"
  by (simp_all add: newGc_def)

lemma no_message_to:
  assumes inv: "gcInv v" and p: "p \<noteq> 0" "\<And>Y. \<not> partner v h p Y"
  shows "silent v h p"
proof -
  note i = gcInvD[OF inv]
  have "dstOf m \<noteq> p" if "m \<in> set (vMsgs v h)" for m
  proof (cases "\<exists>s g b. m = Create s g b")
    case False
    then show ?thesis using kindOk_partner[OF messageInvD[OF i(4) that]] p(2) by blast
  qed (use p(1) in auto)
  moreover have "fst r \<noteq> p" if "r \<in> set (vReplies v h)" for r
    using pendInvD(4)[OF i(5) that] p(2) by blast
  ultimately show ?thesis by (simp add: silent_def)
qed

lemma silent_cnt:
  assumes "silent v h p"
  shows "cnt (\<lambda>m. dstOf m = p) (vPopped v h) = 0" "cnt (\<lambda>r. fst r = p) (vReplies v h) = 0"
    "cnt ((=) (Notify p a)) (vMsgs v h) = 0" "cnt (answerTo p) (vMsgs v h) = 0" "Notify p a \<notin> set (vMsgs v h)"
proof -
  have "answerTo p m \<Longrightarrow> dstOf m = p" for m by (cases m) auto
  moreover have "dstOf (Notify p a) = p" by simp
  ultimately show "cnt (\<lambda>m. dstOf m = p) (vPopped v h) = 0" "cnt (\<lambda>r. fst r = p) (vReplies v h) = 0"
    "cnt ((=) (Notify p a)) (vMsgs v h) = 0" "cnt (answerTo p) (vMsgs v h) = 0" "Notify p a \<notin> set (vMsgs v h)"
    using assms unfolding silent_def cnt_0_iff vMsgs_def set_append by blast+
qed

definition allocStep :: "gview \<Rightarrow> gview \<Rightarrow> side \<Rightarrow> encPtr \<Rightarrow> encPtr option \<Rightarrow> gcData option \<Rightarrow> nat \<Rightarrow> bool" where
  "allocStep v v' h p PX c r \<longleftrightarrow> p \<noteq> 0 \<and> vId v h p = None \<and> vGen v h p = 0 \<and> (c = None \<or> c = Some newGc) \<and>
     (\<forall>X. PX = Some X \<longrightarrow> vId v (other h) X \<noteq> None \<and> \<not> vCreated v (other h) X \<and> (\<forall>Y. \<not> partner v h Y X) \<and>
        (\<forall>m \<in> set (vMsgs v h). \<not> createOf X m) \<and> (vGc v (other h) X = None \<longleftrightarrow> c = None)) \<and>
     v' = v\<lparr>vId := upd2 (vId v) h p (case PX of None \<Rightarrow> Some (vNext v) | Some X \<Rightarrow> vId v (other h) X),
       vNext := (if PX = None then vNext v + 1 else vNext v), vGc := upd2 (vGc v) h p c,
       vRefs := upd2 (vRefs v) h p r, vGen := upd2 (vGen v) h p (vCur v h), vPend := upd2 (vPend v) h p 0,
       vCreated := upd2 (vCreated v) h p (PX \<noteq> None),
       vRemote := upd2 (vRemote v) h p (case PX of None \<Rightarrow> 0 | Some X \<Rightarrow> X),
       vComplete := upd2 (vComplete v) h p False\<rparr>"

lemma allocStepD:
  assumes "allocStep v v' h p PX c r"
  shows "p \<noteq> 0" "vId v h p = None" "vGen v h p = 0" "c = None \<or> c = Some newGc"
    "PX = Some X \<Longrightarrow> vId v (other h) X \<noteq> None" "PX = Some X \<Longrightarrow> \<not> vCreated v (other h) X"
    "PX = Some X \<Longrightarrow> \<not> partner v h Y X" "PX = Some X \<Longrightarrow> m \<in> set (vMsgs v h) \<Longrightarrow> \<not> createOf X m"
    "PX = Some X \<Longrightarrow> vGc v (other h) X = None \<longleftrightarrow> c = None"
  using assms unfolding allocStep_def by blast+

lemma allocStep_fields:
  assumes "allocStep v v' h p PX c r"
  shows "vText v' = vText v" "vReplies v' = vReplies v" "vList v' = vList v" "vCur v' = vCur v"
    "vPopped v' = vPopped v" "vInbox v' = vInbox v" "vMsgs v' = vMsgs v"
    "vNext v' = (if PX = None then vNext v + 1 else vNext v)"
    "vId v' = upd2 (vId v) h p (case PX of None \<Rightarrow> Some (vNext v) | Some X \<Rightarrow> vId v (other h) X)"
    "vGc v' = upd2 (vGc v) h p c" "vRefs v' = upd2 (vRefs v) h p r" "vGen v' = upd2 (vGen v) h p (vCur v h)"
    "vPend v' = upd2 (vPend v) h p 0" "vCreated v' = upd2 (vCreated v) h p (PX \<noteq> None)"
    "vRemote v' = upd2 (vRemote v) h p (case PX of None \<Rightarrow> 0 | Some X \<Rightarrow> X)"
    "vComplete v' = upd2 (vComplete v) h p False"
  using assms by (simp_all add: allocStep_def vMsgs_def fun_eq_iff)

lemma alloc_id_some:
  assumes "allocStep v v' h p PX c r"
  shows "\<exists>i. vId v' h p = Some i \<and> i < vNext v' \<or> PX \<noteq> None"
  using allocStep_fields(8,9)[OF assms] by (cases PX) auto

text \<open>Who is the partner of whom afterwards.\<close>

lemma alloc_old:
  assumes "allocStep v v' h p PX c r"
  shows "\<not> partner v h p Y" "\<not> partner v (other h) Y p"
  using allocStepD(2)[OF assms] by (auto simp: partner_def)

lemma alloc_partner:
  assumes inv: "gcInv v" and a: "allocStep v v' h p PX c r"
  shows "partner v' h' A B \<longleftrightarrow> partner v h' A B \<or>
    (\<exists>X. PX = Some X \<and> (h' = h \<and> A = p \<and> B = X \<or> h' = other h \<and> A = X \<and> B = p))"
proof -
  note id = idsInvD[OF gcInvD(1)[OF inv]]
  note d = allocStepD[OF a]
  define j where "j = (case PX of None \<Rightarrow> Some (vNext v) | Some X \<Rightarrow> vId v (other h) X)"
  have vid: "vId v' h' X = (if h' = h \<and> X = p then j else vId v h' X)" for h' X
    unfolding allocStep_fields(9)[OF a] j_def by simp
  have jn: "j \<noteq> None" using d(5) by (cases PX) (auto simp: j_def)
  have here: "vId v h Y \<noteq> j" for Y
  proof (cases PX)
    case None
    then show ?thesis using id(2)[of h Y "vNext v"] by (auto simp: j_def)
  next
    case (Some X)
    then show ?thesis using d(7)[OF Some, of Y] d(5)[OF Some] by (auto simp: j_def partner_def)
  qed
  have there: "vId v (other h) Y = j \<longleftrightarrow> PX = Some Y" for Y
  proof (cases PX)
    case None
    then show ?thesis using id(2)[of "other h" Y "vNext v"] by (auto simp: j_def)
  next
    case (Some X)
    then show ?thesis using id(3)[of "other h" Y X] d(5)[OF Some] by (auto simp: j_def)
  qed
  consider "h' = h" | "h' = other h" using side_cases by blast
  then show ?thesis
  proof cases
    case 1
    show ?thesis
    proof (cases "A = p")
      case True
      then show ?thesis using 1 jn there[of B] alloc_old(1)[OF a] by (auto simp: partner_def vid)
    next
      case False
      then show ?thesis using 1 by (auto simp: partner_def vid)
    qed
  next
    case 2
    show ?thesis
    proof (cases "B = p")
      case True
      then show ?thesis using 2 jn there[of A] alloc_old(2)[OF a] d(2) by (auto simp: partner_def vid)
    next
      case False
      then show ?thesis using 2 by (auto simp: partner_def vid)
    qed
  qed
qed

lemma alloc_mono: "gcInv v \<Longrightarrow> allocStep v v' h p PX c r \<Longrightarrow> partner v h' A B \<Longrightarrow> partner v' h' A B"
  by (simp add: alloc_partner)

text \<open>Objects that are created keep their partners.\<close>

lemma alloc_created:
  assumes inv: "gcInv v" and a: "allocStep v v' h p PX c r" and A: "vCreated v h' A"
  shows "partner v' h' A B \<longleftrightarrow> partner v h' A B"
  using alloc_partner[OF inv a, of h' A B] allocStepD(6)[OF a] A
    idsInvD(5)[OF gcInvD(1)[OF inv] allocStepD(2)[OF a]] by blast

lemma alloc_gc:
  assumes inv: "gcInv v" and a: "allocStep v v' h p PX c r" and A: "vId v h' A \<noteq> None"
  shows "vGc v' h' A = vGc v h' A"
proof -
  have "\<not> (h' = h \<and> A = p)" using A allocStepD(2)[OF a] by metis
  then show ?thesis unfolding allocStep_fields(10)[OF a] by auto
qed

lemma alloc_maybe:
  assumes inv: "gcInv v" and a: "allocStep v v' h p PX c r" and g: "vGc v' h' g = Some d" "X \<in> set (gMaybe d)"
  shows "vGc v h' g = Some d" "vId v h' X \<noteq> None" "vCreated v h' X"
proof -
  show 1: "vGc v h' g = Some d"
  proof (cases "h' = h \<and> g = p")
    case True
    then have "d = newGc" using g(1) allocStepD(4)[OF a] unfolding allocStep_fields(10)[OF a] by auto
    then show ?thesis using g(2) by simp
  next
    case False
    then show ?thesis using g(1) unfolding allocStep_fields(10)[OF a] by auto
  qed
  show "vId v h' X \<noteq> None" by (rule maybe_alloc[OF gcInvD(6)[OF inv] 1 g(2)])
  show "vCreated v h' X" by (rule quietInvD(1)[OF gcInvD(11)[OF inv] 1 g(2)])
qed

lemma alloc_silent:
  assumes inv: "gcInv v" and a: "allocStep v v' h p PX c r"
  shows "silent v h p" "PX = Some X \<Longrightarrow> silent v (other h) X" "silent v' h' Z = silent v h' Z"
proof -
  show "silent v h p" by (rule no_message_to[OF inv allocStepD(1)[OF a] alloc_old(1)[OF a]])
  show "silent v (other h) X" if "PX = Some X"
  proof (rule no_partner_silent[OF inv allocStepD(5)[OF a that]])
    fix Y show "\<not> partner v (other h) X Y" using allocStepD(7)[OF a that] by (simp add: partner_sym)
  qed
  show "silent v' h' Z = silent v h' Z" by (simp add: silent_def allocStep_fields[OF a])
qed

lemma alloc_ids:
  assumes inv: "gcInv v" and a: "allocStep v v' h p PX c r"
  shows "idsInv v'"
proof -
  note id = idsInvD[OF gcInvD(1)[OF inv]]
  note d = allocStepD[OF a]
  note f = allocStep_fields[OF a]
  note pt = alloc_partner[OF inv a]
  have vid: "vId v' h' Z = vId v h' Z" if "\<not> (h' = h \<and> Z = p)" for h' Z using that unfolding f(9) by auto
  have new: "vId v' h p = Some i \<Longrightarrow> i < vNext v'" "vId v' h p = vId v h X \<Longrightarrow> vId v h X = None" for i X
  proof -
    show "i < vNext v'" if "vId v' h p = Some i"
      using that id(2)[of "other h" _ i] unfolding f(8,9) by (cases PX) auto
    show "vId v h X = None" if "vId v' h p = vId v h X"
    proof (cases PX)
      case None
      then show ?thesis using that id(2)[of h X "vNext v"] unfolding f(9) by auto
    next
      case (Some W)
      then show ?thesis using that d(7)[OF Some, of X] unfolding f(9) by (auto simp: partner_def)
    qed
  qed
  have jn: "vId v' h p \<noteq> None" using d(5) unfolding f(9) by (cases PX) auto
  show ?thesis
    unfolding idsInv_def
  proof (intro conjI allI impI)
    fix h' show "vId v' h' 0 = None" using id(1) d(1) vid by simp
  next
    fix h' X i assume x: "vId v' h' X = Some i"
    show "i < vNext v'"
    proof (cases "h' = h \<and> X = p")
      case True
      then show ?thesis using x new(1) by simp
    next
      case False
      then have "i < vNext v" using x vid id(2) by metis
      then show ?thesis unfolding f(8) by simp
    qed
  next
    fix h' X X' assume x: "vId v' h' X = vId v' h' X'" "vId v' h' X \<noteq> None"
    show "X = X'"
    proof (cases "h' = h \<and> (X = p \<or> X' = p)")
      case True
      then show ?thesis using x new(2) vid by metis
    next
      case False
      then show ?thesis using x vid id(3) by metis
    qed
  next
    fix h' X assume x: "vId v' h' X = None"
    then have n: "\<not> (h' = h \<and> X = p)" using jn by blast
    then have "vId v h' X = None" using x vid by simp
    then show "vGc v' h' X = None" "\<not> vCreated v' h' X" using id(4,5) n unfolding f(10,14) by auto
  next
    fix h' A B assume x: "partner v' h' A B"
    show "vGc v' h' A = None \<longleftrightarrow> vGc v' (other h') B = None"
    proof (cases "partner v h' A B")
      case True
      then show ?thesis using id(6) alloc_gc[OF inv a] partner_alloc by metis
    next
      case False
      then obtain X where "PX = Some X" "h' = h \<and> A = p \<and> B = X \<or> h' = other h \<and> A = X \<and> B = p" using x pt by blast
      then show ?thesis using d(9) unfolding f(10) by auto
    qed
  qed
qed

lemma alloc_pair:
  assumes inv: "gcInv v" and a: "allocStep v v' h p PX c r"
  shows "pairInv v'"
  unfolding pairInv_def
proof (intro allI impI)
  note f = allocStep_fields[OF a]
  fix h' A B assume x: "partner v' h' A B" "vCreated v' h' A"
  show "vRemote v' h' A = B"
  proof (cases "partner v h' A B")
    case True
    then have n: "\<not> (h' = h \<and> A = p)" using alloc_old(1)[OF a] by blast
    then have "vCreated v h' A" "vRemote v' h' A = vRemote v h' A" using x(2) unfolding f(14,15) by auto
    then show ?thesis using pairInvD[OF gcInvD(2)[OF inv] True] by simp
  next
    case False
    then obtain X where X: "PX = Some X" "h' = h \<and> A = p \<and> B = X \<or> h' = other h \<and> A = X \<and> B = p"
      using x alloc_partner[OF inv a] by blast
    then have "h' = h \<and> A = p \<and> B = X" using allocStepD(6)[OF a X(1)] x(2) unfolding f(14) by auto
    then show ?thesis using X(1) unfolding f(15) by auto
  qed
qed

lemma alloc_create:
  assumes inv: "gcInv v" and a: "allocStep v v' h p PX c r"
  shows "createInv v'"
  unfolding createInv_def allocStep_fields(1,7)[OF a]
proof (intro conjI allI impI)
  note cr = createInvD[OF gcInvD(3)[OF inv]] note f = allocStep_fields[OF a]
  note d = allocStepD[OF a]
  fix h' X g b Y assume c: "Create X g b \<in> set (vMsgs v h')"
  have n: "\<not> (other h' = h \<and> X = p)" using cr(1)[OF c] d(2) by metis
  show "vId v' (other h') X \<noteq> None" using n cr(1)[OF c] unfolding f(9) by auto
  show "\<not> vCreated v' (other h') X" using n cr(2)[OF c] unfolding f(14) by auto
  show "vGc v' (other h') X \<noteq> None \<longleftrightarrow> g = vText v" using n cr(4)[OF c] unfolding f(10) by auto
  show "\<not> partner v' h' Y X"
  proof
    assume pY: "partner v' h' Y X"
    have "\<not> partner v h' Y X" by (rule cr(3)[OF c])
    then obtain W where W: "PX = Some W" "h' = h \<and> Y = p \<and> X = W \<or> h' = other h \<and> Y = W \<and> X = p"
      using pY unfolding alloc_partner[OF inv a, of h' Y X] by blast
    then have "h' = h \<and> X = W" using n by (metis other_simps(1))
    then show False using d(8)[OF W(1), of "Create X g b"] c by simp
  qed
qed (rule createInvD(5)[OF gcInvD(3)[OF inv]])

lemma alloc_message:
  assumes inv: "gcInv v" and a: "allocStep v v' h p PX c r"
  shows "messageInv v'"
  unfolding messageInv_def allocStep_fields(7)[OF a]
proof (intro allI ballI)
  note mono = alloc_mono[OF inv a]
  note gc = alloc_gc[OF inv a]
  fix h' m assume m: "m \<in> set (vMsgs v h')"
  note k = messageInvD[OF gcInvD(4)[OF inv] m]
  have al: "vId v h' (dstOf m) \<noteq> None" if "\<And>s g b. m \<noteq> Create s g b"
    using kindOk_partner[OF k] that partner_alloc by metis
  show "kindOk v' h' m"
    using k mono gc al by (cases m) auto
qed

lemma alloc_pend:
  assumes inv: "gcInv v" and a: "allocStep v v' h p PX c r"
  shows "pendInv v'"
  unfolding pendInv_def allocStep_fields(2,5)[OF a]
proof (intro conjI allI impI ballI)
  note pd = pendInvD[OF gcInvD(5)[OF inv]] note f = allocStep_fields[OF a]
  fix h' X assume x: "vId v' h' X \<noteq> None"
  show "vPend v' h' X = cnt (\<lambda>m. dstOf m = X) (vPopped v h') + cnt (\<lambda>r. fst r = X) (vReplies v h')"
  proof (cases "h' = h \<and> X = p")
    case True
    then show ?thesis using silent_cnt(1,2)[OF alloc_silent(1)[OF inv a]] unfolding f(13) by simp
  next
    case False
    then have "vId v h' X \<noteq> None" "vPend v' h' X = vPend v h' X" using x unfolding f(9,13) by auto
    then show ?thesis using pd(1) by simp
  qed
next
  note pd = pendInvD[OF gcInvD(5)[OF inv]] note f = allocStep_fields[OF a]
  fix h' r2 assume r: "r2 \<in> set (vReplies v h')"
  obtain Y where Y: "partner v h' (fst r2) Y" using pd(4)[OF r] by blast
  then have n: "\<not> (h' = h \<and> fst r2 = p)" using alloc_old(1)[OF a] by blast
  show "vGc v' h' (fst r2) \<noteq> None" "vCreated v' h' (fst r2)" "\<exists>Y. partner v' h' (fst r2) Y"
    using pd(2,3)[OF r] n alloc_mono[OF inv a Y] unfolding f(10,14) by auto
qed

lemma alloc_same:
  assumes a: "allocStep v v' h p PX c r" and n: "vId v h' X \<noteq> None"
  shows "vGc v' h' X = vGc v h' X" "vRefs v' h' X = vRefs v h' X" "vGen v' h' X = vGen v h' X"
    "vPend v' h' X = vPend v h' X" "vCreated v' h' X = vCreated v h' X" "vRemote v' h' X = vRemote v h' X"
    "vComplete v' h' X = vComplete v h' X" "vId v' h' X = vId v h' X"
proof -
  note f = allocStep_fields[OF a]
  have "\<not> (h' = h \<and> X = p)" using n allocStepD(2)[OF a] by metis
  then show "vGc v' h' X = vGc v h' X" "vRefs v' h' X = vRefs v h' X" "vGen v' h' X = vGen v h' X"
    "vPend v' h' X = vPend v h' X" "vCreated v' h' X = vCreated v h' X" "vRemote v' h' X = vRemote v h' X"
    "vComplete v' h' X = vComplete v h' X" "vId v' h' X = vId v h' X"
    unfolding f(9-16) by auto
qed

lemma alloc_gen_le:
  assumes a: "allocStep v v' h p PX c r"
  shows "vGen v h' X \<le> vGen v' h' X"
  using allocStepD(3)[OF a] unfolding allocStep_fields(12)[OF a] by simp

lemma alloc_members:
  assumes inv: "gcInv v" and a: "allocStep v v' h p PX c r"
  shows "members v' h' L = members v h' L"
proof -
  have "vGc v h p = None" by (rule idsInvD(4)[OF gcInvD(1)[OF inv] allocStepD(2)[OF a]])
  then show ?thesis
    using allocStepD(4)[OF a] unfolding members_def allocStep_fields(3,10)[OF a] by (auto split: option.splits)
qed

lemma alloc_list:
  assumes inv: "gcInv v" and a: "allocStep v v' h p PX c r"
  shows "listInv v'"
  using listInvD[OF gcInvD(6)[OF inv]] alloc_same(8)[OF a] unfolding listInv_def alloc_members[OF inv a] by metis

lemma alloc_genInv:
  assumes inv: "gcInv v" and a: "allocStep v v' h p PX c r"
  shows "genInv v'"
  unfolding genInv_def allocStep_fields(4)[OF a]
proof (intro conjI allI impI)
  note g = genInvD[OF gcInvD(7)[OF inv]] note f = allocStep_fields[OF a]
  fix h' X assume x: "vId v' h' X \<noteq> None"
  show "vGen v' h' X \<le> vCur v h'"
  proof (cases "h' = h \<and> X = p")
    case True
    then show ?thesis unfolding f(12) by simp
  next
    case False
    then have "vId v h' X \<noteq> None" using x unfolding f(9) by auto
    then show ?thesis using g(1) alloc_same(3)[OF a] by simp
  qed
next
  note f = allocStep_fields[OF a]
  fix h' g d assume "vGc v' h' g = Some d"
  then show "gGen d \<le> vCur v h'"
    using genInvD(2)[OF gcInvD(7)[OF inv]] allocStepD(4)[OF a] unfolding f(10) by (auto split: if_splits)
qed

lemma alloc_gcD:
  assumes inv: "gcInv v" and a: "allocStep v v' h p PX c r" and g: "vGc v' h' g = Some d"
  shows "vGc v h' g = Some d \<or> h' = h \<and> g = p \<and> d = newGc"
  using g allocStepD(4)[OF a] unfolding allocStep_fields(10)[OF a] by (auto split: if_splits)

lemma alloc_flag:
  assumes inv: "gcInv v" and a: "allocStep v v' h p PX c r"
  shows "flagInv v'"
  unfolding flagInv_def
proof (intro allI impI)
  fix h' g d assume g: "vGc v' h' g = Some d"
  from alloc_gcD[OF inv a g]
  show "(gSentFlush d \<longrightarrow> vCreated v' h' g) \<and>
     (\<not> gSentFlush d \<longrightarrow> gObjects d = [] \<and> gMaybe d = [] \<and> \<not> gSentScan d \<and> \<not> gDidScan d \<and> \<not> gGotAnswer d \<and>
       \<not> vComplete v' h' g) \<and>
     (\<not> gDidScan d \<longrightarrow> gMaybe d = []) \<and> (gGotAnswer d \<longrightarrow> gObjects d = [] \<and> gMaybe d = []) \<and>
     (vComplete v' h' g \<longrightarrow> gObjects d = [] \<and> gMaybe d = [])"
  proof
    assume g0: "vGc v h' g = Some d"
    then have "vId v h' g \<noteq> None" using idsInvD(4)[OF gcInvD(1)[OF inv]] by (metis option.distinct(1))
    note s = alloc_same[OF a this]
    show ?thesis using flagInvD[OF gcInvD(8)[OF inv] g0] unfolding s by blast
  next
    assume "h' = h \<and> g = p \<and> d = newGc"
    then show ?thesis unfolding allocStep_fields(16)[OF a] by simp
  qed
qed

lemma unsent:
  assumes inv: "gcInv v" and g: "vGc v h g = Some d" "\<not> vCreated v h g"
  shows "\<not> gSentFlush d" "\<not> gSentScan d" "\<not> gDidScan d" "\<not> gGotAnswer d" "gObjects d = []" "gMaybe d = []"
proof -
  show n: "\<not> gSentFlush d" using flagInvD(1)[OF gcInvD(8)[OF inv] g(1)] g(2) by blast
  show "\<not> gSentScan d" "\<not> gDidScan d" "\<not> gGotAnswer d" "gObjects d = []" "gMaybe d = []"
    using flagInvD(2-6)[OF gcInvD(8)[OF inv] g(1) n] by simp_all
qed

text \<open>A pair of collectors is old, or it is the new pair and has not begun.\<close>

definition notBegun :: "gview \<Rightarrow> side \<Rightarrow> encPtr \<Rightarrow> gcData \<Rightarrow> bool" where
  "notBegun v h g d \<longleftrightarrow> \<not> gSentFlush d \<and> \<not> gSentScan d \<and> \<not> gDidScan d \<and> \<not> gGotAnswer d \<and> gMaybe d = [] \<and> silent v h g"

lemma alloc_gcs:
  assumes inv: "gcInv v" and a: "allocStep v v' h p PX c r"
    and g: "partner v' h' g g'" "vGc v' h' g = Some d" "vGc v' (other h') g' = Some e"
  shows "partner v h' g g' \<and> vGc v h' g = Some d \<and> vGc v (other h') g' = Some e \<or>
    notBegun v h' g d \<and> notBegun v (other h') g' e"
proof (cases "partner v h' g g'")
  case True
  then show ?thesis using g(2,3) alloc_same(1)[OF a] partner_alloc[OF True] by simp
next
  case False
  then obtain X where X: "PX = Some X" "h' = h \<and> g = p \<and> g' = X \<or> h' = other h \<and> g = X \<and> g' = p"
    using g(1) unfolding alloc_partner[OF inv a, of h' g g'] by blast
  have b: "notBegun v h p d2" if "vGc v' h p = Some d2" for d2
    using alloc_gcD[OF inv a that] idsInvD(4)[OF gcInvD(1)[OF inv] allocStepD(2)[OF a]] alloc_silent(1)[OF inv a]
    by (auto simp: notBegun_def)
  have b2: "notBegun v (other h) X d2" if "vGc v' (other h) X = Some d2" for d2
    using unsent[OF inv _ allocStepD(6)[OF a X(1)]] that alloc_same(1)[OF a allocStepD(5)[OF a X(1)]]
      alloc_silent(2)[OF inv a X(1)] by (simp add: notBegun_def)
  show ?thesis using X(2) b b2 g(2,3) by auto
qed

lemma alloc_proto:
  assumes inv: "gcInv v" and a: "allocStep v v' h p PX c r"
  shows "protoInv v'"
  unfolding protoInv_def allocStep_fields(2,7)[OF a]
proof (intro allI impI)
  fix h' g g' d e assume g: "partner v' h' g g'" "vGc v' h' g = Some d" "vGc v' (other h') g' = Some e"
  from alloc_gcs[OF inv a g]
  show "cnt ((=) (Notify g FLUSH_MSGS)) (vMsgs v h') + of_bool (gSentScan d) = of_bool (gSentFlush e) \<and>
     cnt ((=) (Notify g DO_SCAN)) (vMsgs v h') + of_bool (gDidScan d) = of_bool (gSentScan e) \<and>
     cnt (answerTo g) (vMsgs v h') + cnt (\<lambda>r. fst r = g') (vReplies v (other h')) + of_bool (gGotAnswer d) =
       of_bool (gDidScan e) \<and>
     (Notify g ABORT_GC \<in> set (vMsgs v h') \<longrightarrow> gMaybe e = [])"
  proof
    assume "partner v h' g g' \<and> vGc v h' g = Some d \<and> vGc v (other h') g' = Some e"
    then show ?thesis using protoInvD[OF gcInvD(9)[OF inv], of h' g g' d e] by blast
  next
    assume b: "notBegun v h' g d \<and> notBegun v (other h') g' e"
    then have "silent v h' g" "silent v (other h') g'" by (simp_all add: notBegun_def)
    then show ?thesis using b silent_cnt[of v h' g] silent_cnt(2)[of v "other h'" g'] by (simp add: notBegun_def)
  qed
qed

lemma alloc_order:
  assumes inv: "gcInv v" and a: "allocStep v v' h p PX c r"
  shows "orderInv v'"
  unfolding orderInv_def allocStep_fields(6)[OF a]
proof (intro allI impI)
  fix h' Y g g' e as m bs
  assume b: "vGc v' (other h') Y = None" "partner v' h' g g'" "vGc v' (other h') g' = Some e" "gSentScan e"
    "vInbox v h' = as @ m # bs" "srcOf m = Y" "Y \<noteq> 0"
  have "idsInv v'" by (rule alloc_ids[OF inv a])
  then have "vGc v' h' g \<noteq> None" using idsInvD(6)[OF _ b(2)] b(3) by simp
  then obtain d where "vGc v' h' g = Some d" by blast
  then have g: "partner v h' g g'" "vGc v (other h') g' = Some e"
    using alloc_gcs[OF inv a b(2) _ b(3)] b(4) by (auto simp: notBegun_def)
  have "vGc v (other h') Y = None"
  proof (cases "vId v (other h') Y = None")
    case True
    then show ?thesis by (rule idsInvD(4)[OF gcInvD(1)[OF inv]])
  next
    case False
    then show ?thesis using b(1) alloc_same(1)[OF a False] by simp
  qed
  from orderInvD[OF gcInvD(10)[OF inv] this g b(4-7)]
  show "Notify g DO_SCAN \<in> set bs \<or> gGen e \<le> vGen v' (other h') Y"
    using alloc_gen_le[OF a, of "other h'" Y] by linarith
qed

lemma alloc_idle:
  assumes inv: "gcInv v" and a: "allocStep v v' h p PX c r" and X: "vId v h' X \<noteq> None" "idleGc v h' X"
  shows "idleGc v' h' X"
  using X(2) unfolding idleGc_def alloc_same(1)[OF a X(1)] alloc_silent(3)[OF inv a] .

lemma alloc_quiet:
  assumes inv: "gcInv v" and a: "allocStep v v' h p PX c r"
  shows "quietInv v'"
  unfolding quietInv_def
proof (intro allI impI conjI)
  fix h' g d X assume g: "vGc v' h' g = Some d" "X \<in> set (gMaybe d)"
  note m = alloc_maybe[OF inv a g] note s = alloc_same[OF a m(2)]
  note q = quietInvD[OF gcInvD(11)[OF inv] m(1) g(2)]
  show "vCreated v' h' X" using m(3) s(5) by simp
  have sp: "spared v' h' g X" if sp: "spared v h' g X"
  proof -
    obtain Y g' e where e: "partner v h' X Y" "partner v h' g g'" "vGc v (other h') g' = Some e"
      "gGen e \<le> vGen v (other h') Y" "Y \<notin> set (gMaybe e)" using sp unfolding spared_def by blast
    have "vGc v' (other h') g' = Some e" using e(3) alloc_same(1)[OF a] partner_alloc[OF e(2)] by simp
    moreover have "gGen e \<le> vGen v' (other h') Y" using e(4) alloc_gen_le[OF a, of "other h'" Y] by linarith
    ultimately show ?thesis using alloc_mono[OF inv a] e unfolding spared_def by blast
  qed
  have ov: "overGc v' h' X" if o: "overGc v h' X"
    unfolding overGc_def s(2)
  proof (intro conjI allI impI)
    show "vRefs v h' X = 0" "idleGc v' h' X" using o alloc_idle[OF inv a m(2)] by (simp_all add: overGc_def)
    fix Y assume "partner v' h' X Y"
    then have "partner v h' X Y" using alloc_created[OF inv a m(3)] by blast
    then show "idleGc v' (other h') Y" using o alloc_idle[OF inv a] partner_alloc by (metis overGc_def)
  qed
  show "if vGc v' h' X = None then still v' h' d X \<or> spared v' h' g X else overGc v' h' X"
  proof (cases "vGc v h' X = None")
    case True
    then show ?thesis using q(2) sp s by (auto simp: still_def)
  next
    case False
    then show ?thesis using q(3) ov s(1) by auto
  qed
qed

lemma alloc_answer:
  assumes inv: "gcInv v" and a: "allocStep v v' h p PX c r"
  shows "answer v' h' g g' C \<longleftrightarrow> answer v h' g g' C"
  by (simp add: answer_def allocStep_fields[OF a])

lemma silent_answer: "silent v h g \<Longrightarrow> silent v (other h) g' \<Longrightarrow> \<not> answer v h g g' C"
  by (force simp: answer_def silent_def)

lemma alloc_answerInv:
  assumes inv: "gcInv v" and a: "allocStep v v' h p PX c r"
  shows "answerInv v'"
  unfolding answerInv_def alloc_answer[OF inv a]
proof (intro allI impI)
  fix h' g g' d e C assume g: "partner v' h' g g'" "vGc v' h' g = Some d" "vGc v' (other h') g' = Some e" "answer v h' g g' C"
  have o: "partner v h' g g'" "vGc v h' g = Some d" "vGc v (other h') g' = Some e"
    using alloc_gcs[OF inv a g(1-3)] g(4) silent_answer by (auto simp: notBegun_def)
  note A = answerInvD[OF gcInvD(12)[OF inv] o g(4)]
  have "vRemote v' (other h') ` set (gMaybe e) = vRemote v (other h') ` set (gMaybe e)"
    using alloc_same(6)[OF a maybe_alloc[OF gcInvD(6)[OF inv] o(3)]] by (intro image_cong) auto
  moreover have "\<not> partner v' h' X Y" if "gGotAnswer e" "X \<in> set (gMaybe d)" "X \<in> set C" for X Y
    using A(1)[OF that] alloc_created[OF inv a quietInvD(1)[OF gcInvD(11)[OF inv] o(2) that(2)]] by blast
  ultimately show "if gGotAnswer e then \<forall>X \<in> set (gMaybe d) \<inter> set C. \<forall>Y. \<not> partner v' h' X Y
      else set C = vRemote v' (other h') ` set (gMaybe e)"
    using A(2) by auto
qed

lemma alloc_live:
  assumes inv: "gcInv v" and a: "allocStep v v' h p PX c r"
  shows "liveInv v'"
  unfolding liveInv_def
proof (intro allI impI)
  fix h' X assume c: "vCreated v' h' X"
  show "partner v' h' X (vRemote v' h' X) \<or> widow v' h' X"
  proof (cases "h' = h \<and> X = p")
    case True
    then have "PX \<noteq> None" using c unfolding allocStep_fields(14)[OF a] by simp
    then obtain W where "PX = Some W" by blast
    then show ?thesis using True alloc_partner[OF inv a, of h p W] unfolding allocStep_fields(15)[OF a] by simp
  next
    case False
    then have c0: "vCreated v h' X" using c unfolding allocStep_fields(14)[OF a] by auto
    then have al: "vId v h' X \<noteq> None" using idsInvD(5)[OF gcInvD(1)[OF inv]] by blast
    from liveInvD[OF gcInvD(13)[OF inv] c0] show ?thesis
    proof
      assume "partner v h' X (vRemote v h' X)"
      then show ?thesis using alloc_mono[OF inv a] alloc_same(6)[OF a al] by simp
    next
      assume "widow v h' X"
      then obtain g d g' e C where w: "vGc v h' g = Some d" "X \<in> set (gMaybe d)" "partner v h' g g'"
        "vGc v (other h') g' = Some e" "gGotAnswer e" "answer v h' g g' C" "X \<in> set C" by (auto simp: widow_def)
      have "vGc v' h' g = Some d" "vGc v' (other h') g' = Some e"
        using w(1,4) alloc_same(1)[OF a] partner_alloc[OF w(3)] by simp_all
      then show ?thesis
        using w alloc_mono[OF inv a w(3)] alloc_answer[OF inv a] unfolding widow_def by blast
    qed
  qed
qed

lemma move_alloc:
  assumes "gcInv v" "allocStep v v' h p PX c r"
  shows "gcInv v'"
  using alloc_ids[OF assms] alloc_pair[OF assms] alloc_create[OF assms] alloc_message[OF assms] alloc_pend[OF assms]
    alloc_list[OF assms] alloc_genInv[OF assms] alloc_flag[OF assms] alloc_proto[OF assms] alloc_order[OF assms]
    alloc_quiet[OF assms] alloc_answerInv[OF assms] alloc_live[OF assms]
  by (simp add: gcInv_def)

section \<open>The messages of a creation\<close>

lemma move_postCreate:
  assumes inv: "gcInv v" and p: "vId v h p \<noteq> None" "\<not> vCreated v h p" "\<forall>Y. \<not> partner v (other h) Y p"
    and c: "\<forall>m \<in> set (vMsgs v (other h)). \<not> createOf p m" "vGc v h p \<noteq> None \<longleftrightarrow> g = vText v"
    and v': "v' = v\<lparr>vInbox := (vInbox v)(other h := vInbox v (other h) @ [Create p g b]), vGen := upd2 (vGen v) h p (vCur v h)\<rparr>"
  shows "gcInv v'"
proof -
  note i = gcInvD[OF inv]
  have gen: "\<forall>h X. vGen v h X \<le> vGen v' h X" using genInvD(1)[OF i(7)] p(1) by (auto simp: v')
  have f: "vId v' = vId v" "vGc v' = vGc v" "vNext v' = vNext v" "vCreated v' = vCreated v" "vText v' = vText v"
    "vRemote v' = vRemote v" "vReplies v' = vReplies v" "vList v' = vList v" "vComplete v' = vComplete v"
    "vRefs v' = vRefs v" "vPend v' = vPend v" "vPopped v' = vPopped v" "vCur v' = vCur v"
    by (simp_all add: v')
  have ms: "set (vMsgs v' h') = set (vMsgs v h') \<union> (if h' = other h then {Create p g b} else {})" for h'
    by (auto simp: vMsgs_def v')
  have cn: "cnt P (vMsgs v' h') = cnt P (vMsgs v h') + (if h' = other h then of_bool (P (Create p g b)) else 0)" for P h'
    by (simp add: vMsgs_def v')
  have p0: "p \<noteq> 0" using p(1) idsInvD(1)[OF i(1)] by metis
  have an: "answer v' h' g g' C \<longleftrightarrow> answer v h' g g' C" for h' g g' C
    by (intro answer_set) (auto simp: ms f)
  have sl: "silent v' h' X" if "silent v h' X" "X \<noteq> 0" for h' X
    using that by (auto simp: silent_def ms f)
  have nm: "X \<noteq> p \<or> h' \<noteq> h" if "vGc v h' g2 = Some d" "X \<in> set (gMaybe d)" for h' g2 d X
    using quietInvD(1)[OF i(11) that] p(2) by blast
  show ?thesis unfolding gcInv_def
  proof (intro conjI)
    show "idsInv v'" by (rule ids_frame[OF i(1)]) (simp_all add: f sameGc_def)
    show "pairInv v'" by (rule pair_frame[OF i(2)]) (simp_all add: f)
    show "createInv v'"
      unfolding createInv_def partner_frame[OF f(1)] f
    proof (intro conjI allI impI)
      fix h' X g2 b2 Y assume "Create X g2 b2 \<in> set (vMsgs v' h')"
      then consider "Create X g2 b2 \<in> set (vMsgs v h')" | "h' = other h" "X = p" "g2 = g" by (auto simp: ms split: if_splits)
      note c2 = this
      show "vId v (other h') X \<noteq> None" using c2 createInvD(1)[OF i(3)] p(1) by cases auto
      show "\<not> vCreated v (other h') X" using c2 createInvD(2)[OF i(3)] p(2) by cases auto
      show "\<not> partner v h' Y X" using c2 createInvD(3)[OF i(3)] p(3) by cases auto
      show "vGc v (other h') X \<noteq> None \<longleftrightarrow> g2 = vText v" using c2 createInvD(4)[OF i(3)] c(2) by cases auto
    next
      fix h' X
      show "cnt (createOf X) (vMsgs v' h') \<le> 1"
      proof (cases "h' = other h \<and> X = p")
        case True
        then have "cnt (createOf X) (vMsgs v h') = 0" using c(1) by (simp add: cnt_0_iff)
        then show ?thesis by (simp add: cn)
      next
        case False
        then show ?thesis using createInvD(5)[OF i(3), of X h'] by (auto simp: cn)
      qed
    qed
    show "messageInv v'" by (rule message_frame[OF i(4)]) (auto simp: f sameGc_def ms split: if_splits)
    show "pendInv v'" using i(5) unfolding pendInv_def f partner_frame[OF f(1)] .
    show "listInv v'" by (rule list_frame[OF i(6)]) (simp_all add: f)
    show "genInv v'" by (rule gen_frame[OF i(7)]) (auto simp: f, auto simp: v')
    show "flagInv v'" by (rule flag_frame[OF i(8)]) (simp_all add: f)
    show "protoInv v'"
      by (rule proto_frame[OF i(9)]) (auto simp: f sameProto_def cn ms split: if_splits)
    show "orderInv v'"
      by (rule order_append[OF i(10,7), where h = "other h" and m = "Create p g b"])
        (use gen in \<open>simp_all add: keepsScan_refl f(1,2), simp_all add: v'\<close>)
    show "quietInv v'"
    proof (rule quiet_frame[OF i(11)])
      show "\<forall>h' g d X. vGc v h' g = Some d \<longrightarrow> X \<in> set (gMaybe d) \<longrightarrow> vGc v h' X = None \<longrightarrow> still v h' d X \<longrightarrow>
         still v' h' d X \<or> spared v' h' g X"
        using nm by (simp add: still_def v') blast
      show "\<forall>h' g d X. vGc v h' g = Some d \<longrightarrow> X \<in> set (gMaybe d) \<longrightarrow> vGc v h' X \<noteq> None \<longrightarrow> overGc v h' X \<longrightarrow> overGc v' h' X"
      proof (intro allI impI)
        fix h' g d X assume a: "X \<in> set (gMaybe d)" "vGc v h' g = Some d" "overGc v h' X"
        have X0: "X \<noteq> 0" using maybe_alloc[OF i(6) a(2,1)] idsInvD(1)[OF i(1)] by metis
        show "overGc v' h' X"
        proof (rule overGc_frame[OF a(3)])
          show "silent v' (other h') Y" if "partner v h' X Y" "silent v (other h') Y" for Y
            using sl[OF that(2)] partner_nonzero[OF i(1) that(1)] by blast
        qed (simp_all add: f sl X0)
      qed
    qed (use gen in \<open>simp_all add: f\<close>)
    show "answerInv v'" by (rule answer_frame[OF i(12)]) (auto simp: f an sameMaybe_refl)
    show "liveInv v'" by (rule live_frame[OF i(13)]) (auto simp: f an sameMaybe_refl)
  qed
qed

text \<open>The message that asked for a partner has been handled.\<close>

lemma move_dropCreate:
  assumes inv: "gcInv v" and po: "vPopped v h = ms @ [Create p g b]" and v': "v' = v\<lparr>vPopped := (vPopped v)(h := ms)\<rparr>"
  shows "gcInv v'"
proof -
  note i = gcInvD[OF inv]
  have f: "vId v' = vId v" "vGc v' = vGc v" "vNext v' = vNext v" "vCreated v' = vCreated v" "vText v' = vText v"
    "vRemote v' = vRemote v" "vReplies v' = vReplies v" "vList v' = vList v" "vComplete v' = vComplete v"
    "vRefs v' = vRefs v" "vCur v' = vCur v" "vInbox v' = vInbox v" "vGen v' = vGen v" "vPend v' = vPend v"
    by (simp_all add: v')
  have ms: "set (vMsgs v h') = set (vMsgs v' h') \<union> (if h' = h then {Create p g b} else {})" for h'
    using po by (auto simp: vMsgs_def v')
  have cn: "cnt P (vMsgs v h') = cnt P (vMsgs v' h') + (if h' = h then of_bool (P (Create p g b)) else 0)" for P h'
    using po by (simp add: vMsgs_def v')
  have an: "answer v' h' g g' C \<longleftrightarrow> answer v h' g g' C" for h' g g' C
    by (intro answer_set) (auto simp: ms f)
  have sl: "silent v' h' X" if "silent v h' X" for h' X
    using that by (auto simp: silent_def ms f)
  have cr: "Create X g b \<in> set (vMsgs v' h') \<Longrightarrow> \<not> vCreated v (other h') X" for X g b h'
    using createInvD(2)[OF i(3)] ms by blast
  show ?thesis unfolding gcInv_def
  proof (intro conjI)
    show "idsInv v'" by (rule ids_frame[OF i(1)]) (simp_all add: f sameGc_def)
    show "pairInv v'" by (rule pair_frame[OF i(2)]) (simp_all add: f)
    show "createInv v'"
      by (rule create_frame[OF i(3)]) (auto simp: f sameGc_def ms cn cr)
    show "messageInv v'" by (rule message_frame[OF i(4)]) (auto simp: f sameGc_def ms)
    show "pendInv v'"
      unfolding pendInv_def f partner_frame[OF f(1)]
    proof (intro conjI allI impI ballI)
      fix h' X assume a: "vId v h' X \<noteq> None"
      then have "X \<noteq> 0" using idsInvD(1)[OF i(1)] by metis
      then show "vPend v h' X = cnt (\<lambda>m. dstOf m = X) (vPopped v' h') + cnt (\<lambda>r. fst r = X) (vReplies v h')"
        using pendInvD(1)[OF i(5) a] po by (auto simp: v')
    qed (use pendInvD(2-)[OF i(5)] in blast)+
    show "listInv v'" by (rule list_frame[OF i(6)]) (simp_all add: f)
    show "genInv v'" by (rule gen_frame[OF i(7)]) (auto simp: f)
    show "flagInv v'" by (rule flag_frame[OF i(8)]) (simp_all add: f)
    show "protoInv v'" by (rule proto_frame[OF i(9)]) (auto simp: f sameProto_def cn ms)
    show "orderInv v'" by (rule order_frame[OF i(10)]) (auto simp: f keepsScan_refl)
    show "quietInv v'"
    proof (rule quiet_frame[OF i(11)])
      show "\<forall>h' g d X. vGc v h' g = Some d \<longrightarrow> X \<in> set (gMaybe d) \<longrightarrow> vGc v h' X \<noteq> None \<longrightarrow> overGc v h' X \<longrightarrow> overGc v' h' X"
        using overGc_frame[where v = v and v' = v'] by (simp add: f sl)
    qed (simp_all add: f still_def)
    show "answerInv v'" by (rule answer_frame[OF i(12)]) (auto simp: f an sameMaybe_refl)
    show "liveInv v'" by (rule live_frame[OF i(13)]) (auto simp: f an sameMaybe_refl)
  qed
qed

text \<open>While an object is being created it counts as if it handled a message of its partner.\<close>

lemma move_hand:
  assumes inv: "gcInv v" and p: "partner v h p X"
    and n: "\<forall>g d. vGc v h g = Some d \<longrightarrow> p \<notin> set (gMaybe d)" "\<forall>g d. vGc v (other h) g = Some d \<longrightarrow> X \<notin> set (gMaybe d)"
    and v': "v' = v\<lparr>vPopped := (vPopped v)(h := vPopped v h @ [Signal X p]), vPend := upd2 (vPend v) h p (vPend v h p + 1)\<rparr>"
  shows "gcInv v'"
proof -
  note i = gcInvD[OF inv]
  have f: "vId v' = vId v" "vGc v' = vGc v" "vNext v' = vNext v" "vCreated v' = vCreated v" "vText v' = vText v"
    "vRemote v' = vRemote v" "vReplies v' = vReplies v" "vList v' = vList v" "vComplete v' = vComplete v"
    "vRefs v' = vRefs v" "vCur v' = vCur v" "vInbox v' = vInbox v" "vGen v' = vGen v"
    by (simp_all add: v')
  have ms: "set (vMsgs v' h') = set (vMsgs v h') \<union> (if h' = h then {Signal X p} else {})" for h'
    by (auto simp: vMsgs_def v')
  have cn: "cnt P (vMsgs v' h') = cnt P (vMsgs v h') + (if h' = h then of_bool (P (Signal X p)) else 0)" for P h'
    by (simp add: vMsgs_def v')
  have an: "answer v' h' g g' C \<longleftrightarrow> answer v h' g g' C" for h' g g' C
    by (intro answer_set) (auto simp: ms f)
  have sl: "silent v' h' Z" if "silent v h' Z" "\<not> (h' = h \<and> Z = p)" for h' Z
    using that by (auto simp: silent_def ms f)
  show ?thesis unfolding gcInv_def
  proof (intro conjI)
    show "idsInv v'" by (rule ids_frame[OF i(1)]) (simp_all add: f sameGc_def)
    show "pairInv v'" by (rule pair_frame[OF i(2)]) (simp_all add: f)
    show "createInv v'"
      by (rule create_frame[OF i(3)]) (auto simp: f sameGc_def ms cn createInvD(2)[OF i(3)] split: if_splits)
    show "messageInv v'" by (rule message_frame[OF i(4)]) (use p in \<open>auto simp: f sameGc_def ms split: if_splits\<close>)
    show "pendInv v'"
      unfolding pendInv_def f partner_frame[OF f(1)]
    proof (intro conjI allI impI ballI)
      fix h' Z assume a: "vId v h' Z \<noteq> None"
      then show "vPend v' h' Z = cnt (\<lambda>m. dstOf m = Z) (vPopped v' h') + cnt (\<lambda>r. fst r = Z) (vReplies v h')"
        using pendInvD(1)[OF i(5) a] by (auto simp: v')
    qed (use pendInvD(2-)[OF i(5)] in blast)+
    show "listInv v'" by (rule list_frame[OF i(6)]) (simp_all add: f)
    show "genInv v'" by (rule gen_frame[OF i(7)]) (auto simp: f)
    show "flagInv v'" by (rule flag_frame[OF i(8)]) (simp_all add: f)
    show "protoInv v'" by (rule proto_frame[OF i(9)]) (auto simp: f sameProto_def cn ms split: if_splits)
    show "orderInv v'" by (rule order_frame[OF i(10)]) (auto simp: f keepsScan_refl)
    show "quietInv v'"
    proof (rule quiet_frame[OF i(11)])
      show "\<forall>h' g d Z. vGc v h' g = Some d \<longrightarrow> Z \<in> set (gMaybe d) \<longrightarrow> vGc v h' Z = None \<longrightarrow> still v h' d Z \<longrightarrow>
         still v' h' d Z \<or> spared v' h' g Z"
        using n(1) by (simp add: still_def v')
      show "\<forall>h' g d Z. vGc v h' g = Some d \<longrightarrow> Z \<in> set (gMaybe d) \<longrightarrow> vGc v h' Z \<noteq> None \<longrightarrow> overGc v h' Z \<longrightarrow> overGc v' h' Z"
      proof (intro allI impI)
        fix h' g d Z assume a: "vGc v h' g = Some d" "Z \<in> set (gMaybe d)" "overGc v h' Z"
        have z: "\<not> (h' = h \<and> Z = p)" "\<not> (h' = other h \<and> Z = X)" using n a(1,2) by blast+
        show "overGc v' h' Z"
        proof (rule overGc_frame[OF a(3)])
          show "silent v' (other h') Y" if Y: "partner v h' Z Y" "silent v (other h') Y" for Y
          proof (rule sl[OF Y(2)])
            show "\<not> (other h' = h \<and> Y = p)"
            proof
              assume y: "other h' = h \<and> Y = p"
              then have "h' = other h" by auto
              then have "partner v h p Z" using Y(1) y by (simp add: partner_sym)
              then have "Z = X" using partner_unique[OF i(1) _ p] by blast
              then show False using z(2) \<open>h' = other h\<close> by blast
            qed
          qed
        qed (use z(1) sl in \<open>simp_all add: f\<close>)
      qed
    qed (simp_all add: f)
    show "answerInv v'" by (rule answer_frame[OF i(12)]) (auto simp: f an sameMaybe_refl)
    show "liveInv v'" by (rule live_frame[OF i(13)]) (auto simp: f an sameMaybe_refl)
  qed
qed

end
