(* ===== verification/GcProtocol.thy ===== *)
theory GcProtocol
  imports GcCreate
begin

text \<open>
  The steps of the protocol between two collectors, as updates of a view.
\<close>

section \<open>One collector changes\<close>

definition protoOk :: "gview \<Rightarrow> side \<Rightarrow> encPtr \<Rightarrow> encPtr \<Rightarrow> gcData \<Rightarrow> gcData \<Rightarrow> bool" where
  "protoOk v h g g' d e \<longleftrightarrow>
     cnt ((=) (Notify g FLUSH_MSGS)) (vMsgs v h) + of_bool (gSentScan d) = of_bool (gSentFlush e) \<and>
     cnt ((=) (Notify g DO_SCAN)) (vMsgs v h) + of_bool (gDidScan d) = of_bool (gSentScan e) \<and>
     cnt (answerTo g) (vMsgs v h) + cnt (\<lambda>r. fst r = g') (vReplies v (other h)) + of_bool (gGotAnswer d) =
       of_bool (gDidScan e) \<and>
     (Notify g ABORT_GC \<in> set (vMsgs v h) \<longrightarrow> gMaybe e = [])"

lemma protoInv_Ok:
  "protoInv v \<longleftrightarrow> (\<forall>h g g' d e. partner v h g g' \<longrightarrow> vGc v h g = Some d \<longrightarrow> vGc v (other h) g' = Some e \<longrightarrow> protoOk v h g g' d e)"
  unfolding protoInv_def protoOk_def ..

definition sameFor :: "gview \<Rightarrow> gview \<Rightarrow> side \<Rightarrow> encPtr \<Rightarrow> bool" where
  "sameFor v v' h X \<longleftrightarrow>
     cnt ((=) (Notify X FLUSH_MSGS)) (vMsgs v' h) = cnt ((=) (Notify X FLUSH_MSGS)) (vMsgs v h) \<and>
     cnt ((=) (Notify X DO_SCAN)) (vMsgs v' h) = cnt ((=) (Notify X DO_SCAN)) (vMsgs v h) \<and>
     cnt (answerTo X) (vMsgs v' h) = cnt (answerTo X) (vMsgs v h) \<and>
     (Notify X ABORT_GC \<in> set (vMsgs v' h) \<longrightarrow> Notify X ABORT_GC \<in> set (vMsgs v h)) \<and>
     cnt (\<lambda>r. fst r = X) (vReplies v' h) = cnt (\<lambda>r. fst r = X) (vReplies v h)"

lemma proto_pair:
  assumes pr: "protoInv v" and id: "idsInv v" and sub: "\<forall>h A B. partner v' h A B \<longrightarrow> partner v h A B"
    and g: "partner v h g g'" "vGc v (other h) g' = Some e"
    and gc: "\<forall>h2 X d. \<not> (h2 = h \<and> X = g) \<longrightarrow> vGc v' h2 X = Some d \<longrightarrow> vGc v h2 X = Some d"
    and same: "\<forall>h2 X. \<not> (h2 = h \<and> X = g) \<longrightarrow> \<not> (h2 = other h \<and> X = g') \<longrightarrow> vGc v h2 X \<noteq> None \<longrightarrow> sameFor v v' h2 X"
    and ok: "\<forall>d. vGc v' h g = Some d \<longrightarrow> protoOk v' h g g' d e \<and> protoOk v' (other h) g' g e d"
  shows "protoInv v'"
  unfolding protoInv_Ok
proof (intro allI impI)
  fix h2 A B d2 e2 assume a': "partner v' h2 A B" and a: "vGc v' h2 A = Some d2" "vGc v' (other h2) B = Some e2"
  have AB: "partner v h2 A B" using sub a' by blast
  show "protoOk v' h2 A B d2 e2"
  proof (cases "h2 = h \<and> A = g")
    case True
    then have B: "B = g'" using partner_unique[OF id _ g(1)] AB by blast
    then have "vGc v (other h) g' = Some e2" using gc a(2) True by simp
    then show ?thesis using True B ok a g(2) by simp
  next
    case False
    show ?thesis
    proof (cases "h2 = other h \<and> A = g'")
      case True
      then have "partner v h B g'" using AB by (simp add: partner_sym)
      then have B: "B = g" using partner_unique'[OF id _ g(1)] by blast
      have "vGc v (other h) g' = Some d2" using gc a(1) False True by blast
      then show ?thesis using True B ok a(2) g(2) by simp
    next
      case n: False
      have "\<not> (other h2 = h \<and> B = g)"
      proof
        assume x: "other h2 = h \<and> B = g"
        then have h2: "h2 = other h" by auto
        then have "partner v h g A" using AB x by (simp add: partner_sym)
        then show False using partner_unique[OF id _ g(1)] n h2 by blast
      qed
      moreover have "\<not> (other h2 = other h \<and> B = g')"
      proof
        assume x: "other h2 = other h \<and> B = g'"
        then have h2: "h2 = h" by (metis other_simps(1))
        then have "partner v h A g'" using AB x by simp
        then show False using partner_unique'[OF id _ g(1)] False h2 by blast
      qed
      ultimately have B: "vGc v (other h2) B = Some e2" "sameFor v v' (other h2) B" using gc same a(2) by blast+
      have A: "vGc v h2 A = Some d2" "sameFor v v' h2 A" using gc same a(1) False n by blast+
      show ?thesis using protoInvD[OF pr AB A(1) B(1)] A(2) B(2) by (simp add: protoOk_def sameFor_def)
    qed
  qed
qed

text \<open>Objects move between lists, and perhaps out of them.\<close>

lemma distinct_submset:
  assumes d: "distinct xs" and s: "mset ys \<subseteq># mset xs"
  shows "distinct ys" "set ys \<subseteq> set xs"
proof -
  show sub: "set ys \<subseteq> set xs" using set_mset_mono[OF s] by simp
  have "count (mset ys) a = (if a \<in> set ys then 1 else 0)" for a
  proof -
    have "count (mset xs) a \<le> 1" using d[unfolded distinct_count_atmost_1] by simp
    then have "count (mset ys) a \<le> 1" using mset_subset_eq_count[OF s] order_trans by blast
    moreover have "count (mset ys) a > 0 \<longleftrightarrow> a \<in> set ys" by simp
    ultimately show ?thesis by (metis One_nat_def le_Suc_eq le_zero_eq neq0_conv)
  qed
  then show "distinct ys" unfolding distinct_count_atmost_1 by blast
qed

lemma list_move:
  assumes l: "listInv v" and A: "A \<noteq> B"
    and id: "\<forall>h L X. X \<in> set (members v' h L) \<longrightarrow> vId v h X \<noteq> None \<longrightarrow> vId v' h X \<noteq> None"
    and o: "\<forall>h' L. \<not> (h' = h \<and> (L = A \<or> L = B)) \<longrightarrow> members v' h' L = members v h' L"
    and s: "mset (members v' h A) + mset (members v' h B) \<subseteq># mset (members v h A) + mset (members v h B)"
  shows "listInv v'"
proof -
  have "set (members v h A) \<inter> set (members v h B) = {}" using listInvD(3)[OF l] A by blast
  then have d: "distinct (members v h A @ members v h B)" using listInvD(1)[OF l] by simp
  have "mset (members v' h A @ members v' h B) \<subseteq># mset (members v h A @ members v h B)" using s by simp
  then have d': "distinct (members v' h A @ members v' h B)" and
    sub: "set (members v' h A @ members v' h B) \<subseteq> set (members v h A @ members v h B)"
    using distinct_submset[OF d] by blast+
  have mem: "\<exists>L0. X \<in> set (members v h' L0) \<and> (L0 = L \<or> h' = h \<and> L0 \<in> {A, B} \<and> L \<in> {A, B})"
    if "X \<in> set (members v' h' L)" for h' L X
  proof (cases "h' = h \<and> (L = A \<or> L = B)")
    case True
    then have "X \<in> set (members v h A @ members v h B)" using sub that by auto
    then show ?thesis using True by auto
  next
    case False
    then show ?thesis using o that by metis
  qed
  show ?thesis
    unfolding listInv_def
  proof (intro conjI allI impI)
    fix h' L show "distinct (members v' h' L)"
      using o listInvD(1)[OF l] d' by (cases "h' = h \<and> (L = A \<or> L = B)") auto
  next
    fix h' L X assume x: "X \<in> set (members v' h' L)"
    then show "vId v' h' X \<noteq> None" using id mem[OF x] listInvD(2)[OF l] by blast
  next
    fix h' L L' X assume x: "X \<in> set (members v' h' L)" "X \<in> set (members v' h' L')"
    obtain L0 where L0: "X \<in> set (members v h' L0)" "L0 = L \<or> h' = h \<and> L0 \<in> {A, B} \<and> L \<in> {A, B}" using mem[OF x(1)] by blast
    obtain L1 where L1: "X \<in> set (members v h' L1)" "L1 = L' \<or> h' = h \<and> L1 \<in> {A, B} \<and> L' \<in> {A, B}" using mem[OF x(2)] by blast
    have e: "L0 = L1" by (rule listInvD(3)[OF l L0(1) L1(1)])
    show "L = L'"
    proof (cases "h' = h \<and> L \<in> {A, B} \<and> L' \<in> {A, B}")
      case True
      then show ?thesis using x d' by auto
    next
      case False
      then show ?thesis using L0(2) L1(2) e by blast
    qed
  qed
qed

lemma spared_step:
  assumes sp: "spared v h g X" and id: "vId v' = vId v" and gen: "\<forall>h X. vGen v h X \<le> vGen v' h X"
    and gc: "\<forall>g' e Y. partner v h g g' \<longrightarrow> vGc v (other h) g' = Some e \<longrightarrow> gGen e \<le> vGen v (other h) Y \<longrightarrow>
      Y \<notin> set (gMaybe e) \<longrightarrow> (\<exists>e'. vGc v' (other h) g' = Some e' \<and> gGen e' \<le> gGen e \<and> Y \<notin> set (gMaybe e'))"
  shows "spared v' h g X"
proof -
  obtain Y g' e where e: "partner v h X Y" "partner v h g g'" "vGc v (other h) g' = Some e"
    "gGen e \<le> vGen v (other h) Y" "Y \<notin> set (gMaybe e)" using sp unfolding spared_def by blast
  obtain e' where e': "vGc v' (other h) g' = Some e'" "gGen e' \<le> gGen e" "Y \<notin> set (gMaybe e')"
    using gc e by blast
  have "gGen e' \<le> vGen v' (other h) Y" using e'(2) e(4) gen[rule_format, of "other h" Y] by linarith
  then show ?thesis using e(1,2) e'(1,3) unfolding spared_def partner_frame[OF id] by blast
qed

lemma not_over:
  assumes ns: "\<not> silent v h g" and g: "partner v h g g'"
  shows "\<not> overGc v h g" "\<not> overGc v (other h) g'"
  using ns g by (auto simp: overGc_def idleGc_def partner_sym)

lemma over_other:
  assumes id: "idsInv v" and ns: "\<not> silent v h g" and g: "partner v h g g'" and Z: "overGc v h' Z"
  shows "\<not> (h' = h \<and> Z = g)" "\<not> (h' = other h \<and> Z = g')"
    "partner v h' Z Y \<Longrightarrow> \<not> (other h' = h \<and> Y = g)" "partner v h' Z Y \<Longrightarrow> \<not> (other h' = other h \<and> Y = g')"
proof -
  show 1: "\<not> (h' = h \<and> Z = g)" and 2: "\<not> (h' = other h \<and> Z = g')" using not_over[OF ns g] Z by blast+
  assume p: "partner v h' Z Y"
  show "\<not> (other h' = h \<and> Y = g)"
  proof
    assume x: "other h' = h \<and> Y = g"
    then have "h' = other h" by auto
    then show False using p x 2 partner_unique[OF id _ g] by (simp add: partner_sym)
  qed
  show "\<not> (other h' = other h \<and> Y = g')"
  proof
    assume x: "other h' = other h \<and> Y = g'"
    then have "h' = h" by (metis other_simps(1))
    then show False using p x 1 partner_unique'[OF id _ g] by simp
  qed
qed

text \<open>A collector that handles a message, or that has just been created, notifies its partner.\<close>

definition popStep :: "gview \<Rightarrow> gview \<Rightarrow> side \<Rightarrow> encPtr \<Rightarrow> bool" where
  "popStep v v' h g \<longleftrightarrow> vPopped v' = vPopped v \<and> vPend v' = vPend v \<or>
     (\<exists>b ms. vPopped v h = ms @ [Notify g b] \<and> vPopped v' = (vPopped v)(h := ms) \<and>
       vPend v' = upd2 (vPend v) h g (vPend v h g - 1))"

definition notifyStep :: "gview \<Rightarrow> gview \<Rightarrow> side \<Rightarrow> encPtr \<Rightarrow> encPtr \<Rightarrow> gcData \<Rightarrow> 64 word \<Rightarrow> bool" where
  "notifyStep v v' h g g' d' a \<longleftrightarrow> a \<in> {FLUSH_MSGS, DO_SCAN, ABORT_GC} \<and> popStep v v' h g \<and>
     vId v' = vId v \<and> vNext v' = vNext v \<and> vCreated v' = vCreated v \<and> vText v' = vText v \<and>
     vRemote v' = vRemote v \<and> vReplies v' = vReplies v \<and> vComplete v' = vComplete v \<and> vRefs v' = vRefs v \<and>
     vGen v' = vGen v \<and> vGc v' = upd2 (vGc v) h g (Some d') \<and>
     vInbox v' = (vInbox v)(other h := vInbox v (other h) @ [Notify g' a])"

lemma notifyStepD:
  assumes "notifyStep v v' h g g' d' a"
  shows "vId v' = vId v" "vNext v' = vNext v" "vCreated v' = vCreated v" "vText v' = vText v"
     "vRemote v' = vRemote v" "vReplies v' = vReplies v" "vComplete v' = vComplete v" "vRefs v' = vRefs v"
     "vGen v' = vGen v" "vGc v' = upd2 (vGc v) h g (Some d')"
     "vInbox v' = (vInbox v)(other h := vInbox v (other h) @ [Notify g' a])"
     "popStep v v' h g" "a \<in> {FLUSH_MSGS, DO_SCAN, ABORT_GC}"
  using assms unfolding notifyStep_def by blast+

text \<open>The messages that it handles and sends are notifications.\<close>

lemma popStep_msgs:
  assumes s: "popStep v v' h g"
  shows "\<forall>b. P (Notify g b) = False \<Longrightarrow> cnt P (vPopped v' h') = cnt P (vPopped v h')"
    "m \<in> set (vPopped v' h') \<Longrightarrow> m \<in> set (vPopped v h')"
    "m \<in> set (vPopped v h') \<Longrightarrow> m \<in> set (vPopped v' h') \<or> h' = h \<and> (\<exists>b. m = Notify g b)"
    "vPend v' h' X = vPend v h' X \<or> h' = h \<and> X = g \<and> vPend v' h' X = vPend v h' X - 1"
    "vPend v h' X = cnt (\<lambda>m. dstOf m = X) (vPopped v h') + n \<Longrightarrow>
     vPend v' h' X = cnt (\<lambda>m. dstOf m = X) (vPopped v' h') + n"
  using s unfolding popStep_def by (auto split: if_splits)

lemma notify_msgs:
  assumes s: "notifyStep v v' h g g' d' a"
  shows "m \<in> set (vMsgs v' h') \<Longrightarrow> m \<in> set (vMsgs v h') \<or> h' = other h \<and> m = Notify g' a"
    "m \<in> set (vMsgs v h') \<Longrightarrow> m \<in> set (vMsgs v' h') \<or> h' = h \<and> (\<exists>b. m = Notify g b)"
    "\<forall>X b. P (Notify X b) = False \<Longrightarrow> cnt P (vMsgs v' h') = cnt P (vMsgs v h')"
    "answer v' h' A B C \<longleftrightarrow> answer v h' A B C"
    "silent v h' X \<Longrightarrow> \<not> (h' = other h \<and> X = g') \<Longrightarrow> silent v' h' X"
proof -
  note f = notifyStepD[OF s]
  note p = popStep_msgs[OF f(12)]
  show 1: "m \<in> set (vMsgs v' h') \<Longrightarrow> m \<in> set (vMsgs v h') \<or> h' = other h \<and> m = Notify g' a" for m h'
    using p(2) by (auto simp: vMsgs_def f(11) split: if_splits)
  show 2: "m \<in> set (vMsgs v h') \<Longrightarrow> m \<in> set (vMsgs v' h') \<or> h' = h \<and> (\<exists>b. m = Notify g b)" for m h'
    using p(3)[of m h'] by (auto simp: vMsgs_def f(11))
  show "\<forall>X b. P (Notify X b) = False \<Longrightarrow> cnt P (vMsgs v' h') = cnt P (vMsgs v h')"
    using p(1)[of P h'] by (simp add: vMsgs_def f(11))
  show "answer v' h' A B C \<longleftrightarrow> answer v h' A B C"
    by (rule answer_set) (use 1 2 f(6) in auto)
  show "silent v' h' X" if "silent v h' X" "\<not> (h' = other h \<and> X = g')"
    unfolding silent_def f(6)
  proof (intro conjI ballI)
    fix m assume "m \<in> set (vMsgs v' h')"
    then show "dstOf m \<noteq> X" using 1[of m h'] that by (auto simp: silent_def)
  qed (use that(1) in \<open>simp add: silent_def\<close>)
qed

lemma move_notify:
  assumes inv: "gcInv v" and ns: "\<not> silent v h g"
    and g: "partner v h g g'" "vGc v h g = Some d" "vGc v (other h) g' = Some e"
    and s: "notifyStep v v' h g g' d' a"
    and d': "gMaybe d' = gMaybe d" "gGotAnswer d' = gGotAnswer d" "gGen d' = gGen d \<or> gMaybe d = [] \<and> gMaybe e = []"
    and rest: "listInv v'" "genInv v'" "flagInv v'" "protoInv v'" "orderInv v'"
  shows "gcInv v'"
proof -
  note i = gcInvD[OF inv]
  note f = notifyStepD[OF s] note n = notify_msgs[OF s] note p = popStep_msgs[OF f(12)]
  have sg: "sameGc v v'" using g(2) by (simp add: sameGc_def f(10))
  have sm: "sameMaybe v v'" using g(2) d' by (simp add: sameMaybe_def f(10))
  have gc: "\<exists>d. vGc v h' X = Some d \<and> gMaybe d = gMaybe d2 \<and> (d = d2 \<or> gGen d = gGen d2 \<or> gMaybe d2 = [])" if "vGc v' h' X = Some d2" for h' X d2
    using that g(2) d' unfolding f(10) by (cases "h' = h \<and> X = g") auto
  show ?thesis unfolding gcInv_def
  proof (intro conjI rest)
    show "idsInv v'" by (rule ids_frame[OF i(1) f(1,2) sg]) (simp add: f)
    show "pairInv v'" by (rule pair_frame[OF i(2)]) (simp_all add: f)
    show "createInv v'"
    proof (rule create_frame[OF i(3) f(1,4) sg])
      show "\<forall>h X g b. Create X g b \<in> set (vMsgs v' h) \<longrightarrow> Create X g b \<in> set (vMsgs v h) \<and> \<not> vCreated v' (other h) X"
        using n(1) createInvD(2)[OF i(3)] unfolding f(3) by blast
    qed (use n(3) in simp)
    show "messageInv v'"
    proof (rule message_frame[OF i(4) f(1) sg], intro allI impI)
      fix h' m assume "m \<in> set (vMsgs v' h')"
      moreover have "kindOk v (other h) (Notify g' a)" using g f(13) partner_sym by auto
      ultimately show "m \<in> set (vMsgs v h') \<or> kindOk v h' m" using n(1) by blast
    qed
    show "pendInv v'"
      unfolding pendInv_def partner_frame[OF f(1)] f(1,3,6)
    proof (intro conjI allI impI ballI)
      fix h' X assume "vId v h' X \<noteq> None"
      from p(5)[OF pendInvD(1)[OF i(5) this]]
      show "vPend v' h' X = cnt (\<lambda>m. dstOf m = X) (vPopped v' h') + cnt (\<lambda>r. fst r = X) (vReplies v h')" .
    next
      fix h' r assume r: "r \<in> set (vReplies v h')"
      show "vGc v' h' (fst r) \<noteq> None" using pendInvD(2)[OF i(5) r] sg by (simp add: sameGc_def)
    qed (use pendInvD(3,4)[OF i(5)] in blast)+
    show "quietInv v'"
      unfolding quietInv_def
    proof (intro allI impI conjI)
      fix h' g2 d2 X assume a: "vGc v' h' g2 = Some d2" "X \<in> set (gMaybe d2)"
      obtain d1 where d1: "vGc v h' g2 = Some d1" "gMaybe d1 = gMaybe d2" "gGen d1 = gGen d2"
        using gc[OF a(1)] a(2) by (metis empty_iff empty_set)
      have X1: "X \<in> set (gMaybe d1)" using a(2) d1(2) by simp
      note q = quietInvD[OF i(11) d1(1) X1]
      show "vCreated v' h' X" using q(1) f(3) by simp
      have st: "still v' h' d2 X" if "still v h' d1 X"
        using that d1(3) p(4)[of h' X] unfolding still_def f(8,9) by auto
      have sp: "spared v' h' g2 X" if "spared v h' g2 X"
      proof (rule spared_step[OF that f(1)])
        show "\<forall>g' e Y. partner v h' g2 g' \<longrightarrow> vGc v (other h') g' = Some e \<longrightarrow> gGen e \<le> vGen v (other h') Y \<longrightarrow>
          Y \<notin> set (gMaybe e) \<longrightarrow> (\<exists>e'. vGc v' (other h') g' = Some e' \<and> gGen e' \<le> gGen e \<and> Y \<notin> set (gMaybe e'))"
        proof (intro allI impI)
          fix g2' e2 Y assume b: "partner v h' g2 g2'" "vGc v (other h') g2' = Some e2" "Y \<notin> set (gMaybe e2)"
          show "\<exists>e'. vGc v' (other h') g2' = Some e' \<and> gGen e' \<le> gGen e2 \<and> Y \<notin> set (gMaybe e')"
          proof (cases "other h' = h \<and> g2' = g")
            case True
            then have h': "h' = other h" by auto
            have "e2 = d" using True b(2) g(2) by simp
            moreover have "g2 = g'" using b(1) True h' partner_unique[OF i(1) _ g(1)] by (simp add: partner_sym)
            then have "d1 = e" using d1(1) h' g(3) by simp
            then have "gMaybe e \<noteq> []" using X1 by auto
            ultimately show ?thesis using True d' b(3) unfolding f(10) by simp
          next
            case False
            then show ?thesis using b unfolding f(10) by auto
          qed
        qed
      qed (simp add: f(9))
      have ov: "overGc v' h' X" if o: "overGc v h' X"
      proof -
        note oo = over_other[OF i(1) ns g(1) o]
        have idle: "idleGc v' h2 Z" if "idleGc v h2 Z" "\<not> (h2 = h \<and> Z = g)" "\<not> (h2 = other h \<and> Z = g')" for h2 Z
          using that n(5) unfolding idleGc_def f(10) by auto
        show ?thesis
          using o idle oo unfolding overGc_def partner_frame[OF f(1)] f(8) by blast
      qed
      show "if vGc v' h' X = None then still v' h' d2 X \<or> spared v' h' g2 X else overGc v' h' X"
        using q(2,3) st sp ov sg by (auto simp: sameGc_def)
    qed
    show "answerInv v'" by (rule answer_frame[OF i(12) f(1) sm]) (use n(4) in \<open>simp_all add: f\<close>)
    show "liveInv v'" by (rule live_frame[OF i(13) f(1) sm f(3,5)]) (use n(4) in simp)
  qed
qed

lemma order_notify:
  assumes inv: "gcInv v" and g: "partner v h g g'" "vGc v h g = Some d" and s: "notifyStep v v' h g g' d' a"
    and d': "gSentScan d' \<Longrightarrow> a = DO_SCAN \<or> gSentScan d \<and> gGen d' = gGen d"
  shows "orderInv v'"
  unfolding orderInv_def
proof (intro allI impI)
  note i = gcInvD[OF inv] note f = notifyStepD[OF s]
  define v1 where "v1 = v'\<lparr>vGc := vGc v\<rparr>"
  have v1: "vId v1 = vId v" "vGc v1 = vGc v" "vGen v1 = vGen v" "vInbox v1 = vInbox v'"
    using f by (simp_all add: v1_def)
  have o: "orderInv v1"
    by (rule order_append[OF i(10,7) v1(1) keepsScan_refl[OF v1(2)], where h = "other h" and m = "Notify g' a"])
      (simp_all add: v1 f(11))
  fix h' Y A B e as m bs
  assume a: "vGc v' (other h') Y = None" "partner v' h' A B" "vGc v' (other h') B = Some e" "gSentScan e"
    "vInbox v' h' = as @ m # bs" "srcOf m = Y" "Y \<noteq> 0"
  have Y: "vGc v1 (other h') Y = None" using a(1) unfolding f(10) v1 by (auto split: if_splits)
  have AB: "partner v h' A B" using a(2) unfolding partner_frame[OF f(1)] .
  then have AB1: "partner v1 h' A B" unfolding partner_frame[OF v1(1)] .
  have ib: "vInbox v1 h' = as @ m # bs" using a(5) v1(4) by simp
  show "Notify A DO_SCAN \<in> set bs \<or> gGen e \<le> vGen v' (other h') Y"
  proof (cases "other h' = h \<and> B = g")
    case True
    then have h': "h' = other h" by auto
    have A: "A = g'" using AB True h' partner_unique[OF i(1) _ g(1)] by (simp add: partner_sym)
    have e: "e = d'" using a(3) True unfolding f(10) by simp
    from d' consider "a = DO_SCAN" | "gSentScan d" "gGen d' = gGen d" using a(4) e by blast
    then show ?thesis
    proof cases
      case 1
      have "vInbox v (other h) @ [Notify g' DO_SCAN] = as @ m # bs" using a(5) 1 h' unfolding f(11) by simp
      then show ?thesis using a(6,7) A by (auto simp: snoc_split)
    next
      case 2
      then show ?thesis using orderInvD[OF o Y AB1 _ _ ib a(6,7), of d] g(2) True e unfolding v1 f(9) by simp
    qed
  next
    case False
    then have "vGc v1 (other h') B = Some e" using a(3) unfolding f(10) v1 by (auto split: if_splits)
    from orderInvD[OF o Y AB1 this a(4) ib a(6,7)] show ?thesis by (simp add: v1 f(9))
  qed
qed

definition flagOk :: "gcData \<Rightarrow> bool \<Rightarrow> bool \<Rightarrow> bool" where
  "flagOk d cr co \<longleftrightarrow> (gSentFlush d \<longrightarrow> cr) \<and>
     (\<not> gSentFlush d \<longrightarrow> gObjects d = [] \<and> gMaybe d = [] \<and> \<not> gSentScan d \<and> \<not> gDidScan d \<and> \<not> gGotAnswer d \<and> \<not> co) \<and>
     (\<not> gDidScan d \<longrightarrow> gMaybe d = []) \<and> (gGotAnswer d \<longrightarrow> gObjects d = [] \<and> gMaybe d = []) \<and>
     (co \<longrightarrow> gObjects d = [] \<and> gMaybe d = [])"

lemma flagInv_Ok: "flagInv v \<longleftrightarrow> (\<forall>h g d. vGc v h g = Some d \<longrightarrow> flagOk d (vCreated v h g) (vComplete v h g))"
  unfolding flagInv_def flagOk_def ..

lemma flag_one:
  assumes "flagInv v" "flagOk d (vCreated v' h g) (vComplete v' h g)"
    "\<forall>h2 X d2. \<not> (h2 = h \<and> X = g) \<longrightarrow> vGc v' h2 X = Some d2 \<longrightarrow>
       vGc v h2 X = Some d2 \<and> vCreated v' h2 X = vCreated v h2 X \<and> vComplete v' h2 X = vComplete v h2 X"
    "vGc v' h g = Some d"
  shows "flagInv v'"
  unfolding flagInv_Ok
proof (intro allI impI)
  fix h2 X d2 assume x: "vGc v' h2 X = Some d2"
  show "flagOk d2 (vCreated v' h2 X) (vComplete v' h2 X)"
  proof (cases "h2 = h \<and> X = g")
    case True
    then show ?thesis using x assms(2,4) by simp
  next
    case False
    then have "vGc v h2 X = Some d2" "vCreated v' h2 X = vCreated v h2 X" "vComplete v' h2 X = vComplete v h2 X"
      using assms(3) x by blast+
    then show ?thesis using assms(1) unfolding flagInv_Ok by simp
  qed
qed

lemma flag_notify:
  assumes inv: "gcInv v" and s: "notifyStep v v' h g g' d' a" and ok: "flagOk d' (vCreated v h g) (vComplete v h g)"
  shows "flagInv v'"
proof (rule flag_one[OF gcInvD(8)[OF inv]])
  note f = notifyStepD[OF s]
  show "flagOk d' (vCreated v' h g) (vComplete v' h g)" using ok unfolding f .
qed (auto simp: notifyStepD[OF s] split: if_splits)

text \<open>The generation and the lists do not change.\<close>

lemma gen_notify:
  assumes inv: "gcInv v" and s: "notifyStep v v' h g g' d' a" and g: "vGc v h g = Some d" "gGen d' = gGen d" "vCur v' = vCur v"
  shows "genInv v'"
proof -
  note f = notifyStepD[OF s]
  show ?thesis using gcInvD(7)[OF inv] g(1,2) unfolding genInv_def f(1,9,10) g(3) by (auto split: if_splits)
qed

lemma list_notify:
  assumes inv: "gcInv v" and s: "notifyStep v v' h g g' d' a" and g: "vGc v h g = Some d" "vList v' = vList v"
    "gObjects d' = gObjects d" "gMaybe d' = gMaybe d"
  shows "listInv v'"
proof -
  note f = notifyStepD[OF s]
  have "members v' = members v"
    using g by (auto simp: members_def f(10) fun_eq_iff split: option.splits)
  then show ?thesis using gcInvD(6)[OF inv] by (simp add: listInv_def f(1))
qed

lemma notify_counts:
  assumes s: "notifyStep v v' h g g' d' a" and P: "\<forall>b. P (Notify g b) = False"
  shows "cnt P (vMsgs v' h') = cnt P (vMsgs v h') + of_bool (h' = other h \<and> P (Notify g' a))"
proof -
  note f = notifyStepD[OF s]
  show ?thesis using popStep_msgs(1)[OF f(12), of P h'] P by (auto simp: vMsgs_def f(11))
qed

lemma notify_same:
  assumes s: "notifyStep v v' h g g' d' a" and X: "\<not> (h2 = h \<and> X = g)" "\<not> (h2 = other h \<and> X = g')"
  shows "sameFor v v' h2 X"
proof (cases "X = g \<and> h2 \<noteq> h")
  case False
  then have "X \<noteq> g" using X(1) by blast
  moreover have "Notify X ABORT_GC \<in> set (vMsgs v' h2) \<Longrightarrow> Notify X ABORT_GC \<in> set (vMsgs v h2)"
    using notify_msgs(1)[OF s] X(2) by blast
  ultimately show ?thesis using X(2) by (auto simp: sameFor_def notify_counts[OF s] notifyStepD(6)[OF s])
next
  case True
  note f = notifyStepD[OF s]
  have "vPopped v' h2 = vPopped v h2" using f(12) True by (auto simp: popStep_def)
  then show ?thesis using True X(2) by (auto simp: sameFor_def vMsgs_def f(6,11))
qed

text \<open>The two lists of the host are exchanged, and the partner is told to flush its messages.\<close>

lemma move_swap:
  assumes inv: "gcInv v" and ns: "\<not> silent v h g" and c: "vCreated v h g"
    and g: "partner v h g g'" "vGc v h g = Some d" and d: "\<not> gSentFlush d"
    and v': "v' = v\<lparr>vCur := (vCur v)(h := vCur v h + 1), vList := (vList v)(h := gObjects d),
      vGc := upd2 (vGc v) h g (Some (d\<lparr>gGen := vCur v h + 1, gObjects := vList v h, gSentFlush := True\<rparr>)),
      vInbox := (vInbox v)(other h := vInbox v (other h) @ [Notify g' FLUSH_MSGS])\<rparr>"
  shows "gcInv v'"
proof -
  note i = gcInvD[OF inv]
  obtain e where e: "vGc v (other h) g' = Some e" using idsInvD(6)[OF i(1) g(1)] g(2) by auto
  define d' where "d' = d\<lparr>gGen := vCur v h + 1, gObjects := vList v h, gSentFlush := True\<rparr>"
  have s: "notifyStep v v' h g g' d' FLUSH_MSGS" by (simp add: notifyStep_def popStep_def v' d'_def)
  note f = notifyStepD[OF s]
  note fl = flagInvD(2-6,12)[OF i(8) g(2) d]
  have pr: "protoOk v h g g' d e" "protoOk v (other h) g' g e d"
    using i(9) g e by (auto simp: protoInv_Ok partner_sym)
  then have e0: "\<not> gDidScan e" using fl(3) by (cases "gDidScan e") (auto simp: protoOk_def)
  then have em: "gMaybe e = []" using flagInvD(7)[OF i(8) e] by blast
  show ?thesis
  proof (rule move_notify[OF inv ns g e s])
    show "gMaybe d' = gMaybe d" "gGotAnswer d' = gGotAnswer d" "gGen d' = gGen d \<or> gMaybe d = [] \<and> gMaybe e = []"
      using fl(2) em by (simp_all add: d'_def)
    show "listInv v'"
    proof (rule list_move[OF i(6), where h = h and A = None and B = "Some g"])
      show "\<forall>h' L. \<not> (h' = h \<and> (L = None \<or> L = Some g)) \<longrightarrow> members v' h' L = members v h' L"
        by (auto simp: members_def v' split: option.splits)
      show "mset (members v' h None) + mset (members v' h (Some g)) \<subseteq># mset (members v h None) + mset (members v h (Some g))"
        using g(2) fl(1,2) by (simp add: members_def v')
    qed (simp_all add: f)
    show "genInv v'"
      unfolding genInv_def f(1,9,10)
    proof (intro conjI allI impI)
      fix h' X assume "vId v h' X \<noteq> None"
      then have "vGen v h' X \<le> vCur v h'" using genInvD(1)[OF i(7)] by blast
      then show "vGen v h' X \<le> vCur v' h'" by (auto simp: v')
    next
      fix h' X d2 assume "upd2 (vGc v) h g (Some d') h' X = Some d2"
      then show "gGen d2 \<le> vCur v' h'"
        using genInvD(2)[OF i(7), of h' X d2] by (auto simp: v' d'_def split: if_splits)
    qed
    show "flagInv v'"
      by (rule flag_notify[OF inv s]) (use fl c in \<open>simp add: flagOk_def d'_def\<close>)
    show "protoInv v'"
    proof (rule proto_pair[OF i(9,1) _ g(1) e])
      have "protoOk v' h g g' d' e"
        using pr(1) popStep_msgs(2)[OF f(12)] by (simp add: protoOk_def d'_def v' vMsgs_def)
      moreover have "protoOk v' (other h) g' g e d'"
        using pr(2) fl(2) d by (simp add: protoOk_def d'_def v' vMsgs_def FLUSH_MSGS_def DO_SCAN_def ABORT_GC_def)
      ultimately show "\<forall>d. vGc v' h g = Some d \<longrightarrow> protoOk v' h g g' d e \<and> protoOk v' (other h) g' g e d"
        by (simp add: f(10))
    qed (use notify_same[OF s] in \<open>auto simp: partner_frame[OF f(1)] f(10) split: if_splits\<close>)
    show "orderInv v'"
      by (rule order_notify[OF inv g s]) (use fl(3) in \<open>simp add: d'_def\<close>)
  qed
qed

lemma proto_notify:
  assumes inv: "gcInv v" and s: "notifyStep v v' h g g' d' a" and g: "partner v h g g'" "vGc v (other h) g' = Some e"
    and ok: "protoOk v' h g g' d' e" "protoOk v' (other h) g' g e d'"
  shows "protoInv v'"
  by (rule proto_pair[OF gcInvD(9,1)[OF inv] _ g])
    (use ok notify_same[OF s] in \<open>auto simp: partner_frame[OF notifyStepD(1)[OF s]] notifyStepD(10)[OF s] split: if_splits\<close>)

lemma gc_pair:
  assumes inv: "gcInv v" and g: "partner v h g g'" "vGc v h g = Some d"
  obtains e where "vGc v (other h) g' = Some e" "protoOk v h g g' d e" "protoOk v (other h) g' g e d"
proof -
  obtain e where e: "vGc v (other h) g' = Some e" using idsInvD(6)[OF gcInvD(1)[OF inv] g(1)] g(2) by auto
  moreover have "protoOk v h g g' d e" "protoOk v (other h) g' g e d"
    using gcInvD(9)[OF inv] g e by (auto simp: protoInv_Ok partner_sym)
  ultimately show ?thesis using that by blast
qed

lemma hand_not_silent: "vPopped v h = ms @ [m] \<Longrightarrow> dstOf m = g \<Longrightarrow> \<not> silent v h g"
  by (force simp: silent_def vMsgs_def)

lemma notify_neq [simp]: "FLUSH_MSGS \<noteq> DO_SCAN" "FLUSH_MSGS \<noteq> ABORT_GC" "DO_SCAN \<noteq> FLUSH_MSGS" "DO_SCAN \<noteq> ABORT_GC"
  "ABORT_GC \<noteq> FLUSH_MSGS" "ABORT_GC \<noteq> DO_SCAN"
  by (simp_all add: FLUSH_MSGS_def DO_SCAN_def ABORT_GC_def)

text \<open>The flush has come; the partner can scan.\<close>

lemma move_flush:
  assumes inv: "gcInv v" and po: "vPopped v h = ms @ [Notify g FLUSH_MSGS]"
    and g: "partner v h g g'" "vGc v h g = Some d" and d: "gSentFlush d"
    and v': "v' = v\<lparr>vGc := upd2 (vGc v) h g (Some (d\<lparr>gSentScan := True\<rparr>)),
      vInbox := (vInbox v)(other h := vInbox v (other h) @ [Notify g' DO_SCAN]),
      vPopped := (vPopped v)(h := ms), vPend := upd2 (vPend v) h g (vPend v h g - 1)\<rparr>"
  shows "gcInv v'"
proof -
  note i = gcInvD[OF inv]
  obtain e where e: "vGc v (other h) g' = Some e" and pr: "protoOk v h g g' d e" "protoOk v (other h) g' g e d"
    by (rule gc_pair[OF inv g])
  define d' where "d' = d\<lparr>gSentScan := True\<rparr>"
  have s: "notifyStep v v' h g g' d' DO_SCAN" using po by (auto simp: notifyStep_def popStep_def v' d'_def)
  have ns: "\<not> silent v h g" by (rule hand_not_silent[OF po]) simp
  have d0: "\<not> gSentScan d" using pr(1) po by (cases "gSentScan d"; cases "gSentFlush e") (auto simp: protoOk_def vMsgs_def)
  show ?thesis
  proof (rule move_notify[OF inv ns g e s])
    show "gMaybe d' = gMaybe d" "gGotAnswer d' = gGotAnswer d" "gGen d' = gGen d \<or> gMaybe d = [] \<and> gMaybe e = []"
      by (simp_all add: d'_def)
    show "listInv v'" by (rule list_notify[OF inv s g(2)]) (simp_all add: v' d'_def)
    show "genInv v'" by (rule gen_notify[OF inv s g(2)]) (simp_all add: v' d'_def)
    show "flagInv v'"
      by (rule flag_notify[OF inv s]) (use flagInvD[OF i(8) g(2)] d in \<open>simp add: flagOk_def d'_def\<close>)
    show "protoInv v'"
    proof (rule proto_notify[OF inv s g(1) e])
      show "protoOk v' h g g' d' e" using pr(1) po d0 by (simp add: protoOk_def d'_def v' vMsgs_def)
      show "protoOk v' (other h) g' g e d'" using pr(2) d0 by (simp add: protoOk_def d'_def v' vMsgs_def)
    qed
    show "orderInv v'" by (rule order_notify[OF inv g s]) simp
  qed
qed

text \<open>The scan has found nothing; the partner ends its protocol.\<close>

lemma scan_facts:
  assumes inv: "gcInv v" and m: "Notify g DO_SCAN \<in> set (vMsgs v h)" and g: "partner v h g g'" "vGc v h g = Some d"
    and e: "vGc v (other h) g' = Some e" "protoOk v h g g' d e" "protoOk v (other h) g' g e d"
  shows "\<not> gDidScan d" "gMaybe d = []" "gSentFlush d" "gSentScan e" "\<not> gGotAnswer e"
    "cnt ((=) (Notify g DO_SCAN)) (vMsgs v h) = 1" "cnt (answerTo g') (vMsgs v (other h)) = 0"
    "cnt (\<lambda>r. fst r = g) (vReplies v h) = 0"
proof -
  have c: "cnt ((=) (Notify g DO_SCAN)) (vMsgs v h) \<noteq> 0" using m by (auto simp: cnt_0_iff)
  show d: "\<not> gDidScan d" and s: "gSentScan e"
    using e(2) c by (cases "gDidScan d"; cases "gSentScan e"; auto simp: protoOk_def)+
  show "gSentFlush d" using e(3) s by (cases "gSentFlush d") (auto simp: protoOk_def)
  show "gMaybe d = []" by (rule flagInvD(7)[OF gcInvD(8)[OF inv] g(2) d])
  show "cnt ((=) (Notify g DO_SCAN)) (vMsgs v h) = 1" using e(2) d s by (simp add: protoOk_def)
  show "\<not> gGotAnswer e" "cnt (answerTo g') (vMsgs v (other h)) = 0" "cnt (\<lambda>r. fst r = g) (vReplies v h) = 0"
    using e(3) d by (simp_all add: protoOk_def)
qed

lemma move_scan_abort:
  assumes inv: "gcInv v" and po: "vPopped v h = ms @ [Notify g DO_SCAN]"
    and g: "partner v h g g'" "vGc v h g = Some d"
    and v': "v' = v\<lparr>vGc := upd2 (vGc v) h g (Some (d\<lparr>gDidScan := True\<rparr>)),
      vInbox := (vInbox v)(other h := vInbox v (other h) @ [Notify g' ABORT_GC]),
      vPopped := (vPopped v)(h := ms), vPend := upd2 (vPend v) h g (vPend v h g - 1)\<rparr>"
  shows "gcInv v'"
proof -
  note i = gcInvD[OF inv]
  obtain e where e: "vGc v (other h) g' = Some e" and pr: "protoOk v h g g' d e" "protoOk v (other h) g' g e d"
    by (rule gc_pair[OF inv g])
  define d' where "d' = d\<lparr>gDidScan := True\<rparr>"
  have s: "notifyStep v v' h g g' d' ABORT_GC" using po by (auto simp: notifyStep_def popStep_def v' d'_def)
  have ns: "\<not> silent v h g" by (rule hand_not_silent[OF po]) simp
  have m: "Notify g DO_SCAN \<in> set (vMsgs v h)" using po by (simp add: vMsgs_def)
  note sf = scan_facts[OF inv m g e pr]
  show ?thesis
  proof (rule move_notify[OF inv ns g e s])
    show "gMaybe d' = gMaybe d" "gGotAnswer d' = gGotAnswer d" "gGen d' = gGen d \<or> gMaybe d = [] \<and> gMaybe e = []"
      by (simp_all add: d'_def)
    show "listInv v'" by (rule list_notify[OF inv s g(2)]) (simp_all add: v' d'_def)
    show "genInv v'" by (rule gen_notify[OF inv s g(2)]) (simp_all add: v' d'_def)
    show "flagInv v'"
      by (rule flag_notify[OF inv s]) (use flagInvD[OF i(8) g(2)] sf in \<open>simp add: flagOk_def d'_def\<close>)
    show "protoInv v'"
    proof (rule proto_notify[OF inv s g(1) e])
      show "protoOk v' h g g' d' e" using pr(1) po sf(1) by (simp add: protoOk_def d'_def v' vMsgs_def)
      show "protoOk v' (other h) g' g e d'" using pr(2) sf by (simp add: protoOk_def d'_def v' vMsgs_def)
    qed
    show "orderInv v'" by (rule order_notify[OF inv g s]) (simp add: d'_def)
  qed
qed

text \<open>The objects that are left go back to the list of the host.\<close>

lemma move_complete:
  assumes inv: "gcInv v" and g: "vGc v h g = Some d" and d: "gMaybe d = []" "gSentFlush d"
    and v': "v' = v\<lparr>vGc := upd2 (vGc v) h g (Some (d\<lparr>gObjects := []\<rparr>)), vList := (vList v)(h := vList v h @ gObjects d),
      vComplete := upd2 (vComplete v) h g True\<rparr>"
  shows "gcInv v'"
proof -
  note i = gcInvD[OF inv]
  define d' where "d' = d\<lparr>gObjects := []\<rparr>"
  have f: "vId v' = vId v" "vNext v' = vNext v" "vCreated v' = vCreated v" "vText v' = vText v"
    "vRemote v' = vRemote v" "vReplies v' = vReplies v" "vMsgs v' = vMsgs v"
    "vRefs v' = vRefs v" "vCur v' = vCur v" "vInbox v' = vInbox v" "vPopped v' = vPopped v" "vGen v' = vGen v" "vPend v' = vPend v"
    by (simp_all add: v' vMsgs_def fun_eq_iff)
  have gc: "vGc v' = upd2 (vGc v) h g (Some d')" by (simp add: v' d'_def)
  have sg: "sameGc v v'" using g by (simp add: sameGc_def gc)
  have sm: "sameMaybe v v'" using g by (simp add: sameMaybe_def gc d'_def)
  have sl: "silent v' = silent v" by (simp add: silent_def f fun_eq_iff)
  have an: "answer v' = answer v" by (simp add: answer_def f fun_eq_iff)
  show ?thesis unfolding gcInv_def
  proof (intro conjI)
    show "idsInv v'" by (rule ids_frame[OF i(1) f(1,2) sg]) (simp add: f)
    show "pairInv v'" by (rule pair_frame[OF i(2)]) (simp_all add: f)
    show "createInv v'" by (rule create_frame[OF i(3) f(1,4) sg]) (auto simp: f createInvD(2)[OF i(3)])
    show "messageInv v'" by (rule message_frame[OF i(4) f(1) sg]) (auto simp: f)
    show "pendInv v'"
      using i(5) sg unfolding pendInv_def f partner_frame[OF f(1)] by (simp add: sameGc_def)
    show "listInv v'"
    proof (rule list_move[OF i(6), where h = h and A = None and B = "Some g"])
      show "\<forall>h' L. \<not> (h' = h \<and> (L = None \<or> L = Some g)) \<longrightarrow> members v' h' L = members v h' L"
        by (auto simp: members_def v' split: option.splits)
      show "mset (members v' h None) + mset (members v' h (Some g)) \<subseteq># mset (members v h None) + mset (members v h (Some g))"
        using g d by (simp add: members_def v')
    qed (simp_all add: f)
    show "genInv v'"
      using i(7) g unfolding genInv_def f gc by (auto simp: d'_def split: if_splits)
    show "flagInv v'"
      by (rule flag_one[OF i(8), where d = d' and h = h and g = g])
        (use flagInvD[OF i(8) g] d in \<open>auto simp: flagOk_def d'_def v' split: if_splits\<close>)
    show "protoInv v'"
      unfolding protoInv_def partner_frame[OF f(1)] f
    proof (intro allI impI)
      fix h2 A B d2 e2 assume a: "partner v h2 A B" "vGc v' h2 A = Some d2" "vGc v' (other h2) B = Some e2"
      have x: "\<exists>d1. vGc v h2 A = Some d1 \<and> (d1 = d2 \<or> d2 = d1\<lparr>gObjects := []\<rparr>)" if "vGc v' h2 A = Some d2" for h2 A d2
        using that g unfolding gc d'_def by (cases "h2 = h \<and> A = g") auto
      obtain d1 where d1: "vGc v h2 A = Some d1" "d1 = d2 \<or> d2 = d1\<lparr>gObjects := []\<rparr>" using x[OF a(2)] by blast
      obtain e1 where e1: "vGc v (other h2) B = Some e1" "e1 = e2 \<or> e2 = e1\<lparr>gObjects := []\<rparr>" using x[OF a(3)] by blast
      have "gSentScan d2 = gSentScan d1" "gDidScan d2 = gDidScan d1" "gGotAnswer d2 = gGotAnswer d1"
        "gSentFlush e2 = gSentFlush e1" "gSentScan e2 = gSentScan e1" "gDidScan e2 = gDidScan e1" "gMaybe e2 = gMaybe e1"
        using d1(2) e1(2) by auto
      then show "cnt ((=) (Notify A FLUSH_MSGS)) (vMsgs v h2) + of_bool (gSentScan d2) = of_bool (gSentFlush e2) \<and>
         cnt ((=) (Notify A DO_SCAN)) (vMsgs v h2) + of_bool (gDidScan d2) = of_bool (gSentScan e2) \<and>
         cnt (answerTo A) (vMsgs v h2) + cnt (\<lambda>r. fst r = B) (vReplies v (other h2)) + of_bool (gGotAnswer d2) =
           of_bool (gDidScan e2) \<and>
         (Notify A ABORT_GC \<in> set (vMsgs v h2) \<longrightarrow> gMaybe e2 = [])"
        using protoInvD[OF i(9) a(1) d1(1) e1(1)] by simp
    qed
    show "orderInv v'"
      by (rule order_frame[OF i(10) f(1)]) (use g in \<open>auto simp: f keepsScan_def gc d'_def split: if_splits\<close>)
    show "quietInv v'"
      unfolding quietInv_def
    proof (intro allI impI conjI)
      fix h' g2 d2 X assume a: "vGc v' h' g2 = Some d2" "X \<in> set (gMaybe d2)"
      then have d2: "vGc v h' g2 = Some d2" using d unfolding gc d'_def by (auto split: if_splits)
      note q = quietInvD[OF i(11) d2 a(2)]
      show "vCreated v' h' X" using q(1) f(3) by simp
      have sp: "spared v' h' g2 X" if "spared v h' g2 X"
        by (rule spared_step[OF that f(1)]) (auto simp: f gc g d'_def)
      have idle: "idleGc v' h2 Z" if "idleGc v h2 Z" for h2 Z
      proof (cases "h2 = h \<and> Z = g")
        case True
        then show ?thesis using that d unfolding idleGc_def sl gc by (simp add: d'_def)
      next
        case False
        then have "vGc v' h2 Z = vGc v h2 Z" unfolding gc by auto
        then show ?thesis using that unfolding idleGc_def sl by simp
      qed
      have "overGc v' h' X" if "overGc v h' X"
        using that idle unfolding overGc_def partner_frame[OF f(1)] f(8) by blast
      then show "if vGc v' h' X = None then still v' h' d2 X \<or> spared v' h' g2 X else overGc v' h' X"
        using q(2,3) sp sg by (auto simp: sameGc_def still_def f)
    qed
    show "answerInv v'" by (rule answer_frame[OF i(12) f(1) sm]) (simp_all add: f an)
    show "liveInv v'" by (rule live_frame[OF i(13) f(1) sm f(3,5)]) (simp add: an)
  qed
qed

text \<open>The scan has found objects; the answer waits to be sent.\<close>

lemma spared_step_app:
  assumes sp: "spared v h g X" and id: "vId v' = vId v" and gen: "\<forall>h X. vGen v h X \<le> vGen v' h X"
    and gc: "\<forall>g' e Y. partner v h X Y \<longrightarrow> partner v h g g' \<longrightarrow> vGc v (other h) g' = Some e \<longrightarrow>
      gGen e \<le> vGen v (other h) Y \<longrightarrow> Y \<notin> set (gMaybe e) \<longrightarrow>
      (\<exists>e'. vGc v' (other h) g' = Some e' \<and> gGen e' \<le> gGen e \<and> Y \<notin> set (gMaybe e'))"
  shows "spared v' h g X"
proof -
  obtain Y g' e where e: "partner v h X Y" "partner v h g g'" "vGc v (other h) g' = Some e"
    "gGen e \<le> vGen v (other h) Y" "Y \<notin> set (gMaybe e)" using sp unfolding spared_def by blast
  obtain e' where e': "vGc v' (other h) g' = Some e'" "gGen e' \<le> gGen e" "Y \<notin> set (gMaybe e')"
    using gc e by blast
  have "gGen e' \<le> vGen v' (other h) Y" using e'(2) e(4) gen[rule_format, of "other h" Y] by linarith
  then show ?thesis using e(1,2) e'(1,3) unfolding spared_def partner_frame[OF id] by blast
qed

lemma move_scan_answer:
  assumes inv: "gcInv v" and po: "vPopped v h = ms @ [Notify g DO_SCAN]"
    and g: "partner v h g g'" "vGc v h g = Some d"
    and P: "filter P (gObjects d) \<noteq> []" "\<forall>X \<in> set (gObjects d). P X \<longrightarrow> vCreated v h X \<and>
      (vGc v h X = None \<longrightarrow> still v h d X) \<and> (vGc v h X \<noteq> None \<longrightarrow> overGc v h X)"
    and v': "v' = v\<lparr>vGc := upd2 (vGc v) h g (Some (d\<lparr>gMaybe := gMaybe d @ filter P (gObjects d),
        gObjects := filter (\<lambda>X. \<not> P X) (gObjects d), gDidScan := True\<rparr>)),
      vReplies := (vReplies v)(h := vReplies v h @ [(g, map (vRemote v h) (filter P (gObjects d)))]),
      vPopped := (vPopped v)(h := ms)\<rparr>"
  shows "gcInv v'"
proof -
  note i = gcInvD[OF inv]
  obtain e where e: "vGc v (other h) g' = Some e" and pr: "protoOk v h g g' d e" "protoOk v (other h) g' g e d"
    by (rule gc_pair[OF inv g])
  define D where "D = filter P (gObjects d)"
  have m: "Notify g DO_SCAN \<in> set (vMsgs v h)" using po by (simp add: vMsgs_def)
  note sf = scan_facts[OF inv m g e pr]
  define d' where "d' = d\<lparr>gMaybe := D, gObjects := filter (\<lambda>X. \<not> P X) (gObjects d), gDidScan := True\<rparr>"
  have gc: "vGc v' = upd2 (vGc v) h g (Some d')" by (simp add: v' d'_def D_def sf(2))
  have f: "vId v' = vId v" "vNext v' = vNext v" "vCreated v' = vCreated v" "vText v' = vText v"
    "vRemote v' = vRemote v" "vList v' = vList v" "vComplete v' = vComplete v"
    "vRefs v' = vRefs v" "vCur v' = vCur v" "vInbox v' = vInbox v" "vGen v' = vGen v" "vPend v' = vPend v"
    by (simp_all add: v')
  have rp: "vReplies v' h' = vReplies v h' @ (if h' = h then [(g, map (vRemote v h) D)] else [])" for h'
    by (simp add: v' D_def)
  have pp: "vPopped v h' = vPopped v' h' @ (if h' = h then [Notify g DO_SCAN] else [])" for h'
    using po by (simp add: v')
  have cn: "cnt Q (vMsgs v h') = cnt Q (vMsgs v' h') + of_bool (h' = h \<and> Q (Notify g DO_SCAN))" for Q h'
    by (simp add: vMsgs_def f pp[of h'])
  have ms: "set (vMsgs v h') = set (vMsgs v' h') \<union> (if h' = h then {Notify g DO_SCAN} else {})" for h'
    unfolding vMsgs_def f pp[of h'] by auto
  have cr: "Create X g b \<in> set (vMsgs v' h') \<Longrightarrow> \<not> vCreated v (other h') X" for X g b h'
    using createInvD(2)[OF i(3)] ms by blast
  have sg: "sameGc v v'" using g by (simp add: sameGc_def gc)
  have ns: "\<not> silent v h g" by (rule hand_not_silent[OF po]) simp
  have sl: "silent v' h' X" if "silent v h' X" "\<not> (h' = h \<and> X = g)" for h' X
    using that by (auto simp: silent_def ms rp)
  have an: "answer v' h' A B C \<longleftrightarrow> answer v h' A B C \<or> h' = other h \<and> B = g \<and> C = map (vRemote v h) D" for h' A B C
    using side_cases[of h' h] by (auto simp: answer_def ms rp)
  have no: "\<not> answer v (other h) g' g C" for C
    using sf(7,8) by (force simp: answer_def cnt_0_iff)
  have DP: "vCreated v h X" "vGc v h X = None \<Longrightarrow> still v h d X" "vGc v h X \<noteq> None \<Longrightarrow> overGc v h X" if "X \<in> set D" for X
    using that P(2) by (auto simp: D_def)
  have got: "\<not> gGotAnswer d" "\<not> vComplete v h g"
    using P(1) flagInvD(8,10)[OF i(8) g(2)] by auto
  show ?thesis unfolding gcInv_def
  proof (intro conjI)
    show "idsInv v'" by (rule ids_frame[OF i(1) f(1,2) sg]) (simp add: f)
    show "pairInv v'" by (rule pair_frame[OF i(2)]) (simp_all add: f)
    show "createInv v'" by (rule create_frame[OF i(3) f(1,4) sg]) (auto simp: f ms cn cr)
    show "messageInv v'" by (rule message_frame[OF i(4) f(1) sg]) (auto simp: ms)
    show "pendInv v'"
      unfolding pendInv_def f partner_frame[OF f(1)]
    proof (intro conjI allI impI ballI)
      fix h' X assume "vId v h' X \<noteq> None"
      from pendInvD(1)[OF i(5) this]
      show "vPend v h' X = cnt (\<lambda>m. dstOf m = X) (vPopped v' h') + cnt (\<lambda>r. fst r = X) (vReplies v' h')"
        unfolding rp pp[of h'] by auto
    next
      fix h' r assume r: "r \<in> set (vReplies v' h')"
      have c: "vCreated v h g" by (rule flagInvD(1)[OF i(8) g(2) sf(3)])
      show "vGc v' h' (fst r) \<noteq> None" "vCreated v h' (fst r)" "\<exists>Y. partner v h' (fst r) Y"
        using r pendInvD(2-4)[OF i(5), of r h'] c g sg unfolding rp sameGc_def by (auto split: if_splits)
    qed
    show "listInv v'"
    proof (rule list_move[OF i(6), where h = h and A = None and B = "Some g"])
      show "\<forall>h' L. \<not> (h' = h \<and> (L = None \<or> L = Some g)) \<longrightarrow> members v' h' L = members v h' L"
        by (auto simp: members_def gc f split: option.splits)
      have "mset (filter (\<lambda>X. \<not> P X) (gObjects d)) + mset (filter P (gObjects d)) = mset (gObjects d)"
        by (simp add: union_commute)
      then show "mset (members v' h None) + mset (members v' h (Some g)) \<subseteq># mset (members v h None) + mset (members v h (Some g))"
        using g sf(2) by (simp add: members_def gc d'_def D_def f)
    qed (simp_all add: f)
    show "genInv v'"
      using i(7) g unfolding genInv_def f gc by (auto simp: d'_def split: if_splits)
    show "flagInv v'"
      by (rule flag_one[OF i(8), where d = d' and h = h and g = g])
        (use flagInvD(1)[OF i(8) g(2)] sf(3) got in \<open>auto simp: flagOk_def d'_def gc f split: if_splits\<close>)
    show "protoInv v'"
    proof (rule proto_pair[OF i(9,1) _ g(1) e])
      have "protoOk v' h g g' d' e" using pr(1) sf(1) rp[of "other h"] unfolding protoOk_def cn[of _ h] ms[of h] by (simp add: d'_def)
      moreover have "protoOk v' (other h) g' g e d'"
        using pr(2) sf(1,5,8) rp[of h] unfolding protoOk_def cn[of _ "other h"] ms[of "other h"]
        by (auto simp: d'_def sf(7) cnt_0_iff)
      ultimately show "\<forall>d. vGc v' h g = Some d \<longrightarrow> protoOk v' h g g' d e \<and> protoOk v' (other h) g' g e d"
        by (simp add: gc)
      show "\<forall>h2 X. \<not> (h2 = h \<and> X = g) \<longrightarrow> \<not> (h2 = other h \<and> X = g') \<longrightarrow> vGc v h2 X \<noteq> None \<longrightarrow> sameFor v v' h2 X"
        by (auto simp: sameFor_def cn ms rp)
    qed (auto simp: partner_frame[OF f(1)] gc)
    show "orderInv v'"
      by (rule order_frame[OF i(10) f(1)]) (use g in \<open>auto simp: f keepsScan_def gc d'_def split: if_splits\<close>)
    show "quietInv v'"
      unfolding quietInv_def
    proof (intro allI impI conjI)
      fix h' g2 d2 X assume a: "vGc v' h' g2 = Some d2" "X \<in> set (gMaybe d2)"
      consider (new) "h' = h" "g2 = g" "X \<in> set D" "gGen d2 = gGen d" | (old) "vGc v h' g2 = Some d2"
        using a unfolding gc by (cases "h' = h \<and> g2 = g") (auto simp: d'_def)
      note c = this
      have idle: "idleGc v' h2 Z" if "idleGc v h2 Z" "\<not> (h2 = h \<and> Z = g)" for h2 Z
        using that sl unfolding idleGc_def gc by auto
      have ov: "overGc v' h' X" if "overGc v h' X"
        using that idle over_other[OF i(1) ns g(1) that] unfolding overGc_def partner_frame[OF f(1)] f(8) by blast
      have st: "still v' h' d2 X \<longleftrightarrow> still v h' d2 X" by (simp add: still_def f)
      have sp: "spared v' h' g2 X" if s: "spared v h' g2 X" and app: "vGc v h' X = None"
      proof (rule spared_step_app[OF s f(1)])
        show "\<forall>A e2 Y. partner v h' X Y \<longrightarrow> partner v h' g2 A \<longrightarrow> vGc v (other h') A = Some e2 \<longrightarrow>
          gGen e2 \<le> vGen v (other h') Y \<longrightarrow> Y \<notin> set (gMaybe e2) \<longrightarrow>
          (\<exists>e'. vGc v' (other h') A = Some e' \<and> gGen e' \<le> gGen e2 \<and> Y \<notin> set (gMaybe e'))"
        proof (intro allI impI)
          fix A e2 Y assume b: "partner v h' X Y" "vGc v (other h') A = Some e2" "gGen e2 \<le> vGen v (other h') Y" "Y \<notin> set (gMaybe e2)"
          have Y: "vGc v (other h') Y = None" using idsInvD(6)[OF i(1) b(1)] app by simp
          show "\<exists>e'. vGc v' (other h') A = Some e' \<and> gGen e' \<le> gGen e2 \<and> Y \<notin> set (gMaybe e')"
          proof (cases "other h' = h \<and> A = g")
            case True
            then have e2: "e2 = d" using b(2) g(2) by simp
            have "Y \<notin> set D" using DP(2)[of Y] Y b(3) True e2 by (auto simp: still_def)
            then show ?thesis using True e2 unfolding gc by (simp add: d'_def)
          next
            case False
            then show ?thesis using b(2,4) unfolding gc by auto
          qed
        qed
      qed (simp add: f)
      have q: "vCreated v h' X" "vGc v h' X = None \<Longrightarrow> still v h' d2 X \<or> spared v h' g2 X" "vGc v h' X \<noteq> None \<Longrightarrow> overGc v h' X"
        using c DP[of X] quietInvD[OF i(11)] a(2) by (cases; auto simp: still_def)+
      show "vCreated v' h' X" using q(1) f(3) by simp
      show "if vGc v' h' X = None then still v' h' d2 X \<or> spared v' h' g2 X else overGc v' h' X"
        using q(2,3) st sp ov sg by (auto simp: sameGc_def)
    qed
    show "answerInv v'"
      unfolding answerInv_def partner_frame[OF f(1)] f(5)
    proof (intro allI impI)
      fix h2 A B d2 e2 C assume a: "partner v h2 A B" "vGc v' h2 A = Some d2" "vGc v' (other h2) B = Some e2" "answer v' h2 A B C"
      show "if gGotAnswer e2 then \<forall>X\<in>set (gMaybe d2) \<inter> set C. \<forall>Y. \<not> partner v h2 X Y
          else set C = vRemote v (other h2) ` set (gMaybe e2)"
      proof (cases "h2 = other h \<and> B = g")
        case True
        then have "A = g'" using a(1) partner_unique[OF i(1) _ g(1)] by (simp add: partner_sym)
        then have "C = map (vRemote v h) D" using a(4) no True unfolding an by blast
        moreover have "e2 = d'" using a(3) True unfolding gc by simp
        ultimately show ?thesis using True got(1) by (simp add: d'_def)
      next
        case False
        then have o: "answer v h2 A B C" using a(4) unfolding an by blast
        have "\<not> (other h2 = h \<and> B = g)" using False by auto
        then have e2: "vGc v (other h2) B = Some e2" using a(3) unfolding gc by auto
        show ?thesis
        proof (cases "h2 = h \<and> A = g")
          case True
          then have B: "B = g'" using a(1) partner_unique[OF i(1) _ g(1)] by blast
          have "e2 = e" using e2 e True B by simp
          then show ?thesis
            using answerInvD(2)[OF i(12) a(1) _ e2 o] True g(2) sf(5) by simp
        next
          case False
          then have "vGc v h2 A = Some d2" using a(2) unfolding gc by auto
          then show ?thesis using i(12) a(1) e2 o unfolding answerInv_def by blast
        qed
      qed
    qed
    show "liveInv v'"
      unfolding liveInv_def partner_frame[OF f(1)] f(3,5)
    proof (intro allI impI)
      fix h' X assume "vCreated v h' X"
      then have "partner v h' X (vRemote v h' X) \<or> widow v h' X" by (rule liveInvD[OF i(13)])
      moreover have "widow v' h' X" if wi: "widow v h' X"
      proof -
        obtain g2 d2 B e2 C where w: "vGc v h' g2 = Some d2" "X \<in> set (gMaybe d2)" "partner v h' g2 B"
          "vGc v (other h') B = Some e2" "gGotAnswer e2" "answer v h' g2 B C" "X \<in> set C"
          using wi by (auto simp: widow_def)
        have "\<not> (h' = h \<and> g2 = g)" using w(1,2) g(2) sf(2) by auto
        then have "vGc v' h' g2 = Some d2" using w(1) unfolding gc by auto
        moreover have "\<not> (other h' = h \<and> B = g)" using w(4,5) g(2) got(1) by auto
        then have "vGc v' (other h') B = Some e2" using w(4) unfolding gc by auto
        ultimately show ?thesis using w an unfolding widow_def partner_frame[OF f(1)] by blast
      qed
      ultimately show "partner v h' X (vRemote v h' X) \<or> widow v' h' X" by blast
    qed
  qed
qed

text \<open>The answer is sent.\<close>

lemma move_reply:
  assumes inv: "gcInv v" and rs: "vReplies v h = as @ (g, C) # bs" and g': "g' = vRemote v h g"
    and v': "v' = v\<lparr>vReplies := (vReplies v)(h := as @ bs),
      vInbox := (vInbox v)(other h := vInbox v (other h) @ [Data g g' a (encodePtrs C)]),
      vGen := upd2 (vGen v) h g (vCur v h), vPend := upd2 (vPend v) h g (vPend v h g - 1)\<rparr>"
  shows "gcInv v'"
proof -
  note i = gcInvD[OF inv]
  have r: "(g, C) \<in> set (vReplies v h)" using rs by simp
  have g: "vGc v h g \<noteq> None" "vCreated v h g" "\<exists>Y. partner v h g Y" using pendInvD(2-4)[OF i(5) r] by simp_all
  have gg: "partner v h g g'" using g(2,3) pairInvD[OF i(2)] g' by blast
  obtain d where d: "vGc v h g = Some d" using g(1) by blast
  obtain e where e: "vGc v (other h) g' = Some e" and pr: "protoOk v h g g' d e" "protoOk v (other h) g' g e d"
    by (rule gc_pair[OF inv gg d])
  define M where "M = Data g g' a (encodePtrs C)"
  have f: "vId v' = vId v" "vNext v' = vNext v" "vCreated v' = vCreated v" "vText v' = vText v"
    "vRemote v' = vRemote v" "vList v' = vList v" "vComplete v' = vComplete v"
    "vRefs v' = vRefs v" "vCur v' = vCur v" "vPopped v' = vPopped v" "vGc v' = vGc v"
    by (simp_all add: v')
  have al: "vId v h g \<noteq> None" using partner_alloc[OF gg] by blast
  have gen: "\<forall>h X. vGen v h X \<le> vGen v' h X" using genInvD(1)[OF i(7)] al by (auto simp: v')
  have rp: "set (vReplies v h') = set (vReplies v' h') \<union> (if h' = h then {(g, C)} else {})" for h'
    using rs by (auto simp: v')
  have cr: "cnt Q (vReplies v h') = cnt Q (vReplies v' h') + of_bool (h' = h \<and> Q (g, C))" for Q h'
    using rs by (simp add: v')
  have ms: "set (vMsgs v' h') = set (vMsgs v h') \<union> (if h' = other h then {M} else {})" for h'
    by (auto simp: vMsgs_def v' M_def)
  have cn: "cnt Q (vMsgs v' h') = cnt Q (vMsgs v h') + of_bool (h' = other h \<and> Q M)" for Q h'
    by (simp add: vMsgs_def v' M_def)
  have cre: "Create X g b \<in> set (vMsgs v' h') \<Longrightarrow> \<not> vCreated v (other h') X" for X g b h'
  proof -
    assume "Create X g b \<in> set (vMsgs v' h')"
    then have "Create X g b \<in> set (vMsgs v h')" by (auto simp: ms M_def split: if_splits)
    then show ?thesis by (rule createInvD(2)[OF i(3)])
  qed
  have ns: "\<not> silent v h g" using r by (force simp: silent_def)
  have sl: "silent v' h' X" if "silent v h' X" "\<not> (h' = other h \<and> X = g')" for h' X
    using that rp[of h'] by (auto simp: silent_def ms M_def)
  have an: "answer v' h' A B C2 \<longleftrightarrow> answer v h' A B C2" if AB: "partner v h' A B" for h' A B C2
  proof (cases "h' = other h \<and> (A = g' \<or> B = g)")
    case True
    then have AB': "partner v h B A" using AB by (simp add: partner_sym)
    then have "A = g' \<and> B = g"
      using True partner_unique[OF i(1) _ gg] partner_unique'[OF i(1) _ gg] by blast
    then show ?thesis using True rp[of h] by (auto simp: answer_def ms M_def) (metis decode_encode)+
  next
    case False
    then show ?thesis using side_cases[of h' h] rp[of "other h'"] by (auto simp: answer_def ms M_def)
  qed
  show ?thesis unfolding gcInv_def
  proof (intro conjI)
    show "idsInv v'" by (rule ids_frame[OF i(1)]) (simp_all add: f sameGc_def)
    show "pairInv v'" by (rule pair_frame[OF i(2)]) (simp_all add: f)
    show "createInv v'" by (rule create_frame[OF i(3)]) (auto simp: f sameGc_def ms cn cre M_def split: if_splits)
    show "messageInv v'"
      by (rule message_frame[OF i(4)]) (use gg in \<open>auto simp: f sameGc_def ms M_def partner_sym split: if_splits\<close>)
    show "pendInv v'"
      unfolding pendInv_def f partner_frame[OF f(1)]
    proof (intro conjI allI impI ballI)
      fix h' X assume "vId v h' X \<noteq> None"
      from pendInvD(1)[OF i(5) this]
      show "vPend v' h' X = cnt (\<lambda>m. dstOf m = X) (vPopped v h') + cnt (\<lambda>r. fst r = X) (vReplies v' h')"
        unfolding cr[of _ h'] by (auto simp: v')
    next
      fix h' r assume "r \<in> set (vReplies v' h')"
      then have "r \<in> set (vReplies v h')" using rp by blast
      from pendInvD(2-4)[OF i(5) this]
      show "vGc v h' (fst r) \<noteq> None" "vCreated v h' (fst r)" "\<exists>Y. partner v h' (fst r) Y" by simp_all
    qed
    show "listInv v'" by (rule list_frame[OF i(6)]) (simp_all add: f)
    show "genInv v'" by (rule gen_frame[OF i(7)]) (auto simp: f, auto simp: v')
    show "flagInv v'" by (rule flag_frame[OF i(8)]) (simp_all add: f)
    show "protoInv v'"
    proof (rule proto_pair[OF i(9,1) _ gg e])
      have "protoOk v' h g g' d e" using pr(1) cr[of _ "other h"] unfolding protoOk_def cn ms by simp
      moreover have "protoOk v' (other h) g' g e d" using pr(2) cr[of _ h] unfolding protoOk_def cn ms by (simp add: M_def)
      ultimately show "\<forall>d. vGc v' h g = Some d \<longrightarrow> protoOk v' h g g' d e \<and> protoOk v' (other h) g' g e d"
        by (simp add: f(11) d)
      show "\<forall>h2 X. \<not> (h2 = h \<and> X = g) \<longrightarrow> \<not> (h2 = other h \<and> X = g') \<longrightarrow> vGc v h2 X \<noteq> None \<longrightarrow> sameFor v v' h2 X"
        using cr by (auto simp: sameFor_def cn ms M_def)
    qed (auto simp: partner_frame[OF f(1)] f(11))
    show "orderInv v'"
      by (rule order_append[OF i(10,7), where h = "other h" and m = M])
        (use gen in \<open>simp_all add: keepsScan_refl f(1,11), simp_all add: v' M_def\<close>)
    show "quietInv v'"
    proof (rule quiet_frame[OF i(11) f(1,11)])
      show "\<forall>h' g2 d X. vGc v h' g2 = Some d \<longrightarrow> X \<in> set (gMaybe d) \<longrightarrow> vGc v h' X = None \<longrightarrow> still v h' d X \<longrightarrow>
         still v' h' d X \<or> spared v' h' g2 X"
      proof (intro allI impI disjI1)
        fix h' d X assume a: "vGc v h' X = None" "still v h' d X"
        have "\<not> (h' = h \<and> X = g)" using a(1) g(1) by auto
        then show "still v' h' d X" using a(2) by (auto simp: still_def v')
      qed
      show "\<forall>h' g2 d X. vGc v h' g2 = Some d \<longrightarrow> X \<in> set (gMaybe d) \<longrightarrow> vGc v h' X \<noteq> None \<longrightarrow> overGc v h' X \<longrightarrow> overGc v' h' X"
      proof (intro allI impI)
        fix h' X assume o: "overGc v h' X"
        note oo = over_other[OF i(1) ns gg o]
        show "overGc v' h' X"
          by (rule overGc_frame[OF o f(1,11)]) (use oo sl in \<open>auto simp: f\<close>)
      qed
    qed (use gen in \<open>simp_all add: f\<close>)
    show "answerInv v'" by (rule answer_frame[OF i(12) f(1) sameMaybe_refl[OF f(11)]]) (simp_all add: f an)
    show "liveInv v'" by (rule live_frame[OF i(13) f(1) sameMaybe_refl[OF f(11)] f(3,5)]) (simp add: an)
  qed
qed

end
