(* ===== verification/GcFinish.thy ===== *)
theory GcFinish
  imports GcProtocol
begin

text \<open>
  The answer of the partner comes: the objects that both collectors have found dead are deleted, and the
  invariant of theory \<open>GcView\<close> still holds.
\<close>

section \<open>The answer comes\<close>

fun answered :: "message \<Rightarrow> encPtr set" where
  "answered (Data s d a b) = set (decodePtrs b)"
| "answered _ = {}"

definition clr :: "side \<Rightarrow> encPtr set \<Rightarrow> 'a \<Rightarrow> (side \<Rightarrow> encPtr \<Rightarrow> 'a) \<Rightarrow> side \<Rightarrow> encPtr \<Rightarrow> 'a" where
  "clr h R z f = (\<lambda>h' X. if h' = h \<and> X \<in> R then z else f h' X)"

lemma clr_apply [simp]: "clr h R z f h' X = (if h' = h \<and> X \<in> R then z else f h' X)"
  by (simp add: clr_def)

text \<open>The objects that both sides have found dead are deleted, the others go back to the list of the host.\<close>

definition deadSet :: "gcData \<Rightarrow> message \<Rightarrow> encPtr set" where
  "deadSet d m = set (gMaybe d) \<inter> answered m"

definition finishStep :: "gview \<Rightarrow> gview \<Rightarrow> side \<Rightarrow> encPtr \<Rightarrow> gcData \<Rightarrow> message \<Rightarrow> message list \<Rightarrow> bool" where
  "finishStep v v' h g d m ms \<longleftrightarrow> vPopped v h = ms @ [m] \<and> answerTo g m \<and> vGc v h g = Some d \<and>
     v' = v\<lparr>vId := clr h (deadSet d m) None (vId v), vCreated := clr h (deadSet d m) False (vCreated v),
       vRemote := clr h (deadSet d m) 0 (vRemote v), vGen := clr h (deadSet d m) 0 (vGen v),
       vPend := upd2 (clr h (deadSet d m) 0 (vPend v)) h g (vPend v h g - 1),
       vRefs := clr h (deadSet d m) 0 (vRefs v),
       vGc := upd2 (clr h (deadSet d m) None (vGc v)) h g (Some (d\<lparr>gObjects := [], gMaybe := [], gGotAnswer := True\<rparr>)),
       vComplete := upd2 (clr h (deadSet d m) False (vComplete v)) h g True,
       vList := (vList v)(h := vList v h @ gObjects d @ filter (\<lambda>X. X \<notin> answered m) (gMaybe d)),
       vPopped := (vPopped v)(h := ms)\<rparr>"

lemma cnt_unique:
  assumes "cnt P xs \<le> 1" "x \<in> set xs" "P x" "y \<in> set xs" "P y"
  shows "x = y"
proof (rule ccontr)
  assume ne: "x \<noteq> y"
  obtain as bs where xs: "xs = as @ x # bs" using split_list[OF assms(2)] by blast
  then have "y \<in> set (as @ bs)" using assms(4) ne by auto
  then have "cnt P (as @ bs) \<noteq> 0" using assms(5) unfolding cnt_0_iff by blast
  then show False using assms(1,3) xs by simp
qed

text \<open>The stage of the protocol at that moment.\<close>

lemma finish_pair:
  assumes inv: "gcInv v" and s: "finishStep v v' h g d m ms"
  obtains g' e where "partner v h g g'" "vGc v (other h) g' = Some e" "protoOk v h g g' d e" "protoOk v (other h) g' g e d"
proof -
  have po: "vPopped v h = ms @ [m]" and a: "answerTo g m" and d: "vGc v h g = Some d" using s unfolding finishStep_def by blast+
  have "m \<in> set (vMsgs v h)" using po by (simp add: vMsgs_def)
  then have "kindOk v h m" by (rule messageInvD[OF gcInvD(4)[OF inv]])
  then have "\<exists>Y. partner v h (dstOf m) Y" by (rule kindOk_partner) (use a in auto)
  moreover have "dstOf m = g" using a by (cases m) auto
  ultimately obtain g' where g': "partner v h g g'" by blast
  then show ?thesis by (rule gc_pair[OF inv _ d]) (use that g' in blast)
qed

lemma finish_facts:
  assumes inv: "gcInv v" and s: "finishStep v v' h g d m ms"
    and g: "partner v h g g'" "vGc v (other h) g' = Some e"
  shows "vGc v h g = Some d" "m \<in> set (vMsgs v h)" "gSentFlush d" "gSentScan d" "\<not> gGotAnswer d" "gDidScan e" "vCreated v h g"
    "cnt (answerTo g) (vMsgs v h) = 1" "cnt (\<lambda>r. fst r = g') (vReplies v (other h)) = 0"
    "m = Notify g ABORT_GC \<Longrightarrow> gMaybe e = []"
    "answer v h g g' C \<Longrightarrow> set C = answered m \<and> (\<exists>s a b. m = Data s g a b)"
    "m = Data s2 g a b \<Longrightarrow> answer v h g g' (decodePtrs b)" "\<not> silent v h g" "dstOf m = g"
proof -
  note i = gcInvD[OF inv]
  have po: "vPopped v h = ms @ [m]" and a: "answerTo g m" and d: "vGc v h g = Some d" using s unfolding finishStep_def by blast+
  show "vGc v h g = Some d" by (rule d)
  show m: "m \<in> set (vMsgs v h)" using po by (simp add: vMsgs_def)
  have pr: "protoOk v h g g' d e" "protoOk v (other h) g' g e d"
    using i(9) g d by (auto simp: protoInv_Ok partner_sym)
  have c: "cnt (answerTo g) (vMsgs v h) \<noteq> 0" using m a by (auto simp: cnt_0_iff)
  then show e: "gDidScan e" using pr(1) by (cases "gDidScan e") (auto simp: protoOk_def)
  show c1: "cnt (answerTo g) (vMsgs v h) = 1" and c2: "cnt (\<lambda>r. fst r = g') (vReplies v (other h)) = 0" and "\<not> gGotAnswer d"
    using pr(1) c e by (cases "gGotAnswer d"; auto simp: protoOk_def)+
  show sc: "gSentScan d" using pr(2) e by (cases "gSentScan d") (auto simp: protoOk_def)
  show fl: "gSentFlush d" using flagInvD(4)[OF i(8) d] sc by blast
  show "vCreated v h g" by (rule flagInvD(1)[OF i(8) d fl])
  show "gMaybe e = []" if "m = Notify g ABORT_GC" using pr(1) m that by (simp add: protoOk_def)
  show "set C = answered m \<and> (\<exists>s a b. m = Data s g a b)" if an: "answer v h g g' C"
  proof -
    have "(g', C) \<notin> set (vReplies v (other h))" using c2 by (auto simp: cnt_0_iff)
    then obtain s a2 b where D: "Data s g a2 b \<in> set (vMsgs v h)" "C = decodePtrs b" using an by (auto simp: answer_def)
    have "m = Data s g a2 b" by (rule cnt_unique[where P = "answerTo g", OF _ m a D(1)]) (simp_all add: c1)
    then show ?thesis using D(2) by simp
  qed
  show "answer v h g g' (decodePtrs b)" if "m = Data s2 g a b" using m that by (auto simp: answer_def)
  show dst: "dstOf m = g" using a by (cases m) auto
  show "\<not> silent v h g" using m dst by (auto simp: silent_def)
qed

text \<open>The dead objects get no messages, and their partners are dead, too.\<close>

lemma dead_facts:
  assumes inv: "gcInv v" and s: "finishStep v v' h g d m ms"
    and g: "partner v h g g'" "vGc v (other h) g' = Some e" and X: "X \<in> deadSet d m"
  shows "X \<in> set (gMaybe d)" "vCreated v h X" "vId v h X \<noteq> None" "X \<noteq> 0"
    "partner v h X Y \<Longrightarrow> Y \<in> set (gMaybe e) \<and> \<not> gGotAnswer e" "silent v h X" "partner v h X Y \<Longrightarrow> silent v (other h) Y"
    "vGc v h X \<noteq> None \<Longrightarrow> overGc v h X" "X \<noteq> g"
proof -
  note i = gcInvD[OF inv] note ff = finish_facts[OF inv s g]
  show m: "X \<in> set (gMaybe d)" using X by (simp add: deadSet_def)
  show c: "vCreated v h X" by (rule quietInvD(1)[OF i(11) ff(1) m])
  show al: "vId v h X \<noteq> None" by (rule maybe_alloc[OF i(6) ff(1) m])
  then show "X \<noteq> 0" using idsInvD(1)[OF i(1)] by metis
  have am: "X \<in> answered m" using X by (simp add: deadSet_def)
  then obtain s2 d2 a b where mD: "m = Data s2 d2 a b" by (cases m) auto
  then have m2: "m = Data s2 g a b" using ff(14) by simp
  have an: "answer v h g g' (decodePtrs b)" by (rule ff(12)[OF m2])
  have Xb: "X \<in> set (decodePtrs b)" using am m2 by simp
  note A = answerInvD[OF i(12) g(1) ff(1) g(2) an]
  have lone: "\<not> partner v h X Y" if "gGotAnswer e" for Y by (rule A(1)[OF that m Xb])
  have pa: "\<exists>Y. partner v h X Y \<and> Y \<in> set (gMaybe e)" if ne: "\<not> gGotAnswer e"
  proof -
    obtain Y where Y: "Y \<in> set (gMaybe e)" "X = vRemote v (other h) Y" using A(2)[OF ne] Xb by auto
    have "vCreated v (other h) Y" by (rule quietInvD(1)[OF i(11) g(2) Y(1)])
    from liveInvD[OF i(13) this] have "partner v (other h) Y X"
    proof
      assume "widow v (other h) Y"
      then obtain g2 d2 g1 d1 where w: "vGc v (other h) g2 = Some d2" "Y \<in> set (gMaybe d2)" "partner v (other h) g2 g1"
        "vGc v h g1 = Some d1" "gGotAnswer d1" by (auto simp: widow_def)
      have "g2 = g'" by (rule maybe_unique(1)[OF i(6) g(2) Y(1) w(1,2)])
      then have "partner v h g1 g'" using w(3) by (simp add: partner_sym)
      then have "g1 = g" using partner_unique'[OF i(1) _ g(1)] by blast
      then show ?thesis using w(4,5) ff(1,5) by simp
    qed (use Y(2) in simp)
    then show ?thesis using Y(1) by (auto simp: partner_sym)
  qed
  show P: "Y \<in> set (gMaybe e) \<and> \<not> gGotAnswer e" if "partner v h X Y" for Y
    using lone pa that partner_unique[OF i(1) that] by blast
  show "silent v h X"
  proof (cases "gGotAnswer e")
    case True
    show ?thesis by (rule no_partner_silent[OF inv al]) (rule lone[OF True])
  next
    case False
    obtain Y where Y: "partner v h X Y" "Y \<in> set (gMaybe e)" using pa[OF False] by blast
    show ?thesis by (rule both_silent[OF inv Y(1) g(1) ff(1) g(2) m Y(2)])
  qed
  then show "X \<noteq> g" using ff(13) by blast
  show "silent v (other h) Y" if Y: "partner v h X Y"
  proof (rule both_silent[OF inv])
    show "partner v (other h) Y X" "partner v (other h) g' g" using Y g(1) by (simp_all add: partner_sym)
    show "vGc v (other h) g' = Some e" "vGc v (other (other h)) g = Some d" using g(2) ff(1) by simp_all
    show "Y \<in> set (gMaybe e)" using P[OF Y] by blast
  qed (rule m)
  show "overGc v h X" if "vGc v h X \<noteq> None" by (rule quietInvD(3)[OF i(11) ff(1) m that])
qed

lemma finish_fields:
  assumes "finishStep v v' h g d m ms"
  shows "vText v' = vText v" "vNext v' = vNext v" "vCur v' = vCur v" "vInbox v' = vInbox v" "vReplies v' = vReplies v"
    "vId v' = clr h (deadSet d m) None (vId v)" "vCreated v' = clr h (deadSet d m) False (vCreated v)"
    "vRemote v' = clr h (deadSet d m) 0 (vRemote v)" "vGen v' = clr h (deadSet d m) 0 (vGen v)"
    "vPend v' = upd2 (clr h (deadSet d m) 0 (vPend v)) h g (vPend v h g - 1)" "vRefs v' = clr h (deadSet d m) 0 (vRefs v)"
    "vGc v' = upd2 (clr h (deadSet d m) None (vGc v)) h g (Some (d\<lparr>gObjects := [], gMaybe := [], gGotAnswer := True\<rparr>))"
    "vComplete v' = upd2 (clr h (deadSet d m) False (vComplete v)) h g True"
    "vList v' = (vList v)(h := vList v h @ gObjects d @ filter (\<lambda>X. X \<notin> answered m) (gMaybe d))"
    "vPopped v h = ms @ [m]" "vPopped v' = (vPopped v)(h := ms)"
proof -
  have e: "v' = v\<lparr>vId := clr h (deadSet d m) None (vId v), vCreated := clr h (deadSet d m) False (vCreated v),
       vRemote := clr h (deadSet d m) 0 (vRemote v), vGen := clr h (deadSet d m) 0 (vGen v),
       vPend := upd2 (clr h (deadSet d m) 0 (vPend v)) h g (vPend v h g - 1),
       vRefs := clr h (deadSet d m) 0 (vRefs v),
       vGc := upd2 (clr h (deadSet d m) None (vGc v)) h g (Some (d\<lparr>gObjects := [], gMaybe := [], gGotAnswer := True\<rparr>)),
       vComplete := upd2 (clr h (deadSet d m) False (vComplete v)) h g True,
       vList := (vList v)(h := vList v h @ gObjects d @ filter (\<lambda>X. X \<notin> answered m) (gMaybe d)),
       vPopped := (vPopped v)(h := ms)\<rparr>"
    using assms unfolding finishStep_def by blast
  show "vPopped v h = ms @ [m]" using assms unfolding finishStep_def by blast
  show "vText v' = vText v" "vNext v' = vNext v" "vCur v' = vCur v" "vInbox v' = vInbox v" "vReplies v' = vReplies v"
    "vId v' = clr h (deadSet d m) None (vId v)" "vCreated v' = clr h (deadSet d m) False (vCreated v)"
    "vRemote v' = clr h (deadSet d m) 0 (vRemote v)" "vGen v' = clr h (deadSet d m) 0 (vGen v)"
    "vPend v' = upd2 (clr h (deadSet d m) 0 (vPend v)) h g (vPend v h g - 1)" "vRefs v' = clr h (deadSet d m) 0 (vRefs v)"
    "vGc v' = upd2 (clr h (deadSet d m) None (vGc v)) h g (Some (d\<lparr>gObjects := [], gMaybe := [], gGotAnswer := True\<rparr>))"
    "vComplete v' = upd2 (clr h (deadSet d m) False (vComplete v)) h g True"
    "vList v' = (vList v)(h := vList v h @ gObjects d @ filter (\<lambda>X. X \<notin> answered m) (gMaybe d))"
    "vPopped v' = (vPopped v)(h := ms)"
    by (simp_all add: e)
qed

definition gone :: "side \<Rightarrow> gcData \<Rightarrow> message \<Rightarrow> side \<Rightarrow> encPtr \<Rightarrow> bool" where
  "gone h d m h' X \<longleftrightarrow> h' = h \<and> X \<in> deadSet d m"

lemma finish_msgs:
  assumes s: "finishStep v v' h g d m ms"
  shows "set (vMsgs v h') = set (vMsgs v' h') \<union> (if h' = h then {m} else {})"
    "cnt P (vMsgs v h') = cnt P (vMsgs v' h') + of_bool (h' = h \<and> P m)"
    "cnt P (vPopped v h') = cnt P (vPopped v' h') + of_bool (h' = h \<and> P m)"
    "silent v h' X \<Longrightarrow> silent v' h' X" "answer v' h' A B C \<Longrightarrow> answer v h' A B C"
    "m2 \<in> set (vMsgs v' h') \<Longrightarrow> m2 \<in> set (vMsgs v h')"
    "h' \<noteq> h \<Longrightarrow> answer v' h' A B C \<longleftrightarrow> answer v h' A B C"
proof -
  note f = finish_fields[OF s]
  show ms: "set (vMsgs v h') = set (vMsgs v' h') \<union> (if h' = h then {m} else {})" for h'
    using f(15) by (auto simp: vMsgs_def f(4,16))
  show "cnt P (vMsgs v h') = cnt P (vMsgs v' h') + of_bool (h' = h \<and> P m)"
    "cnt P (vPopped v h') = cnt P (vPopped v' h') + of_bool (h' = h \<and> P m)"
    using f(15) by (auto simp: vMsgs_def f(4,16))
  show sub: "m2 \<in> set (vMsgs v' h') \<Longrightarrow> m2 \<in> set (vMsgs v h')" for m2 h' using ms by blast
  show "silent v h' X \<Longrightarrow> silent v' h' X" using sub unfolding silent_def f(5) by blast
  show "answer v' h' A B C \<Longrightarrow> answer v h' A B C" using sub unfolding answer_def f(5) by blast
  show "answer v' h' A B C \<longleftrightarrow> answer v h' A B C" if "h' \<noteq> h"
    using ms[of h'] that unfolding answer_def f(5) by simp
qed

lemma finish_gc:
  assumes s: "finishStep v v' h g d m ms" and d2: "vGc v' h' X = Some d2"
  shows "h' = h \<and> X = g \<and> d2 = d\<lparr>gObjects := [], gMaybe := [], gGotAnswer := True\<rparr> \<or>
    vGc v h' X = Some d2 \<and> \<not> (h' = h \<and> X = g) \<and> \<not> gone h d m h' X"
  using d2 unfolding finish_fields(12)[OF s] gone_def by (auto split: if_splits)

lemma finish_g:
  assumes s: "finishStep v v' h g d m ms"
  shows "vGc v' h g = Some (d\<lparr>gObjects := [], gMaybe := [], gGotAnswer := True\<rparr>)" "vComplete v' h g"
    "vPend v' h g = vPend v h g - 1"
  unfolding finish_fields[OF s] by simp_all

lemma finish_stay:
  assumes s: "finishStep v v' h g d m ms" and X: "\<not> gone h d m h' X"
  shows "vId v' h' X = vId v h' X" "vCreated v' h' X = vCreated v h' X" "vRemote v' h' X = vRemote v h' X"
    "vGen v' h' X = vGen v h' X" "vRefs v' h' X = vRefs v h' X"
    "\<not> (h' = h \<and> X = g) \<Longrightarrow> vPend v' h' X = vPend v h' X" "\<not> (h' = h \<and> X = g) \<Longrightarrow> vGc v' h' X = vGc v h' X"
    "\<not> (h' = h \<and> X = g) \<Longrightarrow> vComplete v' h' X = vComplete v h' X"
  using X unfolding finish_fields(6-13)[OF s] gone_def by auto

lemma finish_gone:
  assumes s: "finishStep v v' h g d m ms" and X: "gone h d m h' X" "X \<noteq> g"
  shows "vId v' h' X = None" "\<not> vCreated v' h' X" "vGc v' h' X = None" "vGen v' h' X = 0"
  using X unfolding finish_fields(6-13)[OF s] gone_def by auto

lemma finish_partner:
  assumes s: "finishStep v v' h g d m ms"
  shows "partner v' h' A B \<longleftrightarrow> partner v h' A B \<and> \<not> gone h d m h' A \<and> \<not> gone h d m (other h') B"
  unfolding partner_def finish_fields(6)[OF s] gone_def by auto

text \<open>Who is involved in the protocol, or holds objects, stays.\<close>

lemma dead_gc:
  assumes inv: "gcInv v" and s: "finishStep v v' h g d m ms" and X: "gone h d m h' X"
  shows "vGc v h' X = Some d2 \<Longrightarrow> gObjects d2 = [] \<and> gMaybe d2 = []"
    "partner v h' X Y \<Longrightarrow> vGc v (other h') Y = Some e2 \<Longrightarrow> gObjects e2 = [] \<and> gMaybe e2 = []"
    "silent v h' X" "partner v h' X Y \<Longrightarrow> silent v (other h') Y" "vCreated v h' X" "X \<noteq> 0" "\<not> (h' = h \<and> X = g)"
    "h' = h" "X \<in> set (gMaybe d)" "vGc v h' X \<noteq> None \<Longrightarrow> overGc v h' X"
proof -
  obtain g' e where g: "partner v h g g'" "vGc v (other h) g' = Some e" by (rule finish_pair[OF inv s])
  have h: "h' = h" "X \<in> deadSet d m" using X by (simp_all add: gone_def)
  note df = dead_facts[OF inv s g h(2)]
  show "h' = h" "X \<in> set (gMaybe d)" "silent v h' X" "vCreated v h' X" "X \<noteq> 0" "\<not> (h' = h \<and> X = g)"
    "partner v h' X Y \<Longrightarrow> silent v (other h') Y" "vGc v h' X \<noteq> None \<Longrightarrow> overGc v h' X"
    using df h(1) by simp_all
  show "gObjects d2 = [] \<and> gMaybe d2 = []" if "vGc v h' X = Some d2"
    using df(8) that h(1) by (simp add: overGc_def idleGc_def)
  show "gObjects e2 = [] \<and> gMaybe e2 = []" if "partner v h' X Y" "vGc v (other h') Y = Some e2"
  proof -
    have "vGc v h' X \<noteq> None" using idsInvD(6)[OF gcInvD(1)[OF inv] that(1)] that(2) by simp
    then have "overGc v h X" using df(8) h(1) by simp
    then show ?thesis using that h(1) by (simp add: overGc_def idleGc_def)
  qed
qed

lemma not_gone:
  assumes inv: "gcInv v" and s: "finishStep v v' h g d m ms"
  shows "m2 \<in> set (vMsgs v h') \<Longrightarrow> dstOf m2 = X \<Longrightarrow> \<not> gone h d m h' X"
    "m2 \<in> set (vMsgs v h') \<Longrightarrow> partner v h' (dstOf m2) Y \<Longrightarrow> \<not> gone h d m (other h') Y"
    "r \<in> set (vReplies v h') \<Longrightarrow> fst r = X \<Longrightarrow> \<not> gone h d m h' X"
    "r \<in> set (vReplies v h') \<Longrightarrow> partner v h' (fst r) Y \<Longrightarrow> \<not> gone h d m (other h') Y"
    "vGc v h' X = Some d2 \<Longrightarrow> gMaybe d2 \<noteq> [] \<or> gObjects d2 \<noteq> [] \<Longrightarrow> \<not> gone h d m h' X"
    "partner v h' Y X \<Longrightarrow> vGc v h' Y = Some d2 \<Longrightarrow> gMaybe d2 \<noteq> [] \<or> gObjects d2 \<noteq> [] \<Longrightarrow> \<not> gone h d m (other h') X"
    "\<not> vCreated v h' X \<Longrightarrow> \<not> gone h d m h' X" "\<not> gone h d m h g"
proof -
  note dg = dead_gc[OF inv s]
  show "m2 \<in> set (vMsgs v h') \<Longrightarrow> dstOf m2 = X \<Longrightarrow> \<not> gone h d m h' X" using dg(3)[of h' X] by (auto simp: silent_def)
  show "r \<in> set (vReplies v h') \<Longrightarrow> fst r = X \<Longrightarrow> \<not> gone h d m h' X" using dg(3)[of h' X] by (auto simp: silent_def)
  show "m2 \<in> set (vMsgs v h') \<Longrightarrow> partner v h' (dstOf m2) Y \<Longrightarrow> \<not> gone h d m (other h') Y"
    using dg(4)[of "other h'" Y "dstOf m2"] by (auto simp: silent_def partner_sym)
  show "r \<in> set (vReplies v h') \<Longrightarrow> partner v h' (fst r) Y \<Longrightarrow> \<not> gone h d m (other h') Y"
    using dg(4)[of "other h'" Y "fst r"] by (auto simp: silent_def partner_sym)
  show "vGc v h' X = Some d2 \<Longrightarrow> gMaybe d2 \<noteq> [] \<or> gObjects d2 \<noteq> [] \<Longrightarrow> \<not> gone h d m h' X"
    using dg(1)[of h' X d2] by blast
  show "partner v h' Y X \<Longrightarrow> vGc v h' Y = Some d2 \<Longrightarrow> gMaybe d2 \<noteq> [] \<or> gObjects d2 \<noteq> [] \<Longrightarrow> \<not> gone h d m (other h') X"
    using dg(2)[of "other h'" X Y d2] by (auto simp: partner_sym)
  show "\<not> vCreated v h' X \<Longrightarrow> \<not> gone h d m h' X" using dg(5) by blast
  show "\<not> gone h d m h g" using dg(7) by blast
qed

lemma finish_gcNone:
  assumes inv: "gcInv v" and s: "finishStep v v' h g d m ms" and X: "\<not> gone h d m h' X"
  shows "vGc v' h' X = None \<longleftrightarrow> vGc v h' X = None"
proof (cases "h' = h \<and> X = g")
  case True
  obtain g' e where g: "partner v h g g'" "vGc v (other h) g' = Some e" by (rule finish_pair[OF inv s])
  show ?thesis using True finish_g(1)[OF s] finish_facts(1)[OF inv s g] by simp
next
  case False
  show ?thesis using finish_stay(7)[OF s X False] by simp
qed

lemma finish_live:
  assumes inv: "gcInv v" and s: "finishStep v v' h g d m ms" and x: "vId v' h' X \<noteq> None"
  shows "\<not> gone h d m h' X"
  using finish_gone(1)[OF s, of h' X] dead_gc(7,8)[OF inv s, of h' X] x by metis

lemma finish_ids:
  assumes inv: "gcInv v" and s: "finishStep v v' h g d m ms"
  shows "idsInv v'"
proof -
  note id = idsInvD[OF gcInvD(1)[OF inv]] note ng = not_gone[OF inv s] note st = finish_stay[OF s]
  note gn = finish_gcNone[OF inv s]
  have live: "\<not> gone h d m h' X \<and> vId v h' X = vId v' h' X" if "vId v' h' X \<noteq> None" for h' X
    using finish_gone(1)[OF s, of h' X] st(1)[of h' X] dead_gc(7,8)[OF inv s, of h' X] that by metis
  show ?thesis
    unfolding idsInv_def
  proof (intro conjI allI impI)
    fix h' show "vId v' h' 0 = None" using live[of h' 0] id(1)[of h'] by metis
  next
    fix h' X i assume "vId v' h' X = Some i"
    then show "i < vNext v'" using live[of h' X] id(2)[of h' X i] unfolding finish_fields(2)[OF s] by simp
  next
    fix h' X X' assume "vId v' h' X = vId v' h' X'" "vId v' h' X \<noteq> None"
    then show "X = X'" using live[of h' X] live[of h' X'] id(3)[of h' X X'] by simp
  next
    fix h' X assume n: "vId v' h' X = None"
    show "vGc v' h' X = None" "\<not> vCreated v' h' X"
    proof -
      have "vGc v' h' X = None \<and> \<not> vCreated v' h' X"
      proof (cases "gone h d m h' X")
        case True
        then show ?thesis using finish_gone(2,3)[OF s True] dead_gc(7,8)[OF inv s True] by blast
      next
        case False
        then show ?thesis using gn[OF False] st(1,2)[OF False] id(4,5)[of h' X] n by simp
      qed
      then show "vGc v' h' X = None" "\<not> vCreated v' h' X" by simp_all
    qed
  next
    fix h' X Y assume "partner v' h' X Y"
    then have p: "partner v h' X Y" "\<not> gone h d m h' X" "\<not> gone h d m (other h') Y" using finish_partner[OF s] by simp_all
    show "vGc v' h' X = None \<longleftrightarrow> vGc v' (other h') Y = None" using gn[OF p(2)] gn[OF p(3)] id(6)[OF p(1)] by simp
  qed
qed

lemma finish_pairInv:
  assumes inv: "gcInv v" and s: "finishStep v v' h g d m ms"
  shows "pairInv v'"
  unfolding pairInv_def finish_partner[OF s]
proof (intro allI impI)
  fix h' A B assume a: "partner v h' A B \<and> \<not> gone h d m h' A \<and> \<not> gone h d m (other h') B" "vCreated v' h' A"
  then show "vRemote v' h' A = B"
    using finish_stay(2,3)[OF s, of h' A] pairInvD[OF gcInvD(2)[OF inv], of h' A B] by simp
qed

lemma finish_create:
  assumes inv: "gcInv v" and s: "finishStep v v' h g d m ms"
  shows "createInv v'"
  unfolding createInv_def finish_fields(1)[OF s]
proof (intro conjI allI impI)
  note cr = createInvD[OF gcInvD(3)[OF inv]]
  fix h' X g2 b Y assume "Create X g2 b \<in> set (vMsgs v' h')"
  then have c: "Create X g2 b \<in> set (vMsgs v h')" by (rule finish_msgs(6)[OF s])
  have n: "\<not> gone h d m (other h') X" by (rule not_gone(7)[OF inv s cr(2)[OF c]])
  show "vId v' (other h') X \<noteq> None" "\<not> vCreated v' (other h') X" "vGc v' (other h') X \<noteq> None \<longleftrightarrow> g2 = vText v"
    using finish_stay(1,2)[OF s n] finish_gcNone[OF inv s n] cr(1,2,4)[OF c] by simp_all
  show "\<not> partner v' h' Y X" using cr(3)[OF c] finish_partner[OF s] by blast
next
  fix h' X show "cnt (createOf X) (vMsgs v' h') \<le> 1"
    using createInvD(5)[OF gcInvD(3)[OF inv], of X h'] finish_msgs(2)[OF s, of "createOf X" h'] by linarith
qed

lemma finish_message:
  assumes inv: "gcInv v" and s: "finishStep v v' h g d m ms"
  shows "messageInv v'"
  unfolding messageInv_def
proof (intro allI ballI)
  fix h' m2 assume "m2 \<in> set (vMsgs v' h')"
  then have m2: "m2 \<in> set (vMsgs v h')" by (rule finish_msgs(6)[OF s])
  note k = messageInvD[OF gcInvD(4)[OF inv] m2]
  have n: "\<not> gone h d m h' (dstOf m2)" by (rule not_gone(1)[OF inv s m2]) simp
  have p: "partner v' h' (dstOf m2) Y \<longleftrightarrow> partner v h' (dstOf m2) Y" for Y
    using n not_gone(2)[OF inv s m2] unfolding finish_partner[OF s] by blast
  show "kindOk v' h' m2" using k p finish_gcNone[OF inv s n] by (cases m2) auto
qed

lemma finish_pend:
  assumes inv: "gcInv v" and s: "finishStep v v' h g d m ms"
  shows "pendInv v'"
  unfolding pendInv_def finish_fields(5)[OF s]
proof (intro conjI allI impI ballI)
  note pd = pendInvD[OF gcInvD(5)[OF inv]]
  obtain g' e where g: "partner v h g g'" "vGc v (other h) g' = Some e" by (rule finish_pair[OF inv s])
  fix h' X assume x: "vId v' h' X \<noteq> None"
  then have n: "\<not> gone h d m h' X" using finish_live[OF inv s] by blast
  then have "vId v h' X \<noteq> None" using x finish_stay(1)[OF s n] by simp
  then have P: "vPend v h' X = cnt (\<lambda>m. dstOf m = X) (vPopped v h') + cnt (\<lambda>r. fst r = X) (vReplies v h')" by (rule pd(1))
  show "vPend v' h' X = cnt (\<lambda>m. dstOf m = X) (vPopped v' h') + cnt (\<lambda>r. fst r = X) (vReplies v h')"
  proof (cases "h' = h \<and> X = g")
    case True
    then show ?thesis
      using P finish_msgs(3)[OF s, of "\<lambda>m. dstOf m = X" h'] finish_g(3)[OF s] finish_facts(14)[OF inv s g] by simp
  next
    case False
    then have "\<not> (h' = h \<and> dstOf m = X)" using finish_facts(14)[OF inv s g] by auto
    then show ?thesis
      using P finish_msgs(3)[OF s, of "\<lambda>m. dstOf m = X" h'] finish_stay(6)[OF s n False] by simp
  qed
next
  note pd = pendInvD[OF gcInvD(5)[OF inv]]
  fix h' r assume r: "r \<in> set (vReplies v h')"
  have n: "\<not> gone h d m h' (fst r)" by (rule not_gone(3)[OF inv s r]) simp
  show "vGc v' h' (fst r) \<noteq> None" "vCreated v' h' (fst r)"
    using pd(2,3)[OF r] finish_gcNone[OF inv s n] finish_stay(2)[OF s n] by simp_all
  show "\<exists>Y. partner v' h' (fst r) Y"
    using pd(4)[OF r] n not_gone(4)[OF inv s r] unfolding finish_partner[OF s] by blast
qed

lemma finish_members:
  assumes s: "finishStep v v' h g d m ms" and L: "\<not> (h' = h \<and> (L = None \<or> L = Some g))" and inv: "gcInv v"
  shows "members v' h' L = members v h' L"
proof (cases L)
  case None
  then show ?thesis using L by (simp add: finish_fields(14)[OF s])
next
  case (Some g2)
  then have n: "\<not> (h' = h \<and> g2 = g)" using L by simp
  show ?thesis
  proof (cases "gone h d m h' g2")
    case True
    have "members v h' (Some g2) = []"
      using dead_gc(1)[OF inv s True] by (auto simp: members_def split: option.splits)
    moreover have "vGc v' h' g2 = None" using finish_gone(3)[OF s True] dead_gc(7,8)[OF inv s True] by blast
    ultimately show ?thesis using Some by simp
  next
    case False
    then show ?thesis using finish_stay(7)[OF s False n] Some by (simp add: members_def)
  qed
qed

lemma finish_list:
  assumes inv: "gcInv v" and s: "finishStep v v' h g d m ms"
  shows "listInv v'"
proof (rule list_move[OF gcInvD(6)[OF inv], where h = h and A = None and B = "Some g"])
  obtain g' e where g: "partner v h g g'" "vGc v (other h) g' = Some e" by (rule finish_pair[OF inv s])
  note d = finish_facts(1)[OF inv s g]
  have V: "members v' h None = vList v h @ gObjects d @ filter (\<lambda>X. X \<notin> answered m) (gMaybe d)" "members v' h (Some g) = []"
    by (simp_all add: finish_fields(14)[OF s] finish_g(1)[OF s])
  show "\<forall>h' L. \<not> (h' = h \<and> (L = None \<or> L = Some g)) \<longrightarrow> members v' h' L = members v h' L"
    using finish_members[OF s _ inv] by blast
  show "mset (members v' h None) + mset (members v' h (Some g)) \<subseteq># mset (members v h None) + mset (members v h (Some g))"
    unfolding V using d by (simp add: union_assoc)
  show "\<forall>h' L X. X \<in> set (members v' h' L) \<longrightarrow> vId v h' X \<noteq> None \<longrightarrow> vId v' h' X \<noteq> None"
  proof (intro allI impI)
    fix h' L X assume x: "X \<in> set (members v' h' L)" "vId v h' X \<noteq> None"
    have "\<not> gone h d m h' X"
    proof
      assume gn: "gone h d m h' X"
      note dg = dead_gc(8,9)[OF inv s gn]
      have Xg: "X \<in> set (members v h (Some g))" using dg(2) d by simp
      have Xa: "X \<in> answered m" using gn by (simp add: gone_def deadSet_def)
      show False
      proof (cases "L = None \<or> L = Some g")
        case True
        then have "X \<in> set (vList v h @ gObjects d @ filter (\<lambda>X. X \<notin> answered m) (gMaybe d))" using x(1) dg(1) V by auto
        then consider "X \<in> set (vList v h)" | "X \<in> set (gObjects d)" using Xa by auto
        then show False
        proof cases
          case 1
          then show False using listInvD(3)[OF gcInvD(6)[OF inv], of X h None "Some g"] Xg by simp
        next
          case 2
          then show False using listInvD(1)[OF gcInvD(6)[OF inv], of h "Some g"] d dg(2) by auto
        qed
      next
        case False
        then have "X \<in> set (members v h' L)" using x(1) finish_members[OF s _ inv] by metis
        then show False using listInvD(3)[OF gcInvD(6)[OF inv], of X h L "Some g"] Xg dg(1) False by simp
      qed
    qed
    then show "vId v' h' X \<noteq> None" using finish_stay(1)[OF s] x(2) by simp
  qed
qed simp

lemma finish_gen:
  assumes inv: "gcInv v" and s: "finishStep v v' h g d m ms"
  shows "genInv v'"
  unfolding genInv_def finish_fields(3)[OF s]
proof (intro conjI allI impI)
  note gi = genInvD[OF gcInvD(7)[OF inv]]
  fix h' X assume x: "vId v' h' X \<noteq> None"
  then have n: "\<not> gone h d m h' X" using finish_live[OF inv s] by blast
  then show "vGen v' h' X \<le> vCur v h'" using finish_stay(1,4)[OF s n] gi(1)[of h' X] x by simp
next
  note gi = genInvD[OF gcInvD(7)[OF inv]]
  obtain g' e where g: "partner v h g g'" "vGc v (other h) g' = Some e" by (rule finish_pair[OF inv s])
  fix h' X d2 assume "vGc v' h' X = Some d2"
  from finish_gc[OF s this] show "gGen d2 \<le> vCur v h'"
    using gi(2)[of h' X d2] gi(2)[OF finish_facts(1)[OF inv s g]] by auto
qed

lemma finish_flag:
  assumes inv: "gcInv v" and s: "finishStep v v' h g d m ms"
  shows "flagInv v'"
proof (rule flag_one[OF gcInvD(8)[OF inv] _ _ finish_g(1)[OF s]])
  obtain g' e where g: "partner v h g g'" "vGc v (other h) g' = Some e" by (rule finish_pair[OF inv s])
  note ff = finish_facts[OF inv s g]
  have "vCreated v' h g" using ff(7) finish_stay(2)[OF s not_gone(8)[OF inv s]] by simp
  then show "flagOk (d\<lparr>gObjects := [], gMaybe := [], gGotAnswer := True\<rparr>) (vCreated v' h g) (vComplete v' h g)"
    using ff(3) by (simp add: flagOk_def)
  show "\<forall>h2 X d2. \<not> (h2 = h \<and> X = g) \<longrightarrow> vGc v' h2 X = Some d2 \<longrightarrow>
    vGc v h2 X = Some d2 \<and> vCreated v' h2 X = vCreated v h2 X \<and> vComplete v' h2 X = vComplete v h2 X"
    using finish_gc[OF s] finish_stay(2,8)[OF s] by blast
qed

lemma finish_proto:
  assumes inv: "gcInv v" and s: "finishStep v v' h g d m ms"
  shows "protoInv v'"
proof -
  obtain g' e where g: "partner v h g g'" "vGc v (other h) g' = Some e" and pr: "protoOk v h g g' d e" "protoOk v (other h) g' g e d"
    by (rule finish_pair[OF inv s])
  note ff = finish_facts[OF inv s g] note fm = finish_msgs[OF s] note rp = finish_fields(5)[OF s]
  have a: "answerTo g m" using s by (simp add: finishStep_def)
  have na: "m \<noteq> Notify X FLUSH_MSGS" "m \<noteq> Notify X DO_SCAN" "X \<noteq> g \<Longrightarrow> \<not> answerTo X m" for X
    using a by (cases m; auto)+
  have c1: "cnt ((=) (Notify X FLUSH_MSGS)) (vMsgs v' h2) = cnt ((=) (Notify X FLUSH_MSGS)) (vMsgs v h2)" for X h2
    using fm(2)[of "(=) (Notify X FLUSH_MSGS)" h2] na(1)[of X] by auto
  have c2: "cnt ((=) (Notify X DO_SCAN)) (vMsgs v' h2) = cnt ((=) (Notify X DO_SCAN)) (vMsgs v h2)" for X h2
    using fm(2)[of "(=) (Notify X DO_SCAN)" h2] na(2)[of X] by auto
  have c3: "cnt (answerTo X) (vMsgs v h2) = cnt (answerTo X) (vMsgs v' h2) + of_bool (h2 = h \<and> X = g)" for X h2
    using fm(2)[of "answerTo X" h2] na(3)[of X] a by auto
  have sub: "Notify X ABORT_GC \<in> set (vMsgs v' h2) \<Longrightarrow> Notify X ABORT_GC \<in> set (vMsgs v h2)" for X h2 by (rule fm(6))
  let ?d = "d\<lparr>gObjects := [], gMaybe := [], gGotAnswer := True\<rparr>"
  show ?thesis
  proof (rule proto_pair[OF gcInvD(9,1)[OF inv] _ g])
    show "\<forall>h A B. partner v' h A B \<longrightarrow> partner v h A B" using finish_partner[OF s] by blast
    show "\<forall>h2 X d. \<not> (h2 = h \<and> X = g) \<longrightarrow> vGc v' h2 X = Some d \<longrightarrow> vGc v h2 X = Some d"
      using finish_gc[OF s] by blast
    have "protoOk v' h g g' ?d e"
      using pr(1) ff(5,6) c3[of g h] sub[of g h] unfolding protoOk_def rp c1 c2 by simp
    moreover have "protoOk v' (other h) g' g e ?d"
      using pr(2) c3[of g' "other h"] unfolding protoOk_def rp c1 c2 by simp
    ultimately show "\<forall>d. vGc v' h g = Some d \<longrightarrow> protoOk v' h g g' d e \<and> protoOk v' (other h) g' g e d"
      by (simp add: finish_g(1)[OF s])
    show "\<forall>h2 X. \<not> (h2 = h \<and> X = g) \<longrightarrow> \<not> (h2 = other h \<and> X = g') \<longrightarrow> vGc v h2 X \<noteq> None \<longrightarrow> sameFor v v' h2 X"
      using c1 c2 c3 sub unfolding sameFor_def rp by auto
  qed
qed

lemma kindOk_sender:
  assumes "kindOk v h m" "srcOf m \<noteq> 0" "\<And>s g b. m \<noteq> Create s g b"
  shows "partner v h (dstOf m) (srcOf m)"
  using assms by (cases m) auto

lemma finish_order:
  assumes inv: "gcInv v" and s: "finishStep v v' h g d m ms"
  shows "orderInv v'"
  unfolding orderInv_def finish_fields(4)[OF s]
proof (intro allI impI)
  obtain g' e where g: "partner v h g g'" "vGc v (other h) g' = Some e" by (rule finish_pair[OF inv s])
  note ff = finish_facts[OF inv s g]
  fix h' Y A B e2 as m2 bs
  assume a: "vGc v' (other h') Y = None" "partner v' h' A B" "vGc v' (other h') B = Some e2" "gSentScan e2"
    "vInbox v h' = as @ m2 # bs" "srcOf m2 = Y" "Y \<noteq> 0"
  have m2: "m2 \<in> set (vMsgs v h')" using a(5) by (simp add: vMsgs_def)
  have n: "\<not> gone h d m (other h') Y"
  proof (cases "\<exists>s g b. m2 = Create s g b")
    case True
    then have "\<not> vCreated v (other h') Y" using createInvD(2)[OF gcInvD(3)[OF inv]] m2 a(6) by auto
    then show ?thesis by (rule not_gone(7)[OF inv s])
  next
    case False
    then have "partner v h' (dstOf m2) Y"
      using kindOk_sender[OF messageInvD[OF gcInvD(4)[OF inv] m2]] a(6,7) by blast
    then show ?thesis by (rule not_gone(2)[OF inv s m2])
  qed
  have Y: "vGc v (other h') Y = None" using a(1) finish_gcNone[OF inv s n] by simp
  obtain e1 where e1: "vGc v (other h') B = Some e1" "gSentScan e1" "gGen e1 = gGen e2"
    using finish_gc[OF s a(3)] a(4) ff(1) by auto
  have AB: "partner v h' A B" using a(2) finish_partner[OF s] by blast
  from orderInvD[OF gcInvD(10)[OF inv] Y AB e1(1,2) a(5-7)]
  show "Notify A DO_SCAN \<in> set bs \<or> gGen e2 \<le> vGen v' (other h') Y"
    using e1(3) finish_stay(4)[OF s n] by simp
qed

lemma finish_idle:
  assumes s: "finishStep v v' h g d m ms" and X: "idleGc v h' X"
  shows "idleGc v' h' X"
  unfolding idleGc_def
proof (intro conjI allI impI)
  show "silent v' h' X" using X finish_msgs(4)[OF s] by (simp add: idleGc_def)
  fix d2 assume "vGc v' h' X = Some d2"
  from finish_gc[OF s this] show "gObjects d2 = []" "gMaybe d2 = []" using X by (auto simp: idleGc_def)
qed

text \<open>Whoever a collector has found dead is not deleted by another one.\<close>

lemma finish_maybe:
  assumes inv: "gcInv v" and s: "finishStep v v' h g d m ms" and g2: "vGc v' h' g2 = Some d2" "X \<in> set (gMaybe d2)"
  shows "vGc v h' g2 = Some d2" "\<not> (h' = h \<and> g2 = g)" "\<not> gone h d m h' g2" "\<not> gone h d m h' X"
    "partner v h' g2 A \<Longrightarrow> \<not> gone h d m (other h') A"
proof -
  obtain g' e where g: "partner v h g g'" "vGc v (other h) g' = Some e" by (rule finish_pair[OF inv s])
  show 1: "vGc v h' g2 = Some d2" "\<not> (h' = h \<and> g2 = g)" "\<not> gone h d m h' g2" using finish_gc[OF s g2(1)] g2(2) by auto
  have ne: "gMaybe d2 \<noteq> [] \<or> gObjects d2 \<noteq> []" using g2(2) by auto
  show "\<not> gone h d m h' X"
  proof
    assume gn: "gone h d m h' X"
    note dg = dead_gc(8,9)[OF inv s gn]
    have "vGc v h g2 = Some d2" using 1(1) dg(1) by simp
    then have "g2 = g" by (rule maybe_unique(1)[OF gcInvD(6)[OF inv] finish_facts(1)[OF inv s g] dg(2) _ g2(2)])
    then show False using 1(2) dg(1) by blast
  qed
  show "\<not> gone h d m (other h') A" if "partner v h' g2 A" by (rule not_gone(6)[OF inv s that 1(1) ne])
qed

lemma finish_spared:
  assumes inv: "gcInv v" and s: "finishStep v v' h g d m ms" and g2: "vGc v' h' g2 = Some d2" "X \<in> set (gMaybe d2)"
    and sp: "spared v h' g2 X" and app: "vGc v h' X = None"
  shows "spared v' h' g2 X \<or> still v h' d2 X"
proof -
  obtain g' e where g: "partner v h g g'" "vGc v (other h) g' = Some e" by (rule finish_pair[OF inv s])
  note ff = finish_facts[OF inv s g] note fm = finish_maybe[OF inv s g2]
  obtain Y A e2 where p: "partner v h' X Y" "partner v h' g2 A" "vGc v (other h') A = Some e2"
    "gGen e2 \<le> vGen v (other h') Y" "Y \<notin> set (gMaybe e2)" using sp unfolding spared_def by blast
  show "spared v' h' g2 X \<or> still v h' d2 X"
  proof (cases "gone h d m (other h') Y")
    case True
    then have h: "other h' = h" "Y \<in> deadSet d m" by (simp_all add: gone_def)
    then have h': "h' = other h" by auto
    have YX: "partner v h Y X" using p(1) h' by (simp add: partner_sym)
    have Xe: "X \<in> set (gMaybe e)" using dead_facts(5)[OF inv s g h(2) YX] by blast
    have "vGc v (other h) g2 = Some d2" using fm(1) h' by simp
    note mu = maybe_unique[OF gcInvD(6)[OF inv] g(2) Xe this g2(2)]
    have "still v (other h) e X"
    proof (rule both_still[OF inv])
      show "partner v (other h) X Y" "partner v (other h) g' g" using YX g(1) by (simp_all add: partner_sym)
      show "vGc v (other h) g' = Some e" "vGc v (other (other h)) g = Some d" using g(2) ff(1) by simp_all
      show "Y \<in> set (gMaybe d)" by (rule dead_facts(1)[OF inv s g h(2)])
      show "vGc v (other h) X = None" using app h' by simp
    qed (rule Xe)
    then show ?thesis using mu(2) h' by simp
  next
    case False
    have "partner v' h' X Y" "partner v' h' g2 A"
      using p(1,2) False fm(3,4) fm(5)[OF p(2)] unfolding finish_partner[OF s] by blast+
    moreover have "\<exists>e3. vGc v' (other h') A = Some e3 \<and> gGen e3 = gGen e2 \<and> Y \<notin> set (gMaybe e3)"
    proof (cases "other h' = h \<and> A = g")
      case True
      then show ?thesis using finish_g(1)[OF s] p(3) ff(1) by auto
    next
      case False
      then show ?thesis using finish_stay(7)[OF s fm(5)[OF p(2)] False] p(3,5) by simp
    qed
    ultimately show ?thesis using p(4) finish_stay(4)[OF s False] unfolding spared_def by metis
  qed
qed

lemma finish_quiet:
  assumes inv: "gcInv v" and s: "finishStep v v' h g d m ms"
  shows "quietInv v'"
  unfolding quietInv_def
proof (intro allI impI conjI)
  obtain g' e where g: "partner v h g g'" "vGc v (other h) g' = Some e" by (rule finish_pair[OF inv s])
  note ff = finish_facts[OF inv s g]
  fix h' g2 d2 X assume g2: "vGc v' h' g2 = Some d2" "X \<in> set (gMaybe d2)"
  note fm = finish_maybe[OF inv s g2]
  note q = quietInvD[OF gcInvD(11)[OF inv] fm(1) g2(2)]
  note st = finish_stay[OF s fm(4)]
  show "vCreated v' h' X" using q(1) st(2) by simp
  show "if vGc v' h' X = None then still v' h' d2 X \<or> spared v' h' g2 X else overGc v' h' X"
  proof (cases "vGc v h' X = None")
    case True
    then have "\<not> (h' = h \<and> X = g)" using ff(1) by auto
    then have "still v' h' d2 X \<longleftrightarrow> still v h' d2 X" using st(4,5) st(6) by (simp add: still_def)
    then have "still v' h' d2 X \<or> spared v' h' g2 X" using q(2)[OF True] finish_spared[OF inv s g2] True by blast
    then show ?thesis using finish_gcNone[OF inv s fm(4)] True by simp
  next
    case False
    have "overGc v' h' X"
      using q(3)[OF False] st(5) finish_idle[OF s] finish_partner[OF s] unfolding overGc_def by metis
    then show ?thesis using finish_gcNone[OF inv s fm(4)] False by auto
  qed
qed

text \<open>The answer that the partner still owes, or that is on its way to it, names the partners of the dead.\<close>

lemma owed_answer:
  assumes inv: "gcInv v" and s: "finishStep v v' h g d m ms"
    and g: "partner v h g g'" "vGc v (other h) g' = Some e" and C: "answer v (other h) g' g C"
  shows "\<not> gGotAnswer e" "set C = vRemote v h ` set (gMaybe d)"
proof -
  note i = gcInvD[OF inv] note ff = finish_facts[OF inv s g]
  have pr: "protoOk v (other h) g' g e d"
    using i(9) g ff(1) by (auto simp: protoInv_Ok partner_sym)
  have "cnt (answerTo g') (vMsgs v (other h)) \<noteq> 0 \<or> cnt (\<lambda>r. fst r = g) (vReplies v h) \<noteq> 0"
    using C unfolding answer_def cnt_0_iff other_simps(1) by (metis answerTo.simps(1) fst_conv)
  then show "\<not> gGotAnswer e" using pr by (cases "gGotAnswer e"; cases "gDidScan d") (auto simp: protoOk_def)
  have g': "partner v (other h) g' g" using g(1) by (simp add: partner_sym)
  show "set C = vRemote v h ` set (gMaybe d)"
    using answerInvD(2)[OF i(12) g' g(2) _ C, of d] ff(1,5) by simp
qed

lemma owes_answer:
  assumes inv: "gcInv v" and s: "finishStep v v' h g d m ms"
    and g: "partner v h g g'" "vGc v (other h) g' = Some e" and n: "gMaybe d \<noteq> []" "\<not> gGotAnswer e"
  shows "\<exists>C. answer v (other h) g' g C"
proof -
  note i = gcInvD[OF inv] note ff = finish_facts[OF inv s g]
  have pr: "protoOk v (other h) g' g e d"
    using i(9) g ff(1) by (auto simp: protoInv_Ok partner_sym)
  have "gDidScan d" using flagInvD(7)[OF i(8) ff(1)] n(1) by blast
  then have "cnt (answerTo g') (vMsgs v (other h)) \<noteq> 0 \<or> cnt (\<lambda>r. fst r = g) (vReplies v h) \<noteq> 0"
    using pr n(2) by (auto simp: protoOk_def)
  then show ?thesis
  proof
    assume "cnt (answerTo g') (vMsgs v (other h)) \<noteq> 0"
    then obtain m2 where m2: "m2 \<in> set (vMsgs v (other h))" "answerTo g' m2" by (auto simp: cnt_0_iff)
    have nb: "m2 \<noteq> Notify g' ABORT_GC" using pr m2(1) n(1) by (auto simp: protoOk_def)
    have "\<exists>s2 a b. m2 = Data s2 g' a b" using m2(2) nb by (cases m2) simp_all
    then obtain s2 a b where "m2 = Data s2 g' a b" by blast
    then have "answer v (other h) g' g (decodePtrs b)" using m2(1) unfolding answer_def by blast
    then show ?thesis by blast
  next
    assume "cnt (\<lambda>r. fst r = g) (vReplies v h) \<noteq> 0"
    then obtain r where "r \<in> set (vReplies v h)" "fst r = g" by (auto simp: cnt_0_iff)
    then have "(g, snd r) \<in> set (vReplies v h)" by auto
    then have "answer v (other h) g' g (snd r)" unfolding answer_def by simp
    then show ?thesis by blast
  qed
qed

text \<open>An object that both sides have found dead is deleted with its partner.\<close>

lemma dead_together:
  assumes inv: "gcInv v" and s: "finishStep v v' h g d m ms"
    and g: "partner v h g g'" "vGc v (other h) g' = Some e" "\<not> gGotAnswer e"
    and X: "X \<in> set (gMaybe e)" and XY: "partner v h Y X" and Y: "Y \<in> set (gMaybe d)"
  shows "gone h d m h Y"
proof -
  note i = gcInvD[OF inv] note ff = finish_facts[OF inv s g(1,2)]
  have a: "answerTo g m" using s by (simp add: finishStep_def)
  have "m \<noteq> Notify g ABORT_GC" using ff(10) X by auto
  then obtain s2 a2 b where m: "m = Data s2 g a2 b" using a by (cases m) auto
  have C: "answer v h g g' (decodePtrs b)" by (rule ff(12)[OF m])
  have "set (decodePtrs b) = vRemote v (other h) ` set (gMaybe e)"
    by (rule answerInvD(2)[OF i(12) g(1) ff(1) g(2) C g(3)])
  moreover have "vRemote v (other h) X = Y"
    using pairInvD[OF i(2), of "other h" X Y] quietInvD(1)[OF i(11) g(2) X] XY by (simp add: partner_sym)
  ultimately have "Y \<in> answered m" using X m by auto
  then show ?thesis using Y by (simp add: gone_def deadSet_def)
qed

lemma alive_partner:
  assumes inv: "gcInv v" and s: "finishStep v v' h g d m ms"
    and g: "partner v h g g'" "vGc v (other h) g' = Some e" "\<not> gGotAnswer e" and W: "W \<in> set (gMaybe d)"
  shows "partner v h W (vRemote v h W)"
proof -
  note i = gcInvD[OF inv] note ff = finish_facts[OF inv s g(1,2)]
  have "vCreated v h W" by (rule quietInvD(1)[OF i(11) ff(1) W])
  from liveInvD[OF i(13) this] show ?thesis
  proof
    assume "widow v h W"
    then obtain g2 d2 g3 e3 where w: "vGc v h g2 = Some d2" "W \<in> set (gMaybe d2)" "partner v h g2 g3"
      "vGc v (other h) g3 = Some e3" "gGotAnswer e3" by (auto simp: widow_def)
    have "g2 = g" by (rule maybe_unique(1)[OF i(6) ff(1) W w(1,2)])
    then have "g3 = g'" using partner_unique[OF i(1) _ g(1)] w(3) by blast
    then show ?thesis using w(4,5) g(2,3) by simp
  qed
qed

lemma finish_answer:
  assumes inv: "gcInv v" and s: "finishStep v v' h g d m ms"
  shows "answerInv v'"
  unfolding answerInv_def
proof (intro allI impI)
  note i = gcInvD[OF inv] note fa = finish_msgs(5)[OF s] note fp = finish_partner[OF s]
  obtain g' e where g: "partner v h g g'" "vGc v (other h) g' = Some e" by (rule finish_pair[OF inv s])
  note ff = finish_facts[OF inv s g]
  fix h2 A B d2 e2 C
  assume a: "partner v' h2 A B" "vGc v' h2 A = Some d2" "vGc v' (other h2) B = Some e2" "answer v' h2 A B C"
  have AB: "partner v h2 A B" using a(1) fp by blast
  have C: "answer v h2 A B C" by (rule fa[OF a(4)])
  show "if gGotAnswer e2 then \<forall>X\<in>set (gMaybe d2) \<inter> set C. \<forall>Y. \<not> partner v' h2 X Y
    else set C = vRemote v' (other h2) ` set (gMaybe e2)"
  proof (cases "h2 = h \<and> A = g")
    case True
    then have B: "B = g'" using AB partner_unique[OF i(1) _ g(1)] by blast
    have "answerTo g m" using s by (simp add: finishStep_def)
    then have "cnt (answerTo g) (vMsgs v' h) = 0" using ff(8) finish_msgs(2)[OF s, of "answerTo g" h] by simp
    then have "\<not> answer v' h g g' C" using ff(9) unfolding answer_def cnt_0_iff finish_fields(5)[OF s] by force
    then show ?thesis using a(4) True B by simp
  next
    case nA: False
    show ?thesis
    proof (cases "other h2 = h \<and> B = g")
      case True
      then have h2: "h2 = other h" by auto
      have A: "A = g'" using AB True h2 partner_unique[OF i(1) _ g(1)] by (simp add: partner_sym)
      have d2: "d2 = e" using finish_gc[OF s a(2)] nA A h2 g(2) by simp
      have e2: "gGotAnswer e2" using a(3) True finish_g(1)[OF s] by auto
      have C2: "answer v (other h) g' g C" using C h2 A True by simp
      note oa = owed_answer[OF inv s g C2]
      have "\<not> partner v' h2 X Y" if X: "X \<in> set (gMaybe d2)" "X \<in> set C" for X Y
      proof
        assume "partner v' h2 X Y"
        then have p: "partner v h Y X" "\<not> gone h d m h Y" using fp h2 by (simp_all add: partner_sym)
        obtain W where W: "W \<in> set (gMaybe d)" "X = vRemote v h W" using X(2) oa(2) by auto
        have "partner v h W X" using alive_partner[OF inv s g oa(1) W(1)] W(2) by simp
        then have "W = Y" using partner_unique'[OF i(1) _ p(1)] by blast
        then show False using dead_together[OF inv s g oa(1) _ p(1)] X(1) d2 W(1) p(2) by simp
      qed
      then show ?thesis using e2 by simp
    next
      case False
      have d2: "vGc v h2 A = Some d2" and e2: "vGc v (other h2) B = Some e2"
        using finish_gc[OF s a(2)] finish_gc[OF s a(3)] nA False by blast+
      note Q = answerInvD[OF i(12) AB d2 e2 C]
      have "vRemote v' (other h2) ` set (gMaybe e2) = vRemote v (other h2) ` set (gMaybe e2)"
        using finish_stay(3)[OF s finish_maybe(4)[OF inv s a(3)]] by (intro image_cong) auto
      moreover have "\<not> partner v' h2 X Y" if "gGotAnswer e2" "X \<in> set (gMaybe d2)" "X \<in> set C" for X Y
        using Q(1)[OF that] fp by blast
      ultimately show ?thesis using Q(2) by auto
    qed
  qed
qed

lemma finish_widow:
  assumes inv: "gcInv v" and s: "finishStep v v' h g d m ms" and w: "widow v h' X" and n: "\<not> gone h d m h' X"
  shows "widow v' h' X"
proof -
  obtain g' e where g: "partner v h g g'" "vGc v (other h) g' = Some e" by (rule finish_pair[OF inv s])
  note ff = finish_facts[OF inv s g]
  obtain g2 d2 A e2 C where w: "vGc v h' g2 = Some d2" "X \<in> set (gMaybe d2)" "partner v h' g2 A"
    "vGc v (other h') A = Some e2" "gGotAnswer e2" "answer v h' g2 A C" "X \<in> set C" using w by (auto simp: widow_def)
  have ne: "gMaybe d2 \<noteq> [] \<or> gObjects d2 \<noteq> []" using w(2) by auto
  have ng: "\<not> gone h d m h' g2" by (rule not_gone(5)[OF inv s w(1) ne])
  have nA: "\<not> gone h d m (other h') A" by (rule not_gone(6)[OF inv s w(3,1) ne])
  have g2: "\<not> (h' = h \<and> g2 = g)"
  proof
    assume x: "h' = h \<and> g2 = g"
    then have "A = g'" using w(3) partner_unique[OF gcInvD(1)[OF inv] _ g(1)] by blast
    then have "set C = answered m" using ff(11)[of C] w(6) x by simp
    then show False using n w(1,2,7) x ff(1) by (simp add: gone_def deadSet_def)
  qed
  have an: "answer v' h' g2 A C"
    using w(6) g2 finish_msgs(1)[OF s, of h'] ff(14) unfolding answer_def finish_fields(5)[OF s] by (auto split: if_splits)
  have "\<exists>e3. vGc v' (other h') A = Some e3 \<and> gGotAnswer e3"
    using w(4,5) finish_stay(7)[OF s nA] finish_g(1)[OF s] by (cases "other h' = h \<and> A = g") auto
  moreover have "vGc v' h' g2 = Some d2" using finish_stay(7)[OF s ng g2] w(1) by simp
  moreover have "partner v' h' g2 A" using w(3) ng nA finish_partner[OF s] by blast
  ultimately show ?thesis using w(2,7) an unfolding widow_def by blast
qed

lemma finish_live_inv:
  assumes inv: "gcInv v" and s: "finishStep v v' h g d m ms"
  shows "liveInv v'"
  unfolding liveInv_def
proof (intro allI impI)
  note i = gcInvD[OF inv]
  obtain g' e where g: "partner v h g g'" "vGc v (other h) g' = Some e" by (rule finish_pair[OF inv s])
  note ff = finish_facts[OF inv s g]
  fix h' X assume c: "vCreated v' h' X"
  have n: "\<not> gone h d m h' X"
    using finish_gone(2)[OF s, of h' X] dead_gc(7,8)[OF inv s, of h' X] c by metis
  note st = finish_stay[OF s n]
  have c0: "vCreated v h' X" using c st(2) by simp
  from liveInvD[OF i(13) c0] show "partner v' h' X (vRemote v' h' X) \<or> widow v' h' X"
  proof
    assume "widow v h' X"
    then show ?thesis using finish_widow[OF inv s _ n] by blast
  next
    assume p: "partner v h' X (vRemote v h' X)"
    define Y where "Y = vRemote v h' X"
    show ?thesis
    proof (cases "gone h d m (other h') Y")
      case False
      then show ?thesis using p n finish_partner[OF s] st(3) by (simp add: Y_def)
    next
      case True
      then have h': "h' = other h" and YR: "Y \<in> deadSet d m" by (auto simp: gone_def)
      have YX: "partner v h Y X" using p h' by (simp add: Y_def partner_sym)
      note df = dead_facts[OF inv s g YR]
      have Xe: "X \<in> set (gMaybe e)" "\<not> gGotAnswer e" using df(5)[OF YX] by simp_all
      have "gMaybe d \<noteq> []" using df(1) by auto
      then obtain C where C: "answer v (other h) g' g C" using owes_answer[OF inv s g _ Xe(2)] by blast
      have "vRemote v h Y = X" by (rule pairInvD[OF i(2) YX df(2)])
      then have XC: "X \<in> set C" using owed_answer(2)[OF inv s g C] df(1) by auto
      have ne: "gMaybe e \<noteq> [] \<or> gObjects e \<noteq> []" using Xe by auto
      have ng: "\<not> gone h d m (other h) g'" by (rule not_gone(5)[OF inv s g(2) ne])
      have "vGc v' (other h) g' = Some e" using finish_stay(7)[OF s ng] g(2) by simp
      moreover have "partner v' (other h) g' g"
        using g(1) ng not_gone(8)[OF inv s] unfolding finish_partner[OF s] by (simp add: partner_sym)
      moreover have "answer v' (other h) g' g C" using C finish_msgs(7)[OF s, of "other h"] by simp
      moreover have "\<exists>d2. vGc v' (other (other h)) g = Some d2 \<and> gGotAnswer d2" using finish_g(1)[OF s] by simp
      ultimately have "widow v' (other h) X" using Xe(1) XC unfolding widow_def by blast
      then show ?thesis using h' by simp
    qed
  qed
qed

lemma move_finish:
  assumes "gcInv v" "finishStep v v' h g d m ms"
  shows "gcInv v'"
  using finish_ids[OF assms] finish_pairInv[OF assms] finish_create[OF assms] finish_message[OF assms]
    finish_pend[OF assms] finish_list[OF assms] finish_gen[OF assms] finish_flag[OF assms] finish_proto[OF assms]
    finish_order[OF assms] finish_quiet[OF assms] finish_answer[OF assms] finish_live_inv[OF assms]
  by (simp add: gcInv_def)

end
