(* ===== verification/GcWorld.thy ===== *)
theory GcWorld
  imports GcFinish
begin

text \<open>
  The operations of theory \<open>RemoteObjects\<close> as the updates of views that theories \<open>GcMoves\<close>, \<open>GcCreate\<close>,
  \<open>GcProtocol\<close> and \<open>GcFinish\<close> are about: every operation succeeds and keeps the invariant.
\<close>

section \<open>Views of the operations\<close>

lemma view_sel [simp]:
  "vId (view K w) = fld (\<lambda>x. Some (oId x)) None w" "vCreated (view K w) = fld oCreated False w"
  "vRemote (view K w) = fld oRemote 0 w" "vGen (view K w) = fld oGen 0 w" "vPend (view K w) = fld oPending 0 w"
  "vRefs (view K w) = fld oRefs 0 w" "vGc (view K w) = fld oGc None w" "vComplete (view K w) = fld oComplete False w"
  "vCur (view K w) = curGen w" "vList (view K w) = olist w" "vInbox (view K w) = inbox w"
  "vPopped (view K w) = (\<lambda>h. popped w h @ K h)" "vReplies (view K w) = replies w" "vNext (view K w) = nextId w"
  "vText (view K w) = gcText w"
  by (simp_all add: view_def)

lemma gview_eqI:
  assumes "vId u = vId v" "vCreated u = vCreated v" "vRemote u = vRemote v" "vGen u = vGen v" "vPend u = vPend v"
    "vRefs u = vRefs v" "vGc u = vGc v" "vComplete u = vComplete v" "vCur u = vCur v" "vList u = vList v"
    "vInbox u = vInbox v" "vPopped u = vPopped v" "vReplies u = vReplies v" "vNext u = vNext v" "vText u = vText v"
  shows "u = (v :: gview)"
  using assms by (cases u; cases v) simp

lemma fld_simps [simp]:
  "objs w h p = Some x \<Longrightarrow> fld f z w h p = f x" "objs w h p = None \<Longrightarrow> fld f z w h p = z"
  by (simp_all add: fld_def)

lemma fld_upd [simp]:
  "fld f z (w\<lparr>inbox := a\<rparr>) = fld f z w" "fld f z (w\<lparr>popped := a\<rparr>) = fld f z w" "fld f z (w\<lparr>replies := b\<rparr>) = fld f z w"
  "fld f z (w\<lparr>curGen := c\<rparr>) = fld f z w" "fld f z (w\<lparr>olist := d\<rparr>) = fld f z w" "fld f z (w\<lparr>lastLive := c\<rparr>) = fld f z w"
  "fld f z (w\<lparr>nextId := n\<rparr>) = fld f z w"
  by (simp_all add: fld_def fun_eq_iff)

lemma fld_id_None [simp]: "fld (\<lambda>x. Some (oId x)) None w h p = None \<longleftrightarrow> objs w h p = None"
  by (simp add: fld_def split: option.splits)

lemma fld_same: "objs w h p = Some x \<Longrightarrow> upd2 (fld f z w) h p (f x) = fld f z w"
  by (auto simp: fun_eq_iff)

lemma fld_setObj: "fld f z (setObj h p (Some x) w) = upd2 (fld f z w) h p (f x)"
  by (auto simp: fun_eq_iff fld_def setObj_def)

lemma fld_updObj: "objs w h p = Some x \<Longrightarrow> fld f z (updObj h p F w) = upd2 (fld f z w) h p (f (F x))"
  by (simp add: updObj_def fld_setObj)

lemma updObj_sel [simp]:
  "curGen (updObj h p F w) = curGen w" "olist (updObj h p F w) = olist w" "lastLive (updObj h p F w) = lastLive w"
  "shouldGc (updObj h p F w) = shouldGc w" "inbox (updObj h p F w) = inbox w" "popped (updObj h p F w) = popped w"
  "replies (updObj h p F w) = replies w" "nextId (updObj h p F w) = nextId w" "gcText (updObj h p F w) = gcText w"
  "gcFreq (updObj h p F w) = gcFreq w"
  by (simp_all add: updObj_def setObj_def)

lemma setObj_sel [simp]:
  "curGen (setObj h p x w) = curGen w" "olist (setObj h p x w) = olist w" "lastLive (setObj h p x w) = lastLive w"
  "shouldGc (setObj h p x w) = shouldGc w" "inbox (setObj h p x w) = inbox w" "popped (setObj h p x w) = popped w"
  "replies (setObj h p x w) = replies w" "nextId (setObj h p x w) = nextId w" "gcText (setObj h p x w) = gcText w"
  "gcFreq (setObj h p x w) = gcFreq w"
  by (simp_all add: setObj_def)

lemma objs_updObj: "objs (updObj h p F w) h' q = (if h' = h \<and> q = p then map_option F (objs w h p) else objs w h' q)"
  by (simp add: updObj_def setObj_def)

lemma objs_setObj: "objs (setObj h p x w) h' q = (if h' = h \<and> q = p then x else objs w h' q)"
  by (simp add: setObj_def)

lemma deref_Some: "objs w h p = Some x \<Longrightarrow> p \<noteq> 0 \<Longrightarrow> deref h p w = Inr x"
  by (simp add: deref_def)

text \<open>Objects change, and nothing else.\<close>

lemma view_updObj:
  assumes "objs w h p = Some x"
  shows "view K (updObj h p F w) = (view K w)\<lparr>vId := upd2 (vId (view K w)) h p (Some (oId (F x))),
    vCreated := upd2 (vCreated (view K w)) h p (oCreated (F x)), vRemote := upd2 (vRemote (view K w)) h p (oRemote (F x)),
    vGen := upd2 (vGen (view K w)) h p (oGen (F x)), vPend := upd2 (vPend (view K w)) h p (oPending (F x)),
    vRefs := upd2 (vRefs (view K w)) h p (oRefs (F x)), vGc := upd2 (vGc (view K w)) h p (oGc (F x)),
    vComplete := upd2 (vComplete (view K w)) h p (oComplete (F x))\<rparr>"
  by (rule gview_eqI) (simp_all add: fld_updObj[OF assms])

text \<open>Fields that the view does not show.\<close>

lemma view_hidden:
  assumes "objs w h p = Some x" "oId (F x) = oId x" "oCreated (F x) = oCreated x" "oRemote (F x) = oRemote x"
    "oGen (F x) = oGen x" "oPending (F x) = oPending x" "oRefs (F x) = oRefs x" "oGc (F x) = oGc x" "oComplete (F x) = oComplete x"
  shows "view K (updObj h p F w) = view K w"
proof -
  note s = fld_same[OF assms(1)]
  show ?thesis
    unfolding view_updObj[OF assms(1)]
    by (rule gview_eqI) (simp_all add: assms(2-) s[where f = "\<lambda>x. Some (oId x)"] s[where f = oCreated]
      s[where f = oRemote] s[where f = oGen] s[where f = oPending] s[where f = oRefs] s[where f = oGc] s[where f = oComplete])
qed

text \<open>One field changes.\<close>

lemma view_one:
  assumes "objs w h p = Some x"
  shows "view K (updObj h p (\<lambda>x. x\<lparr>oGen := n\<rparr>) w) = (view K w)\<lparr>vGen := upd2 (vGen (view K w)) h p n\<rparr>"
    "view K (updObj h p (\<lambda>x. x\<lparr>oRefs := r x\<rparr>) w) = (view K w)\<lparr>vRefs := upd2 (vRefs (view K w)) h p (r x)\<rparr>"
    "view K (updObj h p (\<lambda>x. x\<lparr>oPending := r x\<rparr>) w) = (view K w)\<lparr>vPend := upd2 (vPend (view K w)) h p (r x)\<rparr>"
    "view K (updObj h p (\<lambda>x. x\<lparr>oComplete := b\<rparr>) w) = (view K w)\<lparr>vComplete := upd2 (vComplete (view K w)) h p b\<rparr>"
    "view K (updObj h p (\<lambda>x. x\<lparr>oRemote := q, oCreated := True\<rparr>) w) =
       (view K w)\<lparr>vRemote := upd2 (vRemote (view K w)) h p q, vCreated := upd2 (vCreated (view K w)) h p True\<rparr>"
    "view K (updGc h p f w) = (view K w)\<lparr>vGc := upd2 (vGc (view K w)) h p (map_option f (oGc x))\<rparr>"
    "view K (updObj h p (\<lambda>x. x\<lparr>oPending := r x, oGen := n\<rparr>) w) =
       (view K w)\<lparr>vPend := upd2 (vPend (view K w)) h p (r x), vGen := upd2 (vGen (view K w)) h p n\<rparr>"
    "view K (updObj h p (\<lambda>x. x\<lparr>oComplete := b, oGc := map_option f (oGc x)\<rparr>) w) =
       (view K w)\<lparr>vComplete := upd2 (vComplete (view K w)) h p b, vGc := upd2 (vGc (view K w)) h p (map_option f (oGc x))\<rparr>"
proof -
  note s = fld_same[OF assms(1)]
  note e = s[where f = "\<lambda>x. Some (oId x)"] s[where f = oCreated]
      s[where f = oRemote] s[where f = oGen] s[where f = oPending] s[where f = oRefs] s[where f = oGc] s[where f = oComplete]
  show "view K (updObj h p (\<lambda>x. x\<lparr>oGen := n\<rparr>) w) = (view K w)\<lparr>vGen := upd2 (vGen (view K w)) h p n\<rparr>"
    unfolding view_updObj[OF assms(1)] by (rule gview_eqI) (simp_all add: e)
  show "view K (updObj h p (\<lambda>x. x\<lparr>oRefs := r x\<rparr>) w) = (view K w)\<lparr>vRefs := upd2 (vRefs (view K w)) h p (r x)\<rparr>"
    unfolding view_updObj[OF assms(1)] by (rule gview_eqI) (simp_all add: e)
  show "view K (updObj h p (\<lambda>x. x\<lparr>oPending := r x\<rparr>) w) = (view K w)\<lparr>vPend := upd2 (vPend (view K w)) h p (r x)\<rparr>"
    unfolding view_updObj[OF assms(1)] by (rule gview_eqI) (simp_all add: e)
  show "view K (updObj h p (\<lambda>x. x\<lparr>oComplete := b\<rparr>) w) = (view K w)\<lparr>vComplete := upd2 (vComplete (view K w)) h p b\<rparr>"
    unfolding view_updObj[OF assms(1)] by (rule gview_eqI) (simp_all add: e)
  show "view K (updObj h p (\<lambda>x. x\<lparr>oRemote := q, oCreated := True\<rparr>) w) =
       (view K w)\<lparr>vRemote := upd2 (vRemote (view K w)) h p q, vCreated := upd2 (vCreated (view K w)) h p True\<rparr>"
    unfolding view_updObj[OF assms(1)] by (rule gview_eqI) (simp_all add: e)
  show "view K (updGc h p f w) = (view K w)\<lparr>vGc := upd2 (vGc (view K w)) h p (map_option f (oGc x))\<rparr>"
    unfolding updGc_def view_updObj[OF assms(1)] by (rule gview_eqI) (simp_all add: e)
  show "view K (updObj h p (\<lambda>x. x\<lparr>oPending := r x, oGen := n\<rparr>) w) =
       (view K w)\<lparr>vPend := upd2 (vPend (view K w)) h p (r x), vGen := upd2 (vGen (view K w)) h p n\<rparr>"
    unfolding view_updObj[OF assms(1)] by (rule gview_eqI) (simp_all add: e)
  show "view K (updObj h p (\<lambda>x. x\<lparr>oComplete := b, oGc := map_option f (oGc x)\<rparr>) w) =
       (view K w)\<lparr>vComplete := upd2 (vComplete (view K w)) h p b, vGc := upd2 (vGc (view K w)) h p (map_option f (oGc x))\<rparr>"
    unfolding view_updObj[OF assms(1)] by (rule gview_eqI) (simp_all add: e)
qed

text \<open>Messages.\<close>

lemma post_ok:
  assumes "srcOf m \<noteq> 0 \<Longrightarrow> objs w h (srcOf m) \<noteq> None"
  shows "\<exists>w'. post h m w = Inr w' \<and> view K w' = (view K w)\<lparr>vInbox := (inbox w)(other h := inbox w (other h) @ [m]),
      vGen := (if srcOf m = 0 then vGen (view K w) else upd2 (vGen (view K w)) h (srcOf m) (curGen w h))\<rparr> \<and>
    (\<exists>F. (\<forall>x. oListed (F x) = oListed x \<and> oGc (F x) = oGc x \<and> oCreated (F x) = oCreated x \<and> oRemote (F x) = oRemote x) \<and>
      (\<forall>h' q. objs w' h' q = (if h' = h \<and> q = srcOf m then map_option F (objs w h' q) else objs w h' q))) \<and>
    gcText w' = gcText w \<and> gcFreq w' = gcFreq w \<and> shouldGc w' = shouldGc w \<and> lastLive w' = lastLive w"
proof (cases "srcOf m = 0")
  case True
  define w1 where "w1 = w\<lparr>inbox := (inbox w)(other h := inbox w (other h) @ [m])\<rparr>"
  have "view K w1 = (view K w)\<lparr>vInbox := (inbox w)(other h := inbox w (other h) @ [m])\<rparr>"
    by (rule gview_eqI) (simp_all add: w1_def)
  moreover have "post h m w = Inr w1" using True by (simp add: post_def w1_def)
  ultimately show ?thesis using True by (intro exI[of _ w1]) (auto simp: w1_def option.map_id0 intro!: exI[of _ id])
next
  case False
  then obtain x where x: "objs w h (srcOf m) = Some x" using assms by blast
  define w1 where "w1 = w\<lparr>inbox := (inbox w)(other h := inbox w (other h) @ [m])\<rparr>"
  have x1: "objs w1 h (srcOf m) = Some x" using x by (simp add: w1_def)
  have v1: "view K w1 = (view K w)\<lparr>vInbox := (inbox w)(other h := inbox w (other h) @ [m])\<rparr>"
    by (rule gview_eqI) (simp_all add: w1_def)
  define w2 where "w2 = updObj h (srcOf m) (\<lambda>x. x\<lparr>oGen := curGen w h\<rparr>) w1"
  have p: "post h m w = Inr w2"
    using False deref_Some[OF x1 False] by (simp add: post_def w1_def[symmetric] w2_def Let_def)
  have v2: "view K w2 = (view K w)\<lparr>vInbox := (inbox w)(other h := inbox w (other h) @ [m]),
      vGen := upd2 (vGen (view K w)) h (srcOf m) (curGen w h)\<rparr>"
    unfolding w2_def view_one(1)[OF x1] v1 by simp
  show ?thesis
    by (rule exI[of _ w2]) (use p v2 False in \<open>auto simp: w2_def w1_def objs_updObj intro!: exI[of _ "\<lambda>x. x\<lparr>oGen := curGen w h\<rparr>"]\<close>)
qed

section \<open>Creation\<close>

text \<open>\<open>E\<close> holds the objects that are not in a list yet; a collector that knows its partner has sent the flush.\<close>

definition tidy :: "(side \<times> encPtr) set \<Rightarrow> world \<Rightarrow> bool" where
  "tidy E w \<longleftrightarrow> (\<forall>h q x. objs w h q = Some x \<longrightarrow> (oListed x \<or> (h, q) \<in> E) \<and>
     (\<forall>d. oGc x = Some d \<longrightarrow> oCreated x \<longrightarrow> gSentFlush d))"

lemma tidyD:
  assumes "tidy E w" "objs w h q = Some x"
  shows "oListed x \<or> (h, q) \<in> E" "oGc x = Some d \<Longrightarrow> oCreated x \<Longrightarrow> gSentFlush d"
  using assms unfolding tidy_def by blast+

definition sameConf :: "world \<Rightarrow> world \<Rightarrow> bool" where
  "sameConf w w' \<longleftrightarrow> gcText w' = gcText w \<and> gcFreq w' = gcFreq w \<and> shouldGc w' = shouldGc w"

lemma sameConfD: "sameConf w w' \<Longrightarrow> gcText w' = gcText w" "sameConf w w' \<Longrightarrow> gcFreq w' = gcFreq w"
  "sameConf w w' \<Longrightarrow> shouldGc w' = shouldGc w"
  by (simp_all add: sameConf_def)

lemma sameConf_trans: "sameConf u v \<Longrightarrow> sameConf v w \<Longrightarrow> sameConf u w"
  by (simp add: sameConf_def)

text \<open>The state keeps the invariant; \<open>K\<close> holds the messages that are being handled.\<close>

definition gcOk :: "(side \<Rightarrow> message list) \<Rightarrow> (side \<times> encPtr) set \<Rightarrow> world \<Rightarrow> bool" where
  "gcOk K E w \<longleftrightarrow> gcInv (view K w) \<and> tidy E w \<and> gcFreq w \<ge> 1"

lemma gcOkD:
  assumes "gcOk K E w"
  shows "gcInv (view K w)" "tidy E w" "gcFreq w \<ge> 1"
  using assms by (simp_all add: gcOk_def)

lemma gcOk_nonzero: "gcOk K E w \<Longrightarrow> objs w h p = Some x \<Longrightarrow> p \<noteq> 0"
  using idsInvD(1)[OF gcInvD(1)[OF gcOkD(1)], of K E w h] by auto

lemma gcOk_deref: "gcOk K E w \<Longrightarrow> objs w h p = Some x \<Longrightarrow> deref h p w = Inr x"
  using gcOk_nonzero deref_Some by blast

lemma tidy_mono: "tidy E w \<Longrightarrow> E \<subseteq> F \<Longrightarrow> tidy F w"
  unfolding tidy_def by blast

definition askView :: "gview \<Rightarrow> side \<Rightarrow> encPtr \<Rightarrow> gcData option \<Rightarrow> nat \<Rightarrow> 64 word \<Rightarrow> byte list \<Rightarrow> gview" where
  "askView v h p c r g b =
     v\<lparr>vId := upd2 (vId v) h p (Some (vNext v)), vNext := vNext v + 1, vGc := upd2 (vGc v) h p c,
       vRefs := upd2 (vRefs v) h p r, vGen := upd2 (vGen v) h p (vCur v h), vPend := upd2 (vPend v) h p 0,
       vCreated := upd2 (vCreated v) h p False, vRemote := upd2 (vRemote v) h p 0, vComplete := upd2 (vComplete v) h p False,
       vInbox := (vInbox v)(other h := vInbox v (other h) @ [Create p g b])\<rparr>"

lemma move_ask:
  assumes inv: "gcInv v" and p: "p \<noteq> 0" "vId v h p = None" "vGen v h p = 0"
    and c: "c = None \<and> g \<noteq> vText v \<or> c = Some newGc \<and> g = vText v"
  shows "gcInv (askView v h p c r g b)" "p \<notin> set (members (askView v h p c r g b) h L)"
proof -
  note i = gcInvD[OF inv]
  define u where "u = v\<lparr>vId := upd2 (vId v) h p (Some (vNext v)), vNext := vNext v + 1, vGc := upd2 (vGc v) h p c,
       vRefs := upd2 (vRefs v) h p r, vGen := upd2 (vGen v) h p (vCur v h), vPend := upd2 (vPend v) h p 0,
       vCreated := upd2 (vCreated v) h p False, vRemote := upd2 (vRemote v) h p 0, vComplete := upd2 (vComplete v) h p False\<rparr>"
  have c': "c = None \<or> c = Some newGc" using c by blast
  have a: "allocStep v u h p None c r" using p c' by (simp add: allocStep_def u_def)
  have u: "gcInv u" by (rule move_alloc[OF inv a])
  have ms: "vMsgs u = vMsgs v" by (rule allocStep_fields(7)[OF a])
  have e: "askView v h p c r g b = u\<lparr>vInbox := (vInbox u)(other h := vInbox u (other h) @ [Create p g b]), vGen := upd2 (vGen u) h p (vCur u h)\<rparr>"
    by (rule gview_eqI) (simp_all add: askView_def u_def fun_eq_iff)
  show "gcInv (askView v h p c r g b)"
  proof (rule move_postCreate[OF u _ _ _ _ _ e])
    show "\<forall>Y. \<not> partner u (other h) Y p"
      using alloc_partner[OF inv a] alloc_old(2)[OF a] by auto
    show "\<forall>m\<in>set (vMsgs u (other h)). \<not> createOf p m"
    proof
      fix m assume m: "m \<in> set (vMsgs u (other h))"
      show "\<not> createOf p m"
      proof
        assume "createOf p m"
        then obtain g2 b2 where "m = Create p g2 b2" by (cases m) auto
        then show False using createInvD(1)[OF i(3), of p g2 b2 "other h"] m p(2) unfolding ms by simp
      qed
    qed
  qed (use c in \<open>auto simp: u_def\<close>)
  have "members (askView v h p c r g b) h L = members u h L" by (cases L) (simp_all add: members_def e)
  also have "\<dots> = members v h L" by (rule alloc_members[OF inv a])
  finally show "p \<notin> set (members (askView v h p c r g b) h L)" using listInvD(2)[OF i(6)] p(2) by metis
qed

text \<open>An object is allocated and asks for its partner.\<close>

definition askWorld :: "side \<Rightarrow> encPtr \<Rightarrow> gcData option \<Rightarrow> nat \<Rightarrow> 64 word \<Rightarrow> byte list \<Rightarrow> world \<Rightarrow> world res" where
  "askWorld h p c r g b w = post h (Create p g b) (updObj h p (\<lambda>x. x\<lparr>oInitiator := True\<rparr>)
     ((allocObj h p ((newObj (nextId w) c)\<lparr>oRefs := r\<rparr>) w)\<lparr>nextId := nextId w + 1\<rparr>))"

lemma ask_world:
  assumes ok: "gcOk K E w" and p: "p \<noteq> 0" "objs w h p = None"
    and c: "c = None \<and> g \<noteq> gcText w \<or> c = Some newGc \<and> g = gcText w"
  shows "\<exists>w'. askWorld h p c r g b w = Inr w' \<and> gcOk K (insert (h, p) E) w' \<and> objs w' h p \<noteq> None \<and>
    (\<forall>L. p \<notin> set (members (view K w') h L)) \<and> sameConf w w' \<and> lastLive w' = lastLive w \<and>
    olist w' = olist w \<and> (\<forall>h' q. \<not> (h' = h \<and> q = p) \<longrightarrow> objs w' h' q = objs w h' q)"
proof -
  define w1 where "w1 = (allocObj h p ((newObj (nextId w) c)\<lparr>oRefs := r\<rparr>) w)\<lparr>nextId := nextId w + 1\<rparr>"
  define w2 where "w2 = updObj h p (\<lambda>x. x\<lparr>oInitiator := True\<rparr>) w1"
  have o1: "objs w1 h p = Some ((newObj (nextId w) c)\<lparr>oRefs := r\<rparr>)" by (simp add: w1_def allocObj_def objs_setObj)
  have v2: "view K w2 = view K w1" unfolding w2_def by (rule view_hidden[OF o1]) simp_all
  have o2: "objs w2 h p \<noteq> None" by (simp add: w2_def objs_updObj o1)
  obtain w' F where w': "post h (Create p g b) w2 = Inr w'"
    "view K w' = (view K w2)\<lparr>vInbox := (inbox w2)(other h := inbox w2 (other h) @ [Create p g b]),
      vGen := upd2 (vGen (view K w2)) h p (curGen w2 h)\<rparr>"
    "\<forall>x. oListed (F x) = oListed x \<and> oGc (F x) = oGc x \<and> oCreated (F x) = oCreated x \<and> oRemote (F x) = oRemote x"
    "\<forall>h' q. objs w' h' q = (if h' = h \<and> q = p then map_option F (objs w2 h' q) else objs w2 h' q)"
    "gcText w' = gcText w2 \<and> gcFreq w' = gcFreq w2 \<and> shouldGc w' = shouldGc w2 \<and> lastLive w' = lastLive w2"
    using post_ok[of "Create p g b" w2 h K] o2 p(1) by auto
  have v': "view K w' = askView (view K w) h p c r g b"
    unfolding w'(2) v2
    by (rule gview_eqI) (simp_all add: askView_def w1_def w2_def allocObj_def fld_setObj newObj_def upd2_def)
  have pv: "vId (view K w) h p = None" "vGen (view K w) h p = 0" using p(2) by simp_all
  have cv: "c = None \<and> g \<noteq> vText (view K w) \<or> c = Some newGc \<and> g = vText (view K w)" using c by simp
  note mv = move_ask[OF gcOkD(1)[OF ok] p(1) pv cv, of r b]
  have old: "objs w' h' q = objs w h' q" if "\<not> (h' = h \<and> q = p)" for h' q
  proof -
    have "objs w' h' q = objs w2 h' q" using w'(4) that by auto
    also have "\<dots> = objs w h' q" using that by (auto simp: w2_def w1_def allocObj_def objs_updObj objs_setObj)
    finally show ?thesis .
  qed
  have t: "tidy (insert (h, p) E) w'"
    unfolding tidy_def
  proof (intro allI impI conjI)
    fix h' q x assume x: "objs w' h' q = Some x"
    show "oListed x \<or> (h', q) \<in> insert (h, p) E"
      using tidyD(1)[OF gcOkD(2)[OF ok], of h' q x] old[of h' q] x by (cases "h' = h \<and> q = p") auto
    fix d assume d: "oGc x = Some d" "oCreated x"
    show "gSentFlush d"
    proof (cases "h' = h \<and> q = p")
      case True
      then have "map_option F (objs w2 h p) = Some x" using w'(4) x by simp
      then have "\<not> oCreated x" using w'(3) by (auto simp: w2_def objs_updObj o1 newObj_def)
      then show ?thesis using d(2) by blast
    next
      case False
      then show ?thesis using tidyD(2)[OF gcOkD(2)[OF ok] _ d] old[OF False] x by simp
    qed
  qed
  show ?thesis
  proof (intro exI[of _ w'] conjI)
    show "askWorld h p c r g b w = Inr w'" using w'(1) by (simp add: askWorld_def w1_def w2_def)
    show "gcOk K (insert (h, p) E) w'"
      using mv(1) t gcOkD(3)[OF ok] w'(5) by (simp add: gcOk_def v' w2_def w1_def allocObj_def)
    show "objs w' h p \<noteq> None" using w'(4) o2 by simp
    show "\<forall>L. p \<notin> set (members (view K w') h L)" using mv(2) by (simp add: v')
    show "sameConf w w'" "lastLive w' = lastLive w" using w'(5) by (simp_all add: sameConf_def w2_def w1_def allocObj_def)
    have "vList (view K w') = vList (view K w)" unfolding v' by (simp add: askView_def)
    then show "olist w' = olist w" by simp
  qed (use old in blast)
qed

lemma push_world:
  assumes ok: "gcOk K {(h, p)} w" and p: "objs w h p \<noteq> None" "\<forall>L. p \<notin> set (members (view K w) h L)"
  shows "gcOk K {} (pushObject h p w)" "sameConf w (pushObject h p w)"
    "objs w h' r \<noteq> None \<Longrightarrow> objs (pushObject h p w) h' r \<noteq> None"
proof -
  obtain x where x: "objs w h p = Some x" using p(1) by blast
  define w1 where "w1 = w\<lparr>olist := (olist w)(h := olist w h @ [p])\<rparr>"
  have x1: "objs w1 h p = Some x" using x by (simp add: w1_def)
  have P: "pushObject h p w = updObj h p (\<lambda>x. x\<lparr>oListed := True\<rparr>) w1" by (simp add: pushObject_def w1_def)
  have v: "view K (pushObject h p w) = (view K w)\<lparr>vList := (vList (view K w))(h := vList (view K w) h @ [p])\<rparr>"
    unfolding P by (subst view_hidden[OF x1]) (simp_all, rule gview_eqI, simp_all add: w1_def)
  have "vId (view K w) h p \<noteq> None" using x by simp
  then have "gcInv (view K (pushObject h p w))" by (rule move_push[OF gcOkD(1)[OF ok] _ p(2) v])
  moreover have "tidy {} (pushObject h p w)"
    using gcOkD(2)[OF ok] unfolding tidy_def P by (auto simp: objs_updObj w1_def)
  ultimately show "gcOk K {} (pushObject h p w)" using gcOkD(3)[OF ok] by (simp add: gcOk_def P w1_def)
  show "sameConf w (pushObject h p w)" by (simp add: sameConf_def P w1_def)
  show "objs w h' r \<noteq> None \<Longrightarrow> objs (pushObject h p w) h' r \<noteq> None" by (auto simp: P objs_updObj w1_def)
qed

lemma addObject_calm:
  assumes "\<not> (shouldGc w h \<and> overFreq (length (olist w h) + 1) (lastLive w h) (gcFreq w))"
  shows "addObject h p qs w = Inr (pushObject h p w)"
  using assms unfolding addObject.simps[of h p qs w] by (auto simp: Let_def pushObject_def)

lemma addObject_collector:
  assumes "shouldGc w h" "overFreq (length (olist w h) + 1) (lastLive w h) (gcFreq w)"
  shows "addObject h p (q # qs) w =
    rbind (askWorld h q (Some newGc) 0 (gcText w) []
      ((pushObject h p w)\<lparr>lastLive := (lastLive w)(h := length (olist w h) + 1)\<rparr>)) (addObject h q qs)"
proof -
  have n: "(newObj i c)\<lparr>oRefs := 0\<rparr> = newObj i c" for i c by (simp add: newObj_def)
  show ?thesis
    using assms unfolding addObject.simps[of h p "q # qs" w] by (simp add: Let_def askWorld_def newCollector_def n pushObject_def)
qed

text \<open>A collector that has just been spawned does not make the host spawn another one.\<close>

lemma addObject_ok:
  assumes ok: "gcOk K {(h, p)} w" and p: "objs w h p \<noteq> None" "\<forall>L. p \<notin> set (members (view K w) h L)"
    and q: "q \<noteq> 0" "objs w h q = None"
  shows "\<exists>w'. addObject h p (q # qs) w = Inr w' \<and> gcOk K {} w' \<and> sameConf w w' \<and>
    (\<forall>h' r. objs w h' r \<noteq> None \<longrightarrow> objs w' h' r \<noteq> None)"
proof (cases "shouldGc w h \<and> overFreq (length (olist w h) + 1) (lastLive w h) (gcFreq w)")
  case False
  show ?thesis
    using addObject_calm[OF False] push_world[OF ok p] by blast
next
  case True
  note pw = push_world[OF ok p]
  define w1 where "w1 = (pushObject h p w)\<lparr>lastLive := (lastLive w)(h := length (olist w h) + 1)\<rparr>"
  have v1: "view K w1 = view K (pushObject h p w)" by (rule gview_eqI) (simp_all add: w1_def)
  have ok1: "gcOk K {} w1"
    using pw(1) by (simp add: gcOk_def v1) (simp add: tidy_def w1_def)
  have t1: "gcText w1 = gcText w" using pw(2) by (simp add: sameConf_def w1_def)
  have q1: "objs w1 h q = None" using q(2) p(1) by (auto simp: w1_def pushObject_def objs_updObj)
  obtain w2 where w2: "askWorld h q (Some newGc) 0 (gcText w) [] w1 = Inr w2" "gcOk K {(h, q)} w2" "objs w2 h q \<noteq> None"
    "\<forall>L. q \<notin> set (members (view K w2) h L)" "sameConf w1 w2" "lastLive w2 = lastLive w1" "olist w2 = olist w1"
    "\<forall>h' r. \<not> (h' = h \<and> r = q) \<longrightarrow> objs w2 h' r = objs w1 h' r"
    using ask_world[OF ok1 q(1) q1, of "Some newGc" "gcText w" 0 "[]"] t1 by auto
  have "gcFreq w2 \<ge> 1" by (rule gcOkD(3)[OF w2(2)])
  moreover have "length (olist w2 h) = lastLive w2 h" by (simp add: w2(6,7)) (simp add: w1_def pushObject_def)
  ultimately have "\<not> overFreq (length (olist w2 h) + 1) (lastLive w2 h) (gcFreq w2)" by (simp add: overFreq_def)
  then have a: "addObject h q qs w2 = Inr (pushObject h q w2)" using addObject_calm by blast
  note pq = push_world[OF w2(2,3,4)]
  have "addObject h p (q # qs) w = Inr (pushObject h q w2)"
    using addObject_collector[of w h p q qs] True w2(1) a by (simp add: w1_def)
  moreover have "sameConf w (pushObject h q w2)"
    using pw(2) w2(5) pq(2) by (simp add: sameConf_def w1_def)
  moreover have "objs (pushObject h q w2) h' r \<noteq> None" if "objs w h' r \<noteq> None" for h' r
  proof (rule pq(3))
    have "objs w1 h' r \<noteq> None" using pw(3)[OF that] by (simp add: w1_def)
    then show "objs w2 h' r \<noteq> None" using w2(3,8) by metis
  qed
  ultimately show ?thesis using pq(1) by blast
qed

end
