(* ===== verification/Spec2Isabelle.thy ===== *)
theory Spec2Isabelle
  imports Examples TheDeque TaskExamples Memoization IterationProofs RuleChoiceProofs SchedulerExamples LinkExamples GcWorld
begin

text \<open>
  \<^bold>\<open>Verification of PetaBricks\<close>

  PetaBricks compiles programs whose rules leave open in which order, and by which of several rules,
  the cells of a matrix are computed.  The compiler (\<open>src/src/compiler\<close>) finds the legal orders and
  prints C++; the runtime (\<open>src/src/runtime\<close>, \<open>src/src/common\<close>) runs the printed tasks on work
  stealing threads and on several hosts, with matrices that may be stored locally, divided into parts,
  or on another host.  This library models the logic of both in HOL and proves what they promise.

  \<^bold>\<open>Conventions.\<close>  Definitions carry the names of the functions they model.  A failed assertion,
  an access outside an array, a null pointer, a division by zero and a loop without end are values of
  the type \<open>error\<close> of theory \<open>Prelude\<close>; an operation that may fail returns \<open>error + 'a\<close>.  Indices are
  integers with the truncating division of C; 32 and 64 bit words are used where a wrap-around shows
  (random numbers, the header fields of messages, the number of choices).  Shared buffers are a heap
  from buffer numbers to lists.  A critical section, which the code protects by a lock, is one step;
  the lock-free parts (the deque, the pool of threads) are modelled access by access, interleaved
  under sequential consistency.

  \<^bold>\<open>Regions of the distributed runtime\<close> (\<open>runtime/regiondata*.cpp\<close>, \<open>regionhandler.cpp\<close>).
  \<^item> \<open>RegionCoords\<close>: the coordinate counters and the translation of the coordinates of a view (slices,
    offsets) into those of the data.  \<open>Storage\<close>: the element buffers.  \<open>RegionMessages\<close>: requests,
    replies, and the stack of headers of a forwarded message.
  \<^item> \<open>RegionRaw\<close>: a dense array, its copies to and from scratch storage and its message handlers.
    \<open>RegionSplit\<close>, \<open>SplitGeometry\<close>, \<open>SplitStore\<close>, \<open>SplitCopy\<close>: a region divided into parts, its
    partition, its cells (locale \<open>part_store\<close>), its part-wise copies and the weights of its hosts.
  \<^item> \<open>RegionWorld\<close>, \<open>RegionAccess\<close>: handlers in all processes, requests that pass along chains of remote
    handlers, and the shortening of these chains.  \<open>RegionRemote\<close>: copies between a remote region and a
    local scratch storage.  \<open>RegionCache\<close>: the per-thread cache of a remote region.  \<open>RegionAlloc\<close>:
    where the parts of a new region are placed.  \<open>Examples\<close>: concrete instances.
  \<^item> The lemmas show that each kind of region behaves as one array under reads, writes and copies,
    wherever its cells are and through whichever chain of handlers and cache they are reached.

  \<^bold>\<open>Tasks and threads\<close> (\<open>common/thedeque.h\<close>, \<open>runtime/workerthread.*\<close>, \<open>dynamictask.*\<close>,
  \<open>remotetask.cpp\<close>).
  \<^item> \<open>TheDeque\<close>: the deque of a worker with its owner and any number of thieves.  Every interleaving is
    that of a sequential queue, no element is taken twice, no access is out of bounds.
  \<^item> \<open>WorkerThread\<close>: the queues of a thread, the choice of a victim, the pool of threads.
  \<^item> \<open>TaskGraph\<close> models tasks as records in a store and each critical section as an action; any number
    of threads interleave their actions.  \<open>TaskInvariant\<close> is the invariant, \<open>TaskSteps\<close> and \<open>TaskSafety\<close>
    prove that every step keeps it, \<open>TaskPromises\<close> concludes: dependencies finish first, a ready task is
    at one place, no wake-up is lost, no assertion fails (but one).  \<open>TaskExamples\<close> is a run.

  \<^bold>\<open>Links between hosts\<close> (\<open>runtime/remotehost.*\<close>).
  \<^item> \<open>Links\<close>: one direction of a link, any number of threads in \<open>sendMsg\<close> and \<open>recv\<close>, each mutex operation
    and socket call a step.  \<open>LinkProofs\<close>: the link implements a mailbox (the invariant says that the
    bytes of each channel are the bodies its readers will ask for), and it cannot deadlock.
    \<open>LinkExamples\<close>: runs.

  \<^bold>\<open>Matrices of the sequential runtime\<close> (\<open>runtime/matrixregion.h\<close>, \<open>matrixstorage.*\<close>, \<open>memoization.h\<close>).
  \<^item> \<open>MatrixRegions\<close>: windows with strides on a buffer (locale \<open>region_view\<close> for the ways to make a window
    from another one), their copies.  \<open>Memoization\<close>: descriptions of windows, their hashes, the packed
    buffers of GPUs, and the reuse of the outputs of an earlier call.

  \<^bold>\<open>The scheduling part of the compiler\<close> (\<open>compiler/matrixdependency.*\<close>, \<open>iterationorders.cpp\<close>,
  \<open>rulechoice.*\<close>, \<open>choicedepgraph.*\<close>, \<open>scheduler.*\<close>).
  \<^item> \<open>DepDirection\<close>: direction masks of dependencies.  \<open>IterationOrders\<close>, \<open>IterationProofs\<close>: the loops and
    the blocks by which a rule is applied to a region; no cell is computed before one it may read.
  \<^item> \<open>OrderedContainers\<close>: the \<open>std::set\<close> and \<open>std::map\<close> that the compiler iterates over.
    \<open>RuleChoices\<close>, \<open>RuleChoiceProofs\<close>: the choices of rules, enumerated exactly once.
  \<^item> \<open>ChoiceGraph\<close> (\<open>compiler/choicedepgraph.*\<close>) and \<open>StaticScheduler\<close> (\<open>compiler/scheduler.*\<close>,
    \<open>UserRule::collectDependencies\<close>): the graph of which region needs which, by which rule and in which
    direction, and the rounds that choose rules, merge the nodes that need each other, and order the
    rest.  The answers of Maxima, the addresses of new nodes and the passes that remove dimensions from
    regions are arguments.
  \<^item> \<open>DepClosure\<close>: what a set of dependencies says, as a set of atoms, in which merging is union; the
    rounds find exactly the transitive dependencies and end.  \<open>MergeProofs\<close>: components are mutual
    reachability, and the merged graph is the quotient.  \<open>ScheduleProofs\<close>: merged graphs have no cycle,
    and the depth-first search puts every task after what it waits for.  \<open>SchedulerProofs\<close>: the
    scheduler from its construction to the last schedule.  \<open>SchedulerExamples\<close>: a round in which two
    matrices are merged, and two matrices whose merged direction is lost.

  \<^bold>\<open>Bounds and fuel.\<close>  \<open>runRegion\<close> takes fuel for the depth of its recursive splits; its theorem
  asks for more than the sum of the extents of the region, and every split lowers that sum.  Requests
  in theory \<open>RegionWorld\<close> carry fuel for the length of a chain of handlers; a chain of \<open>n\<close> hops needs
  \<open>n + 1\<close>.
  The depth-first search of theory \<open>StaticScheduler\<close> takes the number of nodes as fuel, which its theorem
  proves to be enough since the nodes on the stack are distinct.  Loops that may not end are \<open>partial_function (option)\<close> and the theorems prove that they
  do.  The deque's head and tail are unbounded integers: an \<open>int\<close> overflows after two thousand
  million operations on one deque, which the code does not handle.

  \<^bold>\<open>Not modelled.\<close>  Vendored (TinyXML) and generated code (flex and bison); the front end whose
  formulas are simplified by an external Maxima process; the printing of C++ and OpenCL; the OpenCL
  back end; the command line driver, timing and process isolation of the autotuner; sockets, files,
  timers, memory allocation and reference counts.  Tasks have type \<open>TYPE_CPU\<close>; what a task computes is
  abstract.  Weak memory is not modelled: the fences of the deque are no-ops of the model.
\<close>

end
